(* ===== verification/Prelude.thy ===== *)
theory Prelude
  imports Complex_Main "HOL-Library.AList" "HOL-Library.Multiset"
begin

text \<open>
  What the component theories share: the pieces of the JavaScript language and standard library
  that the source uses (\<open>string\<close> operations, \<open>Map\<close>, \<open>Set\<close>, \<open>??\<close>),
  two small interfaces for invariants of event-driven components, and generic lemmas.

  Representation choices, used everywhere below:
  \<^item> a JavaScript string is a HOL \<open>string\<close>; each \<open>char\<close> stands for one UTF-16 code
    unit below 256, so the model covers the Latin-1 strings, on which \<open>trim\<close> and
    \<open>toLowerCase\<close> are exact;
  \<^item> \<open>undefined\<close> and \<open>null\<close> are \<open>None\<close> of an option type (the code tells them apart only
    where a component says so);
  \<^item> epoch milliseconds, counters and sizes are \<open>int\<close> or \<open>nat\<close> (the source stores integral
    doubles in them), a number that the source rounds itself is a \<open>rat\<close> or a \<open>jsnum\<close>;
  \<^item> a \<open>Map\<close> is an association list in insertion order: \<open>set\<close> overwrites in place or appends,
    \<open>delete\<close> removes, iteration goes from the oldest key to the newest;
  \<^item> a \<open>Set\<close> is a list without duplicates in insertion order.
\<close>

section \<open>Fact collections\<close>

named_theorems js_defs "definitions of the JavaScript library operations"
named_theorems inv_intros "preservation of component invariants"

section \<open>Optional values\<close>

definition coalesce :: "'a option \<Rightarrow> 'a \<Rightarrow> 'a" where
  \<comment> \<open>\<open>x ?? d\<close>\<close>
  "coalesce x d = (case x of None \<Rightarrow> d | Some v \<Rightarrow> v)"

lemma coalesce_simps [simp]: "coalesce None d = d" "coalesce (Some v) d = v"
  by (simp_all add: coalesce_def)

definition orElse :: "'a option \<Rightarrow> 'a option \<Rightarrow> 'a option" where
  \<comment> \<open>\<open>x ?? y\<close> where \<open>y\<close> may be undefined too\<close>
  "orElse x y = (case x of None \<Rightarrow> y | Some v \<Rightarrow> Some v)"

lemma orElse_simps [simp]: "orElse None y = y" "orElse (Some v) y = Some v"
  by (simp_all add: orElse_def)

lemma orElse_None_iff [simp]: "orElse x y = None \<longleftrightarrow> x = None \<and> y = None"
  by (cases x) auto

section \<open>Strings\<close>

definition jsWhitespace :: "char \<Rightarrow> bool" where
  "jsWhitespace c \<longleftrightarrow>
     c \<in> {CHR 0x09, CHR 0x0A, CHR 0x0B, CHR 0x0C, CHR 0x0D, CHR 0x20, CHR 0xA0}"

definition trim :: "string \<Rightarrow> string" where
  "trim s = rev (dropWhile jsWhitespace (rev (dropWhile jsWhitespace s)))"

definition trimEnd :: "string \<Rightarrow> string" where
  "trimEnd s = rev (dropWhile jsWhitespace (rev s))"

definition lowerChar :: "char \<Rightarrow> char" where
  "lowerChar c =
     (let n = (of_char c :: nat)
      in if (65 \<le> n \<and> n \<le> 90) \<or> (192 \<le> n \<and> n \<le> 222 \<and> n \<noteq> 215) then char_of (n + 32) else c)"

definition toLowerCase :: "string \<Rightarrow> string" where
  "toLowerCase s = map lowerChar s"

fun startsWith :: "string \<Rightarrow> string \<Rightarrow> bool" where
  "startsWith s [] = True"
| "startsWith [] (p # ps) = False"
| "startsWith (c # s) (p # ps) = (c = p \<and> startsWith s ps)"

fun joinWith :: "'a list \<Rightarrow> 'a list list \<Rightarrow> 'a list" where
  "joinWith sep [] = []"
| "joinWith sep [s] = s"
| "joinWith sep (s # t # ss) = s @ sep @ joinWith sep (t # ss)"

fun splitOn :: "'a \<Rightarrow> 'a list \<Rightarrow> 'a list list" where
  \<comment> \<open>\<open>s.split(c)\<close> for a one-character separator: never the empty list\<close>
  "splitOn d [] = [[]]"
| "splitOn d (c # s) =
     (if c = d then [] # splitOn d s
      else (case splitOn d s of [] \<Rightarrow> [[c]] | w # ws \<Rightarrow> (c # w) # ws))"

fun collapseWhitespace :: "string \<Rightarrow> string" where
  \<comment> \<open>\<open>s.replace(/\s+/g, " ")\<close>\<close>
  "collapseWhitespace [] = []"
| "collapseWhitespace (c # s) =
     (if jsWhitespace c then
        CHR 0x20 # (case s of [] \<Rightarrow> [] | d # _ \<Rightarrow> if jsWhitespace d then tl (collapseWhitespace s) else collapseWhitespace s)
      else c # collapseWhitespace s)"

definition truthy :: "string option \<Rightarrow> bool" where
  \<comment> \<open>an optional string as a condition: there and not empty\<close>
  "truthy x \<longleftrightarrow> (case x of None \<Rightarrow> False | Some s \<Rightarrow> s \<noteq> [])"

lemma truthy_simps [simp]: "\<not> truthy None" "truthy (Some s) \<longleftrightarrow> s \<noteq> []"
  by (simp_all add: truthy_def)

definition trimmed :: "string option \<Rightarrow> string option" where
  \<comment> \<open>\<open>x?.trim() || undefined\<close>\<close>
  "trimmed x = (case x of None \<Rightarrow> None | Some s \<Rightarrow> if trim s = [] then None else Some (trim s))"

fun showNat :: "nat \<Rightarrow> string" where
  "showNat n = (if n < 10 then [char_of (48 + n)] else showNat (n div 10) @ [char_of (48 + n mod 10)])"

declare showNat.simps [simp del]

definition showInt :: "int \<Rightarrow> string" where
  \<comment> \<open>\<open>String(n)\<close> of an integral number below \<open>10^21\<close>\<close>
  "showInt i = (if i < 0 then CHR ''-'' # showNat (nat (- i)) else showNat (nat i))"

definition hexDigit :: "nat \<Rightarrow> char" where
  "hexDigit n = char_of (if n < 10 then 48 + n else 87 + n)"

definition jsonChar :: "char \<Rightarrow> string" where
  \<comment> \<open>one character of a string in \<open>JSON.stringify\<close>\<close>
  "jsonChar c =
     (if c = CHR 0x22 then [CHR 0x5C, CHR 0x22]
      else if c = CHR 0x5C then [CHR 0x5C, CHR 0x5C]
      else if c = CHR 0x08 then [CHR 0x5C, CHR ''b'']
      else if c = CHR 0x09 then [CHR 0x5C, CHR ''t'']
      else if c = CHR 0x0A then [CHR 0x5C, CHR ''n'']
      else if c = CHR 0x0C then [CHR 0x5C, CHR ''f'']
      else if c = CHR 0x0D then [CHR 0x5C, CHR ''r'']
      else if of_char c < (32::nat) then
        [CHR 0x5C, CHR ''u'', CHR ''0'', CHR ''0'', hexDigit (of_char c div 16), hexDigit (of_char c mod 16)]
      else [c])"

definition jsonString :: "string \<Rightarrow> string" where
  "jsonString s = [CHR 0x22] @ concat (map jsonChar s) @ [CHR 0x22]"

definition jsonStringArray :: "string list \<Rightarrow> string" where
  "jsonStringArray ss = ''['' @ joinWith '','' (map jsonString ss) @ '']''"

lemma startsWith_append [simp]: "startsWith (p @ s) p"
  by (induction p) auto

lemma startsWith_iff: "startsWith s p \<longleftrightarrow> (\<exists>t. s = p @ t)"
  by (induction s p rule: startsWith.induct) auto

lemma splitOn_nonempty [simp]: "splitOn d s \<noteq> []"
  by (cases s) (auto split: list.splits)

lemma trim_Nil [simp]: "trim [] = []"
  by (simp add: trim_def)

lemma dropWhile_dropWhile_rev:
  "dropWhile P (rev (dropWhile P (rev (dropWhile P s)))) = rev (dropWhile P (rev (dropWhile P s)))"
proof (cases "rev (dropWhile P (rev (dropWhile P s)))")
  case Nil
  then show ?thesis by (simp only: Nil dropWhile.simps)
next
  case (Cons c t)
  have "\<exists>u. dropWhile P s = rev (dropWhile P (rev (dropWhile P s))) @ u"
    by (metis rev_append rev_rev_ident takeWhile_dropWhile_id)
  then obtain u where "dropWhile P s = (c # t) @ u"
    unfolding Cons by auto
  then have "\<not> P c"
    by (metis append_Cons dropWhile_eq_Cons_conv)
  then show ?thesis unfolding Cons by simp
qed

lemma trim_trim [simp]: "trim (trim s) = trim s"
  by (simp add: trim_def dropWhile_dropWhile_rev)

lemma length_trim: "length (trim s) \<le> length s"
  unfolding trim_def by (metis length_dropWhile_le length_rev order_trans)

lemma length_trimEnd: "length (trimEnd s) \<le> length s"
  unfolding trimEnd_def by (metis length_dropWhile_le length_rev)

lemma length_toLowerCase [simp]: "length (toLowerCase s) = length s"
  by (simp add: toLowerCase_def)

section \<open>Numbers that may be non-finite\<close>

datatype jsnum = JNum rat | JPosInf | JNegInf | JNaN

fun isFinite :: "jsnum \<Rightarrow> bool" where
  "isFinite (JNum _) = True"
| "isFinite _ = False"

fun jsLess :: "jsnum \<Rightarrow> jsnum \<Rightarrow> bool" where
  "jsLess (JNum a) (JNum b) = (a < b)"
| "jsLess (JNum a) JPosInf = True"
| "jsLess JNegInf (JNum b) = True"
| "jsLess JNegInf JPosInf = True"
| "jsLess _ _ = False"

fun jsFloor :: "jsnum \<Rightarrow> jsnum" where
  "jsFloor (JNum a) = JNum (of_int \<lfloor>a\<rfloor>)"
| "jsFloor x = x"

fun jsMax :: "jsnum \<Rightarrow> jsnum \<Rightarrow> jsnum" where
  "jsMax JNaN b = JNaN"
| "jsMax a JNaN = JNaN"
| "jsMax a b = (if jsLess a b then b else a)"

definition truncInt :: "rat \<Rightarrow> int" where
  \<comment> \<open>\<open>Math.trunc\<close> of a finite number\<close>
  "truncInt x = (if x < 0 then \<lceil>x\<rceil> else \<lfloor>x\<rfloor>)"

section \<open>Maps in insertion order\<close>

type_synonym ('k, 'v) jsmap = "('k \<times> 'v) list"

abbreviation mapGet :: "('k, 'v) jsmap \<Rightarrow> 'k \<Rightarrow> 'v option" where
  "mapGet m k \<equiv> map_of m k"

abbreviation mapHas :: "('k, 'v) jsmap \<Rightarrow> 'k \<Rightarrow> bool" where
  "mapHas m k \<equiv> map_of m k \<noteq> None"

abbreviation mapSet :: "'k \<Rightarrow> 'v \<Rightarrow> ('k, 'v) jsmap \<Rightarrow> ('k, 'v) jsmap" where
  "mapSet k v m \<equiv> AList.update k v m"

abbreviation mapDelete :: "'k \<Rightarrow> ('k, 'v) jsmap \<Rightarrow> ('k, 'v) jsmap" where
  "mapDelete k m \<equiv> AList.delete k m"

abbreviation mapKeys :: "('k, 'v) jsmap \<Rightarrow> 'k list" where
  "mapKeys m \<equiv> map fst m"

abbreviation mapValues :: "('k, 'v) jsmap \<Rightarrow> 'v list" where
  "mapValues m \<equiv> map snd m"

definition wfMap :: "('k, 'v) jsmap \<Rightarrow> bool" where
  "wfMap m \<longleftrightarrow> distinct (mapKeys m)"

lemma wfMap_Nil [simp, intro]: "wfMap []"
  by (simp add: wfMap_def)

lemma wfMap_set [simp, intro]: "wfMap m \<Longrightarrow> wfMap (mapSet k v m)"
  by (simp add: wfMap_def distinct_update)

lemma wfMap_delete [simp, intro]: "wfMap m \<Longrightarrow> wfMap (mapDelete k m)"
  by (simp add: wfMap_def distinct_delete)

lemma wfMap_filter [simp, intro]: "wfMap m \<Longrightarrow> wfMap (filter P m)"
  by (simp add: wfMap_def distinct_map_filter)

lemma wfMap_drop [simp, intro]: "wfMap m \<Longrightarrow> wfMap (drop n m)"
  by (simp add: wfMap_def flip: drop_map)

lemma mapGet_set: "mapGet (mapSet k v m) k' = (if k' = k then Some v else mapGet m k')"
  by (simp add: update_conv')

lemma mapGet_set_same [simp]: "mapGet (mapSet k v m) k = Some v"
  by (simp add: update_conv')

lemma mapGet_set_other [simp]: "k' \<noteq> k \<Longrightarrow> mapGet (mapSet k v m) k' = mapGet m k'"
  by (simp add: update_conv')

lemma mapGet_delete: "mapGet (mapDelete k m) k' = (if k' = k then None else mapGet m k')"
  by (simp add: delete_conv')

lemma mapGet_delete_same [simp]: "mapGet (mapDelete k m) k = None"
  by (simp add: delete_conv')

lemma mapGet_in_set: "wfMap m \<Longrightarrow> mapGet m k = Some v \<longleftrightarrow> (k, v) \<in> set m"
  by (simp add: wfMap_def)

lemma mapGet_SomeD: "mapGet m k = Some v \<Longrightarrow> (k, v) \<in> set m"
  by (rule map_of_SomeD)

lemma mapGet_filter:
  "wfMap m \<Longrightarrow> mapGet (filter P m) k =
     (case mapGet m k of None \<Rightarrow> None | Some v \<Rightarrow> if P (k, v) then Some v else None)"
proof (induction m)
  case (Cons a m)
  then show ?case
    by (cases a) (auto simp: wfMap_def map_of_eq_None_iff split: option.splits)
qed simp

lemma set_mapSet:
  "wfMap m \<Longrightarrow> set (mapSet k v m) = insert (k, v) {p \<in> set m. fst p \<noteq> k}"
proof (induction m)
  case (Cons a m)
  then show ?case by (cases a) (auto simp: wfMap_def)
qed simp

lemma set_mapDelete: "set (mapDelete k m) = {p \<in> set m. fst p \<noteq> k}"
  by (auto simp: AList.delete_eq)

lemma mapDelete_filter: "mapDelete k m = filter (\<lambda>p. fst p \<noteq> k) m"
  by (induction m) auto

lemma mapDelete_absent: "\<not> mapHas m k \<Longrightarrow> mapDelete k m = m"
  by (induction m) (auto split: if_splits)

lemma mapDelete_head: "wfMap ((k, v) # m) \<Longrightarrow> mapDelete k ((k, v) # m) = m"
  by (simp add: wfMap_def mapDelete_absent map_of_eq_None_iff)

lemma wfMap_Cons: "wfMap ((k, v) # m) \<longleftrightarrow> mapGet m k = None \<and> wfMap m"
  by (auto simp: wfMap_def map_of_eq_None_iff)

lemma length_mapDelete:
  "wfMap m \<Longrightarrow> mapHas m k \<Longrightarrow> length m = Suc (length (mapDelete k m))"
  by (induction m) (auto simp: wfMap_Cons mapDelete_absent split: if_splits)

lemma length_mapSet:
  "length (mapSet k v m) = (if mapHas m k then length m else Suc (length m))"
  by (induction m) auto

lemma mapSet_append: "\<not> mapHas m k \<Longrightarrow> mapSet k v m = m @ [(k, v)]"
  by (induction m) (auto split: if_splits)

lemma mset_concat_mapSet:
  assumes "wfMap m" and "mapGet m k = Some v"
  shows "mset (concat (map f (mapValues (mapSet k v' m)))) + mset (f v) =
    mset (concat (map f (mapValues m))) + mset (f v')"
  using assms
proof (induction m)
  case (Cons p m)
  show ?case
  proof (cases "fst p = k")
    case True
    with Cons.prems show ?thesis by (cases p) (simp add: ac_simps)
  next
    case False
    with Cons show ?thesis by (cases p) (auto simp: wfMap_def ac_simps)
  qed
qed simp

text \<open>
  \<open>keepValues\<close> is what a loop \<open>for (const [key, value] of map)\<close> leaves that replaces or
  deletes each entry by what it sees of it.
\<close>

definition keepValues :: "('v \<Rightarrow> 'w option) \<Rightarrow> ('k, 'v) jsmap \<Rightarrow> ('k, 'w) jsmap" where
  "keepValues f m = List.map_filter (\<lambda>(k, e). map_option (Pair k) (f e)) m"

lemma keepValues_simps [simp]:
  "keepValues f [] = []"
  "keepValues f ((k, e) # m) =
     (case f e of None \<Rightarrow> keepValues f m | Some e' \<Rightarrow> (k, e') # keepValues f m)"
  by (simp_all add: keepValues_def map_filter_simps split: option.splits)

lemma keepValues_keys: "fst ` set (keepValues f m) \<subseteq> fst ` set m"
  by (induction m) (fastforce split: option.splits)+

lemma wfMap_keepValues: "wfMap m \<Longrightarrow> wfMap (keepValues f m)"
  unfolding wfMap_def
proof (induction m)
  case (Cons p m)
  then show ?case
    using keepValues_keys [of f m] by (cases p) (auto split: option.splits)
qed simp

lemma mapGet_keepValues:
  "wfMap m \<Longrightarrow> mapGet (keepValues f m) k = Option.bind (mapGet m k) f"
proof (induction m)
  case (Cons p m)
  obtain a b where p: "p = (a, b)" by (cases p)
  have "wfMap m" and "mapGet m a = None"
    using Cons.prems by (auto simp: wfMap_def p map_of_eq_None_iff)
  with Cons.IH show ?case
    by (cases "k = a") (auto simp: p split: option.splits)
qed simp

section \<open>Sets in insertion order\<close>

definition setAdd :: "'a \<Rightarrow> 'a list \<Rightarrow> 'a list" where
  "setAdd x xs = (if x \<in> set xs then xs else xs @ [x])"

abbreviation setDelete :: "'a \<Rightarrow> 'a list \<Rightarrow> 'a list" where
  "setDelete x xs \<equiv> removeAll x xs"

lemma set_setAdd [simp]: "set (setAdd x xs) = insert x (set xs)"
  by (auto simp: setAdd_def)

lemma distinct_setAdd [simp, intro]: "distinct xs \<Longrightarrow> distinct (setAdd x xs)"
  by (simp add: setAdd_def)

lemma length_setAdd: "length (setAdd x xs) = (if x \<in> set xs then length xs else Suc (length xs))"
  by (simp add: setAdd_def)

section \<open>Invariants of event-driven components\<close>

text \<open>
  Many components are driven by calls and callbacks in an order nobody controls. Their model is
  a step relation; \<open>reach\<close> is what any sequence of steps can lead to, and the locale states
  once that a property of the start that every step keeps holds in all of it.
\<close>

inductive reach :: "('s \<Rightarrow> bool) \<Rightarrow> ('s \<Rightarrow> 's \<Rightarrow> bool) \<Rightarrow> 's \<Rightarrow> bool"
  for init :: "'s \<Rightarrow> bool" and step :: "'s \<Rightarrow> 's \<Rightarrow> bool" where
  reach_init: "init s \<Longrightarrow> reach init step s"
| reach_step: "reach init step s \<Longrightarrow> step s t \<Longrightarrow> reach init step t"

locale step_invariant =
  fixes init :: "'s \<Rightarrow> bool"
    and step :: "'s \<Rightarrow> 's \<Rightarrow> bool"
    and inv :: "'s \<Rightarrow> bool"
  assumes inv_start: "init s \<Longrightarrow> inv s"
    and inv_kept: "inv s \<Longrightarrow> step s t \<Longrightarrow> inv t"
begin

lemma reach_inv: "reach init step s \<Longrightarrow> inv s"
  by (induction rule: reach.induct) (auto intro: inv_start inv_kept)

end

text \<open>
  The same for a component whose behaviour is a function of its state and the next event: a run
  is a fold over the events, of which the environment promises \<open>ok\<close>.
\<close>

locale event_invariant =
  fixes apply_event :: "'e \<Rightarrow> 's \<Rightarrow> 's"
    and ok :: "'e \<Rightarrow> bool"
    and inv :: "'s \<Rightarrow> bool"
  assumes inv_event: "inv s \<Longrightarrow> ok e \<Longrightarrow> inv (apply_event e s)"
begin

lemma run_inv: "inv s \<Longrightarrow> list_all ok es \<Longrightarrow> inv (fold apply_event es s)"
  by (induction es arbitrary: s) (auto intro: inv_event)

end

section \<open>JSON strings can be read back\<close>

lemma hexDigit_inj: "a < 16 \<Longrightarrow> b < 16 \<Longrightarrow> hexDigit a = hexDigit b \<Longrightarrow> a = b"
proof -
  assume ab: "a < 16" "b < 16" "hexDigit a = hexDigit b"
  let ?f = "\<lambda>n::nat. if n < 10 then 48 + n else 87 + n"
  have "of_char (hexDigit n) = ?f n" if "n < 16" for n
    using that by (simp add: hexDigit_def)
  with ab have "?f a = ?f b" by metis
  with ab(1,2) show "a = b" by (auto split: if_splits)
qed

lemma jsonChar_forms:
  obtains (plain) "jsonChar c = [c]" "c \<noteq> CHR 0x22" "c \<noteq> CHR 0x5C"
  | (short) d where "jsonChar c = [CHR 0x5C, d]" "d \<noteq> CHR ''u''"
      "c = (if d = CHR ''b'' then CHR 0x08 else if d = CHR ''t'' then CHR 0x09 else if d = CHR ''n'' then CHR 0x0A
            else if d = CHR ''f'' then CHR 0x0C else if d = CHR ''r'' then CHR 0x0D else d)"
  | (long) "jsonChar c = [CHR 0x5C, CHR ''u'', CHR ''0'', CHR ''0'',
        hexDigit (of_char c div 16), hexDigit (of_char c mod 16)]" "of_char c < (32::nat)"
proof -
  let ?S = "{CHR 0x22, CHR 0x5C, CHR 0x08, CHR 0x09, CHR 0x0A, CHR 0x0C, CHR 0x0D}"
  consider "c = CHR 0x22" | "c = CHR 0x5C" | "c = CHR 0x08" | "c = CHR 0x09" | "c = CHR 0x0A"
    | "c = CHR 0x0C" | "c = CHR 0x0D" | (ctl) "c \<notin> ?S" "of_char c < (32::nat)"
    | (pl) "c \<notin> ?S" "\<not> of_char c < (32::nat)" by blast
  then show thesis
  proof cases
    case ctl
    then show thesis by (intro long) (simp_all add: jsonChar_def)
  next
    case pl
    then show thesis by (intro plain) (simp_all add: jsonChar_def)
  qed (rule short [of "CHR 0x22"] short [of "CHR 0x5C"] short [of "CHR ''b''"] short [of "CHR ''t''"]
      short [of "CHR ''n''"] short [of "CHR ''f''"] short [of "CHR ''r''"]; simp add: jsonChar_def; fail)+
qed

lemma of_char_inj: "(of_char c :: nat) = of_char d \<Longrightarrow> c = d"
  by simp

lemma jsonChar_prefix_free:
  assumes "jsonChar c @ r = jsonChar c' @ r'"
  shows "c = c' \<and> r = r'"
proof (cases c rule: jsonChar_forms)
  case plain
  with assms show ?thesis by (cases c' rule: jsonChar_forms) auto
next
  case (short d)
  with assms show ?thesis by (cases c' rule: jsonChar_forms) auto
next
  case long
  show ?thesis
  proof (cases c' rule: jsonChar_forms)
    case l': long
    have "hexDigit (of_char c div 16) = hexDigit (of_char c' div 16)"
      "hexDigit (of_char c mod 16) = hexDigit (of_char c' mod 16)" "r = r'"
      using assms long(1) l'(1) by simp_all
    moreover have "of_char c div 16 < (16::nat)" "of_char c' div 16 < (16::nat)" using long(2) l'(2) by auto
    ultimately have "of_char c div 16 = (of_char c' div 16 :: nat)" "of_char c mod 16 = (of_char c' mod 16 :: nat)"
      by (simp_all add: hexDigit_inj)
    then have "(of_char c :: nat) = of_char c'" by (metis div_mult_mod_eq)
    with \<open>r = r'\<close> show ?thesis by simp
  qed (use assms long in auto)
qed

lemma jsonChar_no_quote: "jsonChar c \<noteq> [] \<and> hd (jsonChar c) \<noteq> CHR 0x22"
  by (cases c rule: jsonChar_forms) auto

lemma jsonBody_inj:
  "concat (map jsonChar s) @ CHR 0x22 # r = concat (map jsonChar t) @ CHR 0x22 # r' \<Longrightarrow> s = t \<and> r = r'"
proof (induction s arbitrary: t)
  case Nil
  show ?case
  proof (cases t)
    case (Cons d t')
    with Nil jsonChar_no_quote [of d] show ?thesis by (cases "jsonChar d") auto
  qed (use Nil in simp)
next
  case (Cons c s)
  show ?case
  proof (cases t)
    case Nil
    with Cons.prems jsonChar_no_quote [of c] show ?thesis by (cases "jsonChar c") auto
  next
    case (Cons d t')
    with Cons.prems jsonChar_prefix_free [of c _ d] have "c = d"
      "concat (map jsonChar s) @ CHR 0x22 # r = concat (map jsonChar t') @ CHR 0x22 # r'" by force+
    with Cons.IH Cons show ?thesis by blast
  qed
qed

lemma jsonString_inj: "jsonString s @ r = jsonString t @ r' \<Longrightarrow> s = t \<and> r = r'"
  using jsonBody_inj [of s r t r'] by (simp add: jsonString_def)

lemma jsonStrings_inj:
  "length ss = length ts \<Longrightarrow> joinWith '','' (map jsonString ss) @ '']'' = joinWith '','' (map jsonString ts) @ '']''
   \<Longrightarrow> ss = ts"
proof (induction ss ts rule: list_induct2)
  case (Cons s ss t ts)
  show ?case
  proof (cases ss)
    case Nil
    with Cons jsonString_inj [of s "'']''" t "'']''"] show ?thesis by auto
  next
    case (Cons s' ss')
    with \<open>length ss = length ts\<close> obtain t' ts' where ts: "ts = t' # ts'" by (cases ts) auto
    have "jsonString s @ '','' @ joinWith '','' (map jsonString ss) @ '']''
        = jsonString t @ '','' @ joinWith '','' (map jsonString ts) @ '']''"
      using Cons.prems by (simp add: Cons ts)
    from jsonString_inj [OF this] Cons.IH show ?thesis by simp
  qed
qed simp

lemma jsonStringArray_inj: "length ss = length ts \<Longrightarrow> jsonStringArray ss = jsonStringArray ts \<Longrightarrow> ss = ts"
  using jsonStrings_inj by (simp add: jsonStringArray_def)

end
