(* ===== verification/CommandQueue.thy ===== *)
theory CommandQueue
  imports Prelude
begin

text \<open>
  The in-process command queue of \<open>src/src/process/command-queue.ts\<close>: named lanes, each a FIFO
  of tasks run with bounded concurrency, a gateway-wide draining flag, lane generations that make
  completions of tasks from before a restart harmless, and waiters for the tasks that are active.

  A queued promise is named by \<open>entryId\<close>. A task that \<open>pump\<close> has started is a suspended
  asynchronous closure: an element of \<open>running\<close>, which \<open>taskSettled\<close> resumes when its promise
  settles. \<open>outcomes\<close>, \<open>drains\<close> and \<open>waitCalls\<close> record what the queue tells its callers
  (settled promises, settled waits, \<open>onWait\<close> calls); they are never read back. Logging is left
  out. A task that throws before its first \<open>await\<close> behaves as one that rejects at once.
  The concurrency a lane is given is a rational number; \<open>NaN\<close> and the infinities are left out.
\<close>

section \<open>State\<close>

record queue_entry =
  entryId :: nat
  enqueuedAt :: int
  warnAfterMs :: int
  onWait :: bool

record lane_state =
  lane :: string
  queue :: "queue_entry list"
  activeTaskIds :: "nat list"
  maxConcurrent :: nat
  draining :: bool
  generation :: nat

record active_task_waiter =
  waiterId :: nat
  awaitedTaskIds :: "nat list"

record running_task =
  taskLane :: string
  taskId :: nat
  taskGeneration :: nat
  taskEntry :: queue_entry

datatype outcome = Resolved | Rejected | RejectedLaneCleared | RejectedGatewayDraining

record command_queue =
  gatewayDraining :: bool
  lanes :: "(string, lane_state) jsmap"
  activeTaskWaiters :: "active_task_waiter list"
  nextTaskId :: nat
  timers :: "nat list"
  running :: "running_task list"
  outcomes :: "(nat \<times> outcome) list"
  drains :: "(nat \<times> bool) list"
  waitCalls :: "(nat \<times> int \<times> nat) list"
  nextEntryId :: nat
  nextWaiterId :: nat

definition initialQueueState :: command_queue where
  "initialQueueState =
     \<lparr>gatewayDraining = False, lanes = [], activeTaskWaiters = [], nextTaskId = 1,
      timers = [], running = [], outcomes = [], drains = [], waitCalls = [],
      nextEntryId = 0, nextWaiterId = 0\<rparr>"

section \<open>Operations\<close>

definition normalizeLane :: "string \<Rightarrow> string" where
  "normalizeLane l = (if trim l = [] then ''main'' else trim l)"

definition getLaneDepth :: "lane_state \<Rightarrow> nat" where
  "getLaneDepth ls = length (queue ls) + length (activeTaskIds ls)"

definition newLane :: "string \<Rightarrow> lane_state" where
  "newLane l = \<lparr>lane = l, queue = [], activeTaskIds = [], maxConcurrent = 1,
                draining = False, generation = 0\<rparr>"

definition putLane :: "string \<Rightarrow> lane_state \<Rightarrow> command_queue \<Rightarrow> command_queue" where
  \<comment> \<open>an assignment to fields of the lane object stored under \<open>l\<close>\<close>
  "putLane l ls q = q\<lparr>lanes := mapSet l ls (lanes q)\<rparr>"

definition getLaneState :: "string \<Rightarrow> command_queue \<Rightarrow> lane_state \<times> command_queue" where
  "getLaneState l q =
     (case mapGet (lanes q) l of
        Some ls \<Rightarrow> (ls, q)
      | None \<Rightarrow> (newLane l, putLane l (newLane l) q))"

definition completeTask :: "lane_state \<Rightarrow> nat \<Rightarrow> nat \<Rightarrow> bool \<times> lane_state" where
  "completeTask ls tid gen =
     (if gen \<noteq> generation ls then (False, ls)
      else (True, ls\<lparr>activeTaskIds := setDelete tid (activeTaskIds ls)\<rparr>))"

definition hasPendingActiveTasks :: "nat list \<Rightarrow> command_queue \<Rightarrow> bool" where
  "hasPendingActiveTasks ids q \<longleftrightarrow>
     (\<exists>ls \<in> set (mapValues (lanes q)). \<exists>t \<in> set (activeTaskIds ls). t \<in> set ids)"

definition resolveActiveTaskWaiter ::
  "active_task_waiter \<Rightarrow> bool \<Rightarrow> command_queue \<Rightarrow> command_queue" where
  "resolveActiveTaskWaiter w drained q =
     (if w \<notin> set (activeTaskWaiters q) then q
      else q\<lparr>activeTaskWaiters := setDelete w (activeTaskWaiters q),
             timers := setDelete (waiterId w) (timers q),
             drains := drains q @ [(waiterId w, drained)]\<rparr>)"

definition notifyWaiter :: "active_task_waiter \<Rightarrow> command_queue \<Rightarrow> command_queue" where
  "notifyWaiter w q =
     (if awaitedTaskIds w = [] \<or> \<not> hasPendingActiveTasks (awaitedTaskIds w) q
      then resolveActiveTaskWaiter w True q else q)"

definition notifyActiveTaskWaiters :: "command_queue \<Rightarrow> command_queue" where
  "notifyActiveTaskWaiters q = fold notifyWaiter (activeTaskWaiters q) q"

definition startTask :: "lane_state \<Rightarrow> nat \<Rightarrow> queue_entry \<Rightarrow> running_task" where
  "startTask ls tid e =
     \<lparr>taskLane = lane ls, taskId = tid, taskGeneration = generation ls, taskEntry = e\<rparr>"

text \<open>
  The \<open>while\<close> loop of \<open>pump\<close>. Its arguments are the clock, the lane, the next task id, and the
  tasks started and \<open>onWait\<close> calls made so far.
\<close>

function pumpLoop ::
  "int \<Rightarrow> lane_state \<Rightarrow> nat \<Rightarrow> running_task list \<Rightarrow> (nat \<times> int \<times> nat) list \<Rightarrow>
   lane_state \<times> nat \<times> running_task list \<times> (nat \<times> int \<times> nat) list" where
  "pumpLoop now ls nid started waits =
     (if length (activeTaskIds ls) < maxConcurrent ls \<and> queue ls \<noteq> [] then
        (let e = hd (queue ls);
             ls1 = ls\<lparr>queue := tl (queue ls)\<rparr>;
             waitedMs = now - enqueuedAt e;
             waits1 = (if waitedMs \<ge> warnAfterMs e \<and> onWait e
                       then waits @ [(entryId e, waitedMs, length (queue ls1))] else waits);
             ls2 = ls1\<lparr>activeTaskIds := setAdd nid (activeTaskIds ls1)\<rparr>
         in pumpLoop now ls2 (Suc nid) (started @ [startTask ls1 nid e]) waits1)
      else (ls, nid, started, waits))"
  by pat_completeness auto
termination
  by (relation "measure (\<lambda>(now, ls, nid, started, waits). length (queue ls))") auto

declare pumpLoop.simps [simp del]

definition pump :: "int \<Rightarrow> string \<Rightarrow> command_queue \<Rightarrow> command_queue" where
  \<comment> \<open>\<open>pump\<close> of the closure of lane \<open>l\<close>; the \<open>finally\<close> clause resets \<open>draining\<close>\<close>
  "pump now l q =
     (case mapGet (lanes q) l of
        None \<Rightarrow> q
      | Some ls \<Rightarrow>
          (let (ls', nid, started, waits) = pumpLoop now ls (nextTaskId q) [] []
           in putLane l (ls'\<lparr>draining := False\<rparr>)
                (q\<lparr>nextTaskId := nid, running := running q @ started,
                   waitCalls := waitCalls q @ waits\<rparr>)))"

definition drainLane :: "int \<Rightarrow> string \<Rightarrow> command_queue \<Rightarrow> command_queue" where
  "drainLane now l q =
     (let (ls, q1) = getLaneState l q
      in if draining ls then q1 else pump now l (putLane l (ls\<lparr>draining := True\<rparr>) q1))"

definition taskSettled :: "int \<Rightarrow> running_task \<Rightarrow> bool \<Rightarrow> command_queue \<Rightarrow> command_queue" where
  \<comment> \<open>the asynchronous closure of a started task resumes; \<open>ok\<close> tells a result from an error\<close>
  "taskSettled now r ok q =
     (case mapGet (lanes q) (taskLane r) of
        None \<Rightarrow> q
      | Some ls \<Rightarrow>
          (let (current, ls') = completeTask ls (taskId r) (taskGeneration r);
               q1 = putLane (taskLane r) ls' (q\<lparr>running := remove1 r (running q)\<rparr>);
               q2 = (if current then pump now (taskLane r) (notifyActiveTaskWaiters q1) else q1)
           in q2\<lparr>outcomes := outcomes q2 @
                   [(entryId (taskEntry r), if ok then Resolved else Rejected)]\<rparr>))"

definition markGatewayDraining :: "command_queue \<Rightarrow> command_queue" where
  "markGatewayDraining q = q\<lparr>gatewayDraining := True\<rparr>"

definition setCommandLaneConcurrency :: "int \<Rightarrow> string \<Rightarrow> rat \<Rightarrow> command_queue \<Rightarrow> command_queue"
  where
  "setCommandLaneConcurrency now l m q =
     (let cleaned = normalizeLane l;
          (ls, q1) = getLaneState cleaned q
      in drainLane now cleaned
           (putLane cleaned (ls\<lparr>maxConcurrent := nat (max 1 \<lfloor>m\<rfloor>)\<rparr>) q1))"

definition enqueueCommandInLane ::
  "int \<Rightarrow> string \<Rightarrow> int option \<Rightarrow> bool \<Rightarrow> command_queue \<Rightarrow> command_queue" where
  "enqueueCommandInLane now l warnAfter hasOnWait q =
     (if gatewayDraining q then
        q\<lparr>outcomes := outcomes q @ [(nextEntryId q, RejectedGatewayDraining)],
          nextEntryId := Suc (nextEntryId q)\<rparr>
      else
        (let cleaned = normalizeLane l;
             (ls, q1) = getLaneState cleaned q;
             e = \<lparr>entryId = nextEntryId q, enqueuedAt = now,
                  warnAfterMs = coalesce warnAfter 2000, onWait = hasOnWait\<rparr>
         in drainLane now cleaned
              (putLane cleaned (ls\<lparr>queue := queue ls @ [e]\<rparr>)
                 (q1\<lparr>nextEntryId := Suc (nextEntryId q)\<rparr>))))"

definition enqueueCommand :: "int \<Rightarrow> int option \<Rightarrow> bool \<Rightarrow> command_queue \<Rightarrow> command_queue" where
  "enqueueCommand now warnAfter hasOnWait q =
     enqueueCommandInLane now ''main'' warnAfter hasOnWait q"

definition getQueueSize :: "string \<Rightarrow> command_queue \<Rightarrow> nat" where
  "getQueueSize l q =
     (case mapGet (lanes q) (normalizeLane l) of None \<Rightarrow> 0 | Some ls \<Rightarrow> getLaneDepth ls)"

definition getTotalQueueSize :: "command_queue \<Rightarrow> nat" where
  "getTotalQueueSize q = sum_list (map getLaneDepth (mapValues (lanes q)))"

definition clearCommandLane :: "string \<Rightarrow> command_queue \<Rightarrow> nat \<times> command_queue" where
  "clearCommandLane l q =
     (let cleaned = normalizeLane l
      in case mapGet (lanes q) cleaned of
           None \<Rightarrow> (0, q)
         | Some ls \<Rightarrow>
             (length (queue ls),
              (putLane cleaned (ls\<lparr>queue := []\<rparr>) q)
                \<lparr>outcomes := outcomes q @
                   map (\<lambda>e. (entryId e, RejectedLaneCleared)) (queue ls)\<rparr>))"

definition resetLane :: "lane_state \<Rightarrow> lane_state" where
  "resetLane ls = ls\<lparr>generation := Suc (generation ls), activeTaskIds := [], draining := False\<rparr>"

definition resetAllLanes :: "int \<Rightarrow> command_queue \<Rightarrow> command_queue" where
  "resetAllLanes now q =
     (let lanesToDrain = map lane (filter (\<lambda>ls. queue ls \<noteq> []) (mapValues (lanes q)));
          q1 = q\<lparr>gatewayDraining := False, lanes := map (\<lambda>(k, ls). (k, resetLane ls)) (lanes q)\<rparr>
      in notifyActiveTaskWaiters (fold (drainLane now) lanesToDrain q1))"

definition getActiveTaskCount :: "command_queue \<Rightarrow> nat" where
  "getActiveTaskCount q = sum_list (map (\<lambda>ls. length (activeTaskIds ls)) (mapValues (lanes q)))"

definition waitForActiveTasks :: "int \<Rightarrow> command_queue \<Rightarrow> command_queue" where
  "waitForActiveTasks timeoutMs q =
     (let activeAtStart =
            fold (\<lambda>ls acc. fold setAdd (activeTaskIds ls) acc) (mapValues (lanes q)) [];
          w = \<lparr>waiterId = nextWaiterId q, awaitedTaskIds = activeAtStart\<rparr>;
          q1 = q\<lparr>nextWaiterId := Suc (nextWaiterId q)\<rparr>
      in if activeAtStart = [] then q1\<lparr>drains := drains q1 @ [(waiterId w, True)]\<rparr>
         else if timeoutMs \<le> 0 then q1\<lparr>drains := drains q1 @ [(waiterId w, False)]\<rparr>
         else notifyActiveTaskWaiters
                (q1\<lparr>timers := setAdd (waiterId w) (timers q1),
                    activeTaskWaiters := setAdd w (activeTaskWaiters q1)\<rparr>))"

definition waiterTimeout :: "active_task_waiter \<Rightarrow> command_queue \<Rightarrow> command_queue" where
  \<comment> \<open>the timer callback installed by \<open>waitForActiveTasks\<close>\<close>
  "waiterTimeout w q =
     resolveActiveTaskWaiter w False (q\<lparr>timers := setDelete (waiterId w) (timers q)\<rparr>)"

section \<open>What one call of \<open>pump\<close> does\<close>

definition capacity :: "lane_state \<Rightarrow> nat" where
  "capacity ls = min (length (queue ls)) (maxConcurrent ls - length (activeTaskIds ls))"

definition pumpedLane :: "nat \<Rightarrow> lane_state \<Rightarrow> lane_state" where
  "pumpedLane nid ls =
     ls\<lparr>queue := drop (capacity ls) (queue ls),
        activeTaskIds := activeTaskIds ls @ [nid..<nid + capacity ls]\<rparr>"

definition startedTasks :: "nat \<Rightarrow> lane_state \<Rightarrow> running_task list" where
  "startedTasks nid ls =
     map2 (startTask ls) [nid..<nid + capacity ls] (take (capacity ls) (queue ls))"

fun onWaitCalls :: "int \<Rightarrow> nat \<Rightarrow> queue_entry list \<Rightarrow> (nat \<times> int \<times> nat) list" where
  "onWaitCalls now n [] = []"
| "onWaitCalls now n (e # es) =
     (if now - enqueuedAt e \<ge> warnAfterMs e \<and> onWait e
      then (entryId e, now - enqueuedAt e, n - 1) # onWaitCalls now (n - 1) es
      else onWaitCalls now (n - 1) es)"

definition pumpWaits :: "int \<Rightarrow> lane_state \<Rightarrow> (nat \<times> int \<times> nat) list" where
  "pumpWaits now ls = onWaitCalls now (length (queue ls)) (take (capacity ls) (queue ls))"

lemma startTask_cong [simp]:
  "startTask (ls\<lparr>queue := x\<rparr>) = startTask ls"
  "startTask (ls\<lparr>activeTaskIds := y\<rparr>) = startTask ls"
  by (simp_all add: startTask_def fun_eq_iff)

lemma pumpLoop_spec:
  assumes "\<forall>t \<in> set (activeTaskIds ls). t < nid"
  shows "pumpLoop now ls nid started waits =
     (pumpedLane nid ls, nid + capacity ls, started @ startedTasks nid ls,
      waits @ pumpWaits now ls)"
  using assms
proof (induction now ls nid started waits rule: pumpLoop.induct)
  case (1 now ls nid started waits)
  show ?case
  proof (cases "length (activeTaskIds ls) < maxConcurrent ls \<and> queue ls \<noteq> []")
    case False
    then have "capacity ls = 0" by (auto simp: capacity_def)
    with False show ?thesis
      by (subst pumpLoop.simps) (auto simp: pumpedLane_def startedTasks_def pumpWaits_def)
  next
    case True
    define e where "e = hd (queue ls)"
    define ls1 where "ls1 = ls\<lparr>queue := tl (queue ls)\<rparr>"
    define ls2 where "ls2 = ls1\<lparr>activeTaskIds := setAdd nid (activeTaskIds ls1)\<rparr>"
    define waits1 where "waits1 = (if now - enqueuedAt e \<ge> warnAfterMs e \<and> onWait e
      then waits @ [(entryId e, now - enqueuedAt e, length (queue ls1))] else waits)"
    have notin: "nid \<notin> set (activeTaskIds ls)" using "1.prems" by auto
    obtain es where q: "queue ls = e # es"
      using True e_def by (cases "queue ls") auto
    have ls2: "ls2 = ls\<lparr>queue := es, activeTaskIds := activeTaskIds ls @ [nid]\<rparr>"
      using notin q by (simp add: ls2_def ls1_def setAdd_def)
    have cap: "capacity ls = Suc (capacity ls2)"
      using True q by (auto simp: capacity_def ls2)
    have upt: "[nid..<nid + capacity ls] = nid # [Suc nid..<Suc nid + capacity ls2]"
      using cap by (simp add: upt_conv_Cons)
    have unfold: "pumpLoop now ls nid started waits =
        pumpLoop now ls2 (Suc nid) (started @ [startTask ls1 nid e]) waits1"
      by (subst pumpLoop.simps, subst if_P [OF True])
         (simp only: Let_def e_def ls1_def ls2_def waits1_def)
    have "\<forall>t \<in> set (activeTaskIds ls2). t < Suc nid"
      using "1.prems" by (auto simp: ls2)
    from "1.IH" [OF True e_def ls1_def refl waits1_def ls2_def this] have
      "pumpLoop now ls2 (Suc nid) (started @ [startTask ls1 nid e]) waits1 =
       (pumpedLane (Suc nid) ls2, Suc nid + capacity ls2,
        (started @ [startTask ls1 nid e]) @ startedTasks (Suc nid) ls2,
        waits1 @ pumpWaits now ls2)" .
    moreover have "waits1 @ pumpWaits now ls2 = waits @ pumpWaits now ls"
      by (simp add: pumpWaits_def waits1_def cap q ls2 ls1_def)
    moreover have "pumpedLane nid ls = pumpedLane (Suc nid) ls2"
      unfolding pumpedLane_def upt by (simp add: cap ls2 q del: upt_Suc)
    moreover have "startTask ls2 = startTask ls" "startTask ls1 = startTask ls"
      by (simp_all add: ls2_def ls1_def)
    then have "startedTasks nid ls = startTask ls1 nid e # startedTasks (Suc nid) ls2"
      unfolding startedTasks_def upt by (simp add: cap q ls2 del: upt_Suc)
    ultimately show ?thesis
      using cap unfold by simp
  qed
qed

lemma pump_eq:
  assumes "mapGet (lanes q) k = Some ls" and "\<forall>t \<in> set (activeTaskIds ls). t < nextTaskId q"
  shows "pump now k q =
     putLane k ((pumpedLane (nextTaskId q) ls)\<lparr>draining := False\<rparr>)
       (q\<lparr>nextTaskId := nextTaskId q + capacity ls,
          running := running q @ startedTasks (nextTaskId q) ls,
          waitCalls := waitCalls q @ pumpWaits now ls\<rparr>)"
  by (simp add: pump_def assms(1) pumpLoop_spec [OF assms(2)])

section \<open>The invariant of lanes and started tasks\<close>

definition lane_ok :: "running_task list \<Rightarrow> string \<times> lane_state \<Rightarrow> bool" where
  "lane_ok run p \<longleftrightarrow>
     lane (snd p) = fst p \<and> \<not> draining (snd p) \<and> 1 \<le> maxConcurrent (snd p) \<and>
     distinct (activeTaskIds (snd p)) \<and>
     set (activeTaskIds (snd p)) =
       taskId ` {r \<in> set run. taskLane r = fst p \<and> taskGeneration r = generation (snd p)}"

definition task_ok :: "command_queue \<Rightarrow> running_task \<Rightarrow> bool" where
  "task_ok q r \<longleftrightarrow> taskId r < nextTaskId q \<and>
     (\<exists>ls. mapGet (lanes q) (taskLane r) = Some ls \<and> taskGeneration r \<le> generation ls)"

definition lanes_inv :: "command_queue \<Rightarrow> bool" where
  "lanes_inv q \<longleftrightarrow> wfMap (lanes q) \<and> (\<forall>p \<in> set (lanes q). lane_ok (running q) p) \<and>
     distinct (map taskId (running q)) \<and> (\<forall>r \<in> set (running q). task_ok q r)"

lemma lanes_invD:
  assumes "lanes_inv q" and "mapGet (lanes q) k = Some ls"
  shows "lane ls = k" "\<not> draining ls" "1 \<le> maxConcurrent ls" "distinct (activeTaskIds ls)"
    "set (activeTaskIds ls) = taskId ` {r \<in> set (running q). taskLane r = k \<and>
        taskGeneration r = generation ls}"
    "\<forall>t \<in> set (activeTaskIds ls). t < nextTaskId q"
proof -
  have ok: "lane_ok (running q) (k, ls)"
    using assms by (auto simp: lanes_inv_def dest: mapGet_SomeD)
  then show "lane ls = k" "\<not> draining ls" "1 \<le> maxConcurrent ls" "distinct (activeTaskIds ls)"
    "set (activeTaskIds ls) = taskId ` {r \<in> set (running q). taskLane r = k \<and>
        taskGeneration r = generation ls}"
    by (simp_all add: lane_ok_def)
  then show "\<forall>t \<in> set (activeTaskIds ls). t < nextTaskId q"
    using assms(1) by (auto simp: lanes_inv_def task_ok_def)
qed

text \<open>Replacing one lane: what has to be shown of it, and what then holds of the whole queue.\<close>

lemma lanes_inv_put:
  assumes inv: "lanes_inv q" and get: "mapGet (lanes q) k = Some ls"
    and lane: "lane ls' = k" "\<not> draining ls'" "1 \<le> maxConcurrent ls'" "distinct (activeTaskIds ls')"
    and gen: "generation ls' = generation ls"
    and act: "set (activeTaskIds ls') = taskId ` {r \<in> set run'. taskLane r = k \<and>
        taskGeneration r = generation ls}"
    and run: "distinct (map taskId run')" "\<forall>r \<in> set run'. taskId r < nid'"
      "\<forall>r \<in> set run'. taskLane r = k \<longrightarrow> taskGeneration r \<le> generation ls"
    and other: "\<forall>r. taskLane r \<noteq> k \<longrightarrow> r \<in> set run' \<longleftrightarrow> r \<in> set (running q)"
    and fields: "lanes q' = mapSet k ls' (lanes q)" "running q' = run'" "nextTaskId q' = nid'"
  shows "lanes_inv q'"
proof -
  have wf: "wfMap (lanes q)" using inv by (simp add: lanes_inv_def)
  have "lane_ok run' p" if "p \<in> set (lanes q')" for p
  proof (cases "fst p = k")
    case True
    with that wf have "p = (k, ls')" by (auto simp: fields set_mapSet)
    with lane gen act show ?thesis by (simp add: lane_ok_def)
  next
    case False
    with that wf have "p \<in> set (lanes q)" by (auto simp: fields set_mapSet)
    then have "lane_ok (running q) p" using inv by (simp add: lanes_inv_def)
    moreover have "{r \<in> set run'. taskLane r = fst p \<and> taskGeneration r = generation (snd p)} =
        {r \<in> set (running q). taskLane r = fst p \<and> taskGeneration r = generation (snd p)}"
      using other False by auto
    ultimately show ?thesis by (simp add: lane_ok_def)
  qed
  moreover have "task_ok q' r" if "r \<in> set run'" for r
  proof (cases "taskLane r = k")
    case True
    with that run gen show ?thesis by (simp add: task_ok_def fields)
  next
    case False
    with that other inv have "task_ok q r" by (auto simp: lanes_inv_def)
    with False that run show ?thesis by (simp add: task_ok_def fields)
  qed
  ultimately show ?thesis
    using wf run by (simp add: lanes_inv_def fields)
qed

lemma capacity_le [simp]: "capacity ls \<le> length (queue ls)"
  by (simp add: capacity_def)

lemma startedTasks_simps:
  "map taskId (startedTasks nid ls) = [nid..<nid + capacity ls]"
  "map (entryId \<circ> taskEntry) (startedTasks nid ls) = map entryId (take (capacity ls) (queue ls))"
  "r \<in> set (startedTasks nid ls) \<Longrightarrow> taskLane r = lane ls \<and> taskGeneration r = generation ls"
proof -
  have ids: "map taskId (map2 (startTask ls) xs ys) = xs" if "length xs = length ys" for xs ys
    using that by (induction xs ys rule: list_induct2) (auto simp: startTask_def)
  have es: "map (entryId \<circ> taskEntry) (map2 (startTask ls) xs ys) = map entryId ys"
    if "length xs = length ys" for xs ys
    using that by (induction xs ys rule: list_induct2) (auto simp: startTask_def)
  show "map taskId (startedTasks nid ls) = [nid..<nid + capacity ls]"
    unfolding startedTasks_def by (rule ids) simp
  show "map (entryId \<circ> taskEntry) (startedTasks nid ls) = map entryId (take (capacity ls) (queue ls))"
    unfolding startedTasks_def by (rule es) simp
  show "r \<in> set (startedTasks nid ls) \<Longrightarrow> taskLane r = lane ls \<and> taskGeneration r = generation ls"
    by (auto simp: startedTasks_def startTask_def)
qed

lemma taskIds_started: "taskId ` set (startedTasks nid ls) = {nid..<nid + capacity ls}"
  by (metis list.set_map set_upt startedTasks_simps(1))

lemma pumpedLane_simps [simp]:
  "lane (pumpedLane nid ls) = lane ls"
  "maxConcurrent (pumpedLane nid ls) = maxConcurrent ls"
  "generation (pumpedLane nid ls) = generation ls"
  "queue (pumpedLane nid ls) = drop (capacity ls) (queue ls)"
  "activeTaskIds (pumpedLane nid ls) = activeTaskIds ls @ [nid..<nid + capacity ls]"
  by (simp_all add: pumpedLane_def)

lemma pump_lanes_inv [inv_intros]:
  assumes inv: "lanes_inv q" and get: "mapGet (lanes q) k = Some ls"
  shows "lanes_inv (pump now k q)"
proof -
  note ls = lanes_invD [OF inv get]
  let ?started = "startedTasks (nextTaskId q) ls"
  have lt: "\<forall>r \<in> set (running q). taskId r < nextTaskId q"
    using inv by (simp add: lanes_inv_def task_ok_def)
  have gens: "taskGeneration r \<le> generation ls" if "r \<in> set (running q)" "taskLane r = k" for r
  proof -
    have "task_ok q r" using inv that(1) by (simp add: lanes_inv_def)
    with get that(2) show ?thesis by (simp add: task_ok_def)
  qed
  have started: "taskLane r = k" "taskGeneration r = generation ls" if "r \<in> set ?started" for r
    using startedTasks_simps(3) [OF that] ls(1) by auto
  have "taskId ` {r \<in> set (running q @ ?started). taskLane r = k \<and> taskGeneration r = generation ls}
      = set (activeTaskIds ls) \<union> taskId ` set ?started"
    using started unfolding ls(5) by auto
  then have act: "set (activeTaskIds (pumpedLane (nextTaskId q) ls)) =
      taskId ` {r \<in> set (running q @ ?started). taskLane r = k \<and> taskGeneration r = generation ls}"
    by (simp add: taskIds_started)
  have bound: "\<forall>r \<in> set (running q @ ?started). taskId r < nextTaskId q + capacity ls"
  proof
    fix r assume "r \<in> set (running q @ ?started)"
    moreover have "taskId r \<in> {nextTaskId q..<nextTaskId q + capacity ls}" if "r \<in> set ?started"
      using taskIds_started that by blast
    ultimately show "taskId r < nextTaskId q + capacity ls" using lt by auto
  qed
  show ?thesis
  proof (rule lanes_inv_put [OF inv get, where ls' = "pumpedLane (nextTaskId q) ls\<lparr>draining := False\<rparr>"
        and run' = "running q @ ?started" and nid' = "nextTaskId q + capacity ls"])
    show "distinct (activeTaskIds (pumpedLane (nextTaskId q) ls\<lparr>draining := False\<rparr>))"
      using ls by auto
    show "distinct (map taskId (running q @ ?started))"
      using inv lt by (auto simp: lanes_inv_def startedTasks_simps(1))
    show "\<forall>r \<in> set (running q @ ?started). taskLane r = k \<longrightarrow> taskGeneration r \<le> generation ls"
      using gens started(2) by auto
    show "lanes (pump now k q) = mapSet k (pumpedLane (nextTaskId q) ls\<lparr>draining := False\<rparr>) (lanes q)"
      "running (pump now k q) = running q @ ?started"
      "nextTaskId (pump now k q) = nextTaskId q + capacity ls"
      by (simp_all add: pump_eq [OF get ls(6)] putLane_def)
    show "\<forall>r. taskLane r \<noteq> k \<longrightarrow> r \<in> set (running q @ ?started) \<longleftrightarrow> r \<in> set (running q)"
      using started by auto
  qed (use ls(1,3) act bound in simp_all)
qed

lemma getLaneState_lanes:
  assumes "lanes_inv q"
  shows "lanes_inv (snd (getLaneState k q))"
    "mapGet (lanes (snd (getLaneState k q))) k = Some (fst (getLaneState k q))"
proof -
  show "lanes_inv (snd (getLaneState k q))"
  proof (cases "mapGet (lanes q) k")
    case None
    then have no: "r \<notin> set (running q)" if "taskLane r = k" for r
      using assms that by (auto simp: lanes_inv_def task_ok_def)
    have "lane_ok (running q) (k, newLane k)"
      using no by (auto simp: lane_ok_def newLane_def)
    moreover have "task_ok (putLane k (newLane k) q) r" if "r \<in> set (running q)" for r
      using that assms no [of r] by (auto simp: lanes_inv_def task_ok_def putLane_def mapGet_set)
    ultimately have "lanes_inv (putLane k (newLane k) q)"
      using assms by (auto simp: lanes_inv_def putLane_def set_mapSet)
    then show ?thesis by (simp add: getLaneState_def None)
  qed (use assms in \<open>simp add: getLaneState_def\<close>)
  show "mapGet (lanes (snd (getLaneState k q))) k = Some (fst (getLaneState k q))"
    by (simp add: getLaneState_def putLane_def split: option.splits)
qed

lemma pumpLoop_draining:
  "capacity (ls\<lparr>draining := b\<rparr>) = capacity ls"
  "pumpedLane nid (ls\<lparr>draining := b\<rparr>) = (pumpedLane nid ls)\<lparr>draining := b\<rparr>"
  "startedTasks nid (ls\<lparr>draining := b\<rparr>) = startedTasks nid ls"
  "pumpWaits now (ls\<lparr>draining := b\<rparr>) = pumpWaits now ls"
proof -
  have "startTask (ls\<lparr>draining := b\<rparr>) = startTask ls"
    by (simp add: startTask_def fun_eq_iff)
  then show "capacity (ls\<lparr>draining := b\<rparr>) = capacity ls"
    "pumpedLane nid (ls\<lparr>draining := b\<rparr>) = (pumpedLane nid ls)\<lparr>draining := b\<rparr>"
    "startedTasks nid (ls\<lparr>draining := b\<rparr>) = startedTasks nid ls"
    "pumpWaits now (ls\<lparr>draining := b\<rparr>) = pumpWaits now ls"
    by (simp_all add: capacity_def pumpedLane_def startedTasks_def pumpWaits_def)
qed

text \<open>Between calls no lane is draining, so \<open>drainLane\<close> pumps the lane it names.\<close>

lemma drainLane_eq:
  assumes "lanes_inv q"
  shows "drainLane now k q = pump now k (snd (getLaneState k q))"
proof -
  obtain ls q1 where g: "getLaneState k q = (ls, q1)" by (cases "getLaneState k q")
  have inv: "lanes_inv q1" and get: "mapGet (lanes q1) k = Some ls"
    using getLaneState_lanes [OF assms, of k] by (simp_all add: g)
  note ls = lanes_invD [OF inv get]
  have "pump now k (putLane k (ls\<lparr>draining := True\<rparr>) q1) = pump now k q1"
    using ls(6) by (simp add: pump_eq [OF get ls(6)] pump_eq putLane_def pumpLoop_draining
        pump_eq [where ls = "ls\<lparr>draining := True\<rparr>"])
  then show ?thesis using ls(2) by (simp add: drainLane_def g)
qed

lemma drainLane_lanes_inv [inv_intros]: "lanes_inv q \<Longrightarrow> lanes_inv (drainLane now k q)"
  using drainLane_eq getLaneState_lanes pump_lanes_inv by metis

section \<open>No lane waits with free capacity\<close>

definition busy :: "lane_state \<Rightarrow> bool" where
  "busy ls \<longleftrightarrow> queue ls = [] \<or> maxConcurrent ls \<le> length (activeTaskIds ls)"

definition busy_except :: "string set \<Rightarrow> command_queue \<Rightarrow> bool" where
  "busy_except K q \<longleftrightarrow> (\<forall>p \<in> set (lanes q). fst p \<notin> K \<longrightarrow> busy (snd p))"

lemma busy_pumpedLane: "busy (pumpedLane nid ls\<lparr>draining := b\<rparr>)"
  by (auto simp: busy_def capacity_def min_def)

lemma busy_except_put:
  assumes "wfMap (lanes q)" "busy_except K q" "k \<in> K' \<or> busy ls'" "K \<subseteq> insert k K'"
    and "lanes q' = mapSet k ls' (lanes q)"
  shows "busy_except K' q'"
  using assms by (fastforce simp: busy_except_def set_mapSet)

lemma pump_busy:
  assumes "lanes_inv q" "mapGet (lanes q) k = Some ls" "busy_except (insert k K) q"
  shows "busy_except K (pump now k q)"
proof (rule busy_except_put [OF _ assms(3)])
  show "wfMap (lanes q)" using assms(1) by (simp add: lanes_inv_def)
  show "lanes (pump now k q) =
      mapSet k (pumpedLane (nextTaskId q) ls\<lparr>draining := False\<rparr>) (lanes q)"
    using pump_eq [OF assms(2) lanes_invD(6) [OF assms(1,2)]] by (simp add: putLane_def)
qed (auto simp: busy_pumpedLane)

lemma getLaneState_busy:
  assumes "lanes_inv q" "busy_except K q"
  shows "busy_except K (snd (getLaneState k q))"
proof (cases "mapGet (lanes q) k")
  case None
  have "wfMap (lanes q)" using assms by (simp add: lanes_inv_def)
  then show ?thesis
    by (auto intro!: busy_except_put [OF _ assms(2), where k = k and ls' = "newLane k"]
        simp: getLaneState_def None putLane_def busy_def newLane_def)
qed (use assms in \<open>simp add: getLaneState_def\<close>)

lemma drainLane_busy:
  assumes "lanes_inv q" "busy_except (insert k K) q"
  shows "busy_except K (drainLane now k q)"
  unfolding drainLane_eq [OF assms(1)]
  by (rule pump_busy [OF getLaneState_lanes [OF assms(1)] getLaneState_busy [OF assms]])

section \<open>Every promise is in one place\<close>

definition queuedIds :: "command_queue \<Rightarrow> nat list" where
  "queuedIds q = concat (map (\<lambda>ls. map entryId (queue ls)) (mapValues (lanes q)))"

definition runningIds :: "command_queue \<Rightarrow> nat list" where
  "runningIds q = map (entryId \<circ> taskEntry) (running q)"

definition promises :: "command_queue \<Rightarrow> nat multiset" where
  "promises q = mset (queuedIds q) + mset (runningIds q) + mset (map fst (outcomes q))"

definition entries_inv :: "command_queue \<Rightarrow> bool" where
  "entries_inv q \<longleftrightarrow> promises q = mset [0..<nextEntryId q]"

lemma mset_queuedIds_put:
  assumes "wfMap (lanes q)" "mapGet (lanes q) k = Some ls" "lanes q' = mapSet k ls' (lanes q)"
  shows "mset (queuedIds q') + mset (map entryId (queue ls)) =
    mset (queuedIds q) + mset (map entryId (queue ls'))"
  unfolding queuedIds_def assms(3) by (rule mset_concat_mapSet [OF assms(1,2)])

lemma pump_promises:
  assumes "lanes_inv q" "mapGet (lanes q) k = Some ls"
  shows "promises (pump now k q) = promises q" "nextEntryId (pump now k q) = nextEntryId q"
proof -
  note eq = pump_eq [OF assms(2) lanes_invD(6) [OF assms(1,2)], of now]
  have "lanes (pump now k q) =
      mapSet k (pumpedLane (nextTaskId q) ls\<lparr>draining := False\<rparr>) (lanes q)"
    by (simp add: eq putLane_def)
  from mset_queuedIds_put [OF _ assms(2) this] have
    "mset (queuedIds (pump now k q)) + mset (map entryId (queue ls)) =
     mset (queuedIds q) + mset (map entryId (drop (capacity ls) (queue ls)))"
    using assms(1) by (simp add: lanes_inv_def)
  moreover have "mset (map entryId (queue ls)) = mset (map entryId (take (capacity ls) (queue ls)))
      + mset (map entryId (drop (capacity ls) (queue ls)))"
    by (metis append_take_drop_id map_append mset_append)
  moreover have "runningIds (pump now k q) =
      runningIds q @ map entryId (take (capacity ls) (queue ls))"
    using startedTasks_simps(2) by (simp add: eq runningIds_def putLane_def)
  moreover have "outcomes (pump now k q) = outcomes q" by (simp add: eq putLane_def)
  ultimately show "promises (pump now k q) = promises q"
    by (simp add: promises_def)
  show "nextEntryId (pump now k q) = nextEntryId q" by (simp add: eq putLane_def)
qed

lemma getLaneState_promises:
  "promises (snd (getLaneState k q)) = promises q"
  "nextEntryId (snd (getLaneState k q)) = nextEntryId q"
  by (auto simp: getLaneState_def promises_def queuedIds_def runningIds_def putLane_def newLane_def
      mapSet_append split: option.splits)

lemma drainLane_promises:
  assumes "lanes_inv q"
  shows "promises (drainLane now k q) = promises q" "nextEntryId (drainLane now k q) = nextEntryId q"
  using pump_promises [OF getLaneState_lanes [OF assms]] getLaneState_promises
  by (simp_all add: drainLane_eq [OF assms])

section \<open>Waiters\<close>

definition waits_inv :: "command_queue \<Rightarrow> bool" where
  "waits_inv q \<longleftrightarrow>
     mset (map waiterId (activeTaskWaiters q)) + mset (map fst (drains q)) =
     mset [0..<nextWaiterId q]"

definition waits_pending :: "command_queue \<Rightarrow> bool" where
  "waits_pending q \<longleftrightarrow>
     (\<forall>w \<in> set (activeTaskWaiters q). hasPendingActiveTasks (awaitedTaskIds w) q)"

lemma waits_inv_distinct: "waits_inv q \<Longrightarrow> distinct (map waiterId (activeTaskWaiters q))"
proof -
  assume "waits_inv q"
  then have "mset (map waiterId (activeTaskWaiters q)) \<subseteq># mset [0..<nextWaiterId q]"
    unfolding waits_inv_def by (metis mset_subset_eq_add_left)
  then have "count (mset (map waiterId (activeTaskWaiters q))) x \<le> 1" for x
    by (metis distinct_count_atmost_1 distinct_upt le_trans mset_subset_eq_count nat_le_linear
        not_one_le_zero)
  then show ?thesis
    by (metis distinct_count_atmost_1 count_mset_0_iff less_one linorder_not_le nat_less_le)
qed

lemma mset_map_removeAll:
  assumes "distinct (map f xs)" "x \<in> set xs"
  shows "mset (map f (removeAll x xs)) + {#f x#} = mset (map f xs)"
proof -
  have "distinct xs" using assms(1) by (simp add: distinct_map)
  then have "removeAll x xs = remove1 x xs" by (simp add: distinct_remove1_removeAll)
  with assms(2) have "mset xs = add_mset x (mset (removeAll x xs))" by simp
  then have "image_mset f (mset xs) = add_mset (f x) (image_mset f (mset (removeAll x xs)))"
    by (metis image_mset_add_mset)
  then show ?thesis by simp
qed

lemma hasPending_lanes: "lanes q' = lanes q \<Longrightarrow> hasPendingActiveTasks ids q' = hasPendingActiveTasks ids q"
  by (simp add: hasPendingActiveTasks_def)

lemma hasPending_Nil [simp]: "\<not> hasPendingActiveTasks [] q"
  by (simp add: hasPendingActiveTasks_def)

lemma resolveActiveTaskWaiter_waits_inv:
  assumes "waits_inv q"
  shows "waits_inv (resolveActiveTaskWaiter w d q)"
proof (cases "w \<in> set (activeTaskWaiters q)")
  case True
  have "mset (map waiterId (removeAll w (activeTaskWaiters q))) + {#waiterId w#} =
      mset (map waiterId (activeTaskWaiters q))"
    by (rule mset_map_removeAll [OF waits_inv_distinct [OF assms] True])
  then have "mset (map waiterId (removeAll w (activeTaskWaiters q))) +
      (mset (map fst (drains q)) + {#waiterId w#}) =
      mset (map waiterId (activeTaskWaiters q)) + mset (map fst (drains q))"
    by (metis union_assoc union_commute)
  with assms True show ?thesis
    by (simp add: waits_inv_def resolveActiveTaskWaiter_def)
qed (use assms in \<open>simp add: resolveActiveTaskWaiter_def\<close>)

text \<open>Resolving waiters touches neither the lanes nor the tasks nor the promises.\<close>

definition core :: "command_queue \<Rightarrow> command_queue" where
  "core q = q\<lparr>activeTaskWaiters := [], timers := [], drains := []\<rparr>"

lemma core_resolve [simp]: "core (resolveActiveTaskWaiter w d q) = core q"
  by (simp add: core_def resolveActiveTaskWaiter_def)

lemma core_eqD:
  assumes "core q' = core q"
  shows "lanes q' = lanes q" "running q' = running q" "nextTaskId q' = nextTaskId q"
    "outcomes q' = outcomes q" "nextEntryId q' = nextEntryId q" "nextWaiterId q' = nextWaiterId q"
    "gatewayDraining q' = gatewayDraining q" "waitCalls q' = waitCalls q"
proof -
  have "lanes x = lanes (core x)" "running x = running (core x)"
    "nextTaskId x = nextTaskId (core x)" "outcomes x = outcomes (core x)"
    "nextEntryId x = nextEntryId (core x)" "nextWaiterId x = nextWaiterId (core x)"
    "gatewayDraining x = gatewayDraining (core x)" "waitCalls x = waitCalls (core x)" for x
    by (simp_all add: core_def)
  with assms show "lanes q' = lanes q" "running q' = running q" "nextTaskId q' = nextTaskId q"
    "outcomes q' = outcomes q" "nextEntryId q' = nextEntryId q" "nextWaiterId q' = nextWaiterId q"
    "gatewayDraining q' = gatewayDraining q" "waitCalls q' = waitCalls q"
    by metis+
qed

lemma fold_notifyWaiter:
  assumes "waits_inv q"
  shows "core (fold notifyWaiter ws q) = core q" (is ?core)
    and "waits_inv (fold notifyWaiter ws q)" (is ?inv)
    and "set (activeTaskWaiters (fold notifyWaiter ws q)) =
      {w \<in> set (activeTaskWaiters q). w \<in> set ws \<longrightarrow> hasPendingActiveTasks (awaitedTaskIds w) q}"
      (is ?set)
proof -
  have "?core \<and> ?inv \<and> ?set" using assms
  proof (induction ws arbitrary: q)
    case (Cons w ws)
    let ?q1 = "notifyWaiter w q"
    have c: "core ?q1 = core q" by (simp add: notifyWaiter_def)
    have i: "waits_inv ?q1"
      using Cons.prems by (simp add: notifyWaiter_def resolveActiveTaskWaiter_waits_inv)
    have p: "hasPendingActiveTasks ids ?q1 = hasPendingActiveTasks ids q" for ids
      by (rule hasPending_lanes) (rule core_eqD(1) [OF c])
    have "set (activeTaskWaiters ?q1) =
        {v \<in> set (activeTaskWaiters q). v = w \<longrightarrow> hasPendingActiveTasks (awaitedTaskIds v) q}"
      by (auto simp: notifyWaiter_def resolveActiveTaskWaiter_def)
    with Cons.IH [OF i] c p show ?case by auto
  qed auto
  then show ?core ?inv ?set by blast+
qed

lemma notifyActiveTaskWaiters_waits:
  assumes "waits_inv q"
  shows "core (notifyActiveTaskWaiters q) = core q"
    and "waits_inv (notifyActiveTaskWaiters q)"
    and "waits_pending (notifyActiveTaskWaiters q)"
    and "set (activeTaskWaiters (notifyActiveTaskWaiters q)) =
      {w \<in> set (activeTaskWaiters q). hasPendingActiveTasks (awaitedTaskIds w) q}"
proof -
  note f = fold_notifyWaiter [OF assms, of "activeTaskWaiters q"]
  show c: "core (notifyActiveTaskWaiters q) = core q" "waits_inv (notifyActiveTaskWaiters q)"
    using f by (simp_all add: notifyActiveTaskWaiters_def)
  show s: "set (activeTaskWaiters (notifyActiveTaskWaiters q)) =
      {w \<in> set (activeTaskWaiters q). hasPendingActiveTasks (awaitedTaskIds w) q}"
    using f(3) by (auto simp: notifyActiveTaskWaiters_def)
  show "waits_pending (notifyActiveTaskWaiters q)"
    using hasPending_lanes [OF core_eqD(1) [OF c(1)]] s by (auto simp: waits_pending_def)
qed

lemma core_frame:
  assumes "core q' = core q"
  shows "lanes_inv q' = lanes_inv q" "busy_except K q' = busy_except K q"
    "promises q' = promises q" "nextEntryId q' = nextEntryId q"
  using core_eqD [OF assms]
  by (simp_all add: lanes_inv_def task_ok_def busy_except_def promises_def queuedIds_def runningIds_def)

lemma waits_pending_mono:
  assumes "waits_pending q" "activeTaskWaiters q' = activeTaskWaiters q"
    "\<And>ids. hasPendingActiveTasks ids q \<Longrightarrow> hasPendingActiveTasks ids q'"
  shows "waits_pending q'"
  using assms by (auto simp: waits_pending_def)

lemma hasPending_put:
  assumes "wfMap (lanes q)" "mapGet (lanes q) k = Some ls" "lanes q' = mapSet k ls' (lanes q)"
    "set (activeTaskIds ls) \<subseteq> set (activeTaskIds ls')"
    "hasPendingActiveTasks ids q"
  shows "hasPendingActiveTasks ids q'"
proof -
  obtain k0 l0 t where p: "(k0, l0) \<in> set (lanes q)" "t \<in> set (activeTaskIds l0)" "t \<in> set ids"
    using assms(5) by (auto simp: hasPendingActiveTasks_def)
  show ?thesis
  proof (cases "k0 = k")
    case True
    with p assms have "l0 = ls" by (metis mapGet_in_set option.inject)
    with p assms show ?thesis by (force simp: hasPendingActiveTasks_def set_mapSet)
  next
    case False
    with p assms show ?thesis by (force simp: hasPendingActiveTasks_def set_mapSet)
  qed
qed

definition waits_frame :: "command_queue \<Rightarrow> command_queue \<Rightarrow> bool" where
  "waits_frame q q' \<longleftrightarrow> activeTaskWaiters q' = activeTaskWaiters q \<and> drains q' = drains q \<and>
     nextWaiterId q' = nextWaiterId q \<and>
     (\<forall>ids. hasPendingActiveTasks ids q \<longrightarrow> hasPendingActiveTasks ids q')"

lemma waits_frame_trans: "waits_frame p q \<Longrightarrow> waits_frame q r \<Longrightarrow> waits_frame p r"
  by (simp add: waits_frame_def)

lemma waits_frameD:
  assumes "waits_frame q q'"
  shows "waits_inv q' = waits_inv q" "waits_pending q \<Longrightarrow> waits_pending q'"
  using assms by (auto simp: waits_frame_def waits_inv_def waits_pending_def)

lemma getLaneState_frame: "waits_frame q (snd (getLaneState k q))"
  by (auto simp: waits_frame_def getLaneState_def putLane_def hasPendingActiveTasks_def
      mapSet_append split: option.splits)

lemma pump_frame:
  assumes "lanes_inv q" "mapGet (lanes q) k = Some ls"
  shows "waits_frame q (pump now k q)"
proof -
  note eq = pump_eq [OF assms(2) lanes_invD(6) [OF assms(1,2)], of now]
  have "lanes (pump now k q) =
      mapSet k (pumpedLane (nextTaskId q) ls\<lparr>draining := False\<rparr>) (lanes q)"
    by (simp add: eq putLane_def)
  from hasPending_put [OF _ assms(2) this] assms(1) show ?thesis
    by (simp add: waits_frame_def lanes_inv_def) (simp add: eq putLane_def)
qed

lemma drainLane_frame: "lanes_inv q \<Longrightarrow> waits_frame q (drainLane now k q)"
  using pump_frame [OF getLaneState_lanes] getLaneState_frame waits_frame_trans
  by (metis drainLane_eq)

section \<open>The queue as a transition system\<close>

definition queue_inv :: "command_queue \<Rightarrow> bool" where
  "queue_inv q \<longleftrightarrow> lanes_inv q \<and> busy_except {} q \<and> entries_inv q \<and> waits_inv q \<and> waits_pending q"

inductive queue_step :: "command_queue \<Rightarrow> command_queue \<Rightarrow> bool" where
  step_enqueue: "queue_step q (enqueueCommandInLane now l warnAfter hasOnWait q)"
| step_settle: "r \<in> set (running q) \<Longrightarrow> queue_step q (taskSettled now r ok q)"
| step_concurrency: "queue_step q (setCommandLaneConcurrency now l m q)"
| step_clear: "queue_step q (snd (clearCommandLane l q))"
| step_reset: "queue_step q (resetAllLanes now q)"
| step_markDraining: "queue_step q (markGatewayDraining q)"
| step_wait: "queue_step q (waitForActiveTasks timeoutMs q)"
| step_timeout: "w \<in> set (activeTaskWaiters q) \<Longrightarrow> queue_step q (waiterTimeout w q)"

definition queue_reachable :: "command_queue \<Rightarrow> bool" where
  "queue_reachable q \<longleftrightarrow> reach (\<lambda>s. s = initialQueueState) queue_step q"

lemma queue_inv_initial: "queue_inv initialQueueState"
  by (simp add: queue_inv_def initialQueueState_def lanes_inv_def busy_except_def entries_inv_def
      promises_def queuedIds_def runningIds_def waits_inv_def waits_pending_def)

text \<open>A lane whose active tasks, generation and name stay may change its other fields.\<close>

lemma put_lanes_inv:
  assumes inv: "lanes_inv q" and get: "mapGet (lanes q) k = Some ls"
    and same: "lane ls' = lane ls" "draining ls' = draining ls" "generation ls' = generation ls"
      "activeTaskIds ls' = activeTaskIds ls" "1 \<le> maxConcurrent ls'"
    and q': "lanes q' = mapSet k ls' (lanes q)" "running q' = running q" "nextTaskId q' = nextTaskId q"
  shows "lanes_inv q'"
proof -
  note ls = lanes_invD [OF inv get]
  have "\<forall>r \<in> set (running q). taskLane r = k \<longrightarrow> taskGeneration r \<le> generation ls"
    using inv get by (fastforce simp: lanes_inv_def task_ok_def)
  with inv ls same q' show ?thesis
    by (intro lanes_inv_put [OF inv get, where ls' = ls' and run' = "running q"
          and nid' = "nextTaskId q"]) (simp_all add: lanes_inv_def task_ok_def)
qed

lemma put_frame:
  assumes "lanes_inv q" "mapGet (lanes q) k = Some ls" "activeTaskIds ls' = activeTaskIds ls"
    "lanes q' = mapSet k ls' (lanes q)" "activeTaskWaiters q' = activeTaskWaiters q"
    "drains q' = drains q" "nextWaiterId q' = nextWaiterId q"
  shows "waits_frame q q'"
  using hasPending_put [OF _ assms(2,4)] assms by (simp add: waits_frame_def lanes_inv_def)

text \<open>Change such a lane and drain it, as \<open>enqueueCommandInLane\<close> and \<open>setCommandLaneConcurrency\<close> do.\<close>

lemma update_and_drain_inv:
  assumes inv: "queue_inv q" and g: "getLaneState k q = (ls, q1)"
    and same: "lane ls' = lane ls" "draining ls' = draining ls" "generation ls' = generation ls"
      "activeTaskIds ls' = activeTaskIds ls" "1 \<le> maxConcurrent ls'"
    and q2: "lanes q2 = mapSet k ls' (lanes q1)" "running q2 = running q1"
      "nextTaskId q2 = nextTaskId q1" "activeTaskWaiters q2 = activeTaskWaiters q1"
      "drains q2 = drains q1" "nextWaiterId q2 = nextWaiterId q1"
    and entries: "mset (map entryId (queue ls')) + mset (map fst (outcomes q2)) + mset [0..<nextEntryId q]
      = mset (map entryId (queue ls)) + mset (map fst (outcomes q1)) + mset [0..<nextEntryId q2]"
  shows "queue_inv (drainLane now k q2)"
proof -
  have inv0: "lanes_inv q" and inv1: "lanes_inv q1" and get: "mapGet (lanes q1) k = Some ls"
    using inv getLaneState_lanes [of q k] by (simp_all add: g queue_inv_def)
  have wf: "wfMap (lanes q1)" using inv1 by (simp add: lanes_inv_def)
  have inv2: "lanes_inv q2" by (rule put_lanes_inv [OF inv1 get same q2(1,2,3)])
  have "busy_except {} q1"
    using getLaneState_busy [OF inv0, of "{}" k] inv by (simp add: g queue_inv_def)
  then have "busy_except {k} q2"
    by (intro busy_except_put [OF wf _ _ _ q2(1)]) auto
  then have "busy_except {} (drainLane now k q2)" by (rule drainLane_busy [OF inv2])
  moreover have "entries_inv (drainLane now k q2)"
  proof -
    have "promises q1 = mset [0..<nextEntryId q]"
      using inv getLaneState_promises [of k q] by (simp add: queue_inv_def entries_inv_def g)
    moreover have "mset (queuedIds q2) + mset (map entryId (queue ls)) =
        mset (queuedIds q1) + mset (map entryId (queue ls'))"
      by (rule mset_queuedIds_put [OF wf get q2(1)])
    ultimately have "promises q2 = mset [0..<nextEntryId q2]"
      using entries unfolding promises_def runningIds_def q2(2)
      by (smt (verit) add.assoc add.commute add_left_imp_eq)
    then show ?thesis
      using drainLane_promises [OF inv2] by (simp add: entries_inv_def)
  qed
  moreover have "waits_frame q1 q2"
    by (rule put_frame [OF inv1 get same(4) q2(1,4,5,6)])
  then have "waits_frame q (drainLane now k q2)"
    using getLaneState_frame [of q k] drainLane_frame [OF inv2]
    by (auto simp: g intro: waits_frame_trans)
  ultimately show ?thesis
    using inv inv2 by (simp add: queue_inv_def drainLane_lanes_inv waits_frameD)
qed

lemma getLaneState_outcomes [simp]: "outcomes (snd (getLaneState k q)) = outcomes q"
  by (simp add: getLaneState_def putLane_def split: option.splits)

lemma enqueue_inv [inv_intros]:
  assumes "queue_inv q"
  shows "queue_inv (enqueueCommandInLane now l warnAfter hasOnWait q)"
proof (cases "gatewayDraining q")
  case True
  with assms show ?thesis
    by (auto simp: enqueueCommandInLane_def queue_inv_def lanes_inv_def task_ok_def
        busy_except_def entries_inv_def promises_def queuedIds_def runningIds_def waits_inv_def
        waits_pending_def hasPendingActiveTasks_def)
next
  case False
  obtain ls q1 where g: "getLaneState (normalizeLane l) q = (ls, q1)"
    by (cases "getLaneState (normalizeLane l) q")
  then have "mapGet (lanes q1) (normalizeLane l) = Some ls" "lanes_inv q1"
    using getLaneState_lanes [of q "normalizeLane l"] assms by (simp_all add: queue_inv_def)
  with lanes_invD(3) have max: "1 \<le> maxConcurrent ls" by blast
  define e where "e = \<lparr>entryId = nextEntryId q, enqueuedAt = now,
      warnAfterMs = coalesce warnAfter 2000, onWait = hasOnWait\<rparr>"
  define ls' where "ls' = ls\<lparr>queue := queue ls @ [e]\<rparr>"
  have "enqueueCommandInLane now l warnAfter hasOnWait q =
      drainLane now (normalizeLane l)
        (putLane (normalizeLane l) ls' (q1\<lparr>nextEntryId := Suc (nextEntryId q)\<rparr>))"
    using False by (simp add: enqueueCommandInLane_def g e_def ls'_def Let_def)
  moreover have "queue_inv (drainLane now (normalizeLane l)
        (putLane (normalizeLane l) ls' (q1\<lparr>nextEntryId := Suc (nextEntryId q)\<rparr>)))"
    using max
    by (intro update_and_drain_inv [OF assms g, where ls' = ls'])
       (simp_all add: ls'_def e_def putLane_def)
  ultimately show ?thesis by simp
qed

lemma setConcurrency_inv [inv_intros]:
  assumes "queue_inv q"
  shows "queue_inv (setCommandLaneConcurrency now l m q)"
proof -
  obtain ls q1 where g: "getLaneState (normalizeLane l) q = (ls, q1)"
    by (cases "getLaneState (normalizeLane l) q")
  have "nextEntryId q1 = nextEntryId q"
    using getLaneState_promises(2) [of "normalizeLane l" q] by (simp add: g)
  then have "queue_inv (drainLane now (normalizeLane l)
      (putLane (normalizeLane l) (ls\<lparr>maxConcurrent := nat (max 1 \<lfloor>m\<rfloor>)\<rparr>) q1))"
    by (intro update_and_drain_inv [OF assms g,
          where ls' = "ls\<lparr>maxConcurrent := nat (max 1 \<lfloor>m\<rfloor>)\<rparr>"])
       (auto simp: putLane_def)
  then show ?thesis by (simp add: setCommandLaneConcurrency_def g Let_def)
qed

lemma clear_inv [inv_intros]:
  assumes "queue_inv q"
  shows "queue_inv (snd (clearCommandLane l q))"
proof (cases "mapGet (lanes q) (normalizeLane l)")
  case (Some ls)
  define k where "k = normalizeLane l"
  define q' where "q' = snd (clearCommandLane l q)"
  have get: "mapGet (lanes q) k = Some ls" using Some by (simp add: k_def)
  have q': "lanes q' = mapSet k (ls\<lparr>queue := []\<rparr>) (lanes q)" "running q' = running q"
    "nextTaskId q' = nextTaskId q" "activeTaskWaiters q' = activeTaskWaiters q"
    "drains q' = drains q" "nextWaiterId q' = nextWaiterId q" "nextEntryId q' = nextEntryId q"
    "outcomes q' = outcomes q @ map (\<lambda>e. (entryId e, RejectedLaneCleared)) (queue ls)"
    using Some by (simp_all add: q'_def clearCommandLane_def k_def putLane_def Let_def)
  have inv: "lanes_inv q" using assms by (simp add: queue_inv_def)
  have wf: "wfMap (lanes q)" using inv by (simp add: lanes_inv_def)
  have "lanes_inv q'"
    using lanes_invD(3) [OF inv get] q'
    by (intro put_lanes_inv [OF inv get, where ls' = "ls\<lparr>queue := []\<rparr>"]) simp_all
  moreover have "busy_except {} q'"
    using assms by (intro busy_except_put [OF wf _ _ _ q'(1), of "{}"])
      (auto simp: queue_inv_def busy_def)
  moreover have "entries_inv q'"
  proof -
    have "promises q' = (mset (queuedIds q') + mset (map entryId (queue ls))) +
        mset (runningIds q) + mset (map fst (outcomes q))"
      by (simp add: promises_def runningIds_def q' comp_def ac_simps)
    also have "mset (queuedIds q') + mset (map entryId (queue ls)) = mset (queuedIds q)"
      using mset_queuedIds_put [OF wf get q'(1)] by simp
    finally have "promises q' = promises q" by (simp add: promises_def)
    then show ?thesis using assms q' by (simp add: queue_inv_def entries_inv_def)
  qed
  moreover have "waits_frame q q'"
    by (rule put_frame [OF inv get _ q'(1,4,5,6)]) simp
  ultimately show ?thesis
    using assms by (simp add: queue_inv_def waits_frameD q'_def)
qed (use assms in \<open>simp add: clearCommandLane_def Let_def\<close>)

lemma task_lane:
  assumes "lanes_inv q" "r \<in> set (running q)"
  obtains ls where "mapGet (lanes q) (taskLane r) = Some ls" "taskGeneration r \<le> generation ls"
  using assms by (auto simp: lanes_inv_def task_ok_def)

lemma distinct_taskId_remove1:
  assumes "distinct (map taskId rs)" "r \<in> set rs"
  shows "set (remove1 r rs) = set rs - {r}"
    and "x \<in> set rs \<Longrightarrow> x \<noteq> r \<Longrightarrow> taskId x \<noteq> taskId r"
  using assms by (auto simp: distinct_map inj_on_def)

text \<open>The state in which a finished task has left its lane, before anybody is told.\<close>

lemma completeTask_lanes_inv:
  assumes inv: "lanes_inv q" and r: "r \<in> set (running q)"
    and get: "mapGet (lanes q) (taskLane r) = Some ls"
    and ls': "completeTask ls (taskId r) (taskGeneration r) = (current, ls')"
    and q': "lanes q' = mapSet (taskLane r) ls' (lanes q)" "running q' = remove1 r (running q)"
      "nextTaskId q' = nextTaskId q"
  shows "lanes_inv q'"
proof -
  let ?k = "taskLane r"
  note ls = lanes_invD [OF inv get]
  have dist: "distinct (map taskId (running q))" using inv by (simp add: lanes_inv_def)
  note rem = distinct_taskId_remove1 [OF dist r]
  have gens: "\<forall>x \<in> set (running q). taskLane x = ?k \<longrightarrow> taskGeneration x \<le> generation ls"
    and lts: "\<forall>x \<in> set (running q). taskId x < nextTaskId q"
    using inv get by (fastforce simp: lanes_inv_def task_ok_def)+
  have "set (activeTaskIds ls') = taskId ` {x \<in> set (remove1 r (running q)).
      taskLane x = ?k \<and> taskGeneration x = generation ls}"
  proof (cases "taskGeneration r = generation ls")
    case True
    then have "set (activeTaskIds ls') = set (activeTaskIds ls) - {taskId r}"
      using ls' by (auto simp: completeTask_def split: if_splits)
    then show ?thesis unfolding rem(1) ls(5) using rem(2) by auto
  next
    case False
    then have "ls' = ls" using ls' by (auto simp: completeTask_def split: if_splits)
    then show ?thesis unfolding rem(1) using ls(5) False by auto
  qed
  moreover have "distinct (map taskId (remove1 r (running q)))"
    using dist by (metis distinct_remove1 distinct_map inj_on_subset set_remove1_subset)
  moreover have "lane ls' = ?k" "\<not> draining ls'" "1 \<le> maxConcurrent ls'"
    "distinct (activeTaskIds ls')" "generation ls' = generation ls"
    using ls(1-4) ls' by (auto simp: completeTask_def distinct_removeAll split: if_splits)
  ultimately show ?thesis
    using gens lts q' rem(1)
    by (intro lanes_inv_put [OF inv get, where ls' = ls' and run' = "remove1 r (running q)"
          and nid' = "nextTaskId q"]) auto
qed

lemma taskSettled_inv [inv_intros]:
  assumes "queue_inv q" and r: "r \<in> set (running q)"
  shows "queue_inv (taskSettled now r ok q)"
proof -
  let ?k = "taskLane r"
  have inv: "lanes_inv q" using assms by (simp add: queue_inv_def)
  have wf: "wfMap (lanes q)" using inv by (simp add: lanes_inv_def)
  obtain ls where get: "mapGet (lanes q) ?k = Some ls" and gen: "taskGeneration r \<le> generation ls"
    using task_lane [OF inv r] by blast
  obtain current ls' where c: "completeTask ls (taskId r) (taskGeneration r) = (current, ls')"
    by (cases "completeTask ls (taskId r) (taskGeneration r)")
  define q1 where "q1 = putLane ?k ls' (q\<lparr>running := remove1 r (running q)\<rparr>)"
  define q2 where "q2 = (if current then pump now ?k (notifyActiveTaskWaiters q1) else q1)"
  have eq: "taskSettled now r ok q =
      q2\<lparr>outcomes := outcomes q2 @ [(entryId (taskEntry r), if ok then Resolved else Rejected)]\<rparr>"
    by (simp add: taskSettled_def get c q1_def q2_def Let_def)
  have q1: "lanes q1 = mapSet ?k ls' (lanes q)" "running q1 = remove1 r (running q)"
    "nextTaskId q1 = nextTaskId q" "activeTaskWaiters q1 = activeTaskWaiters q"
    "drains q1 = drains q" "nextWaiterId q1 = nextWaiterId q" "outcomes q1 = outcomes q"
    "nextEntryId q1 = nextEntryId q"
    by (simp_all add: q1_def putLane_def)
  have inv1: "lanes_inv q1" by (rule completeTask_lanes_inv [OF inv r get c q1(1,2,3)])
  have waits1: "waits_inv q1" using assms q1 by (simp add: queue_inv_def waits_inv_def)
  have promises1: "promises q1 + {#entryId (taskEntry r)#} = promises q"
  proof -
    have "queue ls' = queue ls" using c by (auto simp: completeTask_def split: if_splits)
    then have "mset (queuedIds q1) = mset (queuedIds q)"
      using mset_queuedIds_put [OF wf get q1(1)] by simp
    moreover have "mset (running q) = add_mset r (mset (running q1))"
      using r by (simp add: q1)
    then have "mset (runningIds q) = mset (runningIds q1) + {#entryId (taskEntry r)#}"
      by (simp add: runningIds_def)
    ultimately show ?thesis by (simp add: promises_def q1)
  qed
  have "lanes_inv q2 \<and> busy_except {} q2 \<and> waits_inv q2 \<and> waits_pending q2 \<and>
      promises q2 = promises q1 \<and> nextEntryId q2 = nextEntryId q1"
  proof (cases current)
    case True
    define q1' where "q1' = notifyActiveTaskWaiters q1"
    note n = notifyActiveTaskWaiters_waits [OF waits1, folded q1'_def]
    have get': "mapGet (lanes q1') ?k = Some ls'"
      using core_eqD(1) [OF n(1)] q1 by simp
    have inv': "lanes_inv q1'" using core_frame(1) [OF n(1)] inv1 by simp
    have "busy_except {?k} q1"
      using assms by (intro busy_except_put [OF wf _ _ _ q1(1), of "{}"]) (auto simp: queue_inv_def)
    then have "busy_except {} q2"
      using core_frame(2) [OF n(1)] pump_busy [OF inv' get', of "{}" now] True
      by (simp add: q2_def q1'_def)
    moreover have "waits_frame q1' q2"
      using pump_frame [OF inv' get', of now] True by (simp add: q2_def q1'_def)
    ultimately show ?thesis
      using True inv' pump_lanes_inv [OF inv' get'] pump_promises [OF inv' get'] n core_frame(3,4) [OF n(1)]
      by (simp add: q2_def q1'_def waits_frameD)
  next
    case False
    then have ls': "ls' = ls" using c by (auto simp: completeTask_def split: if_splits)
    have same: "lanes q1 = lanes q" using q1(1) get by (simp add: ls' update_triv)
    have "busy_except {} q1" using assms same by (simp add: busy_except_def queue_inv_def)
    moreover have "waits_pending q1"
      using assms hasPending_lanes [OF same] by (simp add: queue_inv_def waits_pending_def q1)
    ultimately show ?thesis using False inv1 waits1 by (simp add: q2_def)
  qed
  then have fin: "lanes_inv q2" "busy_except {} q2" "waits_inv q2" "waits_pending q2"
    "promises q2 + {#entryId (taskEntry r)#} = mset [0..<nextEntryId q2]"
    using promises1 assms q1(8) by (simp_all add: queue_inv_def entries_inv_def)
  then show ?thesis
    unfolding eq
    by (simp add: queue_inv_def lanes_inv_def task_ok_def busy_except_def entries_inv_def
        promises_def queuedIds_def runningIds_def waits_inv_def waits_pending_def
        hasPendingActiveTasks_def)
qed

lemma fold_drainLane:
  assumes "lanes_inv q" "busy_except (K \<union> set ks) q"
  shows "lanes_inv (fold (drainLane now) ks q) \<and> busy_except K (fold (drainLane now) ks q) \<and>
    promises (fold (drainLane now) ks q) = promises q \<and>
    nextEntryId (fold (drainLane now) ks q) = nextEntryId q \<and>
    waits_frame q (fold (drainLane now) ks q)"
  using assms
proof (induction ks arbitrary: q)
  case (Cons k ks)
  have inv: "lanes_inv (drainLane now k q)" by (rule drainLane_lanes_inv [OF Cons.prems(1)])
  have "busy_except (insert k (K \<union> set ks)) q" using Cons.prems(2) by simp
  then have "busy_except (K \<union> set ks) (drainLane now k q)"
    by (rule drainLane_busy [OF Cons.prems(1)])
  note ih = Cons.IH [OF inv this]
  have "waits_frame q (fold (drainLane now) ks (drainLane now k q))"
    using ih waits_frame_trans [OF drainLane_frame [OF Cons.prems(1)]] by blast
  with ih show ?case
    using drainLane_promises [OF Cons.prems(1)] by simp
qed (simp add: waits_frame_def)

definition resetLanes :: "command_queue \<Rightarrow> command_queue" where
  \<comment> \<open>the first pass of \<open>resetAllLanes\<close>\<close>
  "resetLanes q = q\<lparr>gatewayDraining := False, lanes := map (\<lambda>(k, ls). (k, resetLane ls)) (lanes q)\<rparr>"

lemma mapGet_resetLanes: "mapGet (lanes (resetLanes q)) k = map_option resetLane (mapGet (lanes q) k)"
  by (simp add: resetLanes_def map_of_map)

lemma resetLanes_lanes_inv:
  assumes "lanes_inv q"
  shows "lanes_inv (resetLanes q)"
proof -
  have wf: "wfMap (lanes q)" using assms by (simp add: lanes_inv_def)
  have gen: "taskGeneration r \<le> generation ls"
    if "r \<in> set (running q)" "(taskLane r, ls) \<in> set (lanes q)" for r ls
    using task_lane [OF assms that(1)] that(2) mapGet_in_set [OF wf] by (metis option.inject)
  have "lane_ok (running q) (k, resetLane ls)" if p: "(k, ls) \<in> set (lanes q)" for k ls
  proof -
    have "lane_ok (running q) (k, ls)" using assms p by (simp add: lanes_inv_def)
    moreover have "{r \<in> set (running q). taskLane r = k \<and> taskGeneration r = Suc (generation ls)} = {}"
      using gen p by fastforce
    ultimately show ?thesis by (simp add: lane_ok_def resetLane_def)
  qed
  moreover have "task_ok (resetLanes q) r" if r: "r \<in> set (running q)" for r
  proof -
    have "taskId r < nextTaskId q" using assms r by (simp add: lanes_inv_def task_ok_def)
    then show ?thesis
      using task_lane [OF assms r] mapGet_resetLanes [of q "taskLane r"]
      by (fastforce simp: task_ok_def resetLane_def resetLanes_def)
  qed
  moreover have "mapKeys (lanes (resetLanes q)) = mapKeys (lanes q)"
    by (simp add: resetLanes_def comp_def case_prod_beta)
  then have "wfMap (lanes (resetLanes q))" using wf by (simp only: wfMap_def)
  moreover have "distinct (map taskId (running q))" using assms by (simp add: lanes_inv_def)
  ultimately show ?thesis
    by (auto simp: lanes_inv_def) (auto simp: resetLanes_def)
qed

lemma reset_inv [inv_intros]:
  assumes "queue_inv q"
  shows "queue_inv (resetAllLanes now q)"
proof -
  define ks where "ks = map lane (filter (\<lambda>ls. queue ls \<noteq> []) (mapValues (lanes q)))"
  define q2 where "q2 = fold (drainLane now) ks (resetLanes q)"
  have eq: "resetAllLanes now q = notifyActiveTaskWaiters q2"
    by (simp add: resetAllLanes_def ks_def q2_def resetLanes_def Let_def)
  have inv: "lanes_inv q" using assms by (simp add: queue_inv_def)
  have inv1: "lanes_inv (resetLanes q)" by (rule resetLanes_lanes_inv [OF inv])
  have "k \<in> set ks" if "(k, ls) \<in> set (lanes q)" "queue ls \<noteq> []" for k ls
    using that inv by (force simp: ks_def lanes_inv_def lane_ok_def)
  then have "busy_except ({} \<union> set ks) (resetLanes q)"
    by (force simp: busy_except_def resetLanes_def resetLane_def busy_def)
  note f = fold_drainLane [OF inv1 this, of now, folded q2_def]
  have "mapValues (lanes (resetLanes q)) = map resetLane (mapValues (lanes q))"
    by (simp add: resetLanes_def comp_def case_prod_beta)
  then have "promises (resetLanes q) = promises q"
    by (simp add: promises_def queuedIds_def runningIds_def comp_def resetLane_def)
      (simp add: resetLanes_def)
  then have "entries_inv q2"
    using f assms by (simp add: queue_inv_def entries_inv_def resetLanes_def)
  moreover have "waits_inv q2"
  proof -
    have "waits_inv q2 = waits_inv (resetLanes q)" using f waits_frameD(1) by blast
    then show ?thesis using assms by (simp add: queue_inv_def waits_inv_def resetLanes_def)
  qed
  note n = notifyActiveTaskWaiters_waits [OF this]
  ultimately show ?thesis
    using f n core_frame [OF n(1)] by (simp add: eq queue_inv_def entries_inv_def)
qed

lemma markDraining_inv [inv_intros]: "queue_inv q \<Longrightarrow> queue_inv (markGatewayDraining q)"
  by (simp add: markGatewayDraining_def queue_inv_def lanes_inv_def task_ok_def busy_except_def
      entries_inv_def promises_def queuedIds_def runningIds_def waits_inv_def waits_pending_def
      hasPendingActiveTasks_def)

lemma set_fold_setAdd: "set (fold setAdd xs acc) = set xs \<union> set acc"
  by (induction xs arbitrary: acc) auto

lemma set_activeAtStart:
  "set (fold (\<lambda>ls acc. fold setAdd (activeTaskIds ls) acc) lss acc) =
    (\<Union>ls \<in> set lss. set (activeTaskIds ls)) \<union> set acc"
  by (induction lss arbitrary: acc) (auto simp: set_fold_setAdd)

lemma waits_only_inv:
  assumes "queue_inv q" "core q' = core (q\<lparr>nextWaiterId := nextWaiterId q'\<rparr>)"
    "waits_inv q'" "waits_pending q'"
  shows "queue_inv q'"
proof -
  have "lanes_inv q' = lanes_inv q" "busy_except {} q' = busy_except {} q"
    "promises q' = promises q" "nextEntryId q' = nextEntryId q"
    using core_eqD [OF assms(2)]
    by (simp_all add: lanes_inv_def task_ok_def busy_except_def promises_def queuedIds_def runningIds_def)
  then show ?thesis using assms by (simp add: queue_inv_def entries_inv_def)
qed

lemma waits_inv_less:
  assumes "waits_inv q" "w \<in> set (activeTaskWaiters q)"
  shows "waiterId w < nextWaiterId q"
proof -
  have "waiterId w \<in># mset (map waiterId (activeTaskWaiters q)) + mset (map fst (drains q))"
    using assms(2) by simp
  then have "waiterId w \<in># mset [0..<nextWaiterId q]"
    using assms(1) by (simp only: waits_inv_def)
  then show ?thesis by simp
qed

lemma wait_inv [inv_intros]:
  assumes "queue_inv q"
  shows "queue_inv (waitForActiveTasks timeoutMs q)"
proof -
  define ids where "ids = fold (\<lambda>ls acc. fold setAdd (activeTaskIds ls) acc) (mapValues (lanes q)) []"
  define w where "w = \<lparr>waiterId = nextWaiterId q, awaitedTaskIds = ids\<rparr>"
  define q1 where "q1 = q\<lparr>nextWaiterId := Suc (nextWaiterId q), timers := setAdd (waiterId w) (timers q),
      activeTaskWaiters := setAdd w (activeTaskWaiters q)\<rparr>"
  have eq: "waitForActiveTasks timeoutMs q =
     (if ids = [] then q\<lparr>nextWaiterId := Suc (nextWaiterId q), drains := drains q @ [(nextWaiterId q, True)]\<rparr>
      else if timeoutMs \<le> 0 then
        q\<lparr>nextWaiterId := Suc (nextWaiterId q), drains := drains q @ [(nextWaiterId q, False)]\<rparr>
      else notifyActiveTaskWaiters q1)"
    by (simp add: waitForActiveTasks_def ids_def [symmetric] w_def q1_def Let_def)
  have inv: "waits_inv q" "waits_pending q" using assms by (simp_all add: queue_inv_def)
  have settled: "queue_inv (q\<lparr>nextWaiterId := Suc (nextWaiterId q),
      drains := drains q @ [(nextWaiterId q, b)]\<rparr>)" for b
    using inv by (intro waits_only_inv [OF assms])
      (simp_all add: core_def waits_inv_def waits_pending_def hasPendingActiveTasks_def)
  have "waiterId w \<notin> waiterId ` set (activeTaskWaiters q)"
    using waits_inv_less [OF inv(1)] by (fastforce simp: w_def)
  then have "setAdd w (activeTaskWaiters q) = activeTaskWaiters q @ [w]"
    by (auto simp: setAdd_def)
  then have waits1: "waits_inv q1"
    using inv(1) by (simp add: waits_inv_def q1_def w_def)
  note n = notifyActiveTaskWaiters_waits [OF waits1]
  have "nextWaiterId (notifyActiveTaskWaiters q1) = Suc (nextWaiterId q)"
    using core_eqD(6) [OF n(1)] by (simp add: q1_def)
  then have "queue_inv (notifyActiveTaskWaiters q1)"
    using n by (intro waits_only_inv [OF assms]) (simp_all add: core_def q1_def)
  with settled show ?thesis by (simp add: eq)
qed

lemma timeout_inv [inv_intros]:
  assumes "queue_inv q"
  shows "queue_inv (waiterTimeout w q)"
proof (rule waits_only_inv [OF assms])
  let ?q = "q\<lparr>timers := setDelete (waiterId w) (timers q)\<rparr>"
  have inv: "waits_inv ?q" "waits_pending ?q"
    using assms by (simp_all add: queue_inv_def waits_inv_def waits_pending_def hasPendingActiveTasks_def)
  show "waits_inv (waiterTimeout w q)"
    unfolding waiterTimeout_def by (rule resolveActiveTaskWaiter_waits_inv [OF inv(1)])
  show "waits_pending (waiterTimeout w q)"
    using inv(2) by (auto simp: waiterTimeout_def resolveActiveTaskWaiter_def waits_pending_def
        hasPendingActiveTasks_def)
  show "core (waiterTimeout w q) = core (q\<lparr>nextWaiterId := nextWaiterId (waiterTimeout w q)\<rparr>)"
    by (simp add: waiterTimeout_def resolveActiveTaskWaiter_def core_def)
qed

lemma queue_step_inv: "queue_step q q' \<Longrightarrow> queue_inv q \<Longrightarrow> queue_inv q'"
  by (induction rule: queue_step.induct) (blast intro: inv_intros)+

interpretation queue: step_invariant "\<lambda>s. s = initialQueueState" queue_step queue_inv
  by unfold_locales (auto simp: queue_inv_initial queue_step_inv)

lemma reachable_queue_inv: "queue_reachable q \<Longrightarrow> queue_inv q"
  unfolding queue_reachable_def by (rule queue.reach_inv)

section \<open>Stale completions\<close>

lemma drainLane_lane_fields:
  assumes "lanes_inv q" "mapGet (lanes q) j = Some ls"
  shows "\<exists>ls'. mapGet (lanes (drainLane now k q)) j = Some ls' \<and> generation ls' = generation ls"
proof -
  let ?q1 = "snd (getLaneState k q)"
  note g = getLaneState_lanes [OF assms(1), of k]
  have j: "mapGet (lanes ?q1) j = Some ls"
    using assms(2) by (auto simp: getLaneState_def putLane_def mapGet_set split: option.splits)
  have "lanes (drainLane now k q) = mapSet k (pumpedLane (nextTaskId ?q1) (fst (getLaneState k q))
      \<lparr>draining := False\<rparr>) (lanes ?q1)"
    using pump_eq [OF g(2) lanes_invD(6) [OF g]] by (simp add: drainLane_eq [OF assms(1)] putLane_def)
  with j g(2) show ?thesis by (auto simp: mapGet_set)
qed

lemma fold_drainLane_fields:
  assumes "lanes_inv q" "mapGet (lanes q) j = Some ls"
  shows "\<exists>ls'. mapGet (lanes (fold (drainLane now) ks q)) j = Some ls' \<and>
    generation ls' = generation ls"
  using assms
proof (induction ks arbitrary: q ls)
  case (Cons k ks)
  from drainLane_lane_fields [OF Cons.prems, of now k] obtain ls' where
    ls': "mapGet (lanes (drainLane now k q)) j = Some ls'" "generation ls' = generation ls"
    by blast
  with Cons.IH [OF drainLane_lanes_inv [OF Cons.prems(1)] ls'(1)] show ?case by simp
qed simp

lemma reset_generation:
  assumes "queue_inv q" "mapGet (lanes q) j = Some ls"
  shows "\<exists>ls'. mapGet (lanes (resetAllLanes now q)) j = Some ls' \<and>
    generation ls' = Suc (generation ls)"
proof -
  define q2 where "q2 = fold (drainLane now)
      (map lane (filter (\<lambda>ls. queue ls \<noteq> []) (mapValues (lanes q)))) (resetLanes q)"
  have eq: "resetAllLanes now q = notifyActiveTaskWaiters q2"
    by (simp add: resetAllLanes_def q2_def resetLanes_def Let_def)
  have inv1: "lanes_inv (resetLanes q)"
    using assms by (auto simp: queue_inv_def resetLanes_lanes_inv)
  have "mapGet (lanes (resetLanes q)) j = Some (resetLane ls)"
    using assms(2) by (simp add: mapGet_resetLanes)
  from fold_drainLane_fields [OF inv1 this, of now] obtain ls' where
    "mapGet (lanes q2) j = Some ls'" "generation ls' = Suc (generation ls)"
    unfolding q2_def by (auto simp: resetLane_def)
  moreover have "lanes (notifyActiveTaskWaiters q2) = lanes q2"
  proof -
    have "core (fold notifyWaiter ws p) = core p" for ws p
      by (induction ws arbitrary: p) (simp_all add: notifyWaiter_def)
    then show ?thesis
      unfolding notifyActiveTaskWaiters_def by (rule core_eqD(1))
  qed
  ultimately show ?thesis by (simp add: eq)
qed

section \<open>Properties\<close>

text \<open>
  C7. No lost wake-up: in every state that any interleaving of enqueues, completions, lane clears,
  concurrency changes, restarts and waits can reach, no lane is stuck with its \<open>draining\<close> flag
  set, and a lane that still has queued work has all its slots taken.
\<close>

theorem queue_no_lost_wakeup:
  assumes "queue_reachable q" and "mapGet (lanes q) l = Some ls"
  shows "\<not> draining ls \<and> (queue ls = [] \<or> maxConcurrent ls \<le> length (activeTaskIds ls))"
proof -
  have inv: "queue_inv q" using assms(1) by (rule reachable_queue_inv)
  then have "busy ls"
    using mapGet_SomeD [OF assms(2)] by (auto simp: queue_inv_def busy_except_def)
  with inv lanes_invD(2) [OF _ assms(2)] show ?thesis by (auto simp: queue_inv_def busy_def)
qed

definition exampleQueue :: command_queue where
  "exampleQueue = enqueueCommandInLane 5 '' main '' (Some 1) True
     (enqueueCommandInLane 0 ''main'' None False initialQueueState)"

lemma exampleQueue_reachable: "queue_reachable exampleQueue"
proof -
  have "reach (\<lambda>s. s = initialQueueState) queue_step initialQueueState"
    by (rule reach_init) simp
  then have "reach (\<lambda>s. s = initialQueueState) queue_step
      (enqueueCommandInLane 0 ''main'' None False initialQueueState)"
    by (rule reach_step) (rule step_enqueue)
  then show ?thesis
    unfolding queue_reachable_def exampleQueue_def
    by (rule reach_step) (rule step_enqueue)
qed

lemma exampleQueue_values:
  "lanes exampleQueue = [(''main'',
     \<lparr>lane = ''main'', queue = [\<lparr>entryId = 1, enqueuedAt = 5, warnAfterMs = 1, onWait = True\<rparr>],
      activeTaskIds = [1], maxConcurrent = 1, draining = False, generation = 0\<rparr>)]"
  "running exampleQueue = [\<lparr>taskLane = ''main'', taskId = 1, taskGeneration = 0,
     taskEntry = \<lparr>entryId = 0, enqueuedAt = 0, warnAfterMs = 2000, onWait = False\<rparr>\<rparr>]"
  by code_simp+

theorem queue_no_lost_wakeup_witness:
  "queue_reachable exampleQueue \<and>
   mapGet (lanes exampleQueue) ''main'' = Some (snd (hd (lanes exampleQueue))) \<and>
   \<not> draining (snd (hd (lanes exampleQueue))) \<and>
   (queue (snd (hd (lanes exampleQueue))) = [] \<or>
    maxConcurrent (snd (hd (lanes exampleQueue))) \<le>
      length (activeTaskIds (snd (hd (lanes exampleQueue)))))"
proof -
  have get: "mapGet (lanes exampleQueue) ''main'' = Some (snd (hd (lanes exampleQueue)))"
    by (simp add: exampleQueue_values)
  show ?thesis
    using exampleQueue_reachable get queue_no_lost_wakeup [OF exampleQueue_reachable get] by blast
qed

text \<open>
  C21. Every promise handed out by an enqueue is in exactly one place in every reachable state:
  still queued, with a task that has not come back, or settled; so none is lost, none is run twice
  and none is settled twice.
\<close>

theorem queue_promises_exactly_once:
  assumes "queue_reachable q"
  shows "mset (concat (map (\<lambda>ls. map entryId (queue ls)) (mapValues (lanes q)))) +
      mset (map (entryId \<circ> taskEntry) (running q)) + mset (map fst (outcomes q)) =
    mset [0..<nextEntryId q]"
  using reachable_queue_inv [OF assms]
  by (simp add: queue_inv_def entries_inv_def promises_def queuedIds_def runningIds_def)

theorem queue_promises_exactly_once_witness:
  "queue_reachable exampleQueue \<and>
   mset (concat (map (\<lambda>ls. map entryId (queue ls)) (mapValues (lanes exampleQueue)))) +
     mset (map (entryId \<circ> taskEntry) (running exampleQueue)) + mset (map fst (outcomes exampleQueue)) =
   mset [0..<nextEntryId exampleQueue]"
  using exampleQueue_reachable queue_promises_exactly_once [OF exampleQueue_reachable] by blast

text \<open>
  Waits for active tasks: in every reachable state each wait that was started is either settled
  once or still registered, and a registered one waits for a task that is still active, so a
  restart or a completion never leaves a waiter behind whose tasks are all gone.
\<close>

theorem queue_waiters_settle:
  assumes "queue_reachable q"
  shows "mset (map waiterId (activeTaskWaiters q)) + mset (map fst (drains q)) =
      mset [0..<nextWaiterId q] \<and>
    (\<forall>w \<in> set (activeTaskWaiters q). hasPendingActiveTasks (awaitedTaskIds w) q)"
  using reachable_queue_inv [OF assms]
  by (simp add: queue_inv_def waits_inv_def waits_pending_def)

definition exampleWaiting :: command_queue where
  "exampleWaiting = waitForActiveTasks 1000 exampleQueue"

lemma exampleWaiting_reachable: "queue_reachable exampleWaiting"
  using exampleQueue_reachable unfolding queue_reachable_def exampleWaiting_def
  by (rule reach_step) (rule step_wait)

theorem queue_waiters_settle_witness:
  "queue_reachable exampleWaiting \<and> length (activeTaskWaiters exampleWaiting) = 1 \<and>
   list_all (\<lambda>w. hasPendingActiveTasks (awaitedTaskIds w) exampleWaiting) (activeTaskWaiters exampleWaiting)"
proof -
  have "length (activeTaskWaiters exampleWaiting) = 1" by code_simp
  then show ?thesis
    using exampleWaiting_reachable queue_waiters_settle [OF exampleWaiting_reachable]
    by (simp add: list_all_iff)
qed

text \<open>
  The pump loop starts the oldest queued entries in order and keeps the rest in order; it never
  takes a lane above its concurrency limit and stops only when the queue is empty or the lane full.
\<close>

theorem pumpLoop_fifo_bounded:
  assumes "\<forall>t \<in> set (activeTaskIds ls). t < nid"
    and "pumpLoop now ls nid [] [] = (ls', nid', started, waits)"
  shows "map taskEntry started @ queue ls' = queue ls \<and>
    activeTaskIds ls' = activeTaskIds ls @ map taskId started \<and>
    length (activeTaskIds ls') \<le> max (length (activeTaskIds ls)) (maxConcurrent ls) \<and>
    (queue ls' = [] \<or> maxConcurrent ls \<le> length (activeTaskIds ls'))"
proof -
  have eq: "ls' = pumpedLane nid ls" "started = startedTasks nid ls"
    using assms(2) unfolding pumpLoop_spec [OF assms(1)] by simp_all
  have "map taskEntry (map2 (startTask ls) xs ys) = ys" if "length xs = length ys" for xs ys
    using that by (induction xs ys rule: list_induct2) (auto simp: startTask_def)
  then have "map taskEntry started = take (capacity ls) (queue ls)"
    by (simp add: eq startedTasks_def)
  moreover have "busy ls'"
    by (auto simp: eq busy_def capacity_def min_def)
  ultimately show ?thesis
    by (auto simp: eq startedTasks_simps(1) busy_def capacity_def)
qed

theorem pumpLoop_fifo_bounded_witness:
  "\<exists>ls' nid' started waits.
     pumpLoop 3000 (newLane ''main''\<lparr>queue := [\<lparr>entryId = 4, enqueuedAt = 0, warnAfterMs = 2000, onWait = True\<rparr>,
        \<lparr>entryId = 7, enqueuedAt = 10, warnAfterMs = 2000, onWait = False\<rparr>]\<rparr>) 1 [] [] =
       (ls', nid', started, waits) \<and>
     map (entryId \<circ> taskEntry) started = [4] \<and> map entryId (queue ls') = [7] \<and>
     waits = [(4, 3000, 1)] \<and> length (activeTaskIds ls') \<le> 1"
proof -
  define ls where "ls = newLane ''main''\<lparr>queue := [\<lparr>entryId = 4, enqueuedAt = 0, warnAfterMs = 2000, onWait = True\<rparr>,
        \<lparr>entryId = 7, enqueuedAt = 10, warnAfterMs = 2000, onWait = False\<rparr>]\<rparr>"
  obtain ls' nid' started waits where p: "pumpLoop 3000 ls 1 [] [] = (ls', nid', started, waits)"
    by (cases "pumpLoop 3000 ls 1 [] []")
  have "\<forall>t \<in> set (activeTaskIds ls). t < 1" by (simp add: ls_def newLane_def)
  from pumpLoop_fifo_bounded [OF this p]
  have "length (activeTaskIds ls') \<le> max (length (activeTaskIds ls)) (maxConcurrent ls)" by blast
  then have "length (activeTaskIds ls') \<le> 1" by (simp add: ls_def newLane_def)
  moreover have "map (entryId \<circ> taskEntry) (fst (snd (snd (pumpLoop 3000 ls 1 [] [])))) = [4]"
    "map entryId (queue (fst (pumpLoop 3000 ls 1 [] []))) = [7]"
    "snd (snd (snd (pumpLoop 3000 ls 1 [] []))) = [(4, 3000, 1)]"
    unfolding ls_def by code_simp+
  ultimately show ?thesis using p unfolding ls_def [symmetric] by auto
qed

text \<open>
  Restart safety: when a task that was started before \<open>resetAllLanes\<close> comes back after it, it
  frees no slot and starts no work (the lanes stay exactly as they are); only its own promise settles.
\<close>

theorem stale_completion_ignored:
  assumes "queue_reachable q" and "r \<in> set (running q)"
  shows "lanes (taskSettled later r ok (resetAllLanes now q)) = lanes (resetAllLanes now q) \<and>
    outcomes (taskSettled later r ok (resetAllLanes now q)) =
      outcomes (resetAllLanes now q) @ [(entryId (taskEntry r), if ok then Resolved else Rejected)]"
proof -
  have inv: "queue_inv q" using assms(1) by (rule reachable_queue_inv)
  then obtain ls where "mapGet (lanes q) (taskLane r) = Some ls" "taskGeneration r \<le> generation ls"
    using task_lane assms(2) by (auto simp: queue_inv_def)
  with reset_generation [OF inv, of "taskLane r" ls now] obtain ls' where
    "mapGet (lanes (resetAllLanes now q)) (taskLane r) = Some ls'" "taskGeneration r < generation ls'"
    by auto
  then show ?thesis
    by (simp add: taskSettled_def completeTask_def putLane_def update_triv)
qed

theorem stale_completion_ignored_witness:
  "queue_reachable exampleQueue \<and> hd (running exampleQueue) \<in> set (running exampleQueue) \<and>
   lanes (taskSettled 30 (hd (running exampleQueue)) True (resetAllLanes 20 exampleQueue)) =
     lanes (resetAllLanes 20 exampleQueue)"
proof -
  have r: "hd (running exampleQueue) \<in> set (running exampleQueue)"
    by (simp add: exampleQueue_values)
  show ?thesis
    using exampleQueue_reachable r stale_completion_ignored [OF exampleQueue_reachable r] by blast
qed

end
