(* ===== verification/AuthRateLimit.thy ===== *)
theory AuthRateLimit
  imports Prelude
begin

text \<open>
  The limiter of failed authentication attempts of \<open>src/src/gateway/auth-rate-limit.ts\<close>: a map from
  \<open>scope:ip\<close> to the recent failures and the end of a lockout, kept by \<open>check\<close>,
  \<open>recordFailure\<close>, \<open>reset\<close>, \<open>prune\<close> and \<open>dispose\<close>. The clock reading of a call is its
  argument \<open>now\<close>.

  What the code takes from the address library \<open>ipaddr.js\<close> is a parameter of the model, the record
  \<open>ip_lib\<close>: the canonical form of an address (\<open>None\<close> for text that is no address) and whether a
  canonical address is a loopback address.
\<close>

section \<open>State\<close>

record ip_lib =
  normalizeIpAddress :: "string \<Rightarrow> string option"
  isLoopbackIpAddress :: "string \<Rightarrow> bool"

record rate_limit_config =
  cfgMaxAttempts :: "int option"
  cfgWindowMs :: "int option"
  cfgLockoutMs :: "int option"
  cfgExemptLoopback :: "bool option"
  cfgPruneIntervalMs :: "int option"

record rate_limit_entry =
  attempts :: "int list"
  lockedUntil :: "int option"

record rate_limit_check_result =
  allowed :: bool
  remaining :: int
  retryAfterMs :: int

record auth_rate_limiter =
  maxAttempts :: int
  windowMs :: int
  lockoutMs :: int
  exemptLoopback :: bool
  ipLib :: ip_lib
  entries :: "(string, rate_limit_entry) jsmap"
  pruneTimer :: bool

section \<open>Operations\<close>

definition resolveRemoteIp :: "ip_lib \<Rightarrow> string option \<Rightarrow> string option" where
  \<comment> \<open>\<open>resolveClientIp({ remoteAddr })\<close>: without trusted proxies the canonical remote address\<close>
  "resolveRemoteIp lib ip =
     (case ip of None \<Rightarrow> None
      | Some raw \<Rightarrow>
          (case normalizeIpAddress lib raw of
             None \<Rightarrow> None
           | Some n \<Rightarrow> if n = [] then None else Some n))"

definition normalizeRateLimitClientIp :: "ip_lib \<Rightarrow> string option \<Rightarrow> string" where
  "normalizeRateLimitClientIp lib ip =
     (case ip of
        Some raw \<Rightarrow>
          if startsWith raw ''browser-origin:'' then raw
          else coalesce (resolveRemoteIp lib ip) ''unknown''
      | None \<Rightarrow> coalesce (resolveRemoteIp lib ip) ''unknown'')"

definition createAuthRateLimiter ::
  "ip_lib \<Rightarrow> rate_limit_config option \<Rightarrow> auth_rate_limiter" where
  "createAuthRateLimiter lib config =
     (let opt = (\<lambda>f. case config of None \<Rightarrow> None | Some c \<Rightarrow> f c)
      in \<lparr>maxAttempts = coalesce (opt cfgMaxAttempts) 10,
          windowMs = coalesce (opt cfgWindowMs) 60000,
          lockoutMs = coalesce (opt cfgLockoutMs) 300000,
          exemptLoopback = (case config of None \<Rightarrow> True | Some c \<Rightarrow> coalesce (cfgExemptLoopback c) True),
          ipLib = lib,
          entries = [],
          pruneTimer = (coalesce (opt cfgPruneIntervalMs) 60000 > 0)\<rparr>)"

definition normalizeScope :: "string option \<Rightarrow> string" where
  "normalizeScope scope =
     (let t = trim (coalesce scope ''default'') in if t = [] then ''default'' else t)"

definition resolveKey :: "ip_lib \<Rightarrow> string option \<Rightarrow> string option \<Rightarrow> string \<times> string" where
  "resolveKey lib rawIp rawScope =
     (let ip = normalizeRateLimitClientIp lib rawIp; scope = normalizeScope rawScope
      in (scope @ '':'' @ ip, ip))"

definition isExempt :: "auth_rate_limiter \<Rightarrow> string \<Rightarrow> bool" where
  "isExempt l ip \<longleftrightarrow> exemptLoopback l \<and> isLoopbackIpAddress (ipLib l) ip"

definition slideWindow :: "int \<Rightarrow> rate_limit_entry \<Rightarrow> int \<Rightarrow> rate_limit_entry" where
  "slideWindow w e now = e\<lparr>attempts := filter (\<lambda>ts. ts > now - w) (attempts e)\<rparr>"

definition lockSet :: "rate_limit_entry \<Rightarrow> bool" where
  \<comment> \<open>\<open>entry.lockedUntil\<close> as a condition: set and not 0\<close>
  "lockSet e \<longleftrightarrow> (case lockedUntil e of None \<Rightarrow> False | Some t \<Rightarrow> t \<noteq> 0)"

definition stillLocked :: "rate_limit_entry \<Rightarrow> int \<Rightarrow> bool" where
  "stillLocked e now \<longleftrightarrow> lockSet e \<and> now < the (lockedUntil e)"

definition freshResult :: "auth_rate_limiter \<Rightarrow> rate_limit_check_result" where
  "freshResult l = \<lparr>allowed = True, remaining = maxAttempts l, retryAfterMs = 0\<rparr>"

definition check ::
  "int \<Rightarrow> string option \<Rightarrow> string option \<Rightarrow> auth_rate_limiter \<Rightarrow>
   rate_limit_check_result \<times> auth_rate_limiter" where
  "check now rawIp rawScope l =
     (let (key, ip) = resolveKey (ipLib l) rawIp rawScope
      in if isExempt l ip then (freshResult l, l)
         else
           (case mapGet (entries l) key of
              None \<Rightarrow> (freshResult l, l)
            | Some e \<Rightarrow>
                if stillLocked e now then
                  (\<lparr>allowed = False, remaining = 0, retryAfterMs = the (lockedUntil e) - now\<rparr>, l)
                else
                  (let e1 = (if lockSet e then e\<lparr>lockedUntil := None, attempts := []\<rparr> else e);
                       e2 = slideWindow (windowMs l) e1 now;
                       rem = max 0 (maxAttempts l - int (length (attempts e2)))
                   in (\<lparr>allowed = rem > 0, remaining = rem, retryAfterMs = 0\<rparr>,
                       l\<lparr>entries := mapSet key e2 (entries l)\<rparr>))))"

definition recordFailure ::
  "int \<Rightarrow> string option \<Rightarrow> string option \<Rightarrow> auth_rate_limiter \<Rightarrow> auth_rate_limiter" where
  "recordFailure now rawIp rawScope l =
     (let (key, ip) = resolveKey (ipLib l) rawIp rawScope
      in if isExempt l ip then l
         else
           (let e = (case mapGet (entries l) key of
                       None \<Rightarrow> \<lparr>attempts = [], lockedUntil = None\<rparr> | Some e \<Rightarrow> e);
                l1 = l\<lparr>entries := mapSet key e (entries l)\<rparr>
            in if stillLocked e now then l1
               else
                 (let e1 = slideWindow (windowMs l) e now;
                      e2 = e1\<lparr>attempts := attempts e1 @ [now]\<rparr>;
                      e3 = (if int (length (attempts e2)) \<ge> maxAttempts l
                            then e2\<lparr>lockedUntil := Some (now + lockoutMs l)\<rparr> else e2)
                  in l1\<lparr>entries := mapSet key e3 (entries l1)\<rparr>)))"

definition reset :: "string option \<Rightarrow> string option \<Rightarrow> auth_rate_limiter \<Rightarrow> auth_rate_limiter" where
  "reset rawIp rawScope l =
     (let (key, ip) = resolveKey (ipLib l) rawIp rawScope
      in l\<lparr>entries := mapDelete key (entries l)\<rparr>)"

definition pruneEntry :: "int \<Rightarrow> int \<Rightarrow> rate_limit_entry \<Rightarrow> rate_limit_entry option" where
  \<comment> \<open>the body of the loop of \<open>prune\<close> for one entry: what is left of it, if anything\<close>
  "pruneEntry w now e =
     (if stillLocked e now then Some e
      else
        (let e1 = slideWindow w e now
         in if attempts e1 = [] then None else Some e1))"

definition prune :: "int \<Rightarrow> auth_rate_limiter \<Rightarrow> auth_rate_limiter" where
  "prune now l =
     l\<lparr>entries := keepValues (pruneEntry (windowMs l) now) (entries l)\<rparr>"

definition size_of :: "auth_rate_limiter \<Rightarrow> nat" where
  "size_of l = length (entries l)"

definition dispose :: "auth_rate_limiter \<Rightarrow> auth_rate_limiter" where
  "dispose l = l\<lparr>pruneTimer := False, entries := []\<rparr>"

section \<open>Calls in any order\<close>

text \<open>
  \<open>OpAttempt\<close> is the use the gateway makes of the limiter for one failed login: \<open>check\<close>,
  then \<open>recordFailure\<close> if the check let the attempt through.
\<close>

datatype limiter_op =
    OpCheck int "string option" "string option"
  | OpFail int "string option" "string option"
  | OpAttempt int "string option" "string option"
  | OpReset "string option" "string option"
  | OpPrune int
  | OpDispose

definition failedAttempt ::
  "int \<Rightarrow> string option \<Rightarrow> string option \<Rightarrow> auth_rate_limiter \<Rightarrow> auth_rate_limiter" where
  "failedAttempt now ip scope l =
     (let (r, l1) = check now ip scope l
      in if allowed r then recordFailure now ip scope l1 else l1)"

fun applyOp :: "limiter_op \<Rightarrow> auth_rate_limiter \<Rightarrow> auth_rate_limiter" where
  "applyOp (OpCheck now ip scope) l = snd (check now ip scope l)"
| "applyOp (OpFail now ip scope) l = recordFailure now ip scope l"
| "applyOp (OpAttempt now ip scope) l = failedAttempt now ip scope l"
| "applyOp (OpReset ip scope) l = reset ip scope l"
| "applyOp (OpPrune now) l = prune now l"
| "applyOp OpDispose l = dispose l"

fun opTime :: "limiter_op \<Rightarrow> int option" where
  "opTime (OpCheck now ip scope) = Some now"
| "opTime (OpFail now ip scope) = Some now"
| "opTime (OpAttempt now ip scope) = Some now"
| "opTime (OpPrune now) = Some now"
| "opTime _ = None"

fun clearsKey :: "ip_lib \<Rightarrow> string \<Rightarrow> limiter_op \<Rightarrow> bool" where
  "clearsKey lib key (OpReset ip scope) = (fst (resolveKey lib ip scope) = key)"
| "clearsKey lib key OpDispose = True"
| "clearsKey lib key _ = False"

definition sameSettings :: "auth_rate_limiter \<Rightarrow> auth_rate_limiter \<Rightarrow> bool" where
  "sameSettings l l' \<longleftrightarrow> maxAttempts l' = maxAttempts l \<and> windowMs l' = windowMs l
     \<and> lockoutMs l' = lockoutMs l \<and> exemptLoopback l' = exemptLoopback l \<and> ipLib l' = ipLib l"

lemma prune_entries: "entries (prune now l) = keepValues (pruneEntry (windowMs l) now) (entries l)"
  by (simp add: prune_def)

lemma mapGet_prune:
  "wfMap (entries l) \<Longrightarrow> mapGet (entries (prune now l)) k =
     Option.bind (mapGet (entries l) k) (pruneEntry (windowMs l) now)"
  by (simp add: prune_entries mapGet_keepValues)

lemma wfMap_prune: "wfMap (entries l) \<Longrightarrow> wfMap (entries (prune now l))"
  by (simp add: prune_entries wfMap_keepValues)

lemma check_settings: "sameSettings l (snd (check now ip scope l))"
  by (simp add: sameSettings_def check_def Let_def split: prod.splits option.splits)

lemma recordFailure_settings: "sameSettings l (recordFailure now ip scope l)"
  by (simp add: sameSettings_def recordFailure_def Let_def split: prod.splits option.splits)

lemma check_wfMap: "wfMap (entries l) \<Longrightarrow> wfMap (entries (snd (check now ip scope l)))"
  by (simp add: check_def Let_def split: prod.splits option.splits)

lemma recordFailure_wfMap: "wfMap (entries l) \<Longrightarrow> wfMap (entries (recordFailure now ip scope l))"
  by (simp add: recordFailure_def Let_def split: prod.splits option.splits)

lemma applyOp_settings: "sameSettings l (applyOp x l)"
  by (cases x)
    (use check_settings recordFailure_settings in
      \<open>auto simp: sameSettings_def failedAttempt_def reset_def prune_def dispose_def split: prod.splits\<close>,
      (metis check_settings recordFailure_settings snd_conv sameSettings_def)+)

lemma applyOp_wfMap: "wfMap (entries l) \<Longrightarrow> wfMap (entries (applyOp x l))"
  by (cases x) (auto simp: failedAttempt_def check_wfMap recordFailure_wfMap reset_def wfMap_prune dispose_def
    case_prod_unfold Let_def)

section \<open>A lockout holds until it expires\<close>

definition heldUntil :: "string \<Rightarrow> int \<Rightarrow> auth_rate_limiter \<Rightarrow> bool" where
  "heldUntil key u l \<longleftrightarrow>
     wfMap (entries l) \<and> (\<exists>e. mapGet (entries l) key = Some e \<and> lockedUntil e = Some u)"

definition duringLock :: "ip_lib \<Rightarrow> string \<Rightarrow> int \<Rightarrow> limiter_op \<Rightarrow> bool" where
  "duringLock lib key u x \<longleftrightarrow>
     (case opTime x of None \<Rightarrow> True | Some now \<Rightarrow> now < u) \<and> \<not> clearsKey lib key x"

lemma check_held:
  assumes "heldUntil key u l" "u \<noteq> 0" "now < u"
  shows "heldUntil key u (snd (check now ip scope l))"
  using assms check_wfMap [of l now ip scope]
  by (auto simp: heldUntil_def check_def stillLocked_def lockSet_def Let_def mapGet_set
    split: prod.splits option.splits if_splits)

lemma recordFailure_held:
  assumes "heldUntil key u l" "u \<noteq> 0" "now < u"
  shows "heldUntil key u (recordFailure now ip scope l)"
  using assms recordFailure_wfMap [of l now ip scope]
  by (auto simp: heldUntil_def recordFailure_def stillLocked_def lockSet_def Let_def mapGet_set
    split: prod.splits option.splits if_splits)

lemma applyOp_held:
  assumes "heldUntil key u l \<and> ipLib l = lib \<and> u \<noteq> 0" and "duringLock lib key u x"
  shows "heldUntil key u (applyOp x l) \<and> ipLib (applyOp x l) = lib \<and> u \<noteq> 0"
proof -
  have lib: "ipLib (applyOp x l) = lib"
    using applyOp_settings [of l x] assms(1) by (simp add: sameSettings_def)
  have "heldUntil key u (applyOp x l)"
  proof (cases x)
    case (OpReset ip scope)
    with assms show ?thesis
      by (auto simp: duringLock_def heldUntil_def reset_def mapGet_delete split: prod.splits)
  next
    case (OpPrune now)
    with assms show ?thesis
      by (auto simp: duringLock_def heldUntil_def mapGet_prune wfMap_prune pruneEntry_def
        stillLocked_def lockSet_def)
  next
    case (OpAttempt now ip scope)
    with assms show ?thesis
      using check_held [of key u l now ip scope]
      by (auto simp: duringLock_def failedAttempt_def intro: recordFailure_held split: prod.splits)
  qed (use assms in \<open>auto simp: duringLock_def check_held recordFailure_held\<close>)
  with lib assms(1) show ?thesis by blast
qed

interpretation lockout:
  event_invariant applyOp "duringLock lib key u" "\<lambda>l. heldUntil key u l \<and> ipLib l = lib \<and> u \<noteq> 0"
  for lib key u
  by unfold_locales (rule applyOp_held)

lemma isExempt_settings: "sameSettings l l' \<Longrightarrow> isExempt l' ip = isExempt l ip"
  by (simp add: sameSettings_def isExempt_def)

lemma run_settings: "sameSettings l (fold applyOp xs l)"
proof (induction xs arbitrary: l)
  case (Cons x xs)
  show ?case using Cons [of "applyOp x l"] applyOp_settings [of l x] by (simp add: sameSettings_def)
qed (simp add: sameSettings_def)

lemma check_when_held:
  assumes "heldUntil key u l" "u \<noteq> 0" "now < u"
    and "resolveKey (ipLib l) ip scope = (key, addr)" "\<not> isExempt l addr"
  shows "check now ip scope l = (\<lparr>allowed = False, remaining = 0, retryAfterMs = u - now\<rparr>, l)"
  using assms by (auto simp: heldUntil_def check_def stillLocked_def lockSet_def Let_def)

text \<open>
  C16. A lockout is enforced: once the entry of a client is locked until \<open>u\<close>, whatever calls
  (checks, failures, prunes, of any client, in any order) arrive before \<open>u\<close>, the client is denied,
  with the exact time left, until \<open>u\<close>; only a \<open>reset\<close> of that client or \<open>dispose\<close> lifts it.
\<close>

theorem lockout_enforced:
  assumes "wfMap (entries l)"
    and "mapGet (entries l) key = Some e" "lockedUntil e = Some u" "u \<noteq> 0"
    and "resolveKey (ipLib l) ip scope = (key, addr)" "\<not> isExempt l addr"
    and "list_all (duringLock (ipLib l) key u) calls"
    and "now < u"
  shows "fst (check now ip scope (fold applyOp calls l)) =
     \<lparr>allowed = False, remaining = 0, retryAfterMs = u - now\<rparr>"
proof -
  let ?l = "fold applyOp calls l"
  have "heldUntil key u l \<and> ipLib l = ipLib l \<and> u \<noteq> 0"
    using assms(1-4) by (simp add: heldUntil_def)
  from lockout.run_inv [OF this assms(7)] have held: "heldUntil key u ?l" by blast
  have same: "sameSettings l ?l" by (rule run_settings)
  then have "resolveKey (ipLib ?l) ip scope = (key, addr)"
    using assms(5) by (simp add: sameSettings_def)
  moreover have "\<not> isExempt ?l addr"
    using assms(6) isExempt_settings [OF same] by simp
  ultimately show ?thesis
    by (simp add: check_when_held [OF held assms(4) assms(8)])
qed

section \<open>The sliding window\<close>

text \<open>
  The failures a run counts for one key: the times of the attempts on it that were let through.
\<close>

fun countedBy :: "string \<Rightarrow> auth_rate_limiter \<Rightarrow> limiter_op \<Rightarrow> int list" where
  "countedBy key l (OpAttempt now ip scope) =
     (let (k, addr) = resolveKey (ipLib l) ip scope
      in if k = key \<and> \<not> isExempt l addr \<and> allowed (fst (check now ip scope l)) then [now] else [])"
| "countedBy key l _ = []"

fun counted :: "string \<Rightarrow> auth_rate_limiter \<Rightarrow> limiter_op list \<Rightarrow> int list" where
  "counted key l [] = []"
| "counted key l (x # xs) = countedBy key l x @ counted key (applyOp x l) xs"

fun guardedOp :: "ip_lib \<Rightarrow> string \<Rightarrow> limiter_op \<Rightarrow> bool" where
  \<comment> \<open>no reset of the key, and no failure of it recorded without its check\<close>
  "guardedOp lib key (OpFail now ip scope) = (fst (resolveKey lib ip scope) \<noteq> key)"
| "guardedOp lib key x = (\<not> clearsKey lib key x)"

fun timesFrom :: "int \<Rightarrow> limiter_op list \<Rightarrow> bool" where
  "timesFrom t [] = True"
| "timesFrom t (x # xs) =
     (case opTime x of None \<Rightarrow> timesFrom t xs | Some now \<Rightarrow> t \<le> now \<and> timesFrom now xs)"

definition inWindow :: "int \<Rightarrow> int \<Rightarrow> int list \<Rightarrow> int list" where
  "inWindow w T ts = filter (\<lambda>t. T - w < t \<and> t \<le> T) ts"

definition windowBounded :: "auth_rate_limiter \<Rightarrow> int list \<Rightarrow> bool" where
  "windowBounded l ts \<longleftrightarrow> (\<forall>T. int (length (inWindow (windowMs l) T ts)) \<le> maxAttempts l)"

definition tracked :: "auth_rate_limiter \<Rightarrow> int \<Rightarrow> int list \<Rightarrow> rate_limit_entry option \<Rightarrow> bool" where
  \<comment> \<open>what the entry of a key knows of its counted failures \<open>R\<close> at time \<open>cur\<close>\<close>
  "tracked l cur R eo =
     (case eo of
        None \<Rightarrow> filter (\<lambda>t. t > cur - windowMs l) R = []
      | Some e \<Rightarrow>
          (case lockedUntil e of
             None \<Rightarrow> filter (\<lambda>t. t > cur - windowMs l) (attempts e)
                       = filter (\<lambda>t. t > cur - windowMs l) R
                     \<and> int (length (attempts e)) < maxAttempts l
           | Some u \<Rightarrow> 0 < u \<and> (\<forall>r \<in> set R. r + lockoutMs l \<le> u)))"

definition saneConfig :: "auth_rate_limiter \<Rightarrow> bool" where
  "saneConfig l \<longleftrightarrow> 1 \<le> maxAttempts l \<and> 0 < windowMs l \<and> windowMs l \<le> lockoutMs l"

definition windowInv :: "string \<Rightarrow> int \<Rightarrow> int list \<Rightarrow> auth_rate_limiter \<Rightarrow> bool" where
  "windowInv key cur R l \<longleftrightarrow>
     saneConfig l \<and> wfMap (entries l) \<and> 0 < cur \<and> (\<forall>r \<in> set R. r \<le> cur)
     \<and> windowBounded l R \<and> tracked l cur R (mapGet (entries l) key)"

lemma filter_later:
  assumes "cur \<le> now" "filter (\<lambda>t. t > cur - (w::int)) xs = filter (\<lambda>t. t > cur - w) ys"
  shows "filter (\<lambda>t. t > now - w) xs = filter (\<lambda>t. t > now - w) ys"
proof -
  have "filter (\<lambda>t. t > now - w) zs = filter (\<lambda>t. t > now - w) (filter (\<lambda>t. t > cur - w) zs)" for zs :: "int list"
    by (induction zs) (use assms(1) in auto)
  then show ?thesis by (metis assms(2))
qed

lemma tracked_later:
  assumes "tracked l cur R eo" "cur \<le> now"
  shows "tracked l now R eo"
proof (cases eo)
  case None
  then show ?thesis
    using assms filter_later [OF assms(2), of "windowMs l" R "[]"] by (simp add: tracked_def)
next
  case (Some e)
  then show ?thesis
    using assms(1) filter_later [OF assms(2), of "windowMs l" "attempts e" R]
    by (cases "lockedUntil e") (simp_all add: tracked_def)
qed

lemma windowInv_later: "windowInv key cur R l \<Longrightarrow> cur \<le> now \<Longrightarrow> windowInv key now R l"
  by (auto simp: windowInv_def intro: tracked_later order_trans)

lemma tracked_cong:
  "sameSettings l l' \<Longrightarrow> tracked l' cur R eo = tracked l cur R eo"
  by (simp add: tracked_def sameSettings_def split: option.splits)

lemma windowInv_cong:
  assumes "windowInv key cur R l" "sameSettings l l'" "wfMap (entries l')"
    and "tracked l cur R (mapGet (entries l') key)"
  shows "windowInv key cur R l'"
proof -
  have "saneConfig l' = saneConfig l" "windowBounded l' R = windowBounded l R"
    using assms(2) by (simp_all add: saneConfig_def windowBounded_def sameSettings_def)
  then show ?thesis
    using assms(1,3,4) tracked_cong [OF assms(2)] by (simp add: windowInv_def)
qed

lemma filter_expired:
  assumes "\<forall>r \<in> set R. r + L \<le> u" "u \<le> now" "w \<le> (L::int)"
  shows "filter (\<lambda>t. t > now - w) R = []"
  using assms by (fastforce simp: filter_empty_conv)

lemma tracked_slide:
  assumes "tracked l now R (Some e)" "lockedUntil e = None"
  shows "tracked l now R (Some (slideWindow (windowMs l) e now))"
  using assms length_filter_le [of "\<lambda>t. t > now - windowMs l" "attempts e"]
  by (simp add: tracked_def slideWindow_def)

lemma check_other:
  "fst (resolveKey (ipLib l) ip scope) \<noteq> key \<Longrightarrow>
   mapGet (entries (snd (check now ip scope l))) key = mapGet (entries l) key"
  by (auto simp: check_def Let_def split: prod.splits option.splits)

lemma recordFailure_other:
  "fst (resolveKey (ipLib l) ip scope) \<noteq> key \<Longrightarrow>
   mapGet (entries (recordFailure now ip scope l)) key = mapGet (entries l) key"
  by (auto simp: recordFailure_def Let_def split: prod.splits option.splits)

lemma tracked_cleared:
  assumes "tracked l now R (Some e)" "lockedUntil e = Some u" "u \<le> now" "saneConfig l"
  shows "tracked l now R (Some (slideWindow (windowMs l) (e\<lparr>lockedUntil := None, attempts := []\<rparr>) now))"
  using assms filter_expired [of R "lockoutMs l" u now "windowMs l"]
  by (auto simp: tracked_def slideWindow_def saneConfig_def)

lemma check_tracked:
  assumes "windowInv key now R l"
  shows "tracked l now R (mapGet (entries (snd (check now ip scope l))) key)"
proof (cases "fst (resolveKey (ipLib l) ip scope) = key")
  case False
  with assms show ?thesis by (simp add: check_other windowInv_def)
next
  case True
  then obtain addr where res: "resolveKey (ipLib l) ip scope = (key, addr)" by (metis prod.collapse)
  note tr = assms [unfolded windowInv_def]
  show ?thesis
  proof (cases "isExempt l addr \<or> mapGet (entries l) key = None")
    case True
    with res tr show ?thesis by (auto simp: check_def)
  next
    case False
    then obtain e where e: "mapGet (entries l) key = Some e" "\<not> isExempt l addr" by auto
    show ?thesis
    proof (cases "lockedUntil e")
      case None
      with res tr e tracked_slide [of l now R e] show ?thesis
        by (simp add: check_def stillLocked_def lockSet_def Let_def)
    next
      case (Some u)
      with tr e have "u \<noteq> 0" by (auto simp: tracked_def)
      with Some res tr e tracked_cleared [of l now R e u] show ?thesis
        by (simp add: check_def stillLocked_def lockSet_def Let_def)
    qed
  qed
qed

lemma check_inv: "windowInv key now R l \<Longrightarrow> windowInv key now R (snd (check now ip scope l))"
  by (rule windowInv_cong) (auto simp: check_settings check_wfMap check_tracked windowInv_def)

lemma check_unlocks:
  assumes "resolveKey (ipLib l) ip scope = (key, addr)" "\<not> isExempt l addr"
    and "allowed (fst (check now ip scope l))"
    and "mapGet (entries (snd (check now ip scope l))) key = Some e"
    and "windowInv key now R l"
  shows "lockedUntil e = None"
proof (cases "mapGet (entries l) key")
  case None
  with assms(1-4) show ?thesis by (simp add: check_def)
next
  case (Some e0)
  show ?thesis
  proof (cases "lockedUntil e0")
    case None
    with Some assms(1-4) show ?thesis
      by (auto simp: check_def stillLocked_def lockSet_def Let_def slideWindow_def)
  next
    case (Some u)
    with \<open>mapGet (entries l) key = Some e0\<close> assms show ?thesis
      by (auto simp: check_def stillLocked_def lockSet_def Let_def slideWindow_def windowInv_def
        tracked_def split: if_splits)
  qed
qed

lemma inWindow_before: "T < now \<Longrightarrow> inWindow w T (R @ [now]) = inWindow w T R"
  by (simp add: inWindow_def)

lemma inWindow_after:
  "now \<le> T \<Longrightarrow> length (inWindow w T R) \<le> length (filter (\<lambda>t. t > now - w) R)"
  by (induction R) (auto simp: inWindow_def)

lemma windowBounded_add:
  assumes "windowBounded l R" "int (length (filter (\<lambda>t. t > now - windowMs l) R)) < maxAttempts l"
  shows "windowBounded l (R @ [now])"
  unfolding windowBounded_def
proof
  fix T
  show "int (length (inWindow (windowMs l) T (R @ [now]))) \<le> maxAttempts l"
  proof (cases "T < now")
    case True
    with assms(1) show ?thesis by (simp add: inWindow_before windowBounded_def)
  next
    case False
    then have "length (inWindow (windowMs l) T (R @ [now]))
        \<le> Suc (length (filter (\<lambda>t. t > now - windowMs l) R))"
      using inWindow_after [of now T "windowMs l" R] by (simp add: inWindow_def)
    with assms(2) show ?thesis by linarith
  qed
qed

definition entryOr :: "rate_limit_entry option \<Rightarrow> rate_limit_entry" where
  "entryOr eo = (case eo of None \<Rightarrow> \<lparr>attempts = [], lockedUntil = None\<rparr> | Some e \<Rightarrow> e)"

lemma recordFailure_unlocked:
  assumes "resolveKey (ipLib l) ip scope = (key, addr)" "\<not> isExempt l addr"
    and "lockedUntil (entryOr (mapGet (entries l) key)) = None"
    and "as = filter (\<lambda>t. t > now - windowMs l) (attempts (entryOr (mapGet (entries l) key))) @ [now]"
  shows "\<exists>e. mapGet (entries (recordFailure now ip scope l)) key = Some e \<and> attempts e = as
    \<and> lockedUntil e = (if int (length as) \<ge> maxAttempts l then Some (now + lockoutMs l) else None)"
  using assms
  by (auto simp: recordFailure_def stillLocked_def lockSet_def Let_def slideWindow_def entryOr_def
      split: option.splits)

lemma tracked_added:
  assumes "0 < windowMs l" "0 < now" "0 < lockoutMs l" "\<forall>r \<in> set R. r \<le> now"
    and "attempts e = filter (\<lambda>t. t > now - windowMs l) R @ [now]"
    and "lockedUntil e = (if int (length (attempts e)) \<ge> maxAttempts l
                          then Some (now + lockoutMs l) else None)"
  shows "tracked l now (R @ [now]) (Some e)"
  using assms by (auto simp: tracked_def)

lemma recordFailure_inv:
  assumes inv: "windowInv key now R l"
    and res: "resolveKey (ipLib l) ip scope = (key, addr)" "\<not> isExempt l addr"
    and un: "lockedUntil (entryOr (mapGet (entries l) key)) = None"
  shows "windowInv key now (R @ [now]) (recordFailure now ip scope l)"
proof -
  let ?l = "recordFailure now ip scope l" and ?F = "filter (\<lambda>t. t > now - windowMs l)"
  have F: "?F (attempts (entryOr (mapGet (entries l) key))) = ?F R"
    and len: "int (length (?F R)) < maxAttempts l"
  proof -
    show F: "?F (attempts (entryOr (mapGet (entries l) key))) = ?F R"
      using inv un by (auto simp: windowInv_def tracked_def entryOr_def split: option.splits)
    have "int (length (attempts (entryOr (mapGet (entries l) key)))) < maxAttempts l"
      using inv un by (auto simp: windowInv_def tracked_def entryOr_def saneConfig_def split: option.splits)
    moreover have "length (?F R) \<le> length (attempts (entryOr (mapGet (entries l) key)))"
      unfolding F [symmetric] by (rule length_filter_le)
    ultimately show "int (length (?F R)) < maxAttempts l" by linarith
  qed
  obtain e where e: "mapGet (entries ?l) key = Some e" "attempts e = ?F R @ [now]"
    "lockedUntil e = (if int (length (attempts e)) \<ge> maxAttempts l then Some (now + lockoutMs l) else None)"
    using recordFailure_unlocked [OF res un refl, of now] F by auto
  have base: "0 < windowMs l" "0 < now" "0 < lockoutMs l" "\<forall>r \<in> set R. r \<le> now"
    using inv by (auto simp: windowInv_def saneConfig_def)
  have "windowBounded l (R @ [now])"
    using windowBounded_add [of l R now] inv len by (simp add: windowInv_def)
  moreover have "tracked l now (R @ [now]) (mapGet (entries ?l) key)"
    unfolding e(1) by (rule tracked_added [OF base e(2,3)])
  moreover have same: "sameSettings l ?l" by (rule recordFailure_settings)
  then have "saneConfig ?l = saneConfig l" "windowBounded ?l (R @ [now]) = windowBounded l (R @ [now])"
    by (simp_all add: saneConfig_def windowBounded_def sameSettings_def)
  ultimately show ?thesis
    using inv base(4) recordFailure_wfMap [of l now ip scope] tracked_cong [OF same]
    by (simp add: windowInv_def)
qed

lemma prune_tracked:
  assumes "windowInv key now R l"
  shows "tracked l now R (mapGet (entries (prune now l)) key)"
proof (cases "mapGet (entries l) key")
  case None
  with assms show ?thesis by (simp add: windowInv_def mapGet_prune)
next
  case (Some e)
  note tr = assms [unfolded windowInv_def Some]
  show ?thesis
  proof (cases "lockedUntil e")
    case None
    with tr Some tracked_slide [of l now R e] show ?thesis
      by (auto simp: mapGet_prune pruneEntry_def stillLocked_def lockSet_def Let_def tracked_def
        slideWindow_def)
  next
    case locked: (Some u)
    with tr have u: "u \<noteq> 0" "\<forall>r \<in> set R. r + lockoutMs l \<le> u" by (auto simp: tracked_def)
    show ?thesis
    proof (cases "now < u")
      case True
      with tr Some locked u show ?thesis
        by (simp add: mapGet_prune pruneEntry_def stillLocked_def lockSet_def)
    next
      case False
      then have "filter (\<lambda>t. t > now - windowMs l) R = []"
        using tr u by (intro filter_expired [of R "lockoutMs l" u]) (auto simp: saneConfig_def)
      with False tr Some locked u show ?thesis
        by (auto simp: mapGet_prune pruneEntry_def stillLocked_def lockSet_def Let_def tracked_def
          slideWindow_def)
    qed
  qed
qed

lemma check_no_entry:
  assumes "resolveKey (ipLib l) ip scope = (key, addr)" "windowInv key now R l"
    and "\<not> isExempt l addr" "allowed (fst (check now ip scope l))"
  shows "lockedUntil (entryOr (mapGet (entries (snd (check now ip scope l))) key)) = None"
proof (cases "mapGet (entries (snd (check now ip scope l))) key")
  case (Some e)
  with check_unlocks [OF assms(1,3,4) Some assms(2)] show ?thesis by (simp add: entryOr_def)
qed (simp add: entryOr_def)

lemma failedAttempt_inv:
  assumes "windowInv key now R l"
  shows "windowInv key now (R @ countedBy key l (OpAttempt now ip scope)) (failedAttempt now ip scope l)"
proof -
  obtain r l1 where c: "check now ip scope l = (r, l1)" by (cases "check now ip scope l")
  obtain k addr where res: "resolveKey (ipLib l) ip scope = (k, addr)"
    by (cases "resolveKey (ipLib l) ip scope")
  have same: "sameSettings l l1" using check_settings [of l now ip scope] c by simp
  then have res1: "resolveKey (ipLib l1) ip scope = (k, addr)" and ex: "isExempt l1 addr = isExempt l addr"
    using res by (simp_all add: sameSettings_def isExempt_def)
  have inv1: "windowInv key now R l1" using check_inv [OF assms, of ip scope] c by simp
  show ?thesis
  proof (cases "allowed r \<and> \<not> isExempt l addr \<and> k = key")
    case True
    then have "lockedUntil (entryOr (mapGet (entries l1) key)) = None"
      using check_no_entry [of l ip scope key addr now R] res c assms by simp
    with True recordFailure_inv [OF inv1] res1 ex c res show ?thesis
      by (simp add: failedAttempt_def)
  next
    case False
    then have R: "R @ countedBy key l (OpAttempt now ip scope) = R"
      using c res by auto
    consider "\<not> allowed r" | "isExempt l addr" | "k \<noteq> key" using False by blast
    then show ?thesis
    proof cases
      case 1
      with inv1 c show ?thesis unfolding R by (simp add: failedAttempt_def)
    next
      case 2
      with inv1 c res1 ex show ?thesis unfolding R by (simp add: failedAttempt_def recordFailure_def)
    next
      case 3
      have "windowInv key now R (recordFailure now ip scope l1)"
      proof (rule windowInv_cong [OF inv1 recordFailure_settings])
        show "wfMap (entries (recordFailure now ip scope l1))"
          using inv1 by (simp add: windowInv_def recordFailure_wfMap)
        show "tracked l1 now R (mapGet (entries (recordFailure now ip scope l1)) key)"
          using inv1 3 res1 by (simp add: windowInv_def recordFailure_other)
      qed
      with inv1 c show ?thesis unfolding R by (simp add: failedAttempt_def)
    qed
  qed
qed

lemma windowInv_step:
  assumes "windowInv key cur R l" "guardedOp (ipLib l) key x" "timesFrom cur [x]"
  shows "windowInv key (case opTime x of None \<Rightarrow> cur | Some now \<Rightarrow> now) (R @ countedBy key l x) (applyOp x l)"
proof (cases x)
  case (OpCheck now ip scope)
  with assms show ?thesis using windowInv_later [of key cur R l now] check_inv by simp
next
  case (OpFail now ip scope)
  with assms have inv: "windowInv key now R l" using windowInv_later by simp
  then have "windowInv key now R (recordFailure now ip scope l)"
    using OpFail assms(2)
    by (intro windowInv_cong [OF inv recordFailure_settings])
      (simp_all add: recordFailure_wfMap recordFailure_other windowInv_def)
  with OpFail show ?thesis by simp
next
  case (OpAttempt now ip scope)
  with assms have "windowInv key now R l" using windowInv_later by simp
  with OpAttempt failedAttempt_inv show ?thesis by simp
next
  case (OpReset ip scope)
  with assms have "fst (resolveKey (ipLib l) ip scope) \<noteq> key" by simp
  then have "mapGet (entries (reset ip scope l)) key = mapGet (entries l) key"
    by (auto simp: reset_def mapGet_delete split: prod.splits)
  with assms OpReset applyOp_settings [of l x] applyOp_wfMap [of l x] show ?thesis
    by (simp, intro windowInv_cong [OF assms(1)]) (auto simp: windowInv_def)
next
  case (OpPrune now)
  with assms have inv: "windowInv key now R l" using windowInv_later by simp
  have "windowInv key now R (prune now l)"
    using inv applyOp_settings [of l "OpPrune now"]
    by (intro windowInv_cong [OF inv]) (auto simp: wfMap_prune prune_tracked windowInv_def)
  with OpPrune show ?thesis by simp
next
  case OpDispose
  with assms show ?thesis by simp
qed

lemma timesFrom_Cons:
  "timesFrom t (x # xs) \<longleftrightarrow>
     timesFrom t [x] \<and> timesFrom (case opTime x of None \<Rightarrow> t | Some now \<Rightarrow> now) xs"
  by (simp split: option.splits)

lemma counted_bounded:
  assumes "windowInv key cur R l" "list_all (guardedOp (ipLib l) key) xs" "timesFrom cur xs"
  shows "windowBounded l (R @ counted key l xs)"
  using assms
proof (induction xs arbitrary: cur R l)
  case Nil
  then show ?case by (simp add: windowInv_def)
next
  case (Cons x xs)
  have same: "sameSettings l (applyOp x l)" by (rule applyOp_settings)
  have "windowInv key (case opTime x of None \<Rightarrow> cur | Some now \<Rightarrow> now) (R @ countedBy key l x) (applyOp x l)"
    using Cons.prems timesFrom_Cons [of cur x xs] by (intro windowInv_step) simp_all
  moreover have "list_all (guardedOp (ipLib (applyOp x l)) key) xs"
    using Cons.prems(2) same by (simp add: sameSettings_def)
  ultimately have "windowBounded (applyOp x l) ((R @ countedBy key l x) @ counted key (applyOp x l) xs)"
    using timesFrom_Cons [of cur x xs] Cons.prems(3) by (blast intro: Cons.IH)
  with same show ?case by (simp add: windowBounded_def sameSettings_def)
qed

text \<open>
  Sliding window: with \<open>maxAttempts\<close> at least 1 and a lockout no shorter than the window, and
  every failure recorded right after the check that let it through, no interval of length
  \<open>windowMs\<close> holds more than \<open>maxAttempts\<close> counted failures of one client, whatever other
  checks, failures, prunes and resets of other clients are interleaved and however long the run is.
\<close>

theorem failures_per_window_bounded:
  assumes "l = createAuthRateLimiter lib config"
    and "1 \<le> maxAttempts l" "0 < windowMs l" "windowMs l \<le> lockoutMs l"
    and "list_all (guardedOp lib key) calls" "timesFrom 1 calls"
  shows "int (length (inWindow (windowMs l) T (counted key l calls))) \<le> maxAttempts l"
proof -
  have "windowInv key 1 [] l"
    using assms(2-4)
    by (simp add: windowInv_def saneConfig_def windowBounded_def inWindow_def tracked_def assms(1)
      createAuthRateLimiter_def Let_def)
  moreover have "ipLib l = lib" by (simp add: assms(1) createAuthRateLimiter_def Let_def)
  ultimately have "windowBounded l ([] @ counted key l calls)"
    using assms(5,6) by (intro counted_bounded) simp_all
  then show ?thesis by (simp add: windowBounded_def)
qed

definition demoIpLib :: ip_lib where
  \<comment> \<open>an address library for the witnesses: every text is its own canonical form\<close>
  "demoIpLib = \<lparr>normalizeIpAddress = Some, isLoopbackIpAddress = (\<lambda>a. a = ''127.0.0.1'')\<rparr>"

definition demoConfig :: rate_limit_config where
  "demoConfig = \<lparr>cfgMaxAttempts = Some 2, cfgWindowMs = Some 10, cfgLockoutMs = Some 50,
     cfgExemptLoopback = None, cfgPruneIntervalMs = None\<rparr>"

definition demoLimiter :: auth_rate_limiter where
  "demoLimiter = createAuthRateLimiter demoIpLib (Some demoConfig)"

theorem lockout_enforced_witness:
  "fst (check 130 (Some ''10.0.0.7'') None
     (fold applyOp [OpFail 110 (Some ''10.0.0.7'') None, OpPrune 120]
       (demoLimiter\<lparr>entries := [(''default:10.0.0.7'', \<lparr>attempts = [99, 100], lockedUntil = Some 150\<rparr>)]\<rparr>)))
   = \<lparr>allowed = False, remaining = 0, retryAfterMs = 150 - 130\<rparr>"
  by (rule lockout_enforced [where key = "''default:10.0.0.7''" and addr = "''10.0.0.7''"
        and e = "\<lparr>attempts = [99, 100], lockedUntil = Some 150\<rparr>"]) code_simp+

theorem failures_per_window_bounded_witness:
  "int (length (inWindow (windowMs demoLimiter) 105
     (counted ''default:10.0.0.7'' demoLimiter
       [OpAttempt 100 (Some ''10.0.0.7'') None, OpAttempt 101 (Some ''10.0.0.8'') None,
        OpAttempt 102 (Some ''10.0.0.7'') None, OpAttempt 103 (Some ''10.0.0.7'') None])))
   \<le> maxAttempts demoLimiter
   \<and> counted ''default:10.0.0.7'' demoLimiter
       [OpAttempt 100 (Some ''10.0.0.7'') None, OpAttempt 101 (Some ''10.0.0.8'') None,
        OpAttempt 102 (Some ''10.0.0.7'') None, OpAttempt 103 (Some ''10.0.0.7'') None] = [100, 102]"
proof
  show "int (length (inWindow (windowMs demoLimiter) 105
     (counted ''default:10.0.0.7'' demoLimiter
       [OpAttempt 100 (Some ''10.0.0.7'') None, OpAttempt 101 (Some ''10.0.0.8'') None,
        OpAttempt 102 (Some ''10.0.0.7'') None, OpAttempt 103 (Some ''10.0.0.7'') None])))
   \<le> maxAttempts demoLimiter"
    by (rule failures_per_window_bounded [OF demoLimiter_def]) code_simp+
qed code_simp

text \<open>
  Without the check in between a counted failure can be lost: a failure recorded after a lockout
  has run out, but before the next check, is thrown away by that check together with the expired
  lockout, so the limiter then reports a full allowance.
\<close>

theorem expired_lockout_forgets_fresh_failure:
  "let l0 = demoLimiter\<lparr>entries := [(''default:10.0.0.7'', \<lparr>attempts = [99, 100], lockedUntil = Some 150\<rparr>)]\<rparr>;
       l1 = recordFailure 160 (Some ''10.0.0.7'') None l0
   in mapGet (entries l1) ''default:10.0.0.7'' = Some \<lparr>attempts = [160], lockedUntil = Some 150\<rparr>
      \<and> fst (check 161 (Some ''10.0.0.7'') None l1)
          = \<lparr>allowed = True, remaining = maxAttempts l1, retryAfterMs = 0\<rparr>"
  by code_simp

end
