(* ===== verification/WindowLimits.thy ===== *)
theory WindowLimits
  imports Prelude
begin

text \<open>
  The counting limiters of the gateway:
  \<^item> \<open>createFixedWindowRateLimiter\<close> (\<open>src/src/infra/fixed-window-rate-limit.ts\<close>), one counter;
  \<^item> \<open>consumeControlPlaneWriteBudget\<close> (\<open>src/src/gateway/control-plane-rate-limit.ts\<close>), a bucket
    per client;
  \<^item> \<open>createPreauthConnectionBudget\<close> (\<open>src/src/gateway/server/preauth-connection-budget.ts\<close>),
    counts of the open connections of each address that have not authenticated yet;
  \<^item> \<open>UnauthorizedFloodGuard\<close>
    (\<open>src/src/gateway/server/ws-connection/unauthorized-flood-guard.ts\<close>).

  The first two share a contract, the locale \<open>window_budget\<close>; what a caller relies on is proved
  once from it and holds for both by interpretation.
\<close>

section \<open>Fixed window\<close>

record fixed_window =
  fwMaxRequests :: int
  fwWindowMs :: int
  fwCount :: int
  fwWindowStartMs :: int

record fixed_window_result =
  fwAllowed :: bool
  fwRetryAfterMs :: int
  fwRemaining :: int

definition createFixedWindowRateLimiter :: "rat \<Rightarrow> rat \<Rightarrow> fixed_window" where
  "createFixedWindowRateLimiter maxRequests windowMs =
     \<lparr>fwMaxRequests = max 1 \<lfloor>maxRequests\<rfloor>, fwWindowMs = max 1 \<lfloor>windowMs\<rfloor>,
      fwCount = 0, fwWindowStartMs = 0\<rparr>"

definition fwConsume :: "int \<Rightarrow> fixed_window \<Rightarrow> fixed_window_result \<times> fixed_window" where
  "fwConsume nowMs s =
     (let s1 = (if nowMs - fwWindowStartMs s \<ge> fwWindowMs s
                then s\<lparr>fwWindowStartMs := nowMs, fwCount := 0\<rparr> else s)
      in if fwCount s1 \<ge> fwMaxRequests s1 then
           (\<lparr>fwAllowed = False,
             fwRetryAfterMs = max 0 (fwWindowStartMs s1 + fwWindowMs s1 - nowMs),
             fwRemaining = 0\<rparr>, s1)
         else
           (let s2 = s1\<lparr>fwCount := fwCount s1 + 1\<rparr>
            in (\<lparr>fwAllowed = True, fwRetryAfterMs = 0,
                  fwRemaining = max 0 (fwMaxRequests s2 - fwCount s2)\<rparr>, s2)))"

definition fwReset :: "fixed_window \<Rightarrow> fixed_window" where
  "fwReset s = s\<lparr>fwCount := 0, fwWindowStartMs := 0\<rparr>"

section \<open>Control-plane write budget\<close>

record gateway_client =
  deviceId :: "string option"
  clientIp :: "string option"
  connId :: "string option"

record bucket =
  bucketCount :: int
  bucketStartMs :: int

type_synonym control_plane_buckets = "(string, bucket) jsmap"

record control_plane_result =
  cpAllowed :: bool
  cpRetryAfterMs :: int
  cpRemaining :: int
  cpKey :: string

definition controlPlaneMaxRequests :: int where
  "controlPlaneMaxRequests = 3"

definition controlPlaneWindowMs :: int where
  "controlPlaneWindowMs = 60000"

definition normalizePart :: "string option \<Rightarrow> string \<Rightarrow> string" where
  \<comment> \<open>\<open>None\<close> stands for every value that is not a string\<close>
  "normalizePart value fallback =
     (case value of None \<Rightarrow> fallback
      | Some v \<Rightarrow> (let n = trim v in if length n > 0 then n else fallback))"

definition resolveControlPlaneRateLimitKey :: "gateway_client option \<Rightarrow> string" where
  "resolveControlPlaneRateLimitKey client =
     (let device = normalizePart (Option.bind client deviceId) ''unknown-device'';
          ip = normalizePart (Option.bind client clientIp) ''unknown-ip'';
          conn = normalizePart (Option.bind client connId) []
      in if device = ''unknown-device'' \<and> ip = ''unknown-ip'' \<and> conn \<noteq> []
         then device @ ''|'' @ ip @ ''|conn='' @ conn
         else device @ ''|'' @ ip)"

definition consumeControlPlaneWriteBudget ::
  "gateway_client option \<Rightarrow> int \<Rightarrow> control_plane_buckets \<Rightarrow>
   control_plane_result \<times> control_plane_buckets" where
  "consumeControlPlaneWriteBudget client nowMs m =
     (let key = resolveControlPlaneRateLimitKey client;
          open = (\<lparr>cpAllowed = True, cpRetryAfterMs = 0,
                   cpRemaining = controlPlaneMaxRequests - 1, cpKey = key\<rparr>,
                  mapSet key \<lparr>bucketCount = 1, bucketStartMs = nowMs\<rparr> m)
      in case mapGet m key of
           None \<Rightarrow> open
         | Some b \<Rightarrow>
             if nowMs - bucketStartMs b \<ge> controlPlaneWindowMs then open
             else if bucketCount b \<ge> controlPlaneMaxRequests then
               (\<lparr>cpAllowed = False,
                 cpRetryAfterMs = max 0 (bucketStartMs b + controlPlaneWindowMs - nowMs),
                 cpRemaining = 0, cpKey = key\<rparr>, m)
             else
               (let b1 = b\<lparr>bucketCount := bucketCount b + 1\<rparr>
                in (\<lparr>cpAllowed = True, cpRetryAfterMs = 0,
                     cpRemaining = max 0 (controlPlaneMaxRequests - bucketCount b1), cpKey = key\<rparr>,
                    mapSet key b1 m)))"

section \<open>Connections before authentication\<close>

record preauth_budget =
  paLimit :: int
  paCounts :: "(string, int) jsmap"

definition createPreauthConnectionBudget :: "int \<Rightarrow> preauth_budget" where
  "createPreauthConnectionBudget limit = \<lparr>paLimit = limit, paCounts = []\<rparr>"

definition normalizeBudgetKey :: "string option \<Rightarrow> string" where
  "normalizeBudgetKey ip =
     (case ip of None \<Rightarrow> ''__DENNOU_unknown_client_ip__''
      | Some s \<Rightarrow> if trim s = [] then ''__DENNOU_unknown_client_ip__'' else trim s)"

definition paAcquire :: "string option \<Rightarrow> preauth_budget \<Rightarrow> bool \<times> preauth_budget" where
  "paAcquire ip0 b =
     (let ip = normalizeBudgetKey ip0;
          next = coalesce (mapGet (paCounts b) ip) 0 + 1
      in if next > paLimit b then (False, b)
         else (True, b\<lparr>paCounts := mapSet ip next (paCounts b)\<rparr>))"

definition paRelease :: "string option \<Rightarrow> preauth_budget \<Rightarrow> preauth_budget" where
  "paRelease ip0 b =
     (let ip = normalizeBudgetKey ip0
      in case mapGet (paCounts b) ip of
           None \<Rightarrow> b
         | Some current \<Rightarrow>
             if current \<le> 1 then b\<lparr>paCounts := mapDelete ip (paCounts b)\<rparr>
             else b\<lparr>paCounts := mapSet ip (current - 1) (paCounts b)\<rparr>)"

section \<open>Flood guard of one connection\<close>

record flood_guard =
  closeAfter :: int
  logEvery :: int
  floodCount :: int
  floodSuppressed :: int

record flood_decision =
  shouldClose :: bool
  shouldLog :: bool
  decisionCount :: int
  decisionSuppressed :: int

definition newFloodGuard :: "rat option \<Rightarrow> rat option \<Rightarrow> flood_guard" where
  "newFloodGuard optCloseAfter optLogEvery =
     \<lparr>closeAfter = max 1 \<lfloor>coalesce optCloseAfter 10\<rfloor>,
      logEvery = max 1 \<lfloor>coalesce optLogEvery 100\<rfloor>,
      floodCount = 0, floodSuppressed = 0\<rparr>"

definition registerUnauthorized :: "flood_guard \<Rightarrow> flood_decision \<times> flood_guard" where
  "registerUnauthorized g =
     (let g1 = g\<lparr>floodCount := floodCount g + 1\<rparr>;
          close = floodCount g1 > closeAfter g1;
          log = floodCount g1 = 1 \<or> floodCount g1 mod logEvery g1 = 0 \<or> close
      in if \<not> log then
           (\<lparr>shouldClose = close, shouldLog = False, decisionCount = floodCount g1,
             decisionSuppressed = 0\<rparr>,
            g1\<lparr>floodSuppressed := floodSuppressed g1 + 1\<rparr>)
         else
           (\<lparr>shouldClose = close, shouldLog = True, decisionCount = floodCount g1,
             decisionSuppressed = floodSuppressed g1\<rparr>,
            g1\<lparr>floodSuppressed := 0\<rparr>))"

definition resetFloodGuard :: "flood_guard \<Rightarrow> flood_guard" where
  "resetFloodGuard g = g\<lparr>floodCount := 0, floodSuppressed := 0\<rparr>"

section \<open>The contract of a window budget\<close>

text \<open>
  \<open>step\<close> is a request, \<open>mine\<close> the requests on the budget in question, \<open>window\<close> the open window
  (its start and how many requests it granted), if there is one.
\<close>

fun grantTimes ::
  "('e \<Rightarrow> 's \<Rightarrow> bool \<times> 's) \<Rightarrow> ('e \<Rightarrow> int) \<Rightarrow> ('e \<Rightarrow> bool) \<Rightarrow> 's \<Rightarrow> 'e list \<Rightarrow> int list" where
  \<comment> \<open>the times of the requests on the budget that a run grants\<close>
  "grantTimes step time mine s [] = []"
| "grantTimes step time mine s (e # es) =
     (case step e s of
        (granted, s') \<Rightarrow> (if mine e \<and> granted then [time e] else []) @ grantTimes step time mine s' es)"

definition countWithin :: "int \<Rightarrow> int \<Rightarrow> int list \<Rightarrow> int" where
  \<comment> \<open>how many times of the list lie in the interval of length \<open>w\<close> that ends in \<open>T\<close>\<close>
  "countWithin w T ts = int (length (filter (\<lambda>t. T - w < t \<and> t \<le> T) ts))"

definition budgetInv :: "int \<Rightarrow> int \<Rightarrow> int \<Rightarrow> int list \<Rightarrow> (int \<times> int) option \<Rightarrow> bool" where
  \<comment> \<open>what the open window knows of the grants \<open>G\<close> so far, at time \<open>cur\<close>\<close>
  "budgetInv limit width cur G w \<longleftrightarrow>
     (\<forall>g \<in> set G. g \<le> cur) \<and> (\<forall>T. countWithin width T G \<le> 2 * limit)
     \<and> (case w of None \<Rightarrow> G = []
        | Some (st, n) \<Rightarrow> st \<le> cur \<and> 0 \<le> n \<and> n \<le> limit \<and> (\<forall>g \<in> set G. g < st + width)
            \<and> int (length (filter (\<lambda>g. st \<le> g) G)) \<le> n
            \<and> int (length (filter (\<lambda>g. st - width < g \<and> g < st) G)) \<le> limit)"

fun nondecreasingFrom :: "int \<Rightarrow> int list \<Rightarrow> bool" where
  "nondecreasingFrom t [] = True"
| "nondecreasingFrom t (u # us) = (t \<le> u \<and> nondecreasingFrom u us)"

locale window_budget =
  fixes step :: "'e \<Rightarrow> 's \<Rightarrow> bool \<times> 's"
    and time :: "'e \<Rightarrow> int"
    and mine :: "'e \<Rightarrow> bool"
    and window :: "'s \<Rightarrow> (int \<times> int) option"
    and ok :: "'s \<Rightarrow> bool"
    and limit :: int
    and width :: int
  assumes limit_pos: "1 \<le> limit"
    and width_pos: "1 \<le> width"
    and ok_step: "ok s \<Longrightarrow> ok (snd (step e s))"
    and other: "ok s \<Longrightarrow> \<not> mine e \<Longrightarrow> window (snd (step e s)) = window s"
    and opens: "ok s \<Longrightarrow> mine e \<Longrightarrow> window s = None \<or> time e - fst (the (window s)) \<ge> width \<Longrightarrow>
      fst (step e s) \<and> window (snd (step e s)) = Some (time e, 1)"
    and counts: "ok s \<Longrightarrow> mine e \<Longrightarrow> window s = Some (st, n) \<Longrightarrow> time e - st < width \<Longrightarrow> n < limit \<Longrightarrow>
      fst (step e s) \<and> window (snd (step e s)) = Some (st, n + 1)"
    and refuses: "ok s \<Longrightarrow> mine e \<Longrightarrow> window s = Some (st, n) \<Longrightarrow> time e - st < width \<Longrightarrow> limit \<le> n \<Longrightarrow>
      \<not> fst (step e s) \<and> window (snd (step e s)) = Some (st, n)"
begin

lemma opened_bound:
  assumes "\<forall>T. countWithin width T G \<le> 2 * limit"
    and "int (length (filter (\<lambda>g. st \<le> g) G)) \<le> limit" "st + width \<le> now"
  shows "\<forall>T. countWithin width T (G @ [now]) \<le> 2 * limit"
proof
  fix T
  show "countWithin width T (G @ [now]) \<le> 2 * limit"
  proof (cases "T < now")
    case True
    with assms(1) show ?thesis by (simp add: countWithin_def)
  next
    case False
    have "length (filter (\<lambda>g. T - width < g \<and> g \<le> T) G) \<le> length (filter (\<lambda>g. st \<le> g) G)"
      using False assms(3) by (induction G) auto
    with assms(2) limit_pos show ?thesis by (simp add: countWithin_def)
  qed
qed

lemma counted_bound:
  assumes "\<forall>T. countWithin width T G \<le> 2 * limit"
    and "int (length (filter (\<lambda>g. st \<le> g) G)) < limit" "st \<le> now"
    and "int (length (filter (\<lambda>g. st - width < g \<and> g < st) G)) \<le> limit"
  shows "\<forall>T. countWithin width T (G @ [now]) \<le> 2 * limit"
proof
  fix T
  show "countWithin width T (G @ [now]) \<le> 2 * limit"
  proof (cases "T < now")
    case True
    with assms(1) show ?thesis by (simp add: countWithin_def)
  next
    case False
    have "length (filter (\<lambda>g. T - width < g \<and> g \<le> T) G)
        \<le> length (filter (\<lambda>g. st \<le> g) G) + length (filter (\<lambda>g. st - width < g \<and> g < st) G)"
      using False assms(3) by (induction G) auto
    with assms(2,4) show ?thesis by (simp add: countWithin_def)
  qed
qed

lemma inv_later: "budgetInv limit width cur G w \<Longrightarrow> cur \<le> now \<Longrightarrow> budgetInv limit width now G w"
  by (fastforce simp: budgetInv_def split: option.splits)

lemma inv_opens:
  assumes "budgetInv limit width now G w" "w = None \<or> now - fst (the w) \<ge> width"
  shows "budgetInv limit width now (G @ [now]) (Some (now, 1))"
proof (cases w)
  case None
  with assms limit_pos width_pos show ?thesis by (auto simp: budgetInv_def countWithin_def)
next
  case (Some p)
  then obtain st n where w: "w = Some (st, n)" by (cases p) auto
  have far: "st + width \<le> now" using assms(2) w by simp
  note inv = assms(1) [unfolded budgetInv_def w]
  have old: "\<forall>g \<in> set G. g < now" using inv far by fastforce
  then have "filter (\<lambda>g. now \<le> g) G = []" by (auto simp: filter_empty_conv)
  moreover have "length (filter (\<lambda>g. now - width < g \<and> g < now) G) \<le> length (filter (\<lambda>g. st \<le> g) G)"
    using far by (induction G) auto
  moreover have "\<forall>T. countWithin width T (G @ [now]) \<le> 2 * limit"
    using inv far by (intro opened_bound [of G st]) auto
  ultimately show ?thesis
    using inv old limit_pos width_pos by (fastforce simp: budgetInv_def)
qed

lemma inv_counts:
  assumes "budgetInv limit width now G (Some (st, n))" "now - st < width" "n < limit"
  shows "budgetInv limit width now (G @ [now]) (Some (st, n + 1))"
proof -
  note inv = assms(1) [unfolded budgetInv_def]
  have "\<forall>T. countWithin width T (G @ [now]) \<le> 2 * limit"
    using inv assms(3) by (intro counted_bound [of G st]) auto
  with inv assms(2,3) show ?thesis by (auto simp: budgetInv_def)
qed

lemma inv_step:
  assumes inv: "budgetInv limit width (time e) G (window s)" and ok: "ok s"
  shows "budgetInv limit width (time e) (G @ (if mine e \<and> fst (step e s) then [time e] else []))
     (window (snd (step e s)))"
proof (cases "mine e")
  case False
  with inv other [OF ok] show ?thesis by simp
next
  case True
  show ?thesis
  proof (cases "window s = None \<or> time e - fst (the (window s)) \<ge> width")
    case opened: True
    with opens [OF ok True] inv_opens [OF inv] True show ?thesis by simp
  next
    case False
    then obtain st n where w: "window s = Some (st, n)" "time e - st < width" by auto
    show ?thesis
    proof (cases "n < limit")
      case lt: True
      with counts [OF ok True w] inv_counts [of "time e" G st n] inv w True show ?thesis by simp
    next
      case False
      with refuses [OF ok True w] inv w True show ?thesis by simp
    qed
  qed
qed

lemma grants_inv:
  assumes "budgetInv limit width cur G (window s)" "ok s" "nondecreasingFrom cur (map time es)"
  shows "\<forall>T. countWithin width T (G @ grantTimes step time mine s es) \<le> 2 * limit"
  using assms
proof (induction es arbitrary: s cur G)
  case Nil
  then show ?case by (simp add: budgetInv_def)
next
  case (Cons e es)
  have "budgetInv limit width (time e) G (window s)"
    using Cons.prems by (auto intro: inv_later)
  from inv_step [OF this Cons.prems(2)]
  have "\<forall>T. countWithin width T ((G @ (if mine e \<and> fst (step e s) then [time e] else []))
      @ grantTimes step time mine (snd (step e s)) es) \<le> 2 * limit"
    using Cons.prems by (intro Cons.IH [of "time e"]) (auto intro: ok_step)
  then show ?case by (simp add: case_prod_unfold Let_def)
qed

lemma grants_bound:
  assumes "ok s" "nondecreasingFrom cur (map time es)"
    and "window s = None \<or> (\<exists>st. window s = Some (st, 0) \<and> st \<le> cur)"
  shows "countWithin width T (grantTimes step time mine s es) \<le> 2 * limit"
proof -
  have "budgetInv limit width cur [] (window s)"
    using assms(3) limit_pos by (auto simp: budgetInv_def countWithin_def)
  from grants_inv [OF this assms(1,2)] show ?thesis by simp
qed

text \<open>A refused request stays refused until the window ends, and the next one after it is granted.\<close>

lemma refused_until:
  assumes "ok s" "window s = Some (st, n)" "limit \<le> n"
    and "list_all (\<lambda>e. mine e \<longrightarrow> time e - st < width) es"
  shows "grantTimes step time mine s es = [] \<and> ok (fold (\<lambda>e s. snd (step e s)) es s)
    \<and> window (fold (\<lambda>e s. snd (step e s)) es s) = Some (st, n)"
  using assms
proof (induction es arbitrary: s)
  case (Cons e es)
  have w: "window (snd (step e s)) = Some (st, n)" and no: "mine e \<Longrightarrow> \<not> fst (step e s)"
    using Cons.prems refuses [of s e st n] other [of s e] by (cases "mine e"; simp)+
  from Cons.IH [OF ok_step [OF Cons.prems(1)] w Cons.prems(3)] Cons.prems(4) no
  show ?case by (auto simp: case_prod_unfold Let_def)
qed simp

lemma granted_after:
  assumes "ok s" "window s = Some (st, n)" "limit \<le> n"
    and "list_all (\<lambda>e. mine e \<longrightarrow> time e - st < width) es" "mine e" "time e - st \<ge> width"
  shows "fst (step e (fold (\<lambda>e s. snd (step e s)) es s))"
  using refused_until [OF assms(1-4)] opens assms(5,6) by auto

end

section \<open>The two budgets meet the contract\<close>

definition fwStep :: "int \<Rightarrow> fixed_window \<Rightarrow> bool \<times> fixed_window" where
  "fwStep now s = (case fwConsume now s of (r, s') \<Rightarrow> (fwAllowed r, s'))"

interpretation fixed: window_budget fwStep "\<lambda>now. now" "\<lambda>_. True"
  "\<lambda>s. Some (fwWindowStartMs s, fwCount s)"
  "\<lambda>s. fwMaxRequests s = max 1 m \<and> fwWindowMs s = max 1 w" "max 1 m" "max 1 w"
  for m w :: int
  by unfold_locales (auto simp: fwStep_def fwConsume_def Let_def)

definition cpStep ::
  "gateway_client option \<times> int \<Rightarrow> control_plane_buckets \<Rightarrow> bool \<times> control_plane_buckets" where
  "cpStep e m =
     (case consumeControlPlaneWriteBudget (fst e) (snd e) m of (r, m') \<Rightarrow> (cpAllowed r, m'))"

definition requestOf :: "string \<Rightarrow> gateway_client option \<times> int \<Rightarrow> bool" where
  "requestOf key e \<longleftrightarrow> resolveControlPlaneRateLimitKey (fst e) = key"

definition cpWindow :: "string \<Rightarrow> control_plane_buckets \<Rightarrow> (int \<times> int) option" where
  "cpWindow key m = map_option (\<lambda>b. (bucketStartMs b, bucketCount b)) (mapGet m key)"

interpretation control_plane: window_budget cpStep snd "requestOf key" "cpWindow key" "\<lambda>_. True"
  controlPlaneMaxRequests controlPlaneWindowMs
  for key :: string
  by unfold_locales
    (auto simp: cpStep_def requestOf_def cpWindow_def consumeControlPlaneWriteBudget_def Let_def
      controlPlaneMaxRequests_def controlPlaneWindowMs_def split: option.splits)

lemma create_fixed_ok:
  "fwMaxRequests (createFixedWindowRateLimiter a b) = max 1 \<lfloor>a\<rfloor>
   \<and> fwWindowMs (createFixedWindowRateLimiter a b) = max 1 \<lfloor>b\<rfloor>"
  by (simp add: createFixedWindowRateLimiter_def)

text \<open>
  A fixed-window limiter never grants more than twice its limit in any interval of the length of
  its window, wherever that interval lies and however the requests (at ticks that do not go back)
  are spread.
\<close>

theorem fixed_window_grants_bounded:
  assumes "s = createFixedWindowRateLimiter maxRequests windowMs" "nondecreasingFrom 0 ticks"
  shows "countWithin (fwWindowMs s) T (grantTimes fwStep (\<lambda>now. now) (\<lambda>_. True) s ticks)
    \<le> 2 * fwMaxRequests s"
  using fixed.grants_bound [where s = s and cur = 0 and es = ticks and T = T
      and m = "\<lfloor>maxRequests\<rfloor>" and w = "\<lfloor>windowMs\<rfloor>"] assms
  by (simp add: create_fixed_ok createFixedWindowRateLimiter_def)

lemma fixed_window_grants_bounded_witness:
  "grantTimes fwStep (\<lambda>now. now) (\<lambda>_. True) (createFixedWindowRateLimiter 2 10) [19, 19, 20, 21, 29, 30]
     = [19, 19, 29, 30]
   \<and> countWithin (fwWindowMs (createFixedWindowRateLimiter 2 10)) 28
       (grantTimes fwStep (\<lambda>now. now) (\<lambda>_. True) (createFixedWindowRateLimiter 2 10) [19, 19, 20, 21, 29, 30])
     \<le> 2 * fwMaxRequests (createFixedWindowRateLimiter 2 10)"
proof
  show "countWithin (fwWindowMs (createFixedWindowRateLimiter 2 10)) 28
       (grantTimes fwStep (\<lambda>now. now) (\<lambda>_. True) (createFixedWindowRateLimiter 2 10) [19, 19, 20, 21, 29, 30])
     \<le> 2 * fwMaxRequests (createFixedWindowRateLimiter 2 10)"
    using fixed_window_grants_bounded [OF refl, where maxRequests = 2 and windowMs = 10 and T = 28
        and ticks = "[19, 19, 20, 21, 29, 30]"] by simp
qed code_simp

lemma fw_denied:
  assumes "fwConsume now s = (r, s')" "\<not> fwAllowed r" "0 \<le> fwCount s"
    "fwMaxRequests s = max 1 m" "fwWindowMs s = max 1 w"
  shows "s' = s \<and> fwMaxRequests s \<le> fwCount s \<and> now - fwWindowStartMs s < fwWindowMs s
    \<and> fwRetryAfterMs r = fwWindowStartMs s + fwWindowMs s - now"
  using assms by (auto simp: fwConsume_def Let_def split: if_splits)

text \<open>
  The retry hint of a refusal is exact: after a request refused at \<open>now\<close> with
  \<open>retryAfterMs = r\<close>, every request before \<open>now + r\<close> is refused too, whatever their number,
  and the first one at or after \<open>now + r\<close> is granted.
\<close>

theorem fixed_window_retry_exact:
  assumes "s = fold (\<lambda>t s. snd (fwConsume t s)) past (createFixedWindowRateLimiter maxRequests windowMs)"
    and "fwConsume now s = (r, s')" "\<not> fwAllowed r"
    and "list_all (\<lambda>t. t < now + fwRetryAfterMs r) ticks" "now + fwRetryAfterMs r \<le> t"
  shows "grantTimes fwStep (\<lambda>now. now) (\<lambda>_. True) s' ticks = []
    \<and> fwAllowed (fst (fwConsume t (fold (\<lambda>t s. snd (fwConsume t s)) ticks s')))"
proof -
  let ?m = "\<lfloor>maxRequests\<rfloor>" and ?w = "\<lfloor>windowMs\<rfloor>"
  have "fwMaxRequests s = max 1 ?m \<and> fwWindowMs s = max 1 ?w \<and> 0 \<le> fwCount s"
    unfolding assms(1)
    by (rule fold_invariant [where Q = "\<lambda>_. True"])
      (auto simp: createFixedWindowRateLimiter_def fwConsume_def Let_def)
  then have ok: "fwMaxRequests s = max 1 ?m \<and> fwWindowMs s = max 1 ?w" and pos: "0 \<le> fwCount s"
    by auto
  from fw_denied [OF assms(2,3) pos] ok
  have d: "s' = s" "max 1 ?m \<le> fwCount s"
    "fwRetryAfterMs r = fwWindowStartMs s + max 1 ?w - now" by auto
  have late: "list_all (\<lambda>t. True \<longrightarrow> t - fwWindowStartMs s < max 1 ?w) ticks"
    using assms(4) d(3) by (auto simp: list_all_iff)
  have step: "(\<lambda>t s. snd (fwStep t s)) = (\<lambda>t s. snd (fwConsume t s))"
    by (simp add: fwStep_def case_prod_unfold)
  have "grantTimes fwStep (\<lambda>now. now) (\<lambda>_. True) s ticks = []"
    using fixed.refused_until [OF ok refl d(2) late] by blast
  moreover have "max 1 ?w \<le> t - fwWindowStartMs s" using assms(5) d(3) by linarith
  then have "fst (fwStep t (fold (\<lambda>t s. snd (fwStep t s)) ticks s))"
    by (rule fixed.granted_after [OF ok refl d(2) late TrueI])
  ultimately show ?thesis
    unfolding d(1) step by (simp add: fwStep_def case_prod_unfold)
qed

lemma fixed_window_retry_exact_witness:
  "fwConsume 13 (fold (\<lambda>t s. snd (fwConsume t s)) [11, 12] (createFixedWindowRateLimiter 2 10))
     = (\<lparr>fwAllowed = False, fwRetryAfterMs = 8, fwRemaining = 0\<rparr>,
        \<lparr>fwMaxRequests = 2, fwWindowMs = 10, fwCount = 2, fwWindowStartMs = 11\<rparr>)
   \<and> grantTimes fwStep (\<lambda>now. now) (\<lambda>_. True)
       \<lparr>fwMaxRequests = 2, fwWindowMs = 10, fwCount = 2, fwWindowStartMs = 11\<rparr> [14, 20] = []
   \<and> fwAllowed (fst (fwConsume 21 (fold (\<lambda>t s. snd (fwConsume t s)) [14, 20]
       \<lparr>fwMaxRequests = 2, fwWindowMs = 10, fwCount = 2, fwWindowStartMs = 11\<rparr>)))"
proof (intro conjI)
  show c: "fwConsume 13 (fold (\<lambda>t s. snd (fwConsume t s)) [11, 12] (createFixedWindowRateLimiter 2 10))
     = (\<lparr>fwAllowed = False, fwRetryAfterMs = 8, fwRemaining = 0\<rparr>,
        \<lparr>fwMaxRequests = 2, fwWindowMs = 10, fwCount = 2, fwWindowStartMs = 11\<rparr>)"
    by code_simp
  have "grantTimes fwStep (\<lambda>now. now) (\<lambda>_. True)
       \<lparr>fwMaxRequests = 2, fwWindowMs = 10, fwCount = 2, fwWindowStartMs = 11\<rparr> [14, 20] = []
   \<and> fwAllowed (fst (fwConsume 21 (fold (\<lambda>t s. snd (fwConsume t s)) [14, 20]
       \<lparr>fwMaxRequests = 2, fwWindowMs = 10, fwCount = 2, fwWindowStartMs = 11\<rparr>)))"
    by (rule fixed_window_retry_exact [OF refl c]) simp_all
  then show "grantTimes fwStep (\<lambda>now. now) (\<lambda>_. True)
       \<lparr>fwMaxRequests = 2, fwWindowMs = 10, fwCount = 2, fwWindowStartMs = 11\<rparr> [14, 20] = []"
   "fwAllowed (fst (fwConsume 21 (fold (\<lambda>t s. snd (fwConsume t s)) [14, 20]
       \<lparr>fwMaxRequests = 2, fwWindowMs = 10, fwCount = 2, fwWindowStartMs = 11\<rparr>)))"
    by blast+
qed

definition demoClient :: "string \<Rightarrow> gateway_client option" where
  "demoClient ip = Some \<lparr>deviceId = None, clientIp = Some ip, connId = None\<rparr>"

text \<open>
  The control-plane write budget of every client key, whatever requests of other clients are
  interleaved: at most twice three writes in any minute.
\<close>

theorem control_plane_budget_bounded:
  assumes "nondecreasingFrom t0 (map snd requests)"
  shows "countWithin controlPlaneWindowMs T (grantTimes cpStep snd (requestOf key) [] requests) \<le> 6"
  using control_plane.grants_bound [where s = "[]" and cur = t0 and es = requests and key = key and T = T] assms
  by (simp add: cpWindow_def controlPlaneMaxRequests_def)

lemma control_plane_budget_bounded_witness:
  "grantTimes cpStep snd (requestOf ''unknown-device|10.0.0.7'') []
      [(demoClient ''10.0.0.7'', 5), (demoClient '' 10.0.0.7'', 6), (demoClient ''10.0.0.8'', 6),
       (demoClient ''10.0.0.7'', 7), (demoClient ''10.0.0.7'', 8), (demoClient ''10.0.0.7'', 60005)]
     = [5, 6, 7, 60005]
   \<and> countWithin controlPlaneWindowMs 60005 (grantTimes cpStep snd (requestOf ''unknown-device|10.0.0.7'') []
      [(demoClient ''10.0.0.7'', 5), (demoClient '' 10.0.0.7'', 6), (demoClient ''10.0.0.8'', 6),
       (demoClient ''10.0.0.7'', 7), (demoClient ''10.0.0.7'', 8), (demoClient ''10.0.0.7'', 60005)]) \<le> 6"
proof
  show "countWithin controlPlaneWindowMs 60005 (grantTimes cpStep snd (requestOf ''unknown-device|10.0.0.7'') []
      [(demoClient ''10.0.0.7'', 5), (demoClient '' 10.0.0.7'', 6), (demoClient ''10.0.0.8'', 6),
       (demoClient ''10.0.0.7'', 7), (demoClient ''10.0.0.7'', 8), (demoClient ''10.0.0.7'', 60005)]) \<le> 6"
    by (rule control_plane_budget_bounded [of 5]) simp
qed code_simp

section \<open>Connections before authentication: refinement of a counter per address\<close>

text \<open>
  The specification: how many connections each address holds, no map and no deletion.
\<close>

datatype budget_op = Acquire "string option" | Release "string option"

fun specBudget :: "int \<Rightarrow> budget_op \<Rightarrow> (string \<Rightarrow> nat) \<Rightarrow> bool option \<times> (string \<Rightarrow> nat)" where
  "specBudget limit (Acquire ip) held =
     (let k = normalizeBudgetKey ip
      in if int (held k) < limit then (Some True, held(k := held k + 1)) else (Some False, held))"
| "specBudget limit (Release ip) held =
     (let k = normalizeBudgetKey ip in (None, held(k := held k - 1)))"

fun runBudget :: "budget_op \<Rightarrow> preauth_budget \<Rightarrow> bool option \<times> preauth_budget" where
  "runBudget (Acquire ip) b = (case paAcquire ip b of (r, b') \<Rightarrow> (Some r, b'))"
| "runBudget (Release ip) b = (None, paRelease ip b)"

definition heldBy :: "preauth_budget \<Rightarrow> string \<Rightarrow> nat" where
  "heldBy b k = nat (coalesce (mapGet (paCounts b) k) 0)"

definition budgetOk :: "preauth_budget \<Rightarrow> bool" where
  "budgetOk b \<longleftrightarrow> wfMap (paCounts b) \<and> (\<forall>k n. mapGet (paCounts b) k = Some n \<longrightarrow> 1 \<le> n \<and> n \<le> paLimit b)"

lemma budgetOkD: "budgetOk b \<Longrightarrow> mapGet (paCounts b) k = Some n \<Longrightarrow> 1 \<le> n \<and> n \<le> paLimit b"
  by (simp add: budgetOk_def)

lemma heldBy_coalesce: "budgetOk b \<Longrightarrow> coalesce (mapGet (paCounts b) k) 0 = int (heldBy b k)"
  using budgetOkD [of b k] by (cases "mapGet (paCounts b) k") (auto simp: heldBy_def)

lemma heldBy_facts:
  assumes "budgetOk b"
  shows "mapHas (paCounts b) k \<longleftrightarrow> 0 < heldBy b k" "int (heldBy b k) \<le> max 0 (paLimit b)"
  using budgetOkD [OF assms, of k] by (cases "mapGet (paCounts b) k"; fastforce simp: heldBy_def)+

lemma acquire_refines:
  assumes ok: "budgetOk b"
  shows "budgetOk (snd (paAcquire ip b)) \<and> paLimit (snd (paAcquire ip b)) = paLimit b
    \<and> (Some (fst (paAcquire ip b)), heldBy (snd (paAcquire ip b)))
        = specBudget (paLimit b) (Acquire ip) (heldBy b)"
proof -
  let ?k = "normalizeBudgetKey ip"
  have c: "coalesce (mapGet (paCounts b) ?k) 0 = int (heldBy b ?k)" by (rule heldBy_coalesce [OF ok])
  show ?thesis
  proof (cases "int (heldBy b ?k) < paLimit b")
    case True
    then have "paAcquire ip b = (True, b\<lparr>paCounts := mapSet ?k (int (heldBy b ?k) + 1) (paCounts b)\<rparr>)"
      by (simp add: paAcquire_def c Let_def)
    with True ok show ?thesis
      by (auto simp: budgetOk_def mapGet_set heldBy_def Let_def fun_eq_iff)
  next
    case False
    with ok show ?thesis by (simp add: paAcquire_def c Let_def)
  qed
qed

lemma release_refines:
  assumes ok: "budgetOk b"
  shows "budgetOk (paRelease ip b) \<and> paLimit (paRelease ip b) = paLimit b
    \<and> (None, heldBy (paRelease ip b)) = specBudget (paLimit b) (Release ip) (heldBy b)"
proof (cases "mapGet (paCounts b) (normalizeBudgetKey ip)")
  case None
  with ok show ?thesis by (auto simp: paRelease_def Let_def heldBy_def fun_eq_iff)
next
  case (Some n)
  then have "n - 1 \<le> paLimit b" using budgetOkD [OF ok] by fastforce
  with ok Some show ?thesis
    by (auto simp: paRelease_def Let_def heldBy_def fun_eq_iff budgetOk_def mapGet_set mapGet_delete
        split: if_splits)
qed

lemma runBudget_refines:
  assumes "budgetOk b"
  shows "budgetOk (snd (runBudget x b)) \<and> paLimit (snd (runBudget x b)) = paLimit b
    \<and> (fst (runBudget x b), heldBy (snd (runBudget x b))) = specBudget (paLimit b) x (heldBy b)"
  using acquire_refines [OF assms] release_refines [OF assms]
  by (cases x) (simp_all add: case_prod_unfold)

fun answers :: "('o \<Rightarrow> 's \<Rightarrow> 'r \<times> 's) \<Rightarrow> 'o list \<Rightarrow> 's \<Rightarrow> 'r list \<times> 's" where
  "answers f [] s = ([], s)"
| "answers f (x # xs) s =
     (case f x s of (r, s') \<Rightarrow> (case answers f xs s' of (rs, s'') \<Rightarrow> (r # rs, s'')))"

lemma answers_refine:
  assumes "budgetOk b" "paLimit b = limit"
  shows "budgetOk (snd (answers runBudget xs b))
    \<and> paLimit (snd (answers runBudget xs b)) = limit
    \<and> (fst (answers runBudget xs b), heldBy (snd (answers runBudget xs b)))
        = answers (specBudget limit) xs (heldBy b)"
  using assms
proof (induction xs arbitrary: b)
  case (Cons x xs)
  obtain r b' where x: "runBudget x b = (r, b')" by (cases "runBudget x b")
  with runBudget_refines [OF Cons.prems(1), of x] Cons.prems(2)
  have "budgetOk b'" "paLimit b' = limit" "specBudget limit x (heldBy b) = (r, heldBy b')" by auto
  with Cons.IH [of b'] x show ?case by (auto simp: case_prod_unfold prod_eq_iff)
qed simp

text \<open>
  The connection budget refines a counter per address: every sequence of acquires and releases
  gets the answers of the specification, the map holds exactly the addresses with open connections,
  and no address ever holds more than the limit.
\<close>

theorem preauth_budget_refines_counters:
  "let (granted, b) = answers runBudget ops (createPreauthConnectionBudget limit)
   in (granted, heldBy b) = answers (specBudget limit) ops (\<lambda>_. 0)
      \<and> (\<forall>k. mapHas (paCounts b) k \<longleftrightarrow> 0 < heldBy b k)
      \<and> (\<forall>k. int (heldBy b k) \<le> max 0 limit)"
proof -
  let ?r = "answers runBudget ops (createPreauthConnectionBudget limit)"
  have "budgetOk (createPreauthConnectionBudget limit)"
    "heldBy (createPreauthConnectionBudget limit) = (\<lambda>_. 0)"
    by (auto simp: budgetOk_def createPreauthConnectionBudget_def heldBy_def)
  with answers_refine [of "createPreauthConnectionBudget limit" limit ops]
  have ok: "budgetOk (snd ?r)" "paLimit (snd ?r) = limit"
    and eq: "(fst ?r, heldBy (snd ?r)) = answers (specBudget limit) ops (\<lambda>_. 0)"
    by (auto simp: createPreauthConnectionBudget_def)
  from heldBy_facts [OF ok(1)] ok(2) eq show ?thesis
    by (simp only: case_prod_unfold Let_def) auto
qed

section \<open>Flood guard\<close>

fun floodRun :: "nat \<Rightarrow> flood_guard \<Rightarrow> flood_decision list \<times> flood_guard" where
  "floodRun 0 g = ([], g)"
| "floodRun (Suc n) g =
     (case registerUnauthorized g of (d, g') \<Rightarrow>
        (case floodRun n g' of (ds, g'') \<Rightarrow> (d # ds, g'')))"

lemma floodRun_account:
  assumes "0 \<le> floodCount g"
  shows "floodCount (snd (floodRun n g)) = floodCount g + int n
    \<and> closeAfter (snd (floodRun n g)) = closeAfter g
    \<and> map decisionCount (fst (floodRun n g)) = map (\<lambda>i. floodCount g + int i) [1..<Suc n]
    \<and> (\<forall>d \<in> set (fst (floodRun n g)). shouldClose d = (decisionCount d > closeAfter g))
    \<and> int (length (filter shouldLog (fst (floodRun n g))))
        + sum_list (map decisionSuppressed (fst (floodRun n g)))
        + floodSuppressed (snd (floodRun n g)) = floodSuppressed g + int n"
  using assms
proof (induction n arbitrary: g)
  case (Suc n)
  obtain d g' where r: "registerUnauthorized g = (d, g')" by (cases "registerUnauthorized g")
  then have g': "floodCount g' = floodCount g + 1" "closeAfter g' = closeAfter g"
    "decisionCount d = floodCount g + 1" "shouldClose d = (floodCount g + 1 > closeAfter g)"
    "of_bool (shouldLog d) + decisionSuppressed d + floodSuppressed g' = floodSuppressed g + 1"
    by (auto simp: registerUnauthorized_def Let_def split: if_splits)
  have IH: "floodCount (snd (floodRun n g')) = floodCount g' + int n
    \<and> closeAfter (snd (floodRun n g')) = closeAfter g'
    \<and> map decisionCount (fst (floodRun n g')) = map (\<lambda>i. floodCount g' + int i) [1..<Suc n]
    \<and> (\<forall>d \<in> set (fst (floodRun n g')). shouldClose d = (decisionCount d > closeAfter g'))
    \<and> int (length (filter shouldLog (fst (floodRun n g'))))
        + sum_list (map decisionSuppressed (fst (floodRun n g')))
        + floodSuppressed (snd (floodRun n g')) = floodSuppressed g' + int n"
    using Suc.prems g'(1) by (intro Suc.IH) simp
  have idx: "map (\<lambda>i. floodCount g + int i) [1..<Suc (Suc n)]
      = (floodCount g + 1) # map (\<lambda>i. floodCount g' + int i) [1..<Suc n]"
    unfolding g'(1) by (simp add: upt_conv_Cons map_Suc_upt [symmetric] comp_def del: upt_Suc map_Suc_upt)
  show ?case
    using IH g' unfolding idx by (auto simp: r case_prod_unfold simp del: upt_Suc split: if_splits)
qed simp

text \<open>
  The flood guard loses no rejection and closes on time: over the first \<open>n\<close> unauthorized
  requests of a connection, decision \<open>i\<close> carries the count \<open>i\<close> and asks to close exactly
  beyond \<open>closeAfter\<close>; and the logged decisions, the suppressed ones they report and the
  ones not yet reported add up to \<open>n\<close>.
\<close>

theorem flood_guard_accounts:
  "let g = newFloodGuard optCloseAfter optLogEvery; (ds, g') = floodRun n g
   in map decisionCount ds = map int [1..<Suc n]
      \<and> list_all (\<lambda>d. shouldClose d = (decisionCount d > closeAfter g)) ds
      \<and> int (length (filter shouldLog ds)) + sum_list (map decisionSuppressed ds) + floodSuppressed g'
          = int n"
  using floodRun_account [of "newFloodGuard optCloseAfter optLogEvery" n]
  by (simp add: newFloodGuard_def case_prod_unfold list_all_iff Let_def del: upt_Suc)

end
