(* ===== verification/Dedupe.thy ===== *)
theory Dedupe
  imports Prelude
begin

text \<open>
  The duplicate suppressor \<open>createDedupeCache\<close> of \<open>src/src/infra/dedupe.ts\<close> with
  \<open>pruneMapToMaxSize\<close> of \<open>src/src/infra/map-size.ts\<close>: a map from keys to the time they were
  last seen, in the order they were last touched. \<open>ttlMs = 0\<close> means entries never expire; keys
  that are missing or empty are never duplicates.
\<close>

section \<open>State and operations\<close>

record dedupe_cache =
  ttlMs :: int
  maxSize :: int
  cache :: "(string, int) jsmap"

definition createDedupeCache :: "int \<Rightarrow> rat \<Rightarrow> dedupe_cache" where
  "createDedupeCache optTtlMs optMaxSize =
     \<lparr>ttlMs = max 0 optTtlMs, maxSize = max 0 \<lfloor>optMaxSize\<rfloor>, cache = []\<rparr>"

function pruneLoop :: "int \<Rightarrow> ('k, 'v) jsmap \<Rightarrow> ('k, 'v) jsmap" where
  \<comment> \<open>\<open>while (map.size > limit)\<close> delete the oldest key\<close>
  "pruneLoop limit m =
     (if int (length m) > limit then
        (case m of [] \<Rightarrow> m | (oldest, v) # rest \<Rightarrow> pruneLoop limit (mapDelete oldest m))
      else m)"
  by pat_completeness auto

termination
proof (relation "measure (\<lambda>(limit, m). length m)")
  fix limit :: int and m :: "('k, 'v) jsmap" and p rest oldest v
  assume "m = p # rest" "(oldest, v) = p"
  then show "((limit, mapDelete oldest m), (limit, m)) \<in> measure (\<lambda>(limit, m). length m)"
    using length_delete_le [of oldest rest] by (auto simp: le_imp_less_Suc)
qed simp

definition pruneMapToMaxSize :: "('k, 'v) jsmap \<Rightarrow> int \<Rightarrow> ('k, 'v) jsmap" where
  "pruneMapToMaxSize m size0 =
     (let limit = max 0 size0 in if limit \<le> 0 then [] else pruneLoop limit m)"

definition touch :: "string \<Rightarrow> int \<Rightarrow> dedupe_cache \<Rightarrow> dedupe_cache" where
  "touch key now d = d\<lparr>cache := mapSet key now (mapDelete key (cache d))\<rparr>"

definition pruneCache :: "int \<Rightarrow> dedupe_cache \<Rightarrow> dedupe_cache" where
  "pruneCache now d =
     (let kept = (if ttlMs d > 0 then filter (\<lambda>(k, ts). \<not> ts < now - ttlMs d) (cache d) else cache d)
      in if maxSize d \<le> 0 then d\<lparr>cache := []\<rparr>
         else d\<lparr>cache := pruneMapToMaxSize kept (maxSize d)\<rparr>)"

definition hasUnexpired :: "string \<Rightarrow> int \<Rightarrow> bool \<Rightarrow> dedupe_cache \<Rightarrow> bool \<times> dedupe_cache" where
  "hasUnexpired key now touchOnRead d =
     (case mapGet (cache d) key of
        None \<Rightarrow> (False, d)
      | Some existing \<Rightarrow>
          if ttlMs d > 0 \<and> now - existing \<ge> ttlMs d then (False, d\<lparr>cache := mapDelete key (cache d)\<rparr>)
          else (True, if touchOnRead then touch key now d else d))"

definition dedupeCheck :: "string option \<Rightarrow> int \<Rightarrow> dedupe_cache \<Rightarrow> bool \<times> dedupe_cache" where
  "dedupeCheck key now d =
     (case key of
        None \<Rightarrow> (False, d)
      | Some k \<Rightarrow>
          if k = [] then (False, d)
          else (case hasUnexpired k now True d of
                  (hit, d1) \<Rightarrow> if hit then (True, d1) else (False, pruneCache now (touch k now d1))))"

definition dedupePeek :: "string option \<Rightarrow> int \<Rightarrow> dedupe_cache \<Rightarrow> bool \<times> dedupe_cache" where
  "dedupePeek key now d =
     (case key of
        None \<Rightarrow> (False, d)
      | Some k \<Rightarrow> if k = [] then (False, d) else hasUnexpired k now False d)"

definition dedupeDelete :: "string option \<Rightarrow> dedupe_cache \<Rightarrow> dedupe_cache" where
  "dedupeDelete key d =
     (case key of None \<Rightarrow> d | Some k \<Rightarrow> if k = [] then d else d\<lparr>cache := mapDelete k (cache d)\<rparr>)"

definition dedupeClear :: "dedupe_cache \<Rightarrow> dedupe_cache" where
  "dedupeClear d = d\<lparr>cache := []\<rparr>"

definition dedupeSize :: "dedupe_cache \<Rightarrow> nat" where
  "dedupeSize d = length (cache d)"

section \<open>Pruning keeps the newest entries\<close>

declare pruneLoop.simps [simp del]

lemma pruneLoop_drop:
  "wfMap m \<Longrightarrow> 0 \<le> limit \<Longrightarrow> pruneLoop limit m = drop (length m - nat limit) m"
proof (induction limit m rule: pruneLoop.induct)
  case (1 limit m)
  show ?case
  proof (cases "int (length m) > limit")
    case True
    with 1 obtain k v rest where m: "m = (k, v) # rest" by (cases m) auto
    have "mapDelete k m = rest" "wfMap rest"
      using 1(2) mapDelete_head [of k v rest] by (auto simp: m wfMap_Cons)
    moreover from this have "pruneLoop limit rest = drop (length rest - nat limit) rest"
      using "1.IH" [OF True m refl] 1(3) by simp
    moreover have "length m - nat limit = Suc (length rest - nat limit)"
      using True 1(3) by (simp add: m nat_less_iff)
    ultimately show ?thesis using True by (subst pruneLoop.simps) (simp add: m)
  next
    case False
    with 1(3) show ?thesis by (subst pruneLoop.simps) simp
  qed
qed

lemma pruneMapToMaxSize_drop:
  "wfMap m \<Longrightarrow> pruneMapToMaxSize m n = drop (length m - nat n) m"
  by (auto simp: pruneMapToMaxSize_def pruneLoop_drop Let_def)

lemma wfMap_pruneMap: "wfMap m \<Longrightarrow> wfMap (pruneMapToMaxSize m n)"
  by (simp add: pruneMapToMaxSize_drop)

definition dedupeOk :: "dedupe_cache \<Rightarrow> bool" where
  "dedupeOk d \<longleftrightarrow> wfMap (cache d) \<and> int (length (cache d)) \<le> maxSize d \<and> 0 \<le> maxSize d \<and> 0 \<le> ttlMs d"

lemma touch_cache: "cache (touch k now d) = mapDelete k (cache d) @ [(k, now)]"
  by (simp add: touch_def mapSet_append mapGet_delete)

lemma touch_fields [simp]: "ttlMs (touch k now d) = ttlMs d" "maxSize (touch k now d) = maxSize d"
  by (simp_all add: touch_def)

lemma wfMap_touch: "wfMap (cache d) \<Longrightarrow> wfMap (cache (touch k now d))"
  by (simp add: touch_def)

lemma touch_ok: "dedupeOk d \<Longrightarrow> mapHas (cache d) k \<Longrightarrow> dedupeOk (touch k now d)"
  using length_mapDelete [of "cache d" k] wfMap_touch [of d k now]
  by (simp add: dedupeOk_def touch_cache)

lemma hasUnexpired_ok: "dedupeOk d \<Longrightarrow> dedupeOk (snd (hasUnexpired k now t d))"
  using touch_ok [of d k now] length_delete_le [of k "cache d"]
  by (auto simp: hasUnexpired_def dedupeOk_def split: option.splits)

lemma pruneCache_ok:
  assumes "wfMap (cache d)" "0 \<le> maxSize d" "0 \<le> ttlMs d"
  shows "dedupeOk (pruneCache now d)"
  using assms by (auto simp: pruneCache_def dedupeOk_def pruneMapToMaxSize_drop Let_def)

lemma dedupeCheck_ok: "dedupeOk d \<Longrightarrow> dedupeOk (snd (dedupeCheck key now d))"
proof -
  assume ok: "dedupeOk d"
  have "dedupeOk (pruneCache now (touch k now d'))" if "dedupeOk d'" for k d'
    using that by (intro pruneCache_ok) (auto simp: dedupeOk_def touch_def)
  with hasUnexpired_ok [OF ok] show ?thesis
    by (auto simp: dedupeCheck_def ok split: option.splits prod.splits) (metis snd_conv)+
qed

section \<open>Runs\<close>

datatype dedupe_op =
    DCheck "string option" int
  | DPeek "string option" int
  | DDelete "string option"
  | DClear

fun applyDedupe :: "dedupe_op \<Rightarrow> dedupe_cache \<Rightarrow> dedupe_cache" where
  "applyDedupe (DCheck key now) d = snd (dedupeCheck key now d)"
| "applyDedupe (DPeek key now) d = snd (dedupePeek key now d)"
| "applyDedupe (DDelete key) d = dedupeDelete key d"
| "applyDedupe DClear d = dedupeClear d"

lemma hasUnexpired_fields [simp]:
  "ttlMs (snd (hasUnexpired k now t d)) = ttlMs d" "maxSize (snd (hasUnexpired k now t d)) = maxSize d"
  by (auto simp: hasUnexpired_def split: option.splits)

lemma pruneCache_fields [simp]: "ttlMs (pruneCache now d) = ttlMs d" "maxSize (pruneCache now d) = maxSize d"
  by (auto simp: pruneCache_def Let_def)

lemma applyDedupe_fields [simp]:
  "ttlMs (applyDedupe x d) = ttlMs d" "maxSize (applyDedupe x d) = maxSize d"
  by (cases x; auto simp: dedupeCheck_def dedupePeek_def dedupeDelete_def dedupeClear_def
      case_prod_unfold split: option.splits)+

lemma applyDedupe_ok: "dedupeOk d \<Longrightarrow> dedupeOk (applyDedupe x d)"
proof (cases x)
  case (DDelete key)
  then show "dedupeOk d \<Longrightarrow> ?thesis"
    using length_delete_le [of "the key" "cache d"]
    by (auto simp: dedupeDelete_def dedupeOk_def split: option.splits)
next
  case DClear
  then show "dedupeOk d \<Longrightarrow> ?thesis" by (simp add: dedupeClear_def dedupeOk_def)
qed (auto simp: dedupeCheck_ok dedupePeek_def hasUnexpired_ok split: option.splits)

interpretation dedupe_bounded:
  event_invariant applyDedupe "\<lambda>_. True" "\<lambda>d. dedupeOk d \<and> maxSize d = n" for n
  by unfold_locales (simp add: applyDedupe_ok)

lemma create_dedupe_ok: "dedupeOk (createDedupeCache ttl n)"
  by (simp add: dedupeOk_def createDedupeCache_def)

text \<open>
  A duplicate suppressor never holds more than its maximum of keys (rounded down, none at all for
  a maximum below 1), whatever calls are made on it.
\<close>

theorem dedupe_size_bounded:
  "int (dedupeSize (fold applyDedupe ops (createDedupeCache optTtlMs optMaxSize))) \<le> max 0 \<lfloor>optMaxSize\<rfloor>"
  using dedupe_bounded.run_inv [of "createDedupeCache optTtlMs optMaxSize" "max 0 \<lfloor>optMaxSize\<rfloor>" ops]
    create_dedupe_ok [of optTtlMs optMaxSize]
  by (simp add: dedupeSize_def dedupeOk_def createDedupeCache_def list_all_iff)

section \<open>What is reported a duplicate was seen\<close>

definition seenBefore :: "dedupe_op list \<Rightarrow> dedupe_cache \<Rightarrow> bool" where
  \<comment> \<open>every entry comes from a check of its key at its time\<close>
  "seenBefore past d \<longleftrightarrow> (\<forall>k t. (k, t) \<in> set (cache d) \<longrightarrow> DCheck (Some k) t \<in> set past)"

lemma hasUnexpired_set:
  "set (cache (snd (hasUnexpired k now t d))) \<subseteq> insert (k, now) (set (cache d))"
  by (auto simp: hasUnexpired_def touch_cache set_mapDelete split: option.splits)

lemma hasUnexpired_set_peek:
  "set (cache (snd (hasUnexpired k now False d))) \<subseteq> set (cache d)"
  by (auto simp: hasUnexpired_def set_mapDelete split: option.splits)

lemma pruneCache_set: "wfMap (cache d) \<Longrightarrow> set (cache (pruneCache now d)) \<subseteq> set (cache d)"
  by (auto simp: pruneCache_def Let_def pruneMapToMaxSize_drop dest!: in_set_dropD)

lemma touch_set: "set (cache (touch k now d)) \<subseteq> insert (k, now) (set (cache d))"
  by (auto simp: touch_cache set_mapDelete)

lemma dedupeCheck_set:
  assumes "dedupeOk d"
  shows "set (cache (snd (dedupeCheck (Some k) now d))) \<subseteq> insert (k, now) (set (cache d))"
proof -
  obtain hit d1 where h: "hasUnexpired k now True d = (hit, d1)" by (cases "hasUnexpired k now True d")
  have "dedupeOk d1" using hasUnexpired_ok [OF assms, of k now True] h by simp
  then have "wfMap (cache (touch k now d1))" by (simp add: dedupeOk_def wfMap_touch)
  from pruneCache_set [OF this, of now] touch_set [of k now d1] hasUnexpired_set [of k now True d]
  show ?thesis by (auto simp: dedupeCheck_def h)
qed

lemma seenBefore_step:
  assumes "dedupeOk d" "seenBefore past d"
  shows "seenBefore (past @ [x]) (applyDedupe x d)"
proof (cases x)
  case (DCheck key now)
  show ?thesis
  proof (cases key)
    case None
    with DCheck assms show ?thesis by (auto simp: dedupeCheck_def seenBefore_def)
  next
    case (Some k)
    with DCheck assms dedupeCheck_set [OF assms(1), of k now] show ?thesis
      by (auto simp: seenBefore_def)
  qed
next
  case (DPeek key now)
  with assms hasUnexpired_set_peek [of "the key" now d] show ?thesis
    by (auto simp: dedupePeek_def seenBefore_def split: option.splits)
next
  case (DDelete key)
  with assms show ?thesis
    by (auto simp: dedupeDelete_def seenBefore_def set_mapDelete split: option.splits)
next
  case DClear
  then show ?thesis by (simp add: dedupeClear_def seenBefore_def)
qed

lemma seenBefore_run:
  assumes "dedupeOk d" "seenBefore past d"
  shows "seenBefore (past @ ops) (fold applyDedupe ops d)"
  using assms
proof (induction ops arbitrary: past d)
  case (Cons x ops)
  from Cons.IH [OF applyDedupe_ok [OF Cons.prems(1)] seenBefore_step [OF Cons.prems]]
  show ?case by simp
qed simp

text \<open>
  Nothing is suppressed that was not seen: when a check reports a duplicate, an earlier check had
  that very key, at a time that has not expired.
\<close>

theorem dedupe_reports_only_seen:
  assumes "fst (dedupeCheck (Some k) now (fold applyDedupe ops (createDedupeCache optTtlMs optMaxSize)))"
  shows "\<exists>t. DCheck (Some k) t \<in> set ops \<and> (optTtlMs \<le> 0 \<or> now - t < optTtlMs)"
proof -
  let ?d = "fold applyDedupe ops (createDedupeCache optTtlMs optMaxSize)"
  have "seenBefore ([] @ ops) ?d"
    by (rule seenBefore_run [OF create_dedupe_ok]) (simp add: seenBefore_def createDedupeCache_def)
  moreover have "ttlMs ?d = max 0 optTtlMs"
    by (rule fold_invariant [where Q = "\<lambda>_. True"]) (auto simp: createDedupeCache_def)
  moreover obtain t where "(k, t) \<in> set (cache ?d)" "ttlMs ?d > 0 \<longrightarrow> now - t < ttlMs ?d"
    using assms
    by (auto simp: dedupeCheck_def hasUnexpired_def dest!: mapGet_SomeD split: if_splits option.splits)
  ultimately show ?thesis
    by (intro exI [of _ t]) (auto simp: seenBefore_def max_def split: if_splits)
qed

lemma dedupe_reports_only_seen_witness:
  "\<exists>t. DCheck (Some ''m1'') t \<in> set [DCheck (Some ''m1'') 5, DCheck (Some ''m2'') 6]
    \<and> ((10::int) \<le> 0 \<or> 14 - t < 10)"
  by (rule dedupe_reports_only_seen [where optMaxSize = 2]) code_simp

section \<open>What was seen is reported\<close>

definition remembers :: "string \<Rightarrow> int \<Rightarrow> string set \<Rightarrow> dedupe_cache \<Rightarrow> bool" where
  \<comment> \<open>\<open>k\<close> is there with a time not before \<open>t0\<close>, and only keys of \<open>K\<close> are newer\<close>
  "remembers k t0 K d \<longleftrightarrow>
     (\<exists>xs t ys. cache d = xs @ (k, t) # ys \<and> t0 \<le> t \<and> fst ` set ys \<subseteq> K \<and> k \<notin> fst ` set xs)"

definition remembering :: "string \<Rightarrow> int \<Rightarrow> string set \<Rightarrow> dedupe_cache \<Rightarrow> bool" where
  "remembering k t0 K d \<longleftrightarrow> dedupeOk d \<and> remembers k t0 K d \<and> int (card K) < maxSize d \<and> finite K \<and> k \<noteq> []"

fun quietOp :: "string \<Rightarrow> int \<Rightarrow> int \<Rightarrow> string set \<Rightarrow> dedupe_op \<Rightarrow> bool" where
  \<comment> \<open>a call while \<open>k\<close> has not expired: a check or peek of \<open>k\<close> or of a key of \<open>K\<close>, or the removal
     of another key\<close>
  "quietOp k t0 ttl K (DCheck key now) =
     (t0 \<le> now \<and> (ttl > 0 \<longrightarrow> now - t0 < ttl) \<and> (case key of None \<Rightarrow> True | Some k' \<Rightarrow> k' = k \<or> k' \<in> K))"
| "quietOp k t0 ttl K (DPeek key now) = (t0 \<le> now \<and> (ttl > 0 \<longrightarrow> now - t0 < ttl))"
| "quietOp k t0 ttl K (DDelete key) = (key \<noteq> Some k)"
| "quietOp k t0 ttl K DClear = False"

lemma remembers_get: "remembers k t0 K d \<Longrightarrow> \<exists>t. mapGet (cache d) k = Some t \<and> t0 \<le> t"
  by (force simp: remembers_def map_add_Some_iff map_of_eq_None_iff)

lemma remembers_touch_self: "remembers k t0 K (touch k now d)" if "t0 \<le> now"
  unfolding remembers_def touch_cache
  by (rule exI [of _ "mapDelete k (cache d)"], rule exI [of _ now], rule exI [of _ "[]"])
    (use that in \<open>auto simp: set_mapDelete\<close>)

lemma remembers_delete:
  assumes "remembers k t0 K d" "k' \<noteq> k"
  shows "remembers k t0 K (d\<lparr>cache := mapDelete k' (cache d)\<rparr>)"
proof -
  obtain xs t ys where "cache d = xs @ (k, t) # ys" "t0 \<le> t" "fst ` set ys \<subseteq> K" "k \<notin> fst ` set xs"
    using assms(1) by (auto simp: remembers_def)
  with assms(2) show ?thesis
    unfolding remembers_def
    by (intro exI [of _ "mapDelete k' xs"] exI [of _ t] exI [of _ "mapDelete k' ys"])
      (auto simp: mapDelete_filter)
qed

lemma remembers_touch:
  assumes "remembers k t0 K d" "k' \<noteq> k" "k' \<in> K"
  shows "remembers k t0 K (touch k' now d)"
proof -
  obtain xs t ys where "mapDelete k' (cache d) = xs @ (k, t) # ys" "t0 \<le> t" "fst ` set ys \<subseteq> K"
    "k \<notin> fst ` set xs"
    using remembers_delete [OF assms(1,2)] by (auto simp: remembers_def)
  with assms(3) show ?thesis
    unfolding remembers_def touch_cache
    by (intro exI [of _ xs] exI [of _ t] exI [of _ "ys @ [(k', now)]"]) auto
qed

lemma distinct_card_le: "distinct ks \<Longrightarrow> set ks \<subseteq> K \<Longrightarrow> finite K \<Longrightarrow> length ks \<le> card K"
  by (metis card_mono distinct_card)

lemma remembers_prune:
  assumes "remembers k t0 K d" "wfMap (cache d)" "int (card K) < maxSize d" "finite K"
    and "ttlMs d > 0 \<longrightarrow> now - t0 < ttlMs d"
  shows "remembers k t0 K (pruneCache now d)"
proof -
  obtain xs t ys where c: "cache d = xs @ (k, t) # ys" "t0 \<le> t" "fst ` set ys \<subseteq> K" "k \<notin> fst ` set xs"
    using assms(1) by (auto simp: remembers_def)
  let ?kept = "if ttlMs d > 0 then filter (\<lambda>(k, ts). \<not> ts < now - ttlMs d) (cache d) else cache d"
  obtain us vs where k: "?kept = us @ (k, t) # vs" "set vs \<subseteq> set ys" "set us \<subseteq> set xs"
    using c(1,2) assms(5) by (fastforce split: if_splits)
  have wf: "wfMap ?kept" using assms(2) by simp
  then have "distinct (map fst vs)" by (simp add: k wfMap_def)
  then have "length vs \<le> card K"
    using k(2) c(3) assms(4) distinct_card_le [of "map fst vs" K] by auto
  then have "length ?kept - nat (maxSize d) \<le> length us" using assms(3) by (simp add: k)
  moreover have "cache (pruneCache now d) = drop (length ?kept - nat (maxSize d)) ?kept"
    using assms(3) by (simp add: pruneCache_def Let_def pruneMapToMaxSize_drop [OF wf])
  ultimately have "cache (pruneCache now d) = drop (length ?kept - nat (maxSize d)) us @ (k, t) # vs"
    by (simp add: k)
  moreover have "k \<notin> fst ` set (drop (length ?kept - nat (maxSize d)) us)"
    using c(4) k(3) by (auto dest: in_set_dropD)
  moreover have "fst ` set vs \<subseteq> K" using c(3) k(2) by blast
  ultimately show ?thesis
    unfolding remembers_def using c(2) by blast
qed

lemma hasUnexpired_remembers:
  assumes "remembers k t0 K d" "t0 \<le> now" "ttlMs d > 0 \<longrightarrow> now - t0 < ttlMs d"
    and "k' = k \<or> k' \<in> K \<or> \<not> t"
  shows "remembers k t0 K (snd (hasUnexpired k' now t d)) \<and> (k' = k \<longrightarrow> fst (hasUnexpired k' now t d))"
proof (cases "k' = k")
  case True
  with remembers_get [OF assms(1)] assms remembers_touch_self [OF assms(2), of k K d] show ?thesis
    by (auto simp: hasUnexpired_def)
next
  case False
  with assms remembers_delete [OF assms(1) False] remembers_touch [OF assms(1) False] show ?thesis
    by (auto simp: hasUnexpired_def split: option.splits)
qed

lemma dedupeCheck_remembers:
  assumes "remembering k t0 K d" "t0 \<le> now" "ttlMs d > 0 \<longrightarrow> now - t0 < ttlMs d" "k' = k \<or> k' \<in> K"
  shows "remembers k t0 K (snd (dedupeCheck (Some k') now d))"
proof -
  obtain hit d1 where h: "hasUnexpired k' now True d = (hit, d1)" by (cases "hasUnexpired k' now True d")
  note rem = assms(1) [unfolded remembering_def]
  have d1: "remembers k t0 K d1" "k' = k \<longrightarrow> hit"
    using hasUnexpired_remembers [of k t0 K d now k' True] rem assms(2-4) unfolding h by auto
  have d2: "dedupeOk d1" "maxSize d1 = maxSize d" "ttlMs d1 = ttlMs d"
    using hasUnexpired_ok [of d k' now True] hasUnexpired_fields [of k' now True d] rem unfolding h by auto
  note d1 = d1 d2
  show ?thesis
  proof (cases "k' = [] \<or> hit")
    case True
    with rem d1 show ?thesis by (auto simp: dedupeCheck_def h)
  next
    case False
    with d1 have ne: "k' \<noteq> k" by blast
    with assms(4) remembers_touch [OF d1(1) ne] have "remembers k t0 K (touch k' now d1)" by blast
    from remembers_prune [OF this, of now] d1 rem assms(3) wfMap_touch [of d1]
    have "remembers k t0 K (pruneCache now (touch k' now d1))" by (simp add: dedupeOk_def)
    with False show ?thesis by (simp add: dedupeCheck_def h)
  qed
qed

lemma remembering_step:
  assumes "remembering k t0 K d \<and> ttlMs d = ttl" "quietOp k t0 ttl K x"
  shows "remembering k t0 K (applyDedupe x d) \<and> ttlMs (applyDedupe x d) = ttl"
proof -
  note rem = assms(1) [unfolded remembering_def]
  have "remembers k t0 K (applyDedupe x d)"
  proof (cases x)
    case (DCheck key now)
    show ?thesis
    proof (cases key)
      case None
      with DCheck rem show ?thesis by (simp add: dedupeCheck_def)
    next
      case (Some k')
      with DCheck assms dedupeCheck_remembers [of k t0 K d now k'] show ?thesis by simp
    qed
  next
    case (DPeek key now)
    with rem assms(2) hasUnexpired_remembers [of k t0 K d now "the key" False] show ?thesis
      by (auto simp: dedupePeek_def split: option.splits)
  next
    case (DDelete key)
    with rem assms(2) remembers_delete [of k t0 K d "the key"] show ?thesis
      by (cases key) (simp_all add: dedupeDelete_def)
  next
    case DClear
    with assms(2) show ?thesis by simp
  qed
  with rem show ?thesis by (simp add: remembering_def applyDedupe_ok)
qed

interpretation dedupe_memory:
  event_invariant applyDedupe "quietOp k t0 ttl K" "\<lambda>d. remembering k t0 K d \<and> ttlMs d = ttl"
  for k t0 ttl K
  by unfold_locales (rule remembering_step)

lemma check_starts_memory:
  assumes "dedupeOk d" "k \<noteq> []" "finite K" "int (card K) < maxSize d"
  shows "remembering k t0 K (snd (dedupeCheck (Some k) t0 d))"
proof -
  obtain hit d1 where h: "hasUnexpired k t0 True d = (hit, d1)" by (cases "hasUnexpired k t0 True d")
  have d1: "dedupeOk d1" "maxSize d1 = maxSize d" "ttlMs d1 = ttlMs d"
    using hasUnexpired_ok [OF assms(1), of k t0 True] hasUnexpired_fields [of k t0 True d] h by auto
  have "remembers k t0 K (snd (dedupeCheck (Some k) t0 d))"
  proof (cases hit)
    case True
    with h have "d1 = touch k t0 d" by (auto simp: hasUnexpired_def split: option.splits if_splits)
    with True assms(2) remembers_touch_self [of t0 t0 k K d] show ?thesis
      by (simp add: dedupeCheck_def h)
  next
    case False
    have "remembers k t0 K (pruneCache t0 (touch k t0 d1))"
      using remembers_touch_self [of t0 t0 k K d1] d1 assms wfMap_touch [of d1]
      by (intro remembers_prune) (auto simp: dedupeOk_def)
    with False assms(2) show ?thesis by (simp add: dedupeCheck_def h)
  qed
  moreover have "maxSize (snd (dedupeCheck (Some k) t0 d)) = maxSize d"
    using applyDedupe_fields(2) [of "DCheck (Some k) t0" d] by simp
  ultimately show ?thesis using assms dedupeCheck_ok [OF assms(1)] by (simp add: remembering_def)
qed

text \<open>
  What was seen is suppressed: after a check of \<open>k\<close> at \<open>t0\<close>, every check of \<open>k\<close> within the
  time to live is reported a duplicate, whatever checks and peeks come in between, as long as they
  touch fewer different other keys than the cache holds and \<open>k\<close> is not deleted.
\<close>

theorem dedupe_remembers:
  assumes "k \<noteq> []" "finite K" "int (card K) < max 0 \<lfloor>optMaxSize\<rfloor>"
    and "d = snd (dedupeCheck (Some k) t0 (fold applyDedupe before (createDedupeCache optTtlMs optMaxSize)))"
    and "list_all (quietOp k t0 (max 0 optTtlMs) K) ops"
    and "t0 \<le> now" "0 < optTtlMs \<longrightarrow> now - t0 < optTtlMs"
  shows "fst (dedupeCheck (Some k) now (fold applyDedupe ops d))"
proof -
  let ?d0 = "fold applyDedupe before (createDedupeCache optTtlMs optMaxSize)"
  have ok: "dedupeOk ?d0 \<and> maxSize ?d0 = max 0 \<lfloor>optMaxSize\<rfloor> \<and> ttlMs ?d0 = max 0 optTtlMs"
    by (rule fold_invariant [where Q = "\<lambda>_. True"])
      (auto simp: create_dedupe_ok applyDedupe_ok, auto simp: createDedupeCache_def)
  have "remembering k t0 K d"
    unfolding assms(4) using ok assms(1-3) by (intro check_starts_memory) auto
  moreover have "ttlMs d = max 0 optTtlMs"
    using ok applyDedupe_fields(1) [of "DCheck (Some k) t0" ?d0] by (simp add: assms(4))
  ultimately have "remembering k t0 K (fold applyDedupe ops d) \<and> ttlMs (fold applyDedupe ops d) = max 0 optTtlMs"
    by (intro dedupe_memory.run_inv [OF _ assms(5)]) blast
  then show ?thesis
    using hasUnexpired_remembers [of k t0 K "fold applyDedupe ops d" now k True] assms(1,6,7)
    by (auto simp: remembering_def dedupeCheck_def case_prod_unfold)
qed

lemma dedupe_remembers_witness:
  "fst (dedupeCheck (Some ''m1'') 14 (fold applyDedupe [DCheck (Some ''m2'') 6, DPeek (Some ''m1'') 7, DCheck (Some ''m2'') 8]
     (snd (dedupeCheck (Some ''m1'') 5 (fold applyDedupe [DCheck (Some ''m0'') 1] (createDedupeCache 10 2))))))"
  by (rule dedupe_remembers [where K = "{''m2''}" and optTtlMs = 10 and optMaxSize = 2, OF _ _ _ refl]) simp_all

end
