(* ===== verification/QueueHelpers.thy ===== *)
theory QueueHelpers
  imports Prelude
begin

text \<open>
  The helpers that every backlog queue of the program shares, \<open>src/src/utils/queue-helpers.ts\<close>:
  the runtime settings of a queue, its drop policy with the summary of what was dropped, the
  prompts built from it and the test whether a batch goes to more than one destination. The
  functions take any queue that has the fields they name, so the records below are extended by the
  queues that use them. The asynchronous helpers (\<open>waitForQueueDebounce\<close>,
  \<open>drainNextQueueItem\<close>, \<open>drainCollectQueueStep\<close>) are steps of the drain and modelled
  with it in \<open>FollowupQueue\<close>.

  The ellipsis \<open>U+2026\<close> that \<open>elideQueueText\<close> appends is no Latin-1 character; the model writes
  \<open>CHR 0x85\<close> for it, a character that \<open>trim\<close> and \<open>\s\<close> do not treat as white space either.
\<close>

section \<open>Queue state\<close>

datatype queue_drop_policy = Summarize | DropOld | DropNew

record queue_summary_state =
  dropPolicy :: queue_drop_policy
  droppedCount :: nat
  summaryLines :: "string list"

record 'a queue_state = queue_summary_state +
  items :: "'a list"
  cap :: int

datatype queue_mode = Steer | Followup | Collect | SteerBacklog | Interrupt | Queue

record queue_settings =
  setMode :: queue_mode
  setDebounceMs :: "int option"
  setCap :: "rat option"
  setDropPolicy :: "queue_drop_policy option"

record queue_runtime_target =
  tgtMode :: queue_mode
  tgtDebounceMs :: int
  tgtCap :: int
  tgtDropPolicy :: queue_drop_policy

section \<open>Operations\<close>

definition clearQueueSummaryState :: "'a queue_summary_state_scheme \<Rightarrow> 'a queue_summary_state_scheme" where
  "clearQueueSummaryState s = s\<lparr>droppedCount := 0, summaryLines := []\<rparr>"

definition buildQueueSummaryPrompt ::
  "'a queue_summary_state_scheme \<Rightarrow> string \<Rightarrow> string option \<Rightarrow>
   string option \<times> 'a queue_summary_state_scheme" where
  "buildQueueSummaryPrompt s noun title =
     (if dropPolicy s \<noteq> Summarize \<or> droppedCount s \<le> 0 then (None, s)
      else
        (let head = coalesce title
               (''[Queue overflow] Dropped '' @ showNat (droppedCount s) @ '' '' @ noun
                @ (if droppedCount s = 1 then [] else ''s'') @ '' due to cap.'');
             lines = head # (if summaryLines s \<noteq> []
                             then ''Summary:'' # map (\<lambda>line. ''- '' @ line) (summaryLines s) else [])
         in (Some (joinWith [CHR 0x0A] lines), clearQueueSummaryState s)))"

definition previewQueueSummaryPrompt ::
  "'a queue_summary_state_scheme \<Rightarrow> string \<Rightarrow> string option \<Rightarrow> string option" where
  \<comment> \<open>on a copy of the state, which is left alone\<close>
  "previewQueueSummaryPrompt s noun title =
     fst (buildQueueSummaryPrompt
       \<lparr>dropPolicy = dropPolicy s, droppedCount = droppedCount s, summaryLines = summaryLines s\<rparr>
       noun title)"

definition applyQueueRuntimeSettings ::
  "queue_runtime_target \<Rightarrow> queue_settings \<Rightarrow> queue_runtime_target" where
  "applyQueueRuntimeSettings target st =
     target\<lparr>tgtMode := setMode st,
       tgtDebounceMs := (case setDebounceMs st of Some d \<Rightarrow> max 0 d | None \<Rightarrow> tgtDebounceMs target),
       tgtCap := (case setCap st of Some c \<Rightarrow> if c > 0 then \<lfloor>c\<rfloor> else tgtCap target
                  | None \<Rightarrow> tgtCap target),
       tgtDropPolicy := coalesce (setDropPolicy st) (tgtDropPolicy target)\<rparr>"

definition ellipsis :: char where
  "ellipsis = CHR 0x85"

definition elideQueueText :: "string \<Rightarrow> int \<Rightarrow> string" where
  "elideQueueText s limit =
     (if int (length s) \<le> limit then s
      else trimEnd (take (nat (max 0 (limit - 1))) s) @ [ellipsis])"

definition buildQueueSummaryLine :: "string \<Rightarrow> int \<Rightarrow> string" where
  "buildQueueSummaryLine s limit = elideQueueText (trim (collapseWhitespace s)) limit"

definition shouldSkipQueueItem ::
  "'a \<Rightarrow> 'a list \<Rightarrow> ('a \<Rightarrow> 'a list \<Rightarrow> bool) option \<Rightarrow> bool" where
  "shouldSkipQueueItem item xs dedupe = (case dedupe of None \<Rightarrow> False | Some d \<Rightarrow> d item xs)"

fun shiftToLimit :: "int \<Rightarrow> 'a list \<Rightarrow> 'a list" where
  \<comment> \<open>\<open>while (lines.length > limit) lines.shift()\<close>\<close>
  "shiftToLimit limit [] = []"
| "shiftToLimit limit (x # xs) =
     (if int (length (x # xs)) > limit then shiftToLimit limit xs else x # xs)"

definition recordDropped ::
  "('a \<Rightarrow> string) \<Rightarrow> 'a list \<Rightarrow> ('a, 'b) queue_state_scheme \<Rightarrow> ('a, 'b) queue_state_scheme" where
  \<comment> \<open>\<open>for (const item of dropped)\<close>: count each one and append its summary line\<close>
  "recordDropped summarize dropped q =
     fold (\<lambda>item q. q\<lparr>droppedCount := droppedCount q + 1,
                      summaryLines := summaryLines q @ [buildQueueSummaryLine (summarize item) 160]\<rparr>)
       dropped q"

definition applyQueueDropPolicy ::
  "('a, 'b) queue_state_scheme \<Rightarrow> ('a \<Rightarrow> string) \<Rightarrow> int option \<Rightarrow>
   bool \<times> ('a, 'b) queue_state_scheme" where
  "applyQueueDropPolicy q summarize summaryLimit =
     (if cap q \<le> 0 \<or> int (length (items q)) < cap q then (True, q)
      else if dropPolicy q = DropNew then (False, q)
      else
        (let dropCount = nat (int (length (items q)) - cap q + 1);
             dropped = take dropCount (items q);
             q1 = q\<lparr>items := drop dropCount (items q)\<rparr>
         in if dropPolicy q1 = Summarize then
              (let q2 = recordDropped summarize dropped q1;
                   limit = max 0 (coalesce summaryLimit (cap q))
               in (True, q2\<lparr>summaryLines := shiftToLimit limit (summaryLines q2)\<rparr>))
            else (True, q1)))"

definition buildCollectPrompt ::
  "string \<Rightarrow> 'a list \<Rightarrow> string option \<Rightarrow> ('a \<Rightarrow> nat \<Rightarrow> string) \<Rightarrow> string" where
  "buildCollectPrompt title xs summary renderItem =
     joinWith [CHR 0x0A, CHR 0x0A]
       (title # (case summary of Some s \<Rightarrow> (if s = [] then [] else [s]) | None \<Rightarrow> [])
        @ map (\<lambda>(i, x). renderItem x i) (enumerate 0 xs))"

record resolved_key =
  rkKey :: "string option"
  rkCross :: bool

fun crossChannelLoop ::
  "('a \<Rightarrow> resolved_key) \<Rightarrow> string list \<Rightarrow> bool \<Rightarrow> 'a list \<Rightarrow> bool" where
  \<comment> \<open>the loop of \<open>hasCrossChannelItems\<close> over the items, with its two variables\<close>
  "crossChannelLoop resolveKey keys hasUnkeyed [] =
     (if keys = [] then False else if hasUnkeyed then True else length keys > 1)"
| "crossChannelLoop resolveKey keys hasUnkeyed (item # rest) =
     (let r = resolveKey item
      in if rkCross r then True
         else case rkKey r of
           None \<Rightarrow> crossChannelLoop resolveKey keys True rest
         | Some k \<Rightarrow>
             if k = [] then crossChannelLoop resolveKey keys True rest
             else crossChannelLoop resolveKey (setAdd k keys) hasUnkeyed rest)"

definition hasCrossChannelItems :: "'a list \<Rightarrow> ('a \<Rightarrow> resolved_key) \<Rightarrow> bool" where
  "hasCrossChannelItems xs resolveKey = crossChannelLoop resolveKey [] False xs"

section \<open>Properties\<close>

lemma preview_None_iff:
  "previewQueueSummaryPrompt s noun title = None \<longleftrightarrow> dropPolicy s \<noteq> Summarize \<or> droppedCount s = 0"
  by (simp add: previewQueueSummaryPrompt_def buildQueueSummaryPrompt_def Let_def)

lemma shiftToLimit_drop: "0 \<le> limit \<Longrightarrow> shiftToLimit limit xs = drop (length xs - nat limit) xs"
proof (induction xs)
  case (Cons x xs)
  show ?case
  proof (cases "int (length (x # xs)) > limit")
    case True
    then have "length (x # xs) - nat limit = Suc (length xs - nat limit)"
      using Cons.prems by (simp add: Suc_diff_le nat_le_iff)
    with True Cons show ?thesis by simp
  next
    case False
    then have "length (x # xs) - nat limit = 0" by simp
    with False show ?thesis by simp
  qed
qed simp

lemma recordDropped_fields:
  "recordDropped f dropped q = q\<lparr>droppedCount := droppedCount q + length dropped,
     summaryLines := summaryLines q @ map (\<lambda>x. buildQueueSummaryLine (f x) 160) dropped\<rparr>"
proof (induction dropped arbitrary: q)
  case (Cons x xs)
  have "recordDropped f (x # xs) q
      = recordDropped f xs (q\<lparr>droppedCount := droppedCount q + 1,
          summaryLines := summaryLines q @ [buildQueueSummaryLine (f x) 160]\<rparr>)"
    by (simp add: recordDropped_def)
  then show ?case by (simp add: Cons.IH)
qed (simp add: recordDropped_def)

definition overflowOf :: "('a, 'b) queue_state_scheme \<Rightarrow> nat" where
  \<comment> \<open>how many items a full queue has to give up for one more to fit under its cap\<close>
  "overflowOf q = Suc (length (items q)) - nat (cap q)"

lemma drop_policy_room:
  assumes "0 < cap q"
  shows "cap q \<le> 0 \<or> int (length (items q)) < cap q \<longleftrightarrow> overflowOf q = 0"
    and "nat (int (length (items q)) - cap q + 1) = overflowOf q"
    and "overflowOf q \<le> length (items q)"
  using assms by (auto simp: overflowOf_def nat_diff_distrib)

lemma drop_policy_cases:
  assumes "0 < cap q"
  shows "applyQueueDropPolicy q f None =
    (if overflowOf q = 0 then (True, q)
     else if dropPolicy q = DropNew then (False, q)
     else (True,
       if dropPolicy q = Summarize then
         q\<lparr>items := drop (overflowOf q) (items q), droppedCount := droppedCount q + overflowOf q,
           summaryLines := (let lines = summaryLines q
               @ map (\<lambda>x. buildQueueSummaryLine (f x) 160) (take (overflowOf q) (items q))
             in drop (length lines - nat (cap q)) lines)\<rparr>
       else q\<lparr>items := drop (overflowOf q) (items q)\<rparr>))"
  using drop_policy_room [OF assms] assms
  by (cases "dropPolicy q") (simp_all add: applyQueueDropPolicy_def recordDropped_fields shiftToLimit_drop Let_def)

text \<open>
  The drop policy makes room and accounts for it. If it lets the new item in, the queue has room
  for it under the cap, and what it removed are the oldest items; under \<open>Summarize\<close> each of them is
  counted and its line kept, up to the newest \<open>cap\<close> lines, under the other policies nothing is
  counted; and it refuses the new item only under \<open>DropNew\<close>, leaving the full queue as it was.
\<close>

theorem drop_policy_accounts:
  assumes "0 < cap q" "applyQueueDropPolicy q summarize None = (accept, q')"
  shows "(accept \<longrightarrow> items q' = drop (overflowOf q) (items q) \<and> int (length (items q')) + 1 \<le> cap q)
    \<and> (\<not> accept \<longleftrightarrow> dropPolicy q = DropNew \<and> 0 < overflowOf q)
    \<and> (\<not> accept \<longrightarrow> q' = q)
    \<and> (if dropPolicy q = Summarize
       then droppedCount q' = droppedCount q + overflowOf q
         \<and> (\<exists>old. old @ summaryLines q' = summaryLines q
               @ map (\<lambda>x. buildQueueSummaryLine (summarize x) 160) (take (overflowOf q) (items q))
             \<and> (0 < overflowOf q \<longrightarrow> length (summaryLines q') = min (nat (cap q)) (length (summaryLines q) + overflowOf q)))
       else droppedCount q' = droppedCount q \<and> summaryLines q' = summaryLines q)"
proof -
  note r = drop_policy_room [OF assms(1)]
  have room: "int (length (items q) - overflowOf q) + 1 \<le> cap q"
    using assms(1) by (auto simp: overflowOf_def)
  let ?lines = "summaryLines q
    @ map (\<lambda>x. buildQueueSummaryLine (summarize x) 160) (take (overflowOf q) (items q))"
  have lines: "\<exists>old. old @ drop k ?lines = ?lines" for k
    by (rule exI [of _ "take k ?lines"]) (rule append_take_drop_id)
  have q': "accept \<longleftrightarrow> overflowOf q = 0 \<or> dropPolicy q \<noteq> DropNew"
    "accept \<longrightarrow> items q' = drop (overflowOf q) (items q)" "\<not> accept \<longrightarrow> q' = q"
    "dropPolicy q \<noteq> Summarize \<or> overflowOf q = 0 \<longrightarrow>
       droppedCount q' = droppedCount q \<and> summaryLines q' = summaryLines q"
    "dropPolicy q = Summarize \<and> 0 < overflowOf q \<longrightarrow> droppedCount q' = droppedCount q + overflowOf q
       \<and> summaryLines q' = drop (length ?lines - nat (cap q)) ?lines"
    using assms(2) by (auto simp: drop_policy_cases [OF assms(1)] Let_def simp del: drop_append split: if_splits)
  have room': "accept \<longrightarrow> int (length (items q')) + 1 \<le> cap q" using q'(2) room by simp
  have len: "length (drop (length ?lines - nat (cap q)) ?lines)
      = min (nat (cap q)) (length (summaryLines q) + overflowOf q)"
    using r(3) by simp
  have "if dropPolicy q = Summarize
       then droppedCount q' = droppedCount q + overflowOf q
         \<and> (\<exists>old. old @ summaryLines q' = ?lines
             \<and> (0 < overflowOf q \<longrightarrow> length (summaryLines q') = min (nat (cap q)) (length (summaryLines q) + overflowOf q)))
       else droppedCount q' = droppedCount q \<and> summaryLines q' = summaryLines q"
  proof (cases "overflowOf q = 0")
    case True
    with q'(4) show ?thesis by simp
  next
    case False
    show ?thesis
    proof (cases "dropPolicy q = Summarize")
      case sum: True
      with q'(5) False have d: "droppedCount q' = droppedCount q + overflowOf q"
        and l: "summaryLines q' = drop (length ?lines - nat (cap q)) ?lines" by blast+
      from lines have "\<exists>old. old @ summaryLines q' = ?lines" unfolding l .
      moreover from len have "length (summaryLines q') = min (nat (cap q)) (length (summaryLines q) + overflowOf q)"
        unfolding l .
      ultimately show ?thesis using d unfolding if_P [OF sum] by blast
    next
      case False
      with q'(4) show ?thesis unfolding if_not_P [OF False] by blast
    qed
  qed
  moreover have "\<not> accept \<longleftrightarrow> dropPolicy q = DropNew \<and> 0 < overflowOf q" using q'(1) by auto
  ultimately show ?thesis using q'(2,3) room' by (intro conjI) blast+
qed

definition demoQueue :: "string queue_state" where
  "demoQueue = \<lparr>dropPolicy = Summarize, droppedCount = 3, summaryLines = [''w''],
     items = [''a'', ''b'', ''c''], cap = 2\<rparr>"

lemma drop_policy_accounts_witness:
  "applyQueueDropPolicy demoQueue (\<lambda>x. x) None
     = (True, demoQueue\<lparr>droppedCount := 5, summaryLines := [''a'', ''b''], items := [''c'']\<rparr>)
   \<and> (items (demoQueue\<lparr>droppedCount := 5, summaryLines := [''a'', ''b''], items := [''c'']\<rparr>)
        = drop (overflowOf demoQueue) (items demoQueue)
      \<and> int (length (items (demoQueue\<lparr>droppedCount := 5, summaryLines := [''a'', ''b''], items := [''c'']\<rparr>))) + 1
        \<le> cap demoQueue)"
proof
  show r: "applyQueueDropPolicy demoQueue (\<lambda>x. x) None
     = (True, demoQueue\<lparr>droppedCount := 5, summaryLines := [''a'', ''b''], items := [''c'']\<rparr>)"
    by code_simp
  have c: "0 < cap demoQueue" by (simp add: demoQueue_def)
  show "items (demoQueue\<lparr>droppedCount := 5, summaryLines := [''a'', ''b''], items := [''c'']\<rparr>)
        = drop (overflowOf demoQueue) (items demoQueue)
      \<and> int (length (items (demoQueue\<lparr>droppedCount := 5, summaryLines := [''a'', ''b''], items := [''c'']\<rparr>))) + 1
        \<le> cap demoQueue"
    by (rule drop_policy_accounts [OF c r, THEN conjunct1, THEN mp, OF TrueI])
qed

section \<open>Mixed destinations\<close>

definition keysIn :: "('a \<Rightarrow> resolved_key) \<Rightarrow> 'a list \<Rightarrow> string set" where
  "keysIn f xs = {k. k \<noteq> [] \<and> Some k \<in> (\<lambda>x. rkKey (f x)) ` set xs}"

definition unkeyedIn :: "('a \<Rightarrow> resolved_key) \<Rightarrow> 'a list \<Rightarrow> bool" where
  "unkeyedIn f xs \<longleftrightarrow> (\<exists>x \<in> set xs. \<not> truthy (rkKey (f x)))"

definition mixed :: "string set \<Rightarrow> bool \<Rightarrow> bool" where
  "mixed K un \<longleftrightarrow> K \<noteq> {} \<and> (un \<or> (\<exists>a \<in> K. \<exists>b \<in> K. a \<noteq> b))"

lemma keysIn_simps [simp]:
  "keysIn f [] = {}"
  "keysIn f (x # xs) = (if truthy (rkKey (f x)) then insert (the (rkKey (f x))) (keysIn f xs) else keysIn f xs)"
  by (auto simp: keysIn_def truthy_def split: option.splits)

lemma unkeyedIn_simps [simp]:
  "unkeyedIn f [] = False" "unkeyedIn f (x # xs) = (\<not> truthy (rkKey (f x)) \<or> unkeyedIn f xs)"
  by (simp_all add: unkeyedIn_def)

lemma mixed_set:
  assumes "distinct keys"
  shows "mixed (set keys) un \<longleftrightarrow> keys \<noteq> [] \<and> (un \<or> 1 < length keys)"
proof -
  consider "keys = []" | k where "keys = [k]" | k k' ks where "keys = k # k' # ks"
    by (metis list.exhaust)
  then show ?thesis using assms by cases (auto simp: mixed_def)
qed

lemma crossChannelLoop_iff:
  "distinct keys \<Longrightarrow> crossChannelLoop f keys un xs \<longleftrightarrow>
     (\<exists>x \<in> set xs. rkCross (f x)) \<or> mixed (set keys \<union> keysIn f xs) (un \<or> unkeyedIn f xs)"
proof (induction xs arbitrary: keys un)
  case Nil
  then show ?case using mixed_set [of keys un] by auto
next
  case (Cons x xs)
  show ?case
  proof (cases "rkCross (f x) \<or> \<not> truthy (rkKey (f x))")
    case True
    with Cons show ?thesis by (auto simp: Let_def truthy_def split: option.splits)
  next
    case False
    then obtain k where k: "rkKey (f x) = Some k" "k \<noteq> []" by (auto simp: truthy_def split: option.splits)
    with False Cons show ?thesis by (simp add: Let_def)
  qed
qed

text \<open>
  The test for a mixed batch means what it should: a batch counts as mixed exactly if some item
  has no single routable destination, or two items go to different destinations, or some item has a
  destination while another has none.
\<close>

theorem cross_channel_spec:
  "hasCrossChannelItems xs resolve \<longleftrightarrow>
     (\<exists>x \<in> set xs. rkCross (resolve x))
     \<or> (\<exists>x \<in> set xs. \<exists>y \<in> set xs. truthy (rkKey (resolve x)) \<and> rkKey (resolve x) \<noteq> rkKey (resolve y))"
proof -
  have "mixed (keysIn resolve xs) (unkeyedIn resolve xs) \<longleftrightarrow>
     (\<exists>x \<in> set xs. \<exists>y \<in> set xs. truthy (rkKey (resolve x)) \<and> rkKey (resolve x) \<noteq> rkKey (resolve y))"
    (is "?l = ?r")
  proof
    assume ?l
    then obtain k where k: "k \<in> keysIn resolve xs"
      and or: "unkeyedIn resolve xs \<or> (\<exists>b \<in> keysIn resolve xs. k \<noteq> b)"
      by (auto simp: mixed_def)
    from k obtain x where x: "x \<in> set xs" "rkKey (resolve x) = Some k" "k \<noteq> []" by (force simp: keysIn_def)
    from or obtain y where "y \<in> set xs" "rkKey (resolve y) \<noteq> Some k"
      using x(3) by (force simp: keysIn_def unkeyedIn_def)
    with x show ?r by (metis truthy_simps(2))
  next
    assume ?r
    then obtain x y where xy: "x \<in> set xs" "y \<in> set xs" "truthy (rkKey (resolve x))"
      "rkKey (resolve x) \<noteq> rkKey (resolve y)" by blast
    then obtain k where k: "rkKey (resolve x) = Some k" "k \<noteq> []" by (auto simp: truthy_def split: option.splits)
    then have kin: "k \<in> keysIn resolve xs" using xy(1) by (force simp: keysIn_def)
    show ?l
    proof (cases "truthy (rkKey (resolve y))")
      case True
      then obtain k' where "rkKey (resolve y) = Some k'" "k' \<noteq> []"
        by (auto simp: truthy_def split: option.splits)
      then have "k' \<in> keysIn resolve xs" "k' \<noteq> k" using xy k by (force simp: keysIn_def)+
      with kin show ?thesis by (auto simp: mixed_def)
    next
      case False
      with xy(2) have "unkeyedIn resolve xs" by (auto simp: unkeyedIn_def)
      with kin show ?thesis by (auto simp: mixed_def)
    qed
  qed
  then show ?thesis by (simp add: hasCrossChannelItems_def crossChannelLoop_iff)
qed

text \<open>
  A summary line fits its limit: for a limit of at least 1 the elided text is never longer, and a
  text that fits is only stripped of white space.
\<close>

theorem summary_line_bounded:
  "(1 \<le> limit \<longrightarrow> int (length (buildQueueSummaryLine s limit)) \<le> limit)
   \<and> (int (length (trim (collapseWhitespace s))) \<le> limit \<longrightarrow>
        buildQueueSummaryLine s limit = trim (collapseWhitespace s))"
proof -
  have bound: "1 \<le> limit \<Longrightarrow> int (length (trimEnd (take (nat (limit - 1)) t))) + 1 \<le> limit" for t
    using length_trimEnd [of "take (nat (limit - 1)) t"] by (simp add: min_def split: if_splits)
  show ?thesis
    using bound [of "trim (collapseWhitespace s)"]
    by (auto simp: buildQueueSummaryLine_def elideQueueText_def)
qed

lemma summary_line_bounded_witness:
  "int (length (buildQueueSummaryLine ''ab   cd ef'' 4)) \<le> 4
   \<and> buildQueueSummaryLine ''ab   cd ef'' 4 = ''ab'' @ [ellipsis]
   \<and> buildQueueSummaryLine '' ab   cd '' 5 = ''ab cd''"
proof (intro conjI)
  show "int (length (buildQueueSummaryLine ''ab   cd ef'' 4)) \<le> 4"
    using summary_line_bounded [of 4] by simp
  show "buildQueueSummaryLine ''ab   cd ef'' 4 = ''ab'' @ [ellipsis]" by code_simp
  show "buildQueueSummaryLine '' ab   cd '' 5 = ''ab cd''" by code_simp
qed

end
