(* ===== verification/FollowupQueue.thy ===== *)
theory FollowupQueue
  imports QueueHelpers Dedupe
begin

text \<open>
  The backlog of messages that arrive while the agent of a session is busy,
  \<open>src/src/auto-reply/reply/queue/\<close>: the registry of queues (\<open>state.ts\<close>), \<open>enqueueFollowupRun\<close>
  (\<open>enqueue.ts\<close>), the asynchronous drain (\<open>drain.ts\<close> with the asynchronous helpers of
  \<open>src/src/utils/queue-helpers.ts\<close>). How the settings of a queue are resolved from the configuration
  (\<open>normalize.ts\<close>, \<open>settings.ts\<close>) is not modelled: an enqueue gets them as an argument.

  A queue object can leave the registry while a drain still holds it, so queues live in a heap and
  the registry maps keys to references. A drain is a thread with a program point \<open>pc\<close>: every
  \<open>await\<close> of the source is one, and a thread moves from it by an event (the debounce elapses, the
  delivery settles, a microtask resumes). Between two events any call may come in. The deliveries made
  are logged in \<open>delivered\<close>. A callback \<open>runFollowup\<close> is known by a number. Which channels can be
  routed to is decided by the channel plugins and a parameter of the state, \<open>routable\<close>.

  A run's settings (\<open>FollowupRun["run"]\<close>) are a value here; the source shares one object between
  a queued item and \<open>lastRun\<close>, which makes no difference because the only mutation,
  \<open>refreshQueuedFollowupSession\<close>, is idempotent and reaches both.
\<close>

section \<open>Runs and queues\<close>

record agent_run =
  arSessionId :: string
  arSessionFile :: string
  arProvider :: string
  arModel :: string
  arAuthProfileId :: "string option"
  arAuthProfileIdSource :: "string option"
  arRest :: string \<comment> \<open>the settings that this component passes on unread\<close>

datatype thread_id = ThreadNum int | ThreadStr string

record followup_run =
  fuPrompt :: string
  fuMessageId :: "string option"
  fuSummaryLine :: "string option"
  fuEnqueuedAt :: int
  fuChannel :: "string option"
  fuTo :: "string option"
  fuAccountId :: "string option"
  fuThreadId :: "thread_id option"
  fuRun :: agent_run

record followup_queue = "followup_run queue_state" +
  draining :: bool
  lastEnqueuedAt :: int
  mode :: queue_mode
  debounceMs :: int
  lastRun :: "agent_run option"

datatype item_kind = CollectItem | SummaryItem | PlainItem

datatype drain_pc =
    DebounceWait int        \<comment> \<open>in \<open>waitForQueueDebounce\<close>, with the debounce read at its call\<close>
  | DebounceReady           \<comment> \<open>the debounce is over\<close>
  | AwaitItem item_kind     \<comment> \<open>in \<open>await run(next)\<close> of \<open>drainNextQueueItem\<close>\<close>
  | AfterItem item_kind bool \<comment> \<open>\<open>drainNextQueueItem\<close> has returned this value\<close>
  | AfterSkip               \<comment> \<open>\<open>drainCollectQueueStep\<close> has returned \<open>"skipped"\<close>\<close>
  | AwaitCollect nat bool   \<comment> \<open>delivering a batch of this many items, with a summary or not\<close>
  | Failing                 \<comment> \<open>a delivery has thrown\<close>

record drain_thread =
  thKey :: string
  thQueue :: nat
  thCallback :: nat
  thForce :: bool           \<comment> \<open>\<open>collectState.forceIndividualCollect\<close>\<close>
  thPc :: drain_pc

record delivery =
  dvKey :: string
  dvQueue :: nat
  dvCallback :: nat
  dvRun :: followup_run

record followup_state =
  queues :: "(string, nat) jsmap"
  qheap :: "nat \<Rightarrow> followup_queue"
  nextQueue :: nat
  callbacks :: "(string, nat) jsmap"
  recent :: dedupe_cache
  drains :: "(nat, drain_thread) jsmap"
  nextDrain :: nat
  delivered :: "delivery list"
  routable :: "string \<Rightarrow> bool"

definition putQueue :: "nat \<Rightarrow> followup_queue \<Rightarrow> followup_state \<Rightarrow> followup_state" where
  "putQueue r q s = s\<lparr>qheap := (qheap s)(r := q)\<rparr>"

section \<open>Registry (\<open>state.ts\<close>)\<close>

definition getExistingFollowupQueue :: "string \<Rightarrow> followup_state \<Rightarrow> nat option" where
  "getExistingFollowupQueue key s =
     (let cleaned = trim key in if cleaned = [] then None else mapGet (queues s) cleaned)"

definition applySettingsTo :: "queue_settings \<Rightarrow> followup_queue \<Rightarrow> followup_queue" where
  \<comment> \<open>\<open>applyQueueRuntimeSettings\<close> with a queue as its target\<close>
  "applySettingsTo st q =
     (let t = applyQueueRuntimeSettings
          \<lparr>tgtMode = mode q, tgtDebounceMs = debounceMs q, tgtCap = cap q, tgtDropPolicy = dropPolicy q\<rparr> st
      in q\<lparr>mode := tgtMode t, debounceMs := tgtDebounceMs t, cap := tgtCap t, dropPolicy := tgtDropPolicy t\<rparr>)"

definition createdQueue :: "queue_settings \<Rightarrow> followup_queue" where
  "createdQueue st =
     \<lparr>dropPolicy = coalesce (setDropPolicy st) Summarize, droppedCount = 0, summaryLines = [],
      items = [],
      cap = (case setCap st of Some c \<Rightarrow> if c > 0 then \<lfloor>c\<rfloor> else 20 | None \<Rightarrow> 20),
      draining = False, lastEnqueuedAt = 0, mode = setMode st,
      debounceMs = (case setDebounceMs st of Some d \<Rightarrow> max 0 d | None \<Rightarrow> 1000),
      lastRun = None\<rparr>"

definition getFollowupQueue :: "string \<Rightarrow> queue_settings \<Rightarrow> followup_state \<Rightarrow> nat \<times> followup_state" where
  "getFollowupQueue key st s =
     (case mapGet (queues s) key of
        Some r \<Rightarrow> (r, putQueue r (applySettingsTo st (qheap s r)) s)
      | None \<Rightarrow>
          (let r = nextQueue s;
               s1 = putQueue r (applySettingsTo st (createdQueue st)) (s\<lparr>nextQueue := nextQueue s + 1\<rparr>)
           in (r, s1\<lparr>queues := mapSet key r (queues s1)\<rparr>)))"

definition clearFollowupQueue :: "string \<Rightarrow> followup_state \<Rightarrow> nat \<times> followup_state" where
  "clearFollowupQueue key s =
     (let cleaned = trim key
      in case getExistingFollowupQueue cleaned s of
           None \<Rightarrow> (0, s)
         | Some r \<Rightarrow>
             (let q = qheap s r;
                  cleared = length (items q) + droppedCount q;
                  s1 = putQueue r (q\<lparr>items := [], droppedCount := 0, summaryLines := [],
                                     lastRun := None, lastEnqueuedAt := 0\<rparr>) s
              in (cleared, s1\<lparr>queues := mapDelete cleaned (queues s1)\<rparr>)))"

record session_refresh =
  rfKey :: string
  rfPreviousSessionId :: "string option"
  rfNextSessionId :: "string option"
  rfNextSessionFile :: "string option"
  rfNextProvider :: "string option"
  rfNextModel :: "string option"
  rfNextAuthProfileId :: "string option option" \<comment> \<open>\<open>None\<close>: no such property\<close>
  rfNextAuthProfileIdSource :: "string option option"

definition shouldRewriteSession :: "session_refresh \<Rightarrow> bool" where
  "shouldRewriteSession p \<longleftrightarrow> truthy (rfPreviousSessionId p) \<and> truthy (rfNextSessionId p)
     \<and> rfPreviousSessionId p \<noteq> rfNextSessionId p"

definition shouldRewriteSelection :: "session_refresh \<Rightarrow> bool" where
  "shouldRewriteSelection p \<longleftrightarrow> rfNextProvider p \<noteq> None \<or> rfNextModel p \<noteq> None
     \<or> rfNextAuthProfileId p \<noteq> None \<or> rfNextAuthProfileIdSource p \<noteq> None"

definition rewriteRun :: "session_refresh \<Rightarrow> agent_run \<Rightarrow> agent_run" where
  "rewriteRun p run =
     (let r1 = (if shouldRewriteSession p \<and> Some (arSessionId run) = rfPreviousSessionId p
                then (let r = run\<lparr>arSessionId := the (rfNextSessionId p)\<rparr>
                      in if trimmed (rfNextSessionFile p) \<noteq> None
                         then r\<lparr>arSessionFile := the (rfNextSessionFile p)\<rparr> else r)
                else run)
      in if shouldRewriteSelection p then
           (let r2 = (case rfNextProvider p of None \<Rightarrow> r1 | Some v \<Rightarrow> r1\<lparr>arProvider := v\<rparr>);
                r3 = (case rfNextModel p of None \<Rightarrow> r2 | Some v \<Rightarrow> r2\<lparr>arModel := v\<rparr>);
                r4 = (case rfNextAuthProfileId p of None \<Rightarrow> r3
                      | Some v \<Rightarrow> r3\<lparr>arAuthProfileId := trimmed v\<rparr>)
            in case rfNextAuthProfileIdSource p of None \<Rightarrow> r4
               | Some v \<Rightarrow> r4\<lparr>arAuthProfileIdSource := (if truthy (arAuthProfileId r4) then v else None)\<rparr>)
         else r1)"

definition refreshQueuedFollowupSession :: "session_refresh \<Rightarrow> followup_state \<Rightarrow> followup_state" where
  "refreshQueuedFollowupSession p s =
     (let cleaned = trim (rfKey p)
      in if cleaned = [] then s
         else case getExistingFollowupQueue cleaned s of
           None \<Rightarrow> s
         | Some r \<Rightarrow>
             if \<not> shouldRewriteSession p \<and> \<not> shouldRewriteSelection p then s
             else (let q = qheap s r
                   in putQueue r (q\<lparr>lastRun := map_option (rewriteRun p) (lastRun q),
                        items := map (\<lambda>i. i\<lparr>fuRun := rewriteRun p (fuRun i)\<rparr>) (items q)\<rparr>) s))"

section \<open>Drain (\<open>drain.ts\<close>)\<close>

definition rememberFollowupDrainCallback :: "string \<Rightarrow> nat \<Rightarrow> followup_state \<Rightarrow> followup_state" where
  "rememberFollowupDrainCallback key cb s = s\<lparr>callbacks := mapSet key cb (callbacks s)\<rparr>"

definition clearFollowupDrainCallback :: "string \<Rightarrow> followup_state \<Rightarrow> followup_state" where
  "clearFollowupDrainCallback key s = s\<lparr>callbacks := mapDelete key (callbacks s)\<rparr>"

definition threadIdSet :: "thread_id option \<Rightarrow> bool" where
  "threadIdSet t \<longleftrightarrow> t \<noteq> None \<and> t \<noteq> Some (ThreadStr [])"

fun threadIdString :: "thread_id \<Rightarrow> string" where
  "threadIdString (ThreadNum n) = showInt n"
| "threadIdString (ThreadStr t) = t"

definition resolveCrossChannelKey :: "(string \<Rightarrow> bool) \<Rightarrow> followup_run \<Rightarrow> resolved_key" where
  "resolveCrossChannelKey isRoutable item =
     (let noThread = (\<not> threadIdSet (fuThreadId item))
      in if \<not> truthy (fuChannel item) \<and> \<not> truthy (fuTo item) \<and> \<not> truthy (fuAccountId item) \<and> noThread
         then \<lparr>rkKey = None, rkCross = False\<rparr>
         else if \<not> (truthy (fuChannel item) \<and> isRoutable (the (fuChannel item))) \<or> \<not> truthy (fuTo item)
         then \<lparr>rkKey = None, rkCross = True\<rparr>
         else (let threadKey = (if noThread then [] else threadIdString (the (fuThreadId item)))
               in \<lparr>rkKey = Some (joinWith ''|'' [the (fuChannel item), the (fuTo item),
                                      coalesce (fuAccountId item) [], threadKey]),
                   rkCross = False\<rparr>))"

definition withRouting :: "followup_run \<Rightarrow> followup_run list \<Rightarrow> followup_run" where
  \<comment> \<open>\<open>...resolveOriginRoutingMetadata(items)\<close>\<close>
  "withRouting payload xs = payload\<lparr>
     fuChannel := Option.bind (find (\<lambda>i. truthy (fuChannel i)) xs) fuChannel,
     fuTo := Option.bind (find (\<lambda>i. truthy (fuTo i)) xs) fuTo,
     fuAccountId := Option.bind (find (\<lambda>i. truthy (fuAccountId i)) xs) fuAccountId,
     fuThreadId := Option.bind (find (\<lambda>i. threadIdSet (fuThreadId i)) xs) fuThreadId\<rparr>"

definition freshPayload :: "string \<Rightarrow> agent_run \<Rightarrow> int \<Rightarrow> followup_run" where
  "freshPayload prompt run now =
     \<lparr>fuPrompt = prompt, fuMessageId = None, fuSummaryLine = None, fuEnqueuedAt = now,
      fuChannel = None, fuTo = None, fuAccountId = None, fuThreadId = None, fuRun = run\<rparr>"

definition renderQueuedItem :: "followup_run \<Rightarrow> nat \<Rightarrow> string" where
  "renderQueuedItem item idx =
     trim (''---'' @ [CHR 0x0A] @ ''Queued #'' @ showNat (idx + 1) @ [CHR 0x0A] @ fuPrompt item)"

definition hasWork :: "followup_queue \<Rightarrow> bool" where
  \<comment> \<open>the condition of the loop of the drain\<close>
  "hasWork q \<longleftrightarrow> items q \<noteq> [] \<or> droppedCount q > 0"

definition debouncePc :: "followup_queue \<Rightarrow> drain_pc" where
  "debouncePc q = (if max 0 (debounceMs q) \<le> 0 then DebounceReady else DebounceWait (max 0 (debounceMs q)))"

definition forgetKey :: "string \<Rightarrow> followup_state \<Rightarrow> followup_state" where
  "forgetKey key s = clearFollowupDrainCallback key (s\<lparr>queues := mapDelete key (queues s)\<rparr>)"

definition scheduleFollowupDrain :: "string \<Rightarrow> nat \<Rightarrow> followup_state \<Rightarrow> followup_state" where
  "scheduleFollowupDrain key runFollowup s =
     (case mapGet (queues s) key of
        None \<Rightarrow> s
      | Some r \<Rightarrow>
          if draining (qheap s r) then s
          else
            (let q = (qheap s r)\<lparr>draining := True\<rparr>;
                 cb = coalesce (mapGet (callbacks s) key) runFollowup;
                 s1 = rememberFollowupDrainCallback key cb (putQueue r q s)
             in if hasWork q then
                  s1\<lparr>drains := drains s1 @ [(nextDrain s1,
                       \<lparr>thKey = key, thQueue = r, thCallback = cb, thForce = False, thPc = debouncePc q\<rparr>)],
                     nextDrain := nextDrain s1 + 1\<rparr>
                else forgetKey key (putQueue r (q\<lparr>draining := False\<rparr>) s1)))"

definition kickFollowupDrainIfIdle :: "string \<Rightarrow> followup_state \<Rightarrow> followup_state" where
  "kickFollowupDrainIfIdle key s =
     (case mapGet (callbacks s) key of None \<Rightarrow> s | Some cb \<Rightarrow> scheduleFollowupDrain key cb s)"

definition finishDrain :: "nat \<Rightarrow> drain_thread \<Rightarrow> followup_state \<Rightarrow> followup_state" where
  \<comment> \<open>the \<open>finally\<close> block\<close>
  "finishDrain tid th s =
     (let q = (qheap s (thQueue th))\<lparr>draining := False\<rparr>;
          s1 = putQueue (thQueue th) q (s\<lparr>drains := mapDelete tid (drains s)\<rparr>)
      in if items q = [] \<and> droppedCount q = 0 then forgetKey (thKey th) s1
         else scheduleFollowupDrain (thKey th) (thCallback th) s1)"

definition setPc :: "nat \<Rightarrow> drain_thread \<Rightarrow> drain_pc \<Rightarrow> followup_state \<Rightarrow> followup_state" where
  "setPc tid th pc s = s\<lparr>drains := mapSet tid (th\<lparr>thPc := pc\<rparr>) (drains s)\<rparr>"

definition loopHead :: "nat \<Rightarrow> drain_thread \<Rightarrow> followup_state \<Rightarrow> followup_state" where
  "loopHead tid th s =
     (let q = qheap s (thQueue th)
      in if hasWork q then setPc tid th (debouncePc q) s else finishDrain tid th s)"

definition deliver :: "drain_thread \<Rightarrow> followup_run \<Rightarrow> followup_state \<Rightarrow> followup_state" where
  "deliver th payload s =
     s\<lparr>delivered := delivered s @ [\<lparr>dvKey = thKey th, dvQueue = thQueue th, dvCallback = thCallback th, dvRun = payload\<rparr>]\<rparr>"

definition drainNext ::
  "nat \<Rightarrow> drain_thread \<Rightarrow> item_kind \<Rightarrow> (followup_run \<Rightarrow> followup_run) \<Rightarrow> followup_state \<Rightarrow> followup_state" where
  \<comment> \<open>\<open>drainNextQueueItem\<close> up to its \<open>await\<close>\<close>
  "drainNext tid th kind payload s =
     (case items (qheap s (thQueue th)) of
        [] \<Rightarrow> setPc tid th (AfterItem kind False) s
      | next # _ \<Rightarrow> setPc tid th (AwaitItem kind) (deliver th (payload next) s))"

definition afterDebounce :: "int \<Rightarrow> nat \<Rightarrow> drain_thread \<Rightarrow> followup_state \<Rightarrow> followup_state" where
  "afterDebounce now tid th s =
     (let q = qheap s (thQueue th)
      in if mode q = Collect then
           (let cross = hasCrossChannelItems (items q) (resolveCrossChannelKey (routable s))
            in if \<not> thForce th \<and> \<not> cross then setPc tid th AfterSkip s
               else drainNext tid (if cross then th\<lparr>thForce := True\<rparr> else th) CollectItem (\<lambda>i. i) s)
         else
           (case previewQueueSummaryPrompt q ''message'' None of
              Some prompt \<Rightarrow>
                (case lastRun q of
                   None \<Rightarrow> finishDrain tid th s
                 | Some run \<Rightarrow>
                     drainNext tid th SummaryItem
                       (\<lambda>i. (freshPayload prompt run now)\<lparr>fuChannel := fuChannel i, fuTo := fuTo i,
                              fuAccountId := fuAccountId i, fuThreadId := fuThreadId i\<rparr>) s)
            | None \<Rightarrow> drainNext tid th PlainItem (\<lambda>i. i) s))"

definition collectBatch :: "int \<Rightarrow> nat \<Rightarrow> drain_thread \<Rightarrow> followup_state \<Rightarrow> followup_state" where
  \<comment> \<open>from \<open>const items = queue.items.slice()\<close> to the delivery of the batch\<close>
  "collectBatch now tid th s =
     (let q = qheap s (thQueue th);
          xs = items q;
          summary = previewQueueSummaryPrompt q ''message'' None
      in case orElse (if xs = [] then None else Some (fuRun (last xs))) (lastRun q) of
           None \<Rightarrow> finishDrain tid th s
         | Some run \<Rightarrow>
             (let prompt = buildCollectPrompt ''[Queued messages while agent was busy]'' xs summary renderQueuedItem
              in setPc tid th (AwaitCollect (length xs) (summary \<noteq> None))
                   (deliver th (withRouting (freshPayload prompt run now) xs) s)))"

definition mapQueue :: "nat \<Rightarrow> (followup_queue \<Rightarrow> followup_queue) \<Rightarrow> followup_state \<Rightarrow> followup_state" where
  "mapQueue r f s = putQueue r (f (qheap s r)) s"

definition debounceElapsed :: "int \<Rightarrow> nat \<Rightarrow> followup_state \<Rightarrow> followup_state" where
  \<comment> \<open>the check of \<open>waitForQueueDebounce\<close>, at its call or when its timer fires\<close>
  "debounceElapsed now tid s =
     (case mapGet (drains s) tid of
        None \<Rightarrow> s
      | Some th \<Rightarrow>
          (case thPc th of
             DebounceWait d \<Rightarrow>
               if now - lastEnqueuedAt (qheap s (thQueue th)) \<ge> d then setPc tid th DebounceReady s else s
           | _ \<Rightarrow> s))"

definition deliverySettled :: "bool \<Rightarrow> nat \<Rightarrow> followup_state \<Rightarrow> followup_state" where
  \<comment> \<open>the promise of \<open>runFollowup\<close> resolves (\<open>True\<close>) or rejects\<close>
  "deliverySettled success tid s =
     (case mapGet (drains s) tid of
        None \<Rightarrow> s
      | Some th \<Rightarrow>
          (case thPc th of
             AwaitItem kind \<Rightarrow>
               if success
               then setPc tid th (AfterItem kind True)
                      (mapQueue (thQueue th) (\<lambda>q. q\<lparr>items := drop 1 (items q)\<rparr>) s)
               else setPc tid th Failing s
           | AwaitCollect n summary \<Rightarrow>
               if success
               then loopHead tid th
                      (mapQueue (thQueue th)
                         (\<lambda>q. let q1 = q\<lparr>items := drop n (items q)\<rparr>
                              in if summary then clearQueueSummaryState q1 else q1) s)
               else setPc tid th Failing s
           | _ \<Rightarrow> s))"

definition resume :: "int \<Rightarrow> nat \<Rightarrow> followup_state \<Rightarrow> followup_state" where
  \<comment> \<open>a microtask continues the drain\<close>
  "resume now tid s =
     (case mapGet (drains s) tid of
        None \<Rightarrow> s
      | Some th \<Rightarrow>
          (case thPc th of
             DebounceReady \<Rightarrow> afterDebounce now tid th s
           | AfterSkip \<Rightarrow> collectBatch now tid th s
           | AfterItem kind drained \<Rightarrow>
               if drained
               then loopHead tid th
                      (if kind = SummaryItem then mapQueue (thQueue th) clearQueueSummaryState s else s)
               else finishDrain tid th s
           | Failing \<Rightarrow>
               finishDrain tid th (mapQueue (thQueue th) (\<lambda>q. q\<lparr>lastEnqueuedAt := now\<rparr>) s)
           | _ \<Rightarrow> s))"

section \<open>Enqueue (\<open>enqueue.ts\<close>)\<close>

datatype dedupe_mode = DedupeMessageId | DedupePrompt | DedupeNone

definition buildRecentMessageIdKey :: "followup_run \<Rightarrow> string \<Rightarrow> string option" where
  "buildRecentMessageIdKey run queueKey =
     (case trimmed (fuMessageId run) of
        None \<Rightarrow> None
      | Some messageId \<Rightarrow>
          Some (jsonStringArray
            [''queue'', queueKey, coalesce (fuChannel run) [], coalesce (fuTo run) [],
             coalesce (fuAccountId run) [],
             (case fuThreadId run of None \<Rightarrow> [] | Some t \<Rightarrow> threadIdString t), messageId]))"

definition hasSameRouting :: "followup_run \<Rightarrow> followup_run \<Rightarrow> bool" where
  "hasSameRouting run item \<longleftrightarrow> fuChannel item = fuChannel run \<and> fuTo item = fuTo run
     \<and> fuAccountId item = fuAccountId run \<and> fuThreadId item = fuThreadId run"

definition isRunAlreadyQueued :: "bool \<Rightarrow> followup_run \<Rightarrow> followup_run list \<Rightarrow> bool" where
  "isRunAlreadyQueued allowPromptFallback run xs =
     (case trimmed (fuMessageId run) of
        Some messageId \<Rightarrow>
          list_ex (\<lambda>item. map_option trim (fuMessageId item) = Some messageId \<and> hasSameRouting run item) xs
      | None \<Rightarrow>
          if \<not> allowPromptFallback then False
          else list_ex (\<lambda>item. fuPrompt item = fuPrompt run \<and> hasSameRouting run item) xs)"

definition summarizeItem :: "followup_run \<Rightarrow> string" where
  "summarizeItem item = (case trimmed (fuSummaryLine item) of Some l \<Rightarrow> l | None \<Rightarrow> trim (fuPrompt item))"

definition enqueueFollowupRun ::
  "int \<Rightarrow> string \<Rightarrow> followup_run \<Rightarrow> queue_settings \<Rightarrow> dedupe_mode \<Rightarrow> nat option \<Rightarrow> bool \<Rightarrow>
   followup_state \<Rightarrow> bool \<times> followup_state" where
  "enqueueFollowupRun now key run st dedupeMode runFollowup restartIfIdle s =
     (case getFollowupQueue key st s of
        (r, s1) \<Rightarrow>
          (let recentKey = (if dedupeMode \<noteq> DedupeNone then buildRecentMessageIdKey run key else None);
               dedupe = (if dedupeMode = DedupeNone then None
                         else Some (isRunAlreadyQueued (dedupeMode = DedupePrompt)))
           in case dedupePeek recentKey now (recent s1) of
                (hit, d1) \<Rightarrow>
                  (let s2 = s1\<lparr>recent := d1\<rparr>
                   in if hit then (False, s2)
                      else if shouldSkipQueueItem run (items (qheap s2 r)) dedupe then (False, s2)
                      else
                        (case applyQueueDropPolicy
                                ((qheap s2 r)\<lparr>lastEnqueuedAt := now, lastRun := Some (fuRun run)\<rparr>)
                                summarizeItem None of
                           (shouldEnqueue, q) \<Rightarrow>
                             if \<not> shouldEnqueue then (False, putQueue r q s2)
                             else
                               (let s3 = putQueue r (q\<lparr>items := items q @ [run]\<rparr>) s2;
                                    s4 = s3\<lparr>recent := snd (dedupeCheck recentKey now (recent s3))\<rparr>;
                                    s5 = (case runFollowup of None \<Rightarrow> s4
                                          | Some cb \<Rightarrow> rememberFollowupDrainCallback key cb s4)
                                in (True, if restartIfIdle \<and> \<not> draining (qheap s5 r)
                                          then kickFollowupDrainIfIdle key s5 else s5))))))"

definition getFollowupQueueDepth :: "string \<Rightarrow> followup_state \<Rightarrow> nat" where
  "getFollowupQueueDepth key s =
     (case getExistingFollowupQueue key s of None \<Rightarrow> 0 | Some r \<Rightarrow> length (items (qheap s r)))"

definition resetRecentQueuedMessageIdDedupe :: "followup_state \<Rightarrow> followup_state" where
  "resetRecentQueuedMessageIdDedupe s = s\<lparr>recent := dedupeClear (recent s)\<rparr>"

definition initialFollowupState :: "(string \<Rightarrow> bool) \<Rightarrow> followup_state" where
  "initialFollowupState isRoutable =
     \<lparr>queues = [], qheap = (\<lambda>_. createdQueue
        \<lparr>setMode = Steer, setDebounceMs = None, setCap = None, setDropPolicy = None\<rparr>),
      nextQueue = 0, callbacks = [], recent = createDedupeCache (5 * 60 * 1000) 10000,
      drains = [], nextDrain = 0, delivered = [], routable = isRoutable\<rparr>"

section \<open>Events\<close>

datatype followup_event =
    EvEnqueue int string followup_run queue_settings dedupe_mode "nat option" bool
  | EvSchedule string nat
  | EvClear string
  | EvForgetCallback string
  | EvRefresh session_refresh
  | EvResetRecent
  | EvElapsed int nat
  | EvSettled bool nat
  | EvResume int nat

fun applyFollowup :: "followup_event \<Rightarrow> followup_state \<Rightarrow> followup_state" where
  "applyFollowup (EvEnqueue now key run st dm cb restart) s = snd (enqueueFollowupRun now key run st dm cb restart s)"
| "applyFollowup (EvSchedule key cb) s = scheduleFollowupDrain key cb s"
| "applyFollowup (EvClear key) s = snd (clearFollowupQueue key s)"
| "applyFollowup (EvForgetCallback key) s = clearFollowupDrainCallback key s"
| "applyFollowup (EvRefresh p) s = refreshQueuedFollowupSession p s"
| "applyFollowup EvResetRecent s = resetRecentQueuedMessageIdDedupe s"
| "applyFollowup (EvElapsed now tid) s = debounceElapsed now tid s"
| "applyFollowup (EvSettled success tid) s = deliverySettled success tid s"
| "applyFollowup (EvResume now tid) s = resume now tid s"

section \<open>One drain per queue\<close>

definition threadQueues :: "followup_state \<Rightarrow> nat list" where
  "threadQueues s = map (thQueue \<circ> snd) (drains s)"

definition followup_inv :: "followup_state \<Rightarrow> bool" where
  "followup_inv s \<longleftrightarrow>
     wfMap (drains s) \<and> wfMap (queues s) \<and> distinct (mapValues (queues s)) \<and> distinct (threadQueues s)
     \<and> (\<forall>t \<in> fst ` set (drains s). t < nextDrain s)
     \<and> (\<forall>r \<in> set (mapValues (queues s)) \<union> set (threadQueues s). r < nextQueue s)
     \<and> (\<forall>r. draining (qheap s r) \<longleftrightarrow> r \<in> set (threadQueues s))
     \<and> (\<forall>t th key. (t, th) \<in> set (drains s) \<longrightarrow> (key, thQueue th) \<in> set (queues s) \<longrightarrow> thKey th = key)"

text \<open>
  The operations touch the state in few ways: they change a queue object without its drain flag,
  register a new one, forget a key, start a drain, move a thread without changing its queue, or end
  it. The invariant is kept by each of these.
\<close>

lemma inv_mapQueue:
  assumes "followup_inv s" "\<And>q. draining (f q) = draining q"
  shows "followup_inv (mapQueue r f s)"
  using assms by (auto simp: followup_inv_def mapQueue_def putQueue_def threadQueues_def)

lemma inv_putQueue:
  assumes "followup_inv s" "draining q = draining (qheap s r)"
  shows "followup_inv (putQueue r q s)"
  using assms by (auto simp: followup_inv_def putQueue_def threadQueues_def)

lemma inv_frame:
  assumes "followup_inv s" "queues t = queues s" "qheap t = qheap s" "nextQueue t = nextQueue s"
    "drains t = drains s" "nextDrain t = nextDrain s"
  shows "followup_inv t"
  using assms by (auto simp: followup_inv_def threadQueues_def)

lemma distinct_values_delete: "distinct (mapValues m) \<Longrightarrow> distinct (mapValues (mapDelete k m))"
  by (simp add: mapDelete_filter distinct_map_filter)

lemma inv_unregister:
  assumes "followup_inv s"
  shows "followup_inv (s\<lparr>queues := mapDelete key (queues s)\<rparr>)"
  using assms by (auto simp: followup_inv_def threadQueues_def set_mapDelete distinct_values_delete)

lemma inv_forgetKey: "followup_inv s \<Longrightarrow> followup_inv (forgetKey key s)"
  unfolding forgetKey_def clearFollowupDrainCallback_def
  by (rule inv_frame [OF inv_unregister]) simp_all

lemma mapSet_values_fresh:
  "\<not> mapHas m k \<Longrightarrow> mapSet k v m = m @ [(k, v)]"
  by (simp add: mapSet_append)

lemma inv_register:
  assumes inv: "followup_inv s" and "\<not> mapHas (queues s) key" "\<not> draining q"
  shows "followup_inv ((putQueue (nextQueue s) q (s\<lparr>nextQueue := nextQueue s + 1\<rparr>))
    \<lparr>queues := mapSet key (nextQueue s) (queues s)\<rparr>)"
proof -
  have fresh: "nextQueue s \<notin> set (mapValues (queues s))" "nextQueue s \<notin> set (threadQueues s)"
    using inv by (auto simp: followup_inv_def)
  then have "\<forall>t th. (t, th) \<in> set (drains s) \<longrightarrow> thQueue th \<noteq> nextQueue s"
    by (force simp: threadQueues_def)
  with fresh assms show ?thesis
    by (auto simp: followup_inv_def putQueue_def threadQueues_def mapSet_append less_Suc_eq
        wfMap_def map_of_eq_None_iff)
qed

lemma getFollowupQueue_inv:
  assumes "followup_inv s" "getFollowupQueue key st s = (r, s')"
  shows "followup_inv s' \<and> mapGet (queues s') key = Some r"
proof (cases "mapGet (queues s) key")
  case None
  have "\<not> draining (applySettingsTo st (createdQueue st))"
    by (simp add: applySettingsTo_def createdQueue_def Let_def)
  from inv_register [OF assms(1) _ this, of key] None assms(2) show ?thesis
    by (auto simp: getFollowupQueue_def Let_def putQueue_def)
next
  case (Some r')
  have "draining (applySettingsTo st q) = draining q" for q
    by (simp add: applySettingsTo_def Let_def)
  with Some assms inv_putQueue [OF assms(1)] show ?thesis
    by (auto simp: getFollowupQueue_def putQueue_def)
qed

lemma inv_start:
  assumes inv: "followup_inv s" and r: "mapGet (queues s) key = Some r" and idle: "\<not> draining (qheap s r)"
    and th: "thQueue th = r" "thKey th = key"
  shows "followup_inv ((putQueue r ((qheap s r)\<lparr>draining := True\<rparr>) s)
    \<lparr>drains := drains s @ [(nextDrain s, th)], nextDrain := nextDrain s + 1\<rparr>)"
proof -
  have reg: "(key, r) \<in> set (queues s)" using r by (rule map_of_SomeD)
  have fresh: "nextDrain s \<notin> fst ` set (drains s)" using inv by (auto simp: followup_inv_def)
  have free: "r \<notin> set (threadQueues s)" using inv idle by (auto simp: followup_inv_def)
  have "key' = key" if "(key', r) \<in> set (queues s)" for key'
    using inv reg that by (metis (mono_tags, lifting) followup_inv_def Pair_inject distinct_map inj_onD snd_conv)
  note own = this
  let ?t = "(putQueue r ((qheap s r)\<lparr>draining := True\<rparr>) s)
    \<lparr>drains := drains s @ [(nextDrain s, th)], nextDrain := nextDrain s + 1\<rparr>"
  have tq: "threadQueues ?t = threadQueues s @ [r]" using th by (simp add: threadQueues_def putQueue_def)
  note i = inv [unfolded followup_inv_def]
  show ?thesis
    unfolding followup_inv_def tq
  proof (intro conjI)
    show "wfMap (drains ?t)" using i fresh by (simp add: wfMap_def)
    show "distinct (threadQueues s @ [r])" using i free by simp
    show "\<forall>t \<in> fst ` set (drains ?t). t < nextDrain ?t" using i by (auto simp: less_Suc_eq)
    show "\<forall>x \<in> set (mapValues (queues ?t)) \<union> set (threadQueues s @ [r]). x < nextQueue ?t"
      using i image_eqI [OF _ reg, of r snd] by (auto simp: putQueue_def)
    show "\<forall>x. draining (qheap ?t x) \<longleftrightarrow> x \<in> set (threadQueues s @ [r])"
      using i by (simp add: putQueue_def)
    show "\<forall>u uh k. (u, uh) \<in> set (drains ?t) \<longrightarrow> (k, thQueue uh) \<in> set (queues ?t) \<longrightarrow> thKey uh = k"
      using i own th by (auto simp: putQueue_def)
  qed (use i in \<open>simp_all add: putQueue_def\<close>)
qed

definition startDrain :: "string \<Rightarrow> nat \<Rightarrow> nat \<Rightarrow> followup_state \<Rightarrow> followup_state" where
  \<comment> \<open>a drain of \<open>r\<close> with callback \<open>cb\<close> has reached its first \<open>await\<close>\<close>
  "startDrain key r cb s =
     (putQueue r ((qheap s r)\<lparr>draining := True\<rparr>) (rememberFollowupDrainCallback key cb s))
       \<lparr>drains := drains s @ [(nextDrain s, \<lparr>thKey = key, thQueue = r, thCallback = cb, thForce = False,
            thPc = debouncePc (qheap s r)\<rparr>)],
        nextDrain := nextDrain s + 1\<rparr>"

lemma schedule_cases:
  "scheduleFollowupDrain key cb s =
    (case mapGet (queues s) key of
       None \<Rightarrow> s
     | Some r \<Rightarrow>
         if draining (qheap s r) then s
         else if hasWork (qheap s r) then startDrain key r (coalesce (mapGet (callbacks s) key) cb) s
         else forgetKey key (rememberFollowupDrainCallback key (coalesce (mapGet (callbacks s) key) cb) s))"
proof (cases "mapGet (queues s) key")
  case (Some r)
  show ?thesis
  proof (cases "draining (qheap s r)")
    case False
    have "(qheap s r)\<lparr>draining := False\<rparr> = qheap s r"
      using False by (cases "qheap s r") simp
    then have "(qheap s)(r := (qheap s r)\<lparr>draining := False\<rparr>) = qheap s"
      by (simp only: fun_upd_triv)
    with Some False show ?thesis
      by (simp add: scheduleFollowupDrain_def startDrain_def Let_def hasWork_def debouncePc_def
          rememberFollowupDrainCallback_def putQueue_def forgetKey_def clearFollowupDrainCallback_def)
  qed (simp add: scheduleFollowupDrain_def Some)
qed (simp add: scheduleFollowupDrain_def)

lemma remember_simps [simp]:
  "queues (rememberFollowupDrainCallback key cb s) = queues s"
  "qheap (rememberFollowupDrainCallback key cb s) = qheap s"
  "nextQueue (rememberFollowupDrainCallback key cb s) = nextQueue s"
  "callbacks (rememberFollowupDrainCallback key cb s) = mapSet key cb (callbacks s)"
  "recent (rememberFollowupDrainCallback key cb s) = recent s"
  "drains (rememberFollowupDrainCallback key cb s) = drains s"
  "nextDrain (rememberFollowupDrainCallback key cb s) = nextDrain s"
  "delivered (rememberFollowupDrainCallback key cb s) = delivered s"
  "routable (rememberFollowupDrainCallback key cb s) = routable s"
  by (simp_all add: rememberFollowupDrainCallback_def)

lemma forgetKey_simps [simp]:
  "queues (forgetKey key s) = mapDelete key (queues s)"
  "qheap (forgetKey key s) = qheap s"
  "nextQueue (forgetKey key s) = nextQueue s"
  "callbacks (forgetKey key s) = mapDelete key (callbacks s)"
  "recent (forgetKey key s) = recent s"
  "drains (forgetKey key s) = drains s"
  "nextDrain (forgetKey key s) = nextDrain s"
  "delivered (forgetKey key s) = delivered s"
  "routable (forgetKey key s) = routable s"
  by (simp_all add: forgetKey_def clearFollowupDrainCallback_def)

lemma putQueue_simps [simp]:
  "queues (putQueue r q s) = queues s" "qheap (putQueue r q s) = (qheap s)(r := q)"
  "nextQueue (putQueue r q s) = nextQueue s" "callbacks (putQueue r q s) = callbacks s"
  "recent (putQueue r q s) = recent s" "drains (putQueue r q s) = drains s"
  "nextDrain (putQueue r q s) = nextDrain s" "delivered (putQueue r q s) = delivered s"
  "routable (putQueue r q s) = routable s"
  by (simp_all add: putQueue_def)

lemma scheduleFollowupDrain_inv:
  assumes inv: "followup_inv s"
  shows "followup_inv (scheduleFollowupDrain key cb s)"
proof -
  have rem: "followup_inv (rememberFollowupDrainCallback key c s)" for c
    by (rule inv_frame [OF inv]) simp_all
  have "followup_inv (startDrain key r c s)"
    if "mapGet (queues s) key = Some r" "\<not> draining (qheap s r)" for r c
    using inv_start [OF rem, where key = key and r = r] that by (simp add: startDrain_def)
  with rem inv show ?thesis
    by (auto simp: schedule_cases intro: inv_forgetKey split: option.splits)
qed

lemma inv_setPc:
  assumes "followup_inv s" "mapGet (drains s) tid = Some th0" "thQueue th = thQueue th0" "thKey th = thKey th0"
  shows "followup_inv (setPc tid th pc s)"
proof -
  have wf: "wfMap (drains s)" using assms(1) by (simp add: followup_inv_def)
  have same: "map (thQueue \<circ> snd) (mapSet tid (th\<lparr>thPc := pc\<rparr>) m) = map (thQueue \<circ> snd) m"
    if "mapGet m tid = Some th0" for m
    using that assms(3) by (induction m) auto
  have keys: "fst ` set (mapSet tid (th\<lparr>thPc := pc\<rparr>) (drains s)) = fst ` set (drains s)"
    using map_of_SomeD [OF assms(2)] by (force simp: set_mapSet [OF wf])
  have tq: "threadQueues (setPc tid th pc s) = threadQueues s"
    using same [OF assms(2)] by (simp add: threadQueues_def setPc_def)
  note i = assms(1) [unfolded followup_inv_def]
  show ?thesis
    unfolding followup_inv_def tq
  proof (intro conjI)
    show "\<forall>t \<in> fst ` set (drains (setPc tid th pc s)). t < nextDrain (setPc tid th pc s)"
      using i keys by (simp add: setPc_def)
    show "\<forall>u uh k. (u, uh) \<in> set (drains (setPc tid th pc s)) \<longrightarrow>
        (k, thQueue uh) \<in> set (queues (setPc tid th pc s)) \<longrightarrow> thKey uh = k"
      using i assms(3,4) map_of_SomeD [OF assms(2)] by (auto simp: setPc_def set_mapSet [OF wf])
  qed (use i in \<open>simp_all add: setPc_def\<close>)
qed

definition endDrain :: "nat \<Rightarrow> drain_thread \<Rightarrow> followup_state \<Rightarrow> followup_state" where
  \<comment> \<open>the state in the \<open>finally\<close> block after \<open>queue.draining = false\<close>\<close>
  "endDrain tid th s = putQueue (thQueue th) ((qheap s (thQueue th))\<lparr>draining := False\<rparr>)
     (s\<lparr>drains := mapDelete tid (drains s)\<rparr>)"

lemma endDrain_inv:
  assumes inv: "followup_inv s" and th: "mapGet (drains s) tid = Some th0" "thQueue th = thQueue th0"
  shows "followup_inv (endDrain tid th s)"
proof -
  let ?s1 = "endDrain tid th s"
  note d = endDrain_def putQueue_def
  have mem: "(tid, th0) \<in> set (drains s)" using th(1) by (rule map_of_SomeD)
  have wf: "wfMap (drains s)" and dist: "distinct (threadQueues s)" using inv by (auto simp: followup_inv_def)
  have tq: "set (threadQueues ?s1) = set (threadQueues s) - {thQueue th0}"
  proof -
    have "thQueue x \<noteq> thQueue th0" if "(t, x) \<in> set (drains s)" "t \<noteq> tid" for t x
      using dist that mem by (metis (no_types, lifting) comp_apply distinct_map inj_onD prod.inject snd_conv threadQueues_def)
    moreover have "x = th0" if "(tid, x) \<in> set (drains s)" for x
      using that mem wf by (metis mapGet_in_set option.inject)
    ultimately show ?thesis by (force simp: threadQueues_def d set_mapDelete)
  qed
  have dist1: "distinct (threadQueues ?s1)"
    using dist by (simp add: threadQueues_def d mapDelete_filter distinct_map_filter)
  show ?thesis
    unfolding followup_inv_def
  proof (intro conjI)
    show "\<forall>r. draining (qheap ?s1 r) \<longleftrightarrow> r \<in> set (threadQueues ?s1)"
      unfolding tq using inv th(2) by (auto simp: followup_inv_def d)
    show "\<forall>r \<in> set (mapValues (queues ?s1)) \<union> set (threadQueues ?s1). r < nextQueue ?s1"
      unfolding tq using inv by (auto simp: followup_inv_def d)
  qed (use inv dist1 in \<open>auto simp: followup_inv_def d set_mapDelete\<close>)
qed

lemma finishDrain_cases:
  "finishDrain tid th s =
    (if hasWork (qheap s (thQueue th))
     then scheduleFollowupDrain (thKey th) (thCallback th) (endDrain tid th s)
     else forgetKey (thKey th) (endDrain tid th s))"
  by (simp add: finishDrain_def endDrain_def hasWork_def Let_def)

lemma finishDrain_inv:
  assumes "followup_inv s" "mapGet (drains s) tid = Some th0" "thQueue th = thQueue th0"
  shows "followup_inv (finishDrain tid th s)"
  using endDrain_inv [OF assms] by (simp add: finishDrain_cases inv_forgetKey scheduleFollowupDrain_inv)

lemma inv_deliver: "followup_inv s \<Longrightarrow> followup_inv (deliver th p s)"
  by (rule inv_frame) (simp_all add: deliver_def)

lemma deliver_simps [simp]:
  "drains (deliver th p s) = drains s" "qheap (deliver th p s) = qheap s"
  "queues (deliver th p s) = queues s" "callbacks (deliver th p s) = callbacks s"
  "recent (deliver th p s) = recent s"
  by (simp_all add: deliver_def)

lemma mapQueue_simps [simp]:
  "drains (mapQueue r f s) = drains s" "queues (mapQueue r f s) = queues s"
  "callbacks (mapQueue r f s) = callbacks s" "delivered (mapQueue r f s) = delivered s"
  "recent (mapQueue r f s) = recent s"
  "qheap (mapQueue r f s) = (qheap s)(r := f (qheap s r))"
  by (simp_all add: mapQueue_def putQueue_def)

lemma drainNext_inv:
  assumes "followup_inv s" "mapGet (drains s) tid = Some th0" "thQueue th = thQueue th0" "thKey th = thKey th0"
  shows "followup_inv (drainNext tid th kind f s)"
proof -
  have "followup_inv (setPc tid th pc t)" if "followup_inv t" "drains t = drains s" for pc t
    by (rule inv_setPc [OF that(1) _ assms(3,4)]) (simp add: that(2) assms(2))
  with assms(1) inv_deliver [OF assms(1)] show ?thesis
    by (simp add: drainNext_def split: list.splits)
qed

lemma loopHead_inv:
  assumes "followup_inv s" "mapGet (drains s) tid = Some th"
  shows "followup_inv (loopHead tid th s)"
  using assms inv_setPc [of s tid th th] finishDrain_inv [of s tid th th]
  by (simp add: loopHead_def Let_def)

lemma afterDebounce_inv:
  assumes "followup_inv s" "mapGet (drains s) tid = Some th"
  shows "followup_inv (afterDebounce now tid th s)"
  using assms inv_setPc [of s tid th th] finishDrain_inv [of s tid th th]
    drainNext_inv [OF assms, of th] drainNext_inv [OF assms, of "th\<lparr>thForce := True\<rparr>"]
  by (simp add: afterDebounce_def Let_def split: option.splits)

lemma collectBatch_inv:
  assumes "followup_inv s" "mapGet (drains s) tid = Some th"
  shows "followup_inv (collectBatch now tid th s)"
proof -
  have "followup_inv (setPc tid th pc (deliver th p s))" for pc p
    by (rule inv_setPc [OF inv_deliver [OF assms(1)], of _ _ _ th]) (simp_all add: assms(2))
  then show ?thesis
    using finishDrain_inv [OF assms] by (simp add: collectBatch_def Let_def split: option.splits)
qed

lemma resume_inv:
  assumes inv: "followup_inv s"
  shows "followup_inv (resume now tid s)"
proof (cases "mapGet (drains s) tid")
  case None
  with inv show ?thesis by (simp add: resume_def)
next
  case (Some th)
  have m: "followup_inv (mapQueue (thQueue th) f s)" if "\<And>q. draining (f q) = draining q" for f
    using that by (rule inv_mapQueue [OF inv])
  have c: "followup_inv (mapQueue (thQueue th) clearQueueSummaryState s)"
    by (rule m) (simp add: clearQueueSummaryState_def)
  show ?thesis
  proof (cases "thPc th")
    case (AfterItem kind drained)
    with Some inv c loopHead_inv [OF c, of tid th] loopHead_inv [OF inv Some] finishDrain_inv [OF inv Some]
    show ?thesis by (simp add: resume_def)
  next
    case Failing
    with Some finishDrain_inv [OF m, of "\<lambda>q. q\<lparr>lastEnqueuedAt := now\<rparr>" tid th th]
    show ?thesis by (simp add: resume_def)
  qed (use Some inv afterDebounce_inv [OF inv Some] collectBatch_inv [OF inv Some] in
      \<open>simp_all add: resume_def\<close>)
qed

lemma deliverySettled_inv:
  assumes inv: "followup_inv s"
  shows "followup_inv (deliverySettled ok tid s)"
proof (cases "mapGet (drains s) tid")
  case None
  with inv show ?thesis by (simp add: deliverySettled_def)
next
  case (Some th)
  have m: "followup_inv (mapQueue (thQueue th) f s)" if "\<And>q. draining (f q) = draining q" for f
    using that by (rule inv_mapQueue [OF inv])
  have f: "followup_inv (setPc tid th pc s)" for pc
    by (rule inv_setPc [OF inv Some]) simp_all
  show ?thesis
  proof (cases "thPc th")
    case (AwaitItem kind)
    with Some f inv_setPc [OF m, of "\<lambda>q. q\<lparr>items := drop 1 (items q)\<rparr>" tid th th]
    show ?thesis by (simp add: deliverySettled_def)
  next
    case (AwaitCollect n summary)
    let ?f = "\<lambda>q. let q1 = q\<lparr>items := drop n (items q)\<rparr> in if summary then clearQueueSummaryState q1 else q1"
    have "followup_inv (loopHead tid th (mapQueue (thQueue th) ?f s))"
      by (rule loopHead_inv [OF m]) (simp_all add: Some Let_def clearQueueSummaryState_def)
    with AwaitCollect Some f show ?thesis by (simp add: deliverySettled_def)
  qed (use Some inv in \<open>simp_all add: deliverySettled_def\<close>)
qed

lemma debounceElapsed_inv: "followup_inv s \<Longrightarrow> followup_inv (debounceElapsed now tid s)"
  by (auto simp: debounceElapsed_def intro: inv_setPc split: option.splits drain_pc.splits)

lemma recordDropped_draining: "draining (recordDropped f xs q) = draining q"
  unfolding recordDropped_def by (induction xs arbitrary: q) simp_all

lemma applyQueueDropPolicy_draining: "draining (snd (applyQueueDropPolicy q f l)) = draining q"
  by (simp add: applyQueueDropPolicy_def Let_def recordDropped_draining)

text \<open>What an accepted or refused enqueue does, in the terms of the lemmas above.\<close>

definition pushed :: "int \<Rightarrow> followup_run \<Rightarrow> followup_queue \<Rightarrow> bool \<times> followup_queue" where
  "pushed now run q =
     (case applyQueueDropPolicy (q\<lparr>lastEnqueuedAt := now, lastRun := Some (fuRun run)\<rparr>) summarizeItem None of
        (ok, q') \<Rightarrow> (ok, if ok then q'\<lparr>items := items q' @ [run]\<rparr> else q'))"

definition recentKeyOf :: "dedupe_mode \<Rightarrow> followup_run \<Rightarrow> string \<Rightarrow> string option" where
  "recentKeyOf dm run key = (if dm \<noteq> DedupeNone then buildRecentMessageIdKey run key else None)"

definition alreadyQueued :: "dedupe_mode \<Rightarrow> followup_run \<Rightarrow> followup_run list \<Rightarrow> bool" where
  "alreadyQueued dm run xs = (dm \<noteq> DedupeNone \<and> isRunAlreadyQueued (dm = DedupePrompt) run xs)"

lemma enqueue_cases:
  assumes "getFollowupQueue key st s = (r, s1)" "dedupePeek (recentKeyOf dm run key) now (recent s1) = (hit, d1)"
    and "pushed now run (qheap s1 r) = (accept, q)"
  shows "enqueueFollowupRun now key run st dm cb restart s =
    (if hit \<or> alreadyQueued dm run (items (qheap s1 r)) then (False, s1\<lparr>recent := d1\<rparr>)
     else if \<not> accept then (False, putQueue r q (s1\<lparr>recent := d1\<rparr>))
     else (True,
       let s4 = (putQueue r q s1)\<lparr>recent := snd (dedupeCheck (recentKeyOf dm run key) now d1)\<rparr>;
           s5 = (case cb of None \<Rightarrow> s4 | Some c \<Rightarrow> rememberFollowupDrainCallback key c s4)
       in if restart \<and> \<not> draining q then kickFollowupDrainIfIdle key s5 else s5))"
proof -
  obtain ok q' where p: "applyQueueDropPolicy ((qheap s1 r)\<lparr>lastEnqueuedAt := now, lastRun := Some (fuRun run)\<rparr>)
      summarizeItem None = (ok, q')" by fastforce
  have skip: "shouldSkipQueueItem run xs (if dm = DedupeNone then None
      else Some (isRunAlreadyQueued (dm = DedupePrompt))) = alreadyQueued dm run xs" for xs
    by (simp add: shouldSkipQueueItem_def alreadyQueued_def)
  have q: "ok = accept" "q = (if accept then q'\<lparr>items := items q' @ [run]\<rparr> else q')"
    using assms(3) p by (auto simp: pushed_def)
  have defs: "enqueueFollowupRun now key run st dm cb restart s =
    (if hit \<or> alreadyQueued dm run (items (qheap s1 r)) then (False, s1\<lparr>recent := d1\<rparr>)
     else if \<not> accept then (False, putQueue r q' (s1\<lparr>recent := d1\<rparr>))
     else (True,
       let s3 = putQueue r (q'\<lparr>items := items q' @ [run]\<rparr>) (s1\<lparr>recent := d1\<rparr>);
           s4 = s3\<lparr>recent := snd (dedupeCheck (recentKeyOf dm run key) now (recent s3))\<rparr>;
           s5 = (case cb of None \<Rightarrow> s4 | Some c \<Rightarrow> rememberFollowupDrainCallback key c s4)
       in if restart \<and> \<not> draining (qheap s5 r) then kickFollowupDrainIfIdle key s5 else s5))"
    using assms(1,2) p
    by (simp add: enqueueFollowupRun_def recentKeyOf_def [symmetric] skip q(1) Let_def)
  have heap: "qheap (case cb of None \<Rightarrow> t | Some c \<Rightarrow> rememberFollowupDrainCallback key c t) = qheap t" for t
    by (simp add: rememberFollowupDrainCallback_def split: option.splits)
  have eq4: "(putQueue r x (s1\<lparr>recent := d1\<rparr>))
        \<lparr>recent := snd (dedupeCheck k now (recent (putQueue r x (s1\<lparr>recent := d1\<rparr>))))\<rparr>
      = (putQueue r x s1)\<lparr>recent := snd (dedupeCheck k now d1)\<rparr>" for x k
    by (simp add: putQueue_def)
  have dr: "draining (qheap ((putQueue r x s1)\<lparr>recent := d\<rparr>) r) = draining x" for x d
    by (simp add: putQueue_def)
  show ?thesis
    unfolding defs Let_def eq4 heap dr unfolding q(2) by (cases accept) simp_all
qed

lemma pushed_draining: "draining (snd (pushed now run q)) = draining q"
  using applyQueueDropPolicy_draining [of "q\<lparr>lastEnqueuedAt := now, lastRun := Some (fuRun run)\<rparr>" summarizeItem None]
  by (simp add: pushed_def case_prod_unfold)

lemma kick_inv: "followup_inv s \<Longrightarrow> followup_inv (kickFollowupDrainIfIdle key s)"
  by (simp add: kickFollowupDrainIfIdle_def scheduleFollowupDrain_inv split: option.splits)

lemma remember_inv: "followup_inv s \<Longrightarrow> followup_inv (rememberFollowupDrainCallback key c s)"
  by (erule inv_frame) (simp_all add: rememberFollowupDrainCallback_def)

lemma inv_recent: "followup_inv s \<Longrightarrow> followup_inv (s\<lparr>recent := d\<rparr>)"
  by (erule inv_frame) simp_all

lemma followup_enqueue_inv:
  assumes inv: "followup_inv s"
  shows "followup_inv (snd (enqueueFollowupRun now key run st dm cb restart s))"
proof -
  obtain r s1 where g: "getFollowupQueue key st s = (r, s1)" by fastforce
  obtain hit d1 where h: "dedupePeek (recentKeyOf dm run key) now (recent s1) = (hit, d1)" by fastforce
  obtain acc q where p: "pushed now run (qheap s1 r) = (acc, q)" by fastforce
  have inv1: "followup_inv s1" using getFollowupQueue_inv [OF inv g] by blast
  have "draining q = draining (qheap s1 r)" using pushed_draining [of now run "qheap s1 r"] p by simp
  then have inv2: "followup_inv (putQueue r q s1)" "followup_inv (putQueue r q (s1\<lparr>recent := d1\<rparr>))"
    using inv_putQueue [OF inv1] inv_putQueue [OF inv_recent [OF inv1]] by simp_all
  show ?thesis
    unfolding enqueue_cases [OF g h p]
    using inv1 inv2 by (auto simp: Let_def inv_recent kick_inv remember_inv split: option.splits)
qed

lemma followup_clear_inv:
  assumes "followup_inv s"
  shows "followup_inv (snd (clearFollowupQueue key s))"
proof -
  have "followup_inv ((putQueue r q s)\<lparr>queues := mapDelete k (queues s)\<rparr>)"
    if "draining q = draining (qheap s r)" for r q k
    using inv_unregister [OF inv_putQueue [OF assms that], of k] by simp
  with assms show ?thesis by (simp add: clearFollowupQueue_def Let_def split: option.splits)
qed

lemma refresh_inv: "followup_inv s \<Longrightarrow> followup_inv (refreshQueuedFollowupSession p s)"
  by (auto simp: refreshQueuedFollowupSession_def Let_def intro!: inv_putQueue split: option.splits)

lemma applyFollowup_inv: "followup_inv s \<Longrightarrow> followup_inv (applyFollowup e s)"
proof (cases e)
  case (EvForgetCallback key)
  then show "followup_inv s \<Longrightarrow> ?thesis"
    by (auto simp: clearFollowupDrainCallback_def intro: inv_frame)
qed (simp_all add: followup_enqueue_inv scheduleFollowupDrain_inv followup_clear_inv refresh_inv inv_recent
    resetRecentQueuedMessageIdDedupe_def debounceElapsed_inv deliverySettled_inv resume_inv)

interpretation followup: event_invariant applyFollowup "\<lambda>_. True" followup_inv
  by unfold_locales (rule applyFollowup_inv)

lemma initial_followup_inv: "followup_inv (initialFollowupState isRoutable)"
  by (auto simp: followup_inv_def initialFollowupState_def threadQueues_def createdQueue_def)

lemma followup_run_inv: "followup_inv (fold applyFollowup es (initialFollowupState isRoutable))"
  by (rule followup.run_inv [OF initial_followup_inv]) (simp add: list_all_iff)

text \<open>
  Each queue has one drain at a time: in every state any sequence of calls and callbacks leads
  to, the running drains work on different queue objects, and the flag \<open>draining\<close> is set on exactly
  the queues that have one.
\<close>

theorem followup_single_drain:
  "let s = fold applyFollowup events (initialFollowupState isRoutable)
   in distinct (map (thQueue \<circ> snd) (drains s))
      \<and> (\<forall>r. draining (qheap s r) \<longleftrightarrow> r \<in> set (map (thQueue \<circ> snd) (drains s)))"
  using followup_run_inv [of events isRoutable]
  by (auto simp: followup_inv_def threadQueues_def)

section \<open>No backlog is left behind\<close>

definition isDraining :: "string \<Rightarrow> followup_state \<Rightarrow> bool" where
  "isDraining key s \<longleftrightarrow> (case mapGet (queues s) key of None \<Rightarrow> False | Some r \<Rightarrow> draining (qheap s r))"

fun waitsAfter :: "followup_event \<Rightarrow> followup_state \<Rightarrow> string set \<Rightarrow> string set" where
  \<comment> \<open>the keys whose caller still owes a \<open>scheduleFollowupDrain\<close>: an enqueue with \<open>restartIfIdle\<close> false to
    a queue that is not drained adds the key, \<open>scheduleFollowupDrain\<close> takes it away\<close>
  "waitsAfter (EvEnqueue now key run st dm cb restart) s W =
     (if restart \<or> isDraining key s then W else insert key W)"
| "waitsAfter (EvSchedule key cb) s W = W - {key}"
| "waitsAfter _ s W = W"

fun leftWaiting :: "followup_state \<Rightarrow> followup_event list \<Rightarrow> string set \<Rightarrow> string set" where
  "leftWaiting s [] W = W"
| "leftWaiting s (e # es) W = leftWaiting (applyFollowup e s) es (waitsAfter e s W)"

definition attended :: "string set \<Rightarrow> followup_state \<Rightarrow> string \<times> nat \<Rightarrow> bool" where
  \<comment> \<open>a registered queue, its key one of \<open>K\<close>, with work and a callback is being drained\<close>
  "attended K s = (\<lambda>(key, r). key \<in> K \<and> hasWork (qheap s r) \<and> mapHas (callbacks s) key \<longrightarrow> draining (qheap s r))"

definition attended_inv :: "string set \<Rightarrow> followup_state \<Rightarrow> bool" where
  "attended_inv K s \<longleftrightarrow> followup_inv s \<and> (\<forall>p \<in> set (queues s). attended K s p)"

lemma attended_mono: "attended_inv K s \<Longrightarrow> K' \<subseteq> K \<Longrightarrow> attended_inv K' s"
  by (auto simp: attended_inv_def attended_def)

lemma registered_key:
  "followup_inv s \<Longrightarrow> (key, r) \<in> set (queues s) \<Longrightarrow> (key', r) \<in> set (queues s) \<Longrightarrow> key' = key"
  by (metis (mono_tags, lifting) followup_inv_def Pair_inject distinct_map inj_onD snd_conv)

lemma registered_get: "followup_inv s \<Longrightarrow> (key, r) \<in> set (queues s) \<longleftrightarrow> mapGet (queues s) key = Some r"
  by (simp add: followup_inv_def mapGet_in_set)

lemma schedule_attended:
  assumes inv: "followup_inv s" and att: "\<forall>p \<in> set (queues s). fst p \<noteq> key \<longrightarrow> attended K s p"
  shows "\<forall>p \<in> set (queues (scheduleFollowupDrain key cb s)). attended K (scheduleFollowupDrain key cb s) p"
proof (cases "mapGet (queues s) key")
  case None
  then have "\<forall>p \<in> set (queues s). fst p \<noteq> key" by (auto simp: map_of_eq_None_iff)
  with None att show ?thesis by (simp add: scheduleFollowupDrain_def)
next
  case (Some r)
  then have reg: "(key, r) \<in> set (queues s)" by (rule map_of_SomeD)
  have own: "p = (key, r)" if "p \<in> set (queues s)" "snd p = r \<or> fst p = key" for p
  proof (cases p)
    case (Pair k v)
    with that reg inv Some registered_key [OF inv reg, of k] registered_get [OF inv, of key v] show ?thesis
      by auto
  qed
  have other: "fst p \<noteq> key \<and> snd p \<noteq> r \<and> attended K s p" if "p \<in> set (queues s)" "p \<noteq> (key, r)" for p
    using own [OF that(1)] that att by auto
  have key: "attended K t (key, r)" if "draining (qheap t r)" for t
    using that by (simp add: attended_def)
  have frame: "attended K t p" if "attended K s p" "qheap t (snd p) = qheap s (snd p) \<or> draining (qheap t (snd p))"
    "mapGet (callbacks t) (fst p) = mapGet (callbacks s) (fst p)" for p t
    using that by (auto simp: attended_def split: prod.splits)
  consider "draining (qheap s r)" | "\<not> draining (qheap s r)" "hasWork (qheap s r)"
    | "\<not> draining (qheap s r)" "\<not> hasWork (qheap s r)" by blast
  then show ?thesis
  proof cases
    case 1
    with Some other key [of s] show ?thesis by (auto simp: schedule_cases)
  next
    case 2
    let ?t = "startDrain key r (coalesce (mapGet (callbacks s) key) cb) s"
    have "attended K ?t p" if "p \<in> set (queues s)" for p
      using other [OF that] key [of ?t] frame [of p ?t]
      by (cases "p = (key, r)") (auto simp: startDrain_def)
    with 2 Some show ?thesis by (simp add: schedule_cases) (simp add: startDrain_def)
  next
    case 3
    let ?t = "forgetKey key (rememberFollowupDrainCallback key (coalesce (mapGet (callbacks s) key) cb) s)"
    have "attended K ?t p" if "p \<in> set (queues ?t)" for p
      using other [of p] that frame [of p ?t] by (cases p) (auto simp: set_mapDelete mapGet_delete)
    with 3 Some show ?thesis by (simp add: schedule_cases)
  qed
qed

lemma finish_attended:
  assumes inv: "followup_inv s" and att: "\<forall>p \<in> set (queues s). snd p \<noteq> thQueue th \<longrightarrow> attended K s p"
    and th: "mapGet (drains s) tid = Some th"
  shows "\<forall>p \<in> set (queues (finishDrain tid th s)). attended K (finishDrain tid th s) p"
proof -
  have "thKey th = k" if "(k, thQueue th) \<in> set (queues s)" for k
    using inv that map_of_SomeD [OF th] by (auto simp: followup_inv_def)
  then have att1: "\<forall>p \<in> set (queues (endDrain tid th s)). fst p \<noteq> thKey th \<longrightarrow> attended K (endDrain tid th s) p"
    using att by (fastforce simp: attended_def endDrain_def)
  then have "\<forall>p \<in> set (queues (forgetKey (thKey th) (endDrain tid th s))).
      attended K (forgetKey (thKey th) (endDrain tid th s)) p"
    by (auto simp: set_mapDelete attended_def mapGet_delete)
  with schedule_attended [OF endDrain_inv [OF inv th refl] att1] show ?thesis
    by (simp add: finishDrain_cases)
qed

lemma attended_frame:
  assumes "\<forall>p \<in> set (queues s). attended K s p"
    and "set (queues t) \<subseteq> set (queues s)"
    and "\<And>k. mapHas (callbacks t) k \<Longrightarrow> mapHas (callbacks s) k"
    and "\<And>r. draining (qheap t r) = draining (qheap s r)"
    and "\<And>r. hasWork (qheap t r) \<Longrightarrow> hasWork (qheap s r) \<or> draining (qheap s r)"
  shows "\<forall>p \<in> set (queues t). attended K t p"
  unfolding attended_def using assms(1) [unfolded attended_def] assms(2-5) by blast

lemma setPc_simps [simp]:
  "queues (setPc tid th pc s) = queues s" "qheap (setPc tid th pc s) = qheap s"
  "callbacks (setPc tid th pc s) = callbacks s" "recent (setPc tid th pc s) = recent s"
  "delivered (setPc tid th pc s) = delivered s" "routable (setPc tid th pc s) = routable s"
  "drains (setPc tid th pc s) = mapSet tid (th\<lparr>thPc := pc\<rparr>) (drains s)"
  "nextQueue (setPc tid th pc s) = nextQueue s"
  by (simp_all add: setPc_def)

lemma thread_draining:
  assumes "followup_inv s" "mapGet (drains s) tid = Some th"
  shows "draining (qheap s (thQueue th))"
proof -
  have "thQueue th \<in> set (threadQueues s)"
    using map_of_SomeD [OF assms(2)] by (force simp: threadQueues_def)
  with assms(1) show ?thesis by (simp add: followup_inv_def)
qed

lemma attended_mapQueue:
  assumes "attended_inv K s" "mapGet (drains s) tid = Some th" "\<And>q. draining (f q) = draining q"
  shows "attended_inv K (mapQueue (thQueue th) f s)"
  unfolding attended_inv_def
proof
  show "followup_inv (mapQueue (thQueue th) f s)"
    using assms(1,3) by (simp add: attended_inv_def inv_mapQueue)
  have d: "draining (qheap s (thQueue th))"
    using assms(1,2) by (simp add: attended_inv_def thread_draining)
  show "\<forall>p \<in> set (queues (mapQueue (thQueue th) f s)). attended K (mapQueue (thQueue th) f s) p"
    by (rule attended_frame [of s]) (use assms(1,3) d in \<open>auto simp: attended_inv_def split: if_splits\<close>)
qed

lemma attended_setPc:
  assumes "attended_inv K s" "mapGet (drains s) tid = Some th0" "thQueue th = thQueue th0" "thKey th = thKey th0"
  shows "attended_inv K (setPc tid th pc s)"
  unfolding attended_inv_def
proof
  show "followup_inv (setPc tid th pc s)"
    using assms by (auto simp: attended_inv_def intro: inv_setPc)
  show "\<forall>p \<in> set (queues (setPc tid th pc s)). attended K (setPc tid th pc s) p"
    by (rule attended_frame [of s]) (use assms(1) in \<open>auto simp: attended_inv_def\<close>)
qed

lemma attended_deliver: "attended_inv K s \<Longrightarrow> attended_inv K (deliver th p s)"
  unfolding attended_inv_def using inv_deliver [of s th p] attended_frame [of s K "deliver th p s"] by simp

lemma attended_finish:
  "attended_inv K s \<Longrightarrow> mapGet (drains s) tid = Some th \<Longrightarrow> attended_inv K (finishDrain tid th s)"
  unfolding attended_inv_def using finishDrain_inv [of s tid th th] finish_attended [of s th K tid] by simp

lemma attended_loopHead:
  "attended_inv K s \<Longrightarrow> mapGet (drains s) tid = Some th \<Longrightarrow> attended_inv K (loopHead tid th s)"
  by (simp add: loopHead_def Let_def attended_finish attended_setPc)

lemma attended_drainNext:
  assumes "attended_inv K s" "mapGet (drains s) tid = Some th0" "thQueue th = thQueue th0" "thKey th = thKey th0"
  shows "attended_inv K (drainNext tid th kind f s)"
proof -
  have "attended_inv K (setPc tid th pc t)" if "attended_inv K t" "drains t = drains s" for pc t
    by (rule attended_setPc [OF that(1) _ assms(3,4)]) (simp add: that(2) assms(2))
  with assms(1) attended_deliver [OF assms(1)] show ?thesis
    by (simp add: drainNext_def split: list.splits)
qed

lemma attended_afterDebounce:
  assumes "attended_inv K s" "mapGet (drains s) tid = Some th"
  shows "attended_inv K (afterDebounce now tid th s)"
  using assms attended_finish [OF assms] attended_setPc [OF assms, of th]
    attended_drainNext [OF assms, of th] attended_drainNext [OF assms, of "th\<lparr>thForce := True\<rparr>"]
  by (simp add: afterDebounce_def Let_def split: option.splits)

lemma attended_collectBatch:
  assumes "attended_inv K s" "mapGet (drains s) tid = Some th"
  shows "attended_inv K (collectBatch now tid th s)"
proof -
  have "attended_inv K (setPc tid th pc (deliver th p s))" for pc p
    by (rule attended_setPc [OF attended_deliver [OF assms(1)], where ?th0.0 = th]) (simp_all add: assms(2))
  then show ?thesis
    using attended_finish [OF assms] by (simp add: collectBatch_def Let_def split: option.splits)
qed

lemma attended_resume:
  assumes inv: "attended_inv K s"
  shows "attended_inv K (resume now tid s)"
proof (cases "mapGet (drains s) tid")
  case None
  with inv show ?thesis by (simp add: resume_def)
next
  case (Some th)
  have c: "attended_inv K (mapQueue (thQueue th) clearQueueSummaryState s)"
    by (rule attended_mapQueue [OF inv Some]) (simp add: clearQueueSummaryState_def)
  have f: "attended_inv K (mapQueue (thQueue th) (\<lambda>q. q\<lparr>lastEnqueuedAt := now\<rparr>) s)"
    by (rule attended_mapQueue [OF inv Some]) simp
  show ?thesis
  proof (cases "thPc th")
    case (AfterItem kind drained)
    with Some attended_loopHead [OF c, of tid th] attended_loopHead [OF inv Some] attended_finish [OF inv Some]
    show ?thesis by (simp add: resume_def)
  next
    case Failing
    with Some attended_finish [OF f, of tid th] show ?thesis by (simp add: resume_def)
  qed (use Some inv attended_afterDebounce [OF inv Some] attended_collectBatch [OF inv Some] in
      \<open>simp_all add: resume_def\<close>)
qed

lemma attended_settled:
  assumes inv: "attended_inv K s"
  shows "attended_inv K (deliverySettled ok tid s)"
proof (cases "mapGet (drains s) tid")
  case None
  with inv show ?thesis by (simp add: deliverySettled_def)
next
  case (Some th)
  have m: "attended_inv K (mapQueue (thQueue th) f s)" if "\<And>q. draining (f q) = draining q" for f
    using that by (rule attended_mapQueue [OF inv Some])
  have f: "attended_inv K (setPc tid th pc s)" for pc
    by (rule attended_setPc [OF inv Some]) simp_all
  show ?thesis
  proof (cases "thPc th")
    case (AwaitItem kind)
    have "attended_inv K (setPc tid th pc (mapQueue (thQueue th) (\<lambda>q. q\<lparr>items := drop 1 (items q)\<rparr>) s))" for pc
      by (rule attended_setPc [OF m, where ?th0.0 = th]) (simp_all add: Some)
    with AwaitItem Some f show ?thesis by (simp add: deliverySettled_def)
  next
    case (AwaitCollect n summary)
    let ?f = "\<lambda>q. let q1 = q\<lparr>items := drop n (items q)\<rparr> in if summary then clearQueueSummaryState q1 else q1"
    have "attended_inv K (loopHead tid th (mapQueue (thQueue th) ?f s))"
      by (rule attended_loopHead [OF m]) (simp_all add: Some Let_def clearQueueSummaryState_def)
    with AwaitCollect Some f show ?thesis by (simp add: deliverySettled_def)
  qed (use Some inv in \<open>simp_all add: deliverySettled_def\<close>)
qed

lemma attended_elapsed: "attended_inv K s \<Longrightarrow> attended_inv K (debounceElapsed now tid s)"
  by (auto simp: debounceElapsed_def intro: attended_setPc split: option.splits drain_pc.splits)

lemma applySettingsTo_work [simp]:
  "hasWork (applySettingsTo st q) = hasWork q" "draining (applySettingsTo st q) = draining q"
  "items (applySettingsTo st q) = items q"
  by (simp_all add: applySettingsTo_def hasWork_def Let_def)

lemma registered_bound: "followup_inv s \<Longrightarrow> r \<in> set (mapValues (queues s)) \<Longrightarrow> r < nextQueue s"
  unfolding followup_inv_def by blast

lemma attended_getQueue:
  assumes inv: "attended_inv K s" and g: "getFollowupQueue key st s = (r, s1)"
  shows "attended_inv K s1 \<and> mapGet (queues s1) key = Some r"
proof -
  have f: "followup_inv s1 \<and> mapGet (queues s1) key = Some r"
    using inv getFollowupQueue_inv [OF _ g] by (simp add: attended_inv_def)
  have "\<forall>p \<in> set (queues s1). attended K s1 p"
  proof (cases "mapGet (queues s) key")
    case None
    have s1: "queues s1 = queues s @ [(key, nextQueue s)]" "callbacks s1 = callbacks s"
      "qheap s1 = (qheap s)(nextQueue s := applySettingsTo st (createdQueue st))"
      using None g by (auto simp: getFollowupQueue_def Let_def mapSet_append)
    have "attended K s1 p" if "p \<in> set (queues s)" for p
    proof -
      have "snd p \<in> set (mapValues (queues s))" using that by simp
      then have "snd p < nextQueue s"
        using registered_bound [of s "snd p"] inv by (simp add: attended_inv_def)
      then have "snd p \<noteq> nextQueue s" by simp
      with inv that show ?thesis by (cases p) (auto simp: attended_inv_def attended_def s1)
    qed
    moreover have "attended K s1 (key, nextQueue s)"
      by (simp add: attended_def s1) (simp add: hasWork_def createdQueue_def)
    ultimately show ?thesis by (simp add: s1)
  next
    case (Some r')
    with g have s1: "s1 = putQueue r' (applySettingsTo st (qheap s r')) s" by (auto simp: getFollowupQueue_def)
    from inv have "\<forall>p \<in> set (queues s). attended K s p" by (simp add: attended_inv_def)
    then show ?thesis
      by (rule attended_frame) (simp_all add: s1 split: if_splits)
  qed
  with f show ?thesis by (simp add: attended_inv_def)
qed

lemma pushed_refused: "pushed now run q = (False, q') \<Longrightarrow> hasWork q' = hasWork q \<and> draining q' = draining q"
  by (auto simp: pushed_def applyQueueDropPolicy_def hasWork_def Let_def split: if_splits)

lemma getFollowupQueue_draining:
  "getFollowupQueue key st s = (r, s1) \<Longrightarrow> isDraining key s \<Longrightarrow> draining (qheap s1 r)"
  by (auto simp: getFollowupQueue_def isDraining_def split: option.splits)

lemma attended_enqueue:
  assumes inv: "attended_inv K s" and kick: "restart \<or> isDraining key s \<or> key \<notin> K"
  shows "attended_inv K (snd (enqueueFollowupRun now key run st dm cb restart s))"
proof -
  obtain r s1 where g: "getFollowupQueue key st s = (r, s1)" by fastforce
  obtain hit d1 where h: "dedupePeek (recentKeyOf dm run key) now (recent s1) = (hit, d1)" by fastforce
  obtain acc q where p: "pushed now run (qheap s1 r) = (acc, q)" by fastforce
  have fin: "followup_inv (snd (enqueueFollowupRun now key run st dm cb restart s))"
    using inv followup_enqueue_inv by (simp add: attended_inv_def)
  have s1: "attended_inv K s1" "mapGet (queues s1) key = Some r" using attended_getQueue [OF inv g] by auto
  have rec: "\<forall>p \<in> set (queues (s1\<lparr>recent := d1\<rparr>)). attended K (s1\<lparr>recent := d1\<rparr>) p"
    using s1(1) by (simp add: attended_inv_def attended_def)
  show ?thesis
  proof (cases "hit \<or> alreadyQueued dm run (items (qheap s1 r)) \<or> \<not> acc")
    case True
    have "\<forall>p \<in> set (queues (putQueue r q (s1\<lparr>recent := d1\<rparr>))). attended K (putQueue r q (s1\<lparr>recent := d1\<rparr>)) p" if "\<not> acc"
      using pushed_refused [of now run "qheap s1 r" q] p that
      by (intro attended_frame [OF rec]) (auto split: if_splits)
    with fin rec True show ?thesis by (auto simp: attended_inv_def enqueue_cases [OF g h p])
  next
    case False
    let ?s4 = "(putQueue r q s1)\<lparr>recent := snd (dedupeCheck (recentKeyOf dm run key) now d1)\<rparr>"
    let ?s5 = "case cb of None \<Rightarrow> ?s4 | Some c \<Rightarrow> rememberFollowupDrainCallback key c ?s4"
    have s5: "queues ?s5 = queues s1" "qheap ?s5 = (qheap s1)(r := q)"
      "\<And>k. k \<noteq> key \<Longrightarrow> mapGet (callbacks ?s5) k = mapGet (callbacks s1) k"
      by (simp_all split: option.splits)
    have inv5: "followup_inv ?s5"
    proof -
      have "followup_inv (putQueue r q s1)"
        using s1(1) p pushed_draining [of now run "qheap s1 r"] by (auto simp: attended_inv_def intro: inv_putQueue)
      then show ?thesis by (simp add: inv_recent remember_inv split: option.splits)
    qed
    have others: "\<forall>p \<in> set (queues ?s5). fst p \<noteq> key \<longrightarrow> attended K ?s5 p"
    proof (intro ballI impI)
      fix p assume p: "p \<in> set (queues ?s5)" "fst p \<noteq> key"
      have "snd p \<noteq> r"
        using registered_key [of s1 key r "fst p"] p s1 map_of_SomeD [OF s1(2)]
        by (cases p) (auto simp: s5 attended_inv_def)
      with p s1(1) show "attended K ?s5 p"
        by (cases p) (auto simp: attended_def s5 attended_inv_def)
    qed
    show ?thesis
    proof (cases "draining q")
      case True
      then have "\<forall>p \<in> set (queues ?s5). attended K ?s5 p"
        using others s1 registered_get [of s1 key] by (auto simp: attended_def s5 attended_inv_def)
      with inv5 False True show ?thesis
        by (simp add: attended_inv_def enqueue_cases [OF g h p] Let_def)
    next
      case idle: False
      have e: "snd (enqueueFollowupRun now key run st dm cb restart s)
          = (if restart then kickFollowupDrainIfIdle key ?s5 else ?s5)"
        using False idle by (simp add: enqueue_cases [OF g h p] Let_def)
      have nd: "\<not> isDraining key s"
        using getFollowupQueue_draining [OF g] pushed_draining [of now run "qheap s1 r"] p idle by auto
      show ?thesis
      proof (cases "restart \<and> mapGet (callbacks ?s5) key \<noteq> None")
        case restarts: False
        then consider "restart" "mapGet (callbacks ?s5) key = None" | "\<not> restart" "key \<notin> K"
          using kick nd by blast
        then have "\<forall>p \<in> set (queues ?s5). attended K ?s5 p" 
        proof cases
          case 1
          then show ?thesis using others by (auto simp: attended_def)
        next
          case 2
          then show ?thesis using others by (auto simp: attended_def)
        qed
        with inv5 restarts show ?thesis
          unfolding e by (auto simp: attended_inv_def kickFollowupDrainIfIdle_def split: option.splits)
      next
        case True
        then obtain c where Some: "restart" "mapGet (callbacks ?s5) key = Some c" by blast
        with schedule_attended [OF inv5 others] scheduleFollowupDrain_inv [OF inv5] show ?thesis
          unfolding e by (simp add: attended_inv_def kickFollowupDrainIfIdle_def)
      qed
    qed
  qed
qed

lemma attended_event: "attended_inv (- W) s \<Longrightarrow> attended_inv (- waitsAfter e s W) (applyFollowup e s)"
proof (cases e)
  case (EvEnqueue now key run st dm cb restart)
  assume "attended_inv (- W) s"
  then have "attended_inv (- waitsAfter e s W) s" by (rule attended_mono) (auto simp: EvEnqueue)
  then show ?thesis using attended_enqueue [of "- waitsAfter e s W" s restart key] by (auto simp: EvEnqueue)
next
  case (EvSchedule key cb)
  assume inv: "attended_inv (- W) s"
  then have "\<forall>p \<in> set (queues s). fst p \<noteq> key \<longrightarrow> attended (- (W - {key})) s p"
    by (auto simp: attended_inv_def attended_def)
  from schedule_attended [OF _ this] inv scheduleFollowupDrain_inv show ?thesis
    by (simp add: attended_inv_def EvSchedule)
next
  case (EvClear key)
  have "\<forall>p \<in> set (queues t). attended (- W) t p"
    if "\<forall>p \<in> set (queues s). attended (- W) s p" "t = snd (clearFollowupQueue key s)" for t
    by (rule attended_frame [OF that(1)])
      (auto simp: that(2) clearFollowupQueue_def Let_def set_mapDelete hasWork_def split: option.splits if_splits)
  then show "attended_inv (- W) s \<Longrightarrow> ?thesis" by (simp add: EvClear attended_inv_def followup_clear_inv)
next
  case (EvForgetCallback key)
  have "\<forall>p \<in> set (queues t). attended (- W) t p"
    if "\<forall>p \<in> set (queues s). attended (- W) s p" "t = clearFollowupDrainCallback key s" for t
    by (rule attended_frame [OF that(1)])
      (auto simp: that(2) clearFollowupDrainCallback_def mapGet_delete split: if_splits)
  with applyFollowup_inv [of s e] show "attended_inv (- W) s \<Longrightarrow> ?thesis"
    by (simp add: EvForgetCallback attended_inv_def)
next
  case (EvRefresh p)
  have "\<forall>p \<in> set (queues t). attended (- W) t p"
    if "\<forall>p \<in> set (queues s). attended (- W) s p" "t = refreshQueuedFollowupSession p s" for t
    by (rule attended_frame [OF that(1)])
      (auto simp: that(2) refreshQueuedFollowupSession_def Let_def hasWork_def split: option.splits if_splits)
  then show "attended_inv (- W) s \<Longrightarrow> ?thesis" by (simp add: EvRefresh attended_inv_def refresh_inv)
next
  case EvResetRecent
  then show "attended_inv (- W) s \<Longrightarrow> ?thesis"
    by (simp add: attended_inv_def inv_recent resetRecentQueuedMessageIdDedupe_def attended_def)
qed (simp_all add: attended_elapsed attended_settled attended_resume)

definition trackedStep :: "followup_event \<Rightarrow> followup_state \<times> string set \<Rightarrow> followup_state \<times> string set" where
  "trackedStep e = (\<lambda>(s, W). (applyFollowup e s, waitsAfter e s W))"

lemma fold_trackedStep: "fold trackedStep es (s, W) = (fold applyFollowup es s, leftWaiting s es W)"
  by (induction es arbitrary: s W) (simp_all add: trackedStep_def)

interpretation followup_attended: event_invariant trackedStep "\<lambda>e. True" "\<lambda>(s, W). attended_inv (- W) s"
  by unfold_locales (auto simp: trackedStep_def attended_event)

text \<open>
  C14. No backlog is left behind: whatever enqueues, calls, debounces, deliveries and failures have
  happened, a registered queue that has messages, or drops to report, and a delivery callback is being
  drained right now, under its own key. The one exception is a key whose caller took the start of the
  drain upon itself and has not made it yet: a message was enqueued with \<open>restartIfIdle\<close> false while
  no drain was running (as the agent runner does during a run), and no \<open>scheduleFollowupDrain\<close> for the
  key has followed (\<open>leftWaiting\<close>).
\<close>

theorem followup_no_stranded_backlog:
  assumes "s0 = initialFollowupState isRoutable" "s = fold applyFollowup events s0"
    and "key \<notin> leftWaiting s0 events {}"
    and "mapGet (queues s) key = Some r" "hasWork (qheap s r)" "mapHas (callbacks s) key"
  shows "\<exists>tid th. mapGet (drains s) tid = Some th \<and> thQueue th = r \<and> thKey th = key"
proof -
  let ?K = "- leftWaiting s0 events {}"
  have "attended_inv (- {}) s0"
    by (simp add: attended_inv_def initial_followup_inv assms(1)) (simp add: initialFollowupState_def)
  with followup_attended.run_inv [of "(s0, {})" events] have inv: "attended_inv ?K s"
    by (simp add: fold_trackedStep assms(2) list_all_iff)
  have reg: "(key, r) \<in> set (queues s)" using assms(4) by (rule map_of_SomeD)
  with inv assms(3,5,6) have "draining (qheap s r)" by (auto simp: attended_inv_def attended_def)
  with inv obtain tid th where th: "(tid, th) \<in> set (drains s)" "thQueue th = r"
    by (auto simp: attended_inv_def followup_inv_def threadQueues_def)
  with inv reg have "mapGet (drains s) tid = Some th \<and> thKey th = key"
    by (auto simp: attended_inv_def followup_inv_def mapGet_in_set)
  with th(2) show ?thesis by blast
qed

section \<open>Exactly once, in order\<close>

definition drainsOf :: "string \<Rightarrow> followup_state \<Rightarrow> drain_thread list" where
  "drainsOf key s = filter (\<lambda>th. thKey th = key) (mapValues (drains s))"

definition deliveredTo :: "string \<Rightarrow> followup_state \<Rightarrow> followup_run list" where
  "deliveredTo key s = map dvRun (filter (\<lambda>d. dvKey d = key) (delivered s))"

fun acceptedBy :: "string \<Rightarrow> followup_state \<Rightarrow> followup_event \<Rightarrow> followup_run list" where
  "acceptedBy key s (EvEnqueue now k run st dm cb restart) =
     (if k = key \<and> fst (enqueueFollowupRun now k run st dm cb restart s) then [run] else [])"
| "acceptedBy key s _ = []"

fun acceptedRuns :: "string \<Rightarrow> followup_state \<Rightarrow> followup_event list \<Rightarrow> followup_run list" where
  "acceptedRuns key s [] = []"
| "acceptedRuns key s (e # es) = acceptedBy key s e @ acceptedRuns key (applyFollowup e s) es"

fun calmFor :: "string \<Rightarrow> followup_state \<Rightarrow> followup_event \<Rightarrow> bool" where
  \<comment> \<open>the key's queue is not collected, not summarized, not cleared and not rewritten, and its own
    deliveries do not fail\<close>
  "calmFor key s (EvEnqueue now k run st dm cb restart) =
     (k = key \<longrightarrow> setMode st \<noteq> Collect \<and> setDropPolicy st = Some DropNew)"
| "calmFor key s (EvClear k) = (trim k \<noteq> key)"
| "calmFor key s (EvRefresh p) = (trim (rfKey p) \<noteq> key)"
| "calmFor key s (EvSettled success tid) =
     (success \<or> (case mapGet (drains s) tid of None \<Rightarrow> True | Some th \<Rightarrow> thKey th \<noteq> key))"
| "calmFor key s _ = True"

fun calmRun :: "string \<Rightarrow> followup_state \<Rightarrow> followup_event list \<Rightarrow> bool" where
  "calmRun key s [] \<longleftrightarrow> True"
| "calmRun key s (e # es) \<longleftrightarrow> calmFor key s e \<and> calmRun key (applyFollowup e s) es"

fun pcOk :: "drain_pc \<Rightarrow> followup_run list \<Rightarrow> followup_run list \<Rightarrow> followup_run list \<Rightarrow> bool" where
  \<comment> \<open>what is delivered and what is queued make up what was accepted; a message in delivery is both\<close>
  "pcOk (DebounceWait d) xs D A = (xs \<noteq> [] \<and> D @ xs = A)"
| "pcOk DebounceReady xs D A = (xs \<noteq> [] \<and> D @ xs = A)"
| "pcOk (AwaitItem kind) xs D A = (kind = PlainItem \<and> xs \<noteq> [] \<and> D @ tl xs = A)"
| "pcOk (AfterItem kind ok) xs D A = (kind = PlainItem \<and> ok \<and> D @ xs = A)"
| "pcOk _ xs D A = False"

definition plainQueue :: "followup_queue \<Rightarrow> bool" where
  "plainQueue q \<longleftrightarrow> mode q \<noteq> Collect \<and> dropPolicy q = DropNew \<and> droppedCount q = 0"

definition lineOk ::
  "nat \<Rightarrow> followup_queue \<Rightarrow> drain_thread list \<Rightarrow> followup_run list \<Rightarrow> followup_run list \<Rightarrow> bool" where
  "lineOk r q ths D A \<longleftrightarrow> plainQueue q \<and>
     (case ths of
        [] \<Rightarrow> D @ items q = A
      | th # rest \<Rightarrow> rest = [] \<and> thQueue th = r \<and> pcOk (thPc th) (items q) D A)"

definition fifo_inv :: "string \<Rightarrow> followup_run list \<Rightarrow> followup_state \<Rightarrow> bool" where
  "fifo_inv key A s \<longleftrightarrow> followup_inv s \<and>
     (case mapGet (queues s) key of
        None \<Rightarrow> drainsOf key s = [] \<and> deliveredTo key s = A
      | Some r \<Rightarrow> lineOk r (qheap s r) (drainsOf key s) (deliveredTo key s) A)"

lemma fifo_frame:
  assumes "fifo_inv key A s" "followup_inv t" "mapGet (queues t) key = mapGet (queues s) key"
    and "\<And>r. mapGet (queues s) key = Some r \<Longrightarrow> qheap t r = qheap s r"
    and "drainsOf key t = drainsOf key s" "deliveredTo key t = deliveredTo key s"
  shows "fifo_inv key A t"
  using assms by (auto simp: fifo_inv_def split: option.splits)

text \<open>Threads of one key among the entries of the map of drains.\<close>

lemma values_set_other:
  "mapGet m t = Some x \<Longrightarrow> \<not> P x \<Longrightarrow> \<not> P y \<Longrightarrow> filter P (mapValues (mapSet t y m)) = filter P (mapValues m)"
  by (induction m) (auto split: if_splits)

lemma values_delete_other:
  "wfMap m \<Longrightarrow> mapGet m t = Some x \<Longrightarrow> \<not> P x \<Longrightarrow>
   filter P (mapValues (mapDelete t m)) = filter P (mapValues m)"
  by (induction m) (auto simp: wfMap_Cons mapDelete_absent split: if_splits)

lemma values_own:
  assumes "wfMap m" "mapGet m t = Some x" "P x" "filter P (mapValues m) = [x']"
  shows "x' = x" "filter P (mapValues (mapDelete t m)) = []"
    "P y \<Longrightarrow> filter P (mapValues (mapSet t y m)) = [y]"
proof -
  have "x \<in> set (filter P (mapValues m))" using map_of_SomeD [OF assms(2)] assms(3) by force
  then show x: "x' = x" using assms(4) by simp
  have "filter P (mapValues (mapDelete t m)) = [] \<and> (P y \<longrightarrow> filter P (mapValues (mapSet t y m)) = [y])"
    using assms unfolding x
  proof (induction m)
    case (Cons p m)
    obtain u z where p: "p = (u, z)" by (cases p)
    show ?case
    proof (cases "u = t")
      case True
      with Cons.prems p show ?thesis by (auto simp: wfMap_Cons mapDelete_absent)
    next
      case False
      with Cons.prems p have g: "mapGet m t = Some x" by simp
      then have "x \<in> set (filter P (mapValues m))" using map_of_SomeD [OF g] assms(3) by force
      then have "filter P (mapValues m) \<noteq> []" by (metis empty_iff list.set(1))
      with Cons.prems(4) p have "\<not> P z" by (cases "P z") simp_all
      with Cons g False p show ?thesis by (auto simp: wfMap_Cons)
    qed
  qed simp
  then show "filter P (mapValues (mapDelete t m)) = []"
    "P y \<Longrightarrow> filter P (mapValues (mapSet t y m)) = [y]" by auto
qed

lemma not_own:
  assumes "followup_inv s" "mapGet (drains s) tid = Some th" "thKey th \<noteq> key" "mapGet (queues s) key = Some r"
  shows "thQueue th \<noteq> r"
  using assms map_of_SomeD [OF assms(2)] map_of_SomeD [OF assms(4)] by (auto simp: followup_inv_def)

lemma registered_other:
  assumes "followup_inv s" "mapGet (queues s) k = Some r'" "k \<noteq> key" "mapGet (queues s) key = Some r"
  shows "r \<noteq> r'"
  using registered_key [OF assms(1) map_of_SomeD [OF assms(2)], of key] assms(3) map_of_SomeD [OF assms(4)] by auto

lemma drains_wf: "followup_inv s \<Longrightarrow> wfMap (drains s)"
  by (simp add: followup_inv_def)

section \<open>Other keys leave a line alone\<close>

lemma deliveredTo_deliver: "deliveredTo key (deliver th p s)
   = deliveredTo key s @ (if thKey th = key then [dvRun \<lparr>dvKey = thKey th, dvQueue = thQueue th, dvCallback = thCallback th, dvRun = p\<rparr>] else [])"
  by (simp add: deliveredTo_def deliver_def)

lemma fifo_setPc_other:
  assumes "fifo_inv key A s" "mapGet (drains s) tid = Some th0" "thQueue th = thQueue th0" "thKey th = thKey th0"
    "thKey th0 \<noteq> key"
  shows "fifo_inv key A (setPc tid th pc s)"
proof (rule fifo_frame [OF assms(1)])
  show "followup_inv (setPc tid th pc s)" using assms by (auto simp: fifo_inv_def intro: inv_setPc)
  show "drainsOf key (setPc tid th pc s) = drainsOf key s"
    using values_set_other [OF assms(2), of "\<lambda>th. thKey th = key" "th\<lparr>thPc := pc\<rparr>"] assms(4,5)
    by (simp add: drainsOf_def)
qed (simp_all add: deliveredTo_def)

lemma fifo_mapQueue_other:
  assumes "fifo_inv key A s" "mapGet (drains s) tid = Some th" "thKey th \<noteq> key" "\<And>q. draining (f q) = draining q"
  shows "fifo_inv key A (mapQueue (thQueue th) f s)"
proof (rule fifo_frame [OF assms(1)])
  show "followup_inv (mapQueue (thQueue th) f s)" using assms by (auto simp: fifo_inv_def intro: inv_mapQueue)
  show "qheap (mapQueue (thQueue th) f s) r = qheap s r" if "mapGet (queues s) key = Some r" for r
    using not_own [of s tid th key r] assms that by (auto simp: fifo_inv_def)
qed (simp_all add: drainsOf_def deliveredTo_def)

lemma fifo_deliver_other: "fifo_inv key A s \<Longrightarrow> thKey th \<noteq> key \<Longrightarrow> fifo_inv key A (deliver th p s)"
  by (rule fifo_frame) (auto simp: fifo_inv_def inv_deliver drainsOf_def deliveredTo_deliver)

lemma fifo_forget_other:
  assumes "fifo_inv key A s" "k \<noteq> key"
  shows "fifo_inv key A (forgetKey k s)"
  by (rule fifo_frame [OF assms(1)])
    (use assms in \<open>auto simp: fifo_inv_def inv_forgetKey drainsOf_def deliveredTo_def mapGet_delete\<close>)

lemma fifo_remember: "fifo_inv key A s \<Longrightarrow> fifo_inv key A (rememberFollowupDrainCallback k c s)"
  by (rule fifo_frame) (auto simp: fifo_inv_def remember_inv drainsOf_def deliveredTo_def)

lemma startDrain_simps:
  "queues (startDrain k r c s) = queues s" "delivered (startDrain k r c s) = delivered s"
  "qheap (startDrain k r c s) = (qheap s)(r := (qheap s r)\<lparr>draining := True\<rparr>)"
  "drainsOf key (startDrain k r c s) = drainsOf key s @ (if k = key then [\<lparr>thKey = k, thQueue = r,
     thCallback = c, thForce = False, thPc = debouncePc (qheap s r)\<rparr>] else [])"
  by (simp_all add: startDrain_def drainsOf_def)

lemma fifo_schedule_other:
  assumes "fifo_inv key A s" "k \<noteq> key"
  shows "fifo_inv key A (scheduleFollowupDrain k c s)"
proof -
  have inv: "followup_inv s" using assms(1) by (simp add: fifo_inv_def)
  have "fifo_inv key A (startDrain k r c' s)"
    if r: "mapGet (queues s) k = Some r" "\<not> draining (qheap s r)" "hasWork (qheap s r)" for r c'
  proof (rule fifo_frame [OF assms(1)])
    show "followup_inv (startDrain k r c' s)"
      using inv_start [OF remember_inv [OF inv], where key = k and r = r] r by (simp add: startDrain_def)
    show "qheap (startDrain k r c' s) r' = qheap s r'" if "mapGet (queues s) key = Some r'" for r'
      using registered_other [OF inv r(1) assms(2) that] by (simp add: startDrain_simps)
  qed (use assms(2) in \<open>simp_all add: startDrain_simps deliveredTo_def\<close>)
  with assms show ?thesis
    by (auto simp: schedule_cases intro: fifo_forget_other fifo_remember split: option.splits)
qed

lemma fifo_endDrain_other:
  assumes "fifo_inv key A s" "mapGet (drains s) tid = Some th" "thKey th \<noteq> key"
  shows "fifo_inv key A (endDrain tid th s)"
proof (rule fifo_frame [OF assms(1)])
  have inv: "followup_inv s" using assms(1) by (simp add: fifo_inv_def)
  show "followup_inv (endDrain tid th s)" by (rule endDrain_inv [OF inv assms(2) refl])
  show "qheap (endDrain tid th s) r = qheap s r" if "mapGet (queues s) key = Some r" for r
    using not_own [OF inv assms(2,3) that] by (simp add: endDrain_def)
  show "drainsOf key (endDrain tid th s) = drainsOf key s"
    using values_delete_other [OF drains_wf [OF inv] assms(2), of "\<lambda>th. thKey th = key"] assms(3)
    by (simp add: drainsOf_def endDrain_def)
qed (simp_all add: endDrain_def deliveredTo_def)

lemma fifo_finish_other:
  assumes "fifo_inv key A s" "mapGet (drains s) tid = Some th" "thKey th \<noteq> key"
  shows "fifo_inv key A (finishDrain tid th s)"
  using fifo_endDrain_other [OF assms] assms(3)
  by (simp add: finishDrain_cases fifo_schedule_other fifo_forget_other)

lemma fifo_loopHead_other:
  assumes "fifo_inv key A s" "mapGet (drains s) tid = Some th" "thKey th \<noteq> key"
  shows "fifo_inv key A (loopHead tid th s)"
  using assms fifo_finish_other [OF assms] fifo_setPc_other [OF assms(1,2)]
  by (simp add: loopHead_def Let_def)

lemma fifo_drainNext_other:
  assumes "fifo_inv key A s" "mapGet (drains s) tid = Some th0" "thQueue th = thQueue th0" "thKey th = thKey th0"
    "thKey th0 \<noteq> key"
  shows "fifo_inv key A (drainNext tid th kind f s)"
proof -
  have "fifo_inv key A (setPc tid th pc t)" if "fifo_inv key A t" "drains t = drains s" for pc t
    by (rule fifo_setPc_other [OF that(1) _ assms(3,4,5)]) (simp add: that(2) assms(2))
  with assms fifo_deliver_other [OF assms(1)] show ?thesis
    by (simp add: drainNext_def split: list.splits)
qed

lemma fifo_afterDebounce_other:
  assumes "fifo_inv key A s" "mapGet (drains s) tid = Some th" "thKey th \<noteq> key"
  shows "fifo_inv key A (afterDebounce now tid th s)"
  using assms fifo_finish_other [OF assms] fifo_setPc_other [OF assms(1,2), of th]
    fifo_drainNext_other [OF assms(1,2), of th] fifo_drainNext_other [OF assms(1,2), of "th\<lparr>thForce := True\<rparr>"]
  by (simp add: afterDebounce_def Let_def split: option.splits)

lemma fifo_collectBatch_other:
  assumes "fifo_inv key A s" "mapGet (drains s) tid = Some th" "thKey th \<noteq> key"
  shows "fifo_inv key A (collectBatch now tid th s)"
proof -
  have "fifo_inv key A (setPc tid th pc (deliver th p s))" for pc p
    by (rule fifo_setPc_other [OF fifo_deliver_other [OF assms(1,3)], where ?th0.0 = th])
      (simp_all add: assms(2,3))
  then show ?thesis
    using fifo_finish_other [OF assms] by (simp add: collectBatch_def Let_def split: option.splits)
qed

lemma fifo_resume_other:
  assumes inv: "fifo_inv key A s" and th: "mapGet (drains s) tid = Some th" "thKey th \<noteq> key"
  shows "fifo_inv key A (resume now tid s)"
proof -
  have m: "fifo_inv key A (mapQueue (thQueue th) f s)" if "\<And>q. draining (f q) = draining q" for f
    using that by (rule fifo_mapQueue_other [OF inv th])
  have c: "fifo_inv key A (mapQueue (thQueue th) clearQueueSummaryState s)"
    by (rule m) (simp add: clearQueueSummaryState_def)
  show ?thesis
  proof (cases "thPc th")
    case (AfterItem kind drained)
    with th fifo_loopHead_other [OF c, of tid th] fifo_loopHead_other [OF inv th] fifo_finish_other [OF inv th]
    show ?thesis by (simp add: resume_def)
  next
    case Failing
    with th fifo_finish_other [OF m, of "\<lambda>q. q\<lparr>lastEnqueuedAt := now\<rparr>" tid th] show ?thesis
      by (simp add: resume_def)
  qed (use th inv fifo_afterDebounce_other [OF inv th] fifo_collectBatch_other [OF inv th] in
      \<open>simp_all add: resume_def\<close>)
qed

lemma fifo_settled_other:
  assumes inv: "fifo_inv key A s" and th: "mapGet (drains s) tid = Some th" "thKey th \<noteq> key"
  shows "fifo_inv key A (deliverySettled ok tid s)"
proof -
  have m: "fifo_inv key A (mapQueue (thQueue th) f s)" if "\<And>q. draining (f q) = draining q" for f
    using that by (rule fifo_mapQueue_other [OF inv th])
  have f: "fifo_inv key A (setPc tid th pc s)" for pc
    by (rule fifo_setPc_other [OF inv th(1)]) (simp_all add: th(2))
  show ?thesis
  proof (cases "thPc th")
    case (AwaitItem kind)
    have "fifo_inv key A (setPc tid th pc (mapQueue (thQueue th) (\<lambda>q. q\<lparr>items := drop 1 (items q)\<rparr>) s))" for pc
      by (rule fifo_setPc_other [OF m, where ?th0.0 = th]) (simp_all add: th)
    with AwaitItem th f show ?thesis by (simp add: deliverySettled_def)
  next
    case (AwaitCollect n summary)
    let ?f = "\<lambda>q. let q1 = q\<lparr>items := drop n (items q)\<rparr> in if summary then clearQueueSummaryState q1 else q1"
    have "fifo_inv key A (loopHead tid th (mapQueue (thQueue th) ?f s))"
      by (rule fifo_loopHead_other [OF m]) (simp_all add: th Let_def clearQueueSummaryState_def)
    with AwaitCollect th f show ?thesis by (simp add: deliverySettled_def)
  qed (use th inv in \<open>simp_all add: deliverySettled_def\<close>)
qed

section \<open>The key's own drain\<close>

lemma own_line:
  assumes inv: "fifo_inv key A s" and th: "mapGet (drains s) tid = Some th" "thKey th = key"
  shows "drainsOf key s = [th] \<and> mapGet (queues s) key = Some (thQueue th)
    \<and> plainQueue (qheap s (thQueue th))
    \<and> pcOk (thPc th) (items (qheap s (thQueue th))) (deliveredTo key s) A"
proof -
  have "th \<in> set (drainsOf key s)" using map_of_SomeD [OF th(1)] th(2) by (force simp: drainsOf_def)
  moreover have "drainsOf key s = [] \<or> (\<exists>x r. drainsOf key s = [x] \<and> mapGet (queues s) key = Some r \<and>
      lineOk r (qheap s r) [x] (deliveredTo key s) A)"
    using inv by (auto simp: fifo_inv_def lineOk_def split: option.splits list.splits)
  ultimately show ?thesis by (auto simp: lineOk_def)
qed

lemma fifo_own_setPc:
  assumes inv: "fifo_inv key A s" and th: "mapGet (drains s) tid = Some th" "thKey th = key"
    and ok: "followup_inv t" "queues t = queues s" "drains t = drains s"
    "plainQueue (qheap t (thQueue th))"
    "pcOk pc (items (qheap t (thQueue th))) (deliveredTo key t) A'"
  shows "fifo_inv key A' (setPc tid th pc t)"
proof -
  note own = own_line [OF inv th]
  have wf: "wfMap (drains s)" using inv by (simp add: fifo_inv_def drains_wf)
  have "filter (\<lambda>th. thKey th = key) (mapValues (mapSet tid (th\<lparr>thPc := pc\<rparr>) (drains s))) = [th\<lparr>thPc := pc\<rparr>]"
    by (rule values_own(3) [OF wf th(1), of _ th]) (use own th(2) in \<open>simp_all add: drainsOf_def\<close>)
  then have "drainsOf key (setPc tid th pc t) = [th\<lparr>thPc := pc\<rparr>]" by (simp add: drainsOf_def ok(3))
  moreover have "followup_inv (setPc tid th pc t)"
    by (rule inv_setPc [OF ok(1), where ?th0.0 = th]) (simp_all add: ok(3) th)
  moreover have "deliveredTo key (setPc tid th pc t) = deliveredTo key t" by (simp add: deliveredTo_def)
  ultimately show ?thesis using own ok by (simp add: fifo_inv_def lineOk_def)
qed

lemma fifo_own_done:
  assumes inv: "fifo_inv key A s" and th: "mapGet (drains s) tid = Some th" "thKey th = key"
    and empty: "\<not> hasWork (qheap s (thQueue th))" "deliveredTo key s = A"
  shows "fifo_inv key A (finishDrain tid th s)"
proof -
  note own = own_line [OF inv th]
  have i: "followup_inv s" using inv by (simp add: fifo_inv_def)
  have e: "finishDrain tid th s = forgetKey key (endDrain tid th s)"
    using empty(1) th(2) by (simp add: finishDrain_cases)
  have "filter (\<lambda>th. thKey th = key) (mapValues (mapDelete tid (drains s))) = []"
    by (rule values_own(2) [OF drains_wf [OF i] th(1), of _ th]) (use own th(2) in \<open>simp_all add: drainsOf_def\<close>)
  then have "drainsOf key (finishDrain tid th s) = []" by (simp add: e drainsOf_def endDrain_def)
  moreover have "deliveredTo key (finishDrain tid th s) = A"
    using empty(2) by (simp add: e deliveredTo_def endDrain_def)
  moreover have "mapGet (queues (finishDrain tid th s)) key = None" by (simp add: e)
  ultimately show ?thesis using finishDrain_inv [OF i th(1) refl] by (simp add: fifo_inv_def)
qed

lemma plain_work: "plainQueue q \<Longrightarrow> hasWork q \<longleftrightarrow> items q \<noteq> []"
  by (simp add: plainQueue_def hasWork_def)

lemma pcOk_debounce: "pcOk (debouncePc q) xs D A \<longleftrightarrow> xs \<noteq> [] \<and> D @ xs = A"
  by (simp add: debouncePc_def)

lemma fifo_own_loopHead:
  assumes inv: "fifo_inv key A s" and th: "mapGet (drains s) tid = Some th" "thKey th = key"
    and line: "deliveredTo key s @ items (qheap s (thQueue th)) = A"
  shows "fifo_inv key A (loopHead tid th s)"
proof -
  note own = own_line [OF inv th]
  then have plain: "plainQueue (qheap s (thQueue th))" by simp
  show ?thesis
  proof (cases "hasWork (qheap s (thQueue th))")
    case True
    have "fifo_inv key A (setPc tid th (debouncePc (qheap s (thQueue th))) s)"
      by (rule fifo_own_setPc [OF inv th]) (use inv True line plain in
        \<open>simp_all add: fifo_inv_def pcOk_debounce plain_work\<close>)
    with True show ?thesis by (simp add: loopHead_def Let_def)
  next
    case False
    with fifo_own_done [OF inv th False] line plain show ?thesis
      by (simp add: loopHead_def Let_def plain_work)
  qed
qed

lemma fifo_own_afterDebounce:
  assumes inv: "fifo_inv key A s" and th: "mapGet (drains s) tid = Some th" "thKey th = key"
    and pc: "thPc th = DebounceReady"
  shows "fifo_inv key A (afterDebounce now tid th s)"
proof -
  let ?q = "qheap s (thQueue th)"
  note own = own_line [OF inv th]
  then have q: "plainQueue ?q" "items ?q \<noteq> []" "deliveredTo key s @ items ?q = A" using pc by simp_all
  then obtain x xs where xs: "items ?q = x # xs" by (cases "items ?q") auto
  have "previewQueueSummaryPrompt ?q ''message'' None = None"
    using q(1) by (simp add: preview_None_iff plainQueue_def)
  then have e: "afterDebounce now tid th s = setPc tid th (AwaitItem PlainItem) (deliver th x s)"
    using q(1) xs by (simp add: afterDebounce_def Let_def plainQueue_def drainNext_def)
  show ?thesis
    unfolding e
    by (rule fifo_own_setPc [OF inv th]) (use inv q xs th(2) in
      \<open>simp_all add: fifo_inv_def inv_deliver deliveredTo_deliver\<close>)
qed

lemma fifo_resume:
  assumes inv: "fifo_inv key A s"
  shows "fifo_inv key A (resume now tid s)"
proof (cases "mapGet (drains s) tid")
  case None
  with inv show ?thesis by (simp add: resume_def)
next
  case (Some th)
  show ?thesis
  proof (cases "thKey th = key")
    case False
    with fifo_resume_other [OF inv Some] show ?thesis by simp
  next
    case True
    note own = own_line [OF inv Some True]
    show ?thesis
    proof (cases "thPc th")
      case DebounceReady
      with Some fifo_own_afterDebounce [OF inv Some True] show ?thesis by (simp add: resume_def)
    next
      case (AfterItem kind ok)
      with Some own fifo_own_loopHead [OF inv Some True] show ?thesis by (simp add: resume_def)
    qed (use Some own inv in \<open>simp_all add: resume_def\<close>)
  qed
qed

lemma fifo_settled:
  assumes inv: "fifo_inv key A s"
  shows "fifo_inv key A (deliverySettled True tid s)"
proof (cases "mapGet (drains s) tid")
  case None
  with inv show ?thesis by (simp add: deliverySettled_def)
next
  case (Some th)
  show ?thesis
  proof (cases "thKey th = key")
    case False
    with fifo_settled_other [OF inv Some] show ?thesis by simp
  next
    case True
    note own = own_line [OF inv Some True]
    show ?thesis
    proof (cases "thPc th")
      case (AwaitItem kind)
      let ?t = "mapQueue (thQueue th) (\<lambda>q. q\<lparr>items := drop 1 (items q)\<rparr>) s"
      have "followup_inv ?t" using inv by (auto simp: fifo_inv_def intro: inv_mapQueue)
      then have "fifo_inv key A (setPc tid th (AfterItem kind True) ?t)"
        by (rule fifo_own_setPc [OF inv Some True])
          (use own AwaitItem in \<open>simp_all add: plainQueue_def deliveredTo_def drop_Suc\<close>)
      with AwaitItem Some show ?thesis by (simp add: deliverySettled_def)
    qed (use Some own inv in \<open>simp_all add: deliverySettled_def\<close>)
  qed
qed

lemma fifo_elapsed:
  assumes inv: "fifo_inv key A s"
  shows "fifo_inv key A (debounceElapsed now tid s)"
proof (cases "mapGet (drains s) tid")
  case None
  with inv show ?thesis by (simp add: debounceElapsed_def)
next
  case (Some th)
  have "fifo_inv key A (setPc tid th DebounceReady s)" if "thPc th = DebounceWait d" for d
  proof (cases "thKey th = key")
    case True
    show ?thesis
      by (rule fifo_own_setPc [OF inv Some True])
        (use own_line [OF inv Some True] that inv in \<open>simp_all add: fifo_inv_def\<close>)
  next
    case False
    then show ?thesis by (intro fifo_setPc_other [OF inv Some]) simp_all
  qed
  with Some inv show ?thesis by (simp add: debounceElapsed_def split: drain_pc.splits)
qed

lemma fifo_schedule:
  assumes inv: "fifo_inv key A s"
  shows "fifo_inv key A (scheduleFollowupDrain k c s)"
proof (cases "k = key")
  case False
  with fifo_schedule_other [OF inv] show ?thesis by simp
next
  case True
  have i: "followup_inv s" using inv by (simp add: fifo_inv_def)
  show ?thesis
  proof (cases "mapGet (queues s) key")
    case None
    with inv True show ?thesis by (simp add: schedule_cases)
  next
    case (Some r)
    have idle: "drainsOf key s = []" if "\<not> draining (qheap s r)"
    proof (rule ccontr)
      assume "drainsOf key s \<noteq> []"
      then obtain th where th: "th \<in> set (drainsOf key s)" by (metis list.set_intros(1) neq_Nil_conv)
      then obtain tid where "(tid, th) \<in> set (drains s)" "thKey th = key" by (auto simp: drainsOf_def)
      then have g: "mapGet (drains s) tid = Some th" using drains_wf [OF i] by (simp add: mapGet_in_set)
      from own_line [OF inv g \<open>thKey th = key\<close>] Some have "thQueue th = r" by simp
      with thread_draining [OF i g] that show False by simp
    qed
    have start: "followup_inv (startDrain key r c' s)" if "\<not> draining (qheap s r)" for c'
      using inv_start [OF remember_inv [OF i], where key = key and r = r] Some that by (simp add: startDrain_def)
    have line: "lineOk r (qheap s r) (drainsOf key s) (deliveredTo key s) A"
      using inv Some by (simp add: fifo_inv_def)
    have "fifo_inv key A (startDrain key r c' s)" if "\<not> draining (qheap s r)" "hasWork (qheap s r)" for c'
      using line idle [OF that(1)] start [OF that(1), of c'] that Some
      by (simp add: fifo_inv_def startDrain_simps lineOk_def pcOk_debounce plain_work deliveredTo_def)
        (simp add: plainQueue_def)
    moreover have "fifo_inv key A (forgetKey key (rememberFollowupDrainCallback key c' s))"
      if "\<not> draining (qheap s r)" "\<not> hasWork (qheap s r)" for c'
      using line idle [OF that(1)] that i
      by (simp add: fifo_inv_def inv_forgetKey remember_inv lineOk_def plain_work drainsOf_def deliveredTo_def)
    ultimately show ?thesis using inv True Some by (simp add: schedule_cases)
  qed
qed

lemma fifo_kick: "fifo_inv key A s \<Longrightarrow> fifo_inv key A (kickFollowupDrainIfIdle k s)"
  by (simp add: kickFollowupDrainIfIdle_def fifo_schedule split: option.splits)

lemma fifo_recent: "fifo_inv key A s \<Longrightarrow> fifo_inv key A (s\<lparr>recent := d\<rparr>)"
  by (rule fifo_frame) (auto simp: fifo_inv_def inv_recent drainsOf_def deliveredTo_def)

section \<open>Enqueue\<close>

lemma lineOk_append:
  assumes "lineOk r q0 ths D A" "plainQueue q" "items q = items q0 @ ys"
  shows "lineOk r q ths D (A @ ys)"
proof -
  have "pcOk pc xs D A \<Longrightarrow> pcOk pc (xs @ ys) D (A @ ys)" for pc xs by (cases pc) auto
  with assms show ?thesis by (auto simp: lineOk_def split: list.splits)
qed

lemma fifo_put_own:
  assumes "fifo_inv key A s" "mapGet (queues s) key = Some r" "draining q = draining (qheap s r)"
    "plainQueue q" "items q = items (qheap s r) @ ys"
  shows "fifo_inv key (A @ ys) (putQueue r q s)"
  using assms lineOk_append [of r "qheap s r" "drainsOf key s" "deliveredTo key s" A q ys]
  by (simp add: fifo_inv_def inv_putQueue drainsOf_def deliveredTo_def)

lemma fifo_put_other:
  assumes "fifo_inv key A s" "mapGet (queues s) k = Some r" "k \<noteq> key" "draining q = draining (qheap s r)"
  shows "fifo_inv key A (putQueue r q s)"
proof (rule fifo_frame [OF assms(1)])
  have i: "followup_inv s" using assms(1) by (simp add: fifo_inv_def)
  show "followup_inv (putQueue r q s)" using i assms(4) by (rule inv_putQueue)
  show "qheap (putQueue r q s) r' = qheap s r'" if "mapGet (queues s) key = Some r'" for r'
    using registered_other [OF i assms(2,3) that] by simp
qed (simp_all add: drainsOf_def deliveredTo_def)

lemma plain_settings:
  "droppedCount q = 0 \<Longrightarrow> setMode st \<noteq> Collect \<Longrightarrow> setDropPolicy st = Some DropNew \<Longrightarrow>
   plainQueue (applySettingsTo st q)"
  by (simp add: plainQueue_def applySettingsTo_def applyQueueRuntimeSettings_def Let_def)

lemma fifo_getQueue_created:
  assumes inv: "fifo_inv key A s" and none: "mapGet (queues s) k = None"
    and g: "getFollowupQueue k st s = (r, s1)"
    and calm: "k = key \<longrightarrow> setMode st \<noteq> Collect \<and> setDropPolicy st = Some DropNew"
  shows "fifo_inv key A s1"
proof -
  have i: "followup_inv s" using inv by (simp add: fifo_inv_def)
  have i1: "followup_inv s1" using getFollowupQueue_inv [OF i g] by blast
  have s1: "queues s1 = queues s @ [(k, nextQueue s)]" "drains s1 = drains s" "delivered s1 = delivered s"
    "qheap s1 = (qheap s)(nextQueue s := applySettingsTo st (createdQueue st))"
    using none g by (auto simp: getFollowupQueue_def Let_def mapSet_append)
  have d: "drainsOf key s1 = drainsOf key s" "deliveredTo key s1 = deliveredTo key s"
    by (simp_all add: drainsOf_def deliveredTo_def s1)
  show ?thesis
  proof (cases "k = key")
    case True
    with none have k1: "mapGet (queues s1) key = Some (nextQueue s)" by (simp add: s1 map_add_def)
    have "drainsOf key s = []" "deliveredTo key s = A" using inv none True by (simp_all add: fifo_inv_def)
    moreover have "items (createdQueue st) = []" "droppedCount (createdQueue st) = 0"
      by (simp_all add: createdQueue_def)
    ultimately show ?thesis
      using i1 k1 d calm True by (simp add: fifo_inv_def lineOk_def s1 plain_settings)
  next
    case False
    have "r' < nextQueue s" if "mapGet (queues s) key = Some r'" for r'
    proof -
      have "r' \<in> set (mapValues (queues s))" using map_of_SomeD [OF that] by force
      with i show ?thesis by (rule registered_bound)
    qed
    then show ?thesis
      using False d i1
      by (intro fifo_frame [OF inv]) (auto simp: s1 map_add_def split: option.splits)
  qed
qed

lemma fifo_getQueue:
  assumes inv: "fifo_inv key A s" and g: "getFollowupQueue k st s = (r, s1)"
    and calm: "k = key \<longrightarrow> setMode st \<noteq> Collect \<and> setDropPolicy st = Some DropNew"
  shows "fifo_inv key A s1 \<and> mapGet (queues s1) k = Some r"
proof -
  have i: "followup_inv s" using inv by (simp add: fifo_inv_def)
  have "fifo_inv key A s1"
  proof (cases "mapGet (queues s) k")
    case None
    with fifo_getQueue_created [OF inv _ g calm] show ?thesis by simp
  next
    case (Some r')
    with g have s1: "r' = r" "s1 = putQueue r (applySettingsTo st (qheap s r)) s"
      by (auto simp: getFollowupQueue_def)
    show ?thesis
    proof (cases "k = key")
      case True
      have "droppedCount (qheap s r) = 0"
        using inv Some True s1(1) by (simp add: fifo_inv_def lineOk_def plainQueue_def)
      then show ?thesis
        using fifo_put_own [of key A s r "applySettingsTo st (qheap s r)" "[]"] inv Some True s1 calm
        by (simp add: plain_settings)
    next
      case False
      with Some s1 fifo_put_other [OF inv, of k r] show ?thesis by simp
    qed
  qed
  with getFollowupQueue_inv [OF i g] show ?thesis by blast
qed

lemma pushed_plain:
  assumes "pushed now run q = (acc, q')" "plainQueue q"
  shows "plainQueue q' \<and> draining q' = draining q \<and> items q' = items q @ (if acc then [run] else [])"
  using assms by (auto simp: pushed_def plainQueue_def applyQueueDropPolicy_def split: if_splits)

lemma fifo_kick_if: "fifo_inv key A s \<Longrightarrow> fifo_inv key A (if b then kickFollowupDrainIfIdle k s else s)"
  by (simp add: fifo_kick)

lemma fifo_enqueue:
  assumes inv: "fifo_inv key A s"
    and calm: "k = key \<longrightarrow> setMode st \<noteq> Collect \<and> setDropPolicy st = Some DropNew"
  shows "fifo_inv key (A @ acceptedBy key s (EvEnqueue now k run st dm cb restart))
    (snd (enqueueFollowupRun now k run st dm cb restart s))"
proof -
  obtain r s1 where g: "getFollowupQueue k st s = (r, s1)" by fastforce
  obtain hit d1 where h: "dedupePeek (recentKeyOf dm run k) now (recent s1) = (hit, d1)" by fastforce
  obtain acc q where p: "pushed now run (qheap s1 r) = (acc, q)" by fastforce
  have s1: "fifo_inv key A s1" "mapGet (queues s1) k = Some r" using fifo_getQueue [OF inv g calm] by auto
  note s1r = fifo_recent [OF s1(1), of d1]
  have put: "fifo_inv key (if k = key \<and> acc then A @ [run] else A) (putQueue r q t)"
    if t: "fifo_inv key A t" "mapGet (queues t) k = Some r" "qheap t = qheap s1" for t
  proof (cases "k = key")
    case True
    have "plainQueue (qheap s1 r)" using s1 True by (simp add: fifo_inv_def lineOk_def)
    from pushed_plain [OF p this] fifo_put_own [OF t(1), of r q "if acc then [run] else []"] t True
    show ?thesis by (auto split: if_splits)
  next
    case False
    with fifo_put_other [OF t(1,2), of q] pushed_draining [of now run "qheap s1 r"] p t(3)
    show ?thesis by simp
  qed
  show ?thesis
  proof (cases "hit \<or> alreadyQueued dm run (items (qheap s1 r)) \<or> \<not> acc")
    case True
    have "fifo_inv key A (putQueue r q (s1\<lparr>recent := d1\<rparr>))" if "\<not> acc"
      using put [OF s1r] s1(2) that by simp
    with True s1r show ?thesis
      by (auto simp: enqueue_cases [OF g h p])
  next
    case False
    let ?A = "if k = key then A @ [run] else A"
    let ?s4 = "(putQueue r q s1)\<lparr>recent := snd (dedupeCheck (recentKeyOf dm run k) now d1)\<rparr>"
    let ?s5 = "case cb of None \<Rightarrow> ?s4 | Some c \<Rightarrow> rememberFollowupDrainCallback k c ?s4"
    have "fifo_inv key ?A ?s4" using put [OF s1(1,2) refl] False by (simp add: fifo_recent)
    then have "fifo_inv key ?A ?s5" by (cases cb) (simp_all only: option.case fifo_remember)
    then have fin: "fifo_inv key ?A (if restart \<and> \<not> draining q then kickFollowupDrainIfIdle k ?s5 else ?s5)"
      by (rule fifo_kick_if)
    have res: "snd (enqueueFollowupRun now k run st dm cb restart s)
        = (if restart \<and> \<not> draining q then kickFollowupDrainIfIdle k ?s5 else ?s5)"
      "fst (enqueueFollowupRun now k run st dm cb restart s)"
      using False by (simp_all add: enqueue_cases [OF g h p] Let_def)
    have "A @ acceptedBy key s (EvEnqueue now k run st dm cb restart) = ?A" using res(2) by simp
    with fin show ?thesis unfolding res(1) by (simp only:)
  qed
qed

lemma fifo_clear_other:
  assumes inv: "fifo_inv key A s" and ne: "trim k \<noteq> key"
  shows "fifo_inv key A (snd (clearFollowupQueue k s))"
proof (cases "getExistingFollowupQueue (trim k) s")
  case None
  with inv show ?thesis by (simp add: clearFollowupQueue_def Let_def)
next
  case (Some r)
  have i: "followup_inv s" using inv by (simp add: fifo_inv_def)
  have reg: "mapGet (queues s) (trim k) = Some r"
    using Some by (simp add: getExistingFollowupQueue_def Let_def split: if_splits)
  have "qheap (snd (clearFollowupQueue k s)) r' = qheap s r'" if "mapGet (queues s) key = Some r'" for r'
    using registered_other [OF i reg ne that] Some by (simp add: clearFollowupQueue_def Let_def)
  moreover have "mapGet (queues (snd (clearFollowupQueue k s))) key = mapGet (queues s) key"
    "drains (snd (clearFollowupQueue k s)) = drains s" "delivered (snd (clearFollowupQueue k s)) = delivered s"
    using Some ne by (simp_all add: clearFollowupQueue_def Let_def mapGet_delete)
  ultimately show ?thesis
    by (intro fifo_frame [OF inv]) (simp_all add: followup_clear_inv [OF i] drainsOf_def deliveredTo_def)
qed

lemma fifo_refresh_other:
  assumes inv: "fifo_inv key A s" and ne: "trim (rfKey p) \<noteq> key"
  shows "fifo_inv key A (refreshQueuedFollowupSession p s)"
proof (cases "getExistingFollowupQueue (trim (rfKey p)) s")
  case None
  with inv show ?thesis by (simp add: refreshQueuedFollowupSession_def Let_def)
next
  case (Some r)
  have i: "followup_inv s" using inv by (simp add: fifo_inv_def)
  have reg: "mapGet (queues s) (trim (rfKey p)) = Some r"
    using Some by (simp add: getExistingFollowupQueue_def Let_def split: if_splits)
  have "qheap (refreshQueuedFollowupSession p s) r' = qheap s r'" if "mapGet (queues s) key = Some r'" for r'
    using registered_other [OF i reg ne that] Some by (simp add: refreshQueuedFollowupSession_def Let_def)
  moreover have "queues (refreshQueuedFollowupSession p s) = queues s"
    "drains (refreshQueuedFollowupSession p s) = drains s"
    "delivered (refreshQueuedFollowupSession p s) = delivered s"
    by (simp_all add: refreshQueuedFollowupSession_def Let_def split: option.splits)
  ultimately show ?thesis
    by (intro fifo_frame [OF inv]) (simp_all add: refresh_inv [OF i] drainsOf_def deliveredTo_def)
qed

lemma fifo_event:
  assumes inv: "fifo_inv key A s" and calm: "calmFor key s e"
  shows "fifo_inv key (A @ acceptedBy key s e) (applyFollowup e s)"
proof (cases e)
  case (EvEnqueue now k run st dm cb restart)
  with calm fifo_enqueue [OF inv, of k st now run dm cb restart] show ?thesis by simp
next
  case (EvForgetCallback k)
  have "followup_inv (applyFollowup e s)" using inv applyFollowup_inv by (simp add: fifo_inv_def)
  then have "fifo_inv key A (applyFollowup e s)"
    by (rule fifo_frame [OF inv])
      (simp_all add: EvForgetCallback clearFollowupDrainCallback_def drainsOf_def deliveredTo_def)
  with EvForgetCallback show ?thesis by simp
next
  case (EvSettled success tid)
  show ?thesis
  proof (cases "success")
    case True
    with EvSettled fifo_settled [OF inv] show ?thesis by simp
  next
    case False
    then have "mapGet (drains s) tid = None \<or> (\<exists>th. mapGet (drains s) tid = Some th \<and> thKey th \<noteq> key)"
      using calm EvSettled by (auto split: option.splits)
    then have "fifo_inv key A (deliverySettled success tid s)"
      using fifo_settled_other [OF inv] inv by (auto simp: deliverySettled_def [of _ _ s])
    with EvSettled show ?thesis by simp
  qed
qed (use calm in \<open>simp_all add: fifo_schedule fifo_clear_other fifo_refresh_other fifo_recent
    resetRecentQueuedMessageIdDedupe_def fifo_elapsed fifo_resume inv\<close>)

lemma fifo_run:
  "fifo_inv key A s \<Longrightarrow> calmRun key s es \<Longrightarrow>
   fifo_inv key (A @ acceptedRuns key s es) (fold applyFollowup es s)"
proof (induction es arbitrary: A s)
  case (Cons e es)
  with fifo_event [of key A s e] Cons.IH [of "A @ acceptedBy key s e" "applyFollowup e s"] show ?case by simp
qed simp

definition inDelivery :: "drain_thread \<Rightarrow> bool" where
  "inDelivery th \<longleftrightarrow> (case thPc th of AwaitItem kind \<Rightarrow> True | _ \<Rightarrow> False)"

definition backlog :: "string \<Rightarrow> followup_state \<Rightarrow> followup_run list" where
  \<comment> \<open>the queued messages of a key whose delivery has not begun\<close>
  "backlog key s =
     (case mapGet (queues s) key of
        None \<Rightarrow> []
      | Some r \<Rightarrow> if list_ex inDelivery (drainsOf key s) then tl (items (qheap s r)) else items (qheap s r))"

text \<open>
  C8. Exactly once, in order: for a key whose messages are all enqueued in a mode other than \<open>collect\<close>
  with a cap that refuses new ones (\<open>DropNew\<close>), whose queue is neither cleared nor rewritten by a
  refresh, and whose own deliveries succeed (\<open>calmRun\<close>), whatever else happens to other keys and however
  enqueues and the steps of the drain interleave, the messages handed to the delivery callback followed
  by those still waiting are exactly the accepted messages in the order they were accepted.
\<close>

theorem followup_exactly_once_in_order:
  assumes "calmRun key s0 events"
    and "s0 = initialFollowupState isRoutable" "s = fold applyFollowup events s0"
  shows "deliveredTo key s @ backlog key s = acceptedRuns key s0 events"
proof -
  have "fifo_inv key [] s0"
    by (simp add: fifo_inv_def assms(2) initial_followup_inv)
      (simp add: initialFollowupState_def drainsOf_def deliveredTo_def)
  from fifo_run [OF this assms(1)] have inv: "fifo_inv key (acceptedRuns key s0 events) s"
    by (simp add: assms(3))
  show ?thesis
  proof (cases "mapGet (queues s) key")
    case None
    with inv show ?thesis by (simp add: fifo_inv_def backlog_def)
  next
    case (Some r)
    with inv have "lineOk r (qheap s r) (drainsOf key s) (deliveredTo key s) (acceptedRuns key s0 events)"
      by (simp add: fifo_inv_def)
    then show ?thesis
      by (auto simp: lineOk_def backlog_def Some inDelivery_def split: list.splits drain_pc.splits)
  qed
qed

section \<open>Example runs\<close>

definition demoAgentRun :: agent_run where
  "demoAgentRun = \<lparr>arSessionId = ''s1'', arSessionFile = ''s1.jsonl'', arProvider = ''p'', arModel = ''m'',
     arAuthProfileId = None, arAuthProfileIdSource = None, arRest = []\<rparr>"

definition demoRun :: "string \<Rightarrow> string \<Rightarrow> followup_run" where
  "demoRun prompt messageId = \<lparr>fuPrompt = prompt, fuMessageId = Some messageId, fuSummaryLine = None,
     fuEnqueuedAt = 0, fuChannel = Some ''line'', fuTo = Some ''u1'', fuAccountId = None, fuThreadId = None,
     fuRun = demoAgentRun\<rparr>"

definition demoSettings :: "queue_mode \<Rightarrow> rat \<Rightarrow> queue_drop_policy \<Rightarrow> queue_settings" where
  "demoSettings m c p = \<lparr>setMode = m, setDebounceMs = Some 0, setCap = Some c, setDropPolicy = Some p\<rparr>"

definition demoEnqueue :: "int \<Rightarrow> queue_settings \<Rightarrow> string \<Rightarrow> followup_event" where
  \<comment> \<open>a message whose id is its text arrives for key \<open>k\<close>\<close>
  "demoEnqueue now st prompt = EvEnqueue now ''k'' (demoRun prompt prompt) st DedupeMessageId (Some 7) True"

definition demoState :: followup_state where
  "demoState = initialFollowupState (\<lambda>c. c = ''line'')"

definition promptsTo :: "string \<Rightarrow> followup_state \<Rightarrow> string list" where
  "promptsTo key s = map fuPrompt (deliveredTo key s)"

definition demoElsewhere :: "int \<Rightarrow> string \<Rightarrow> bool \<Rightarrow> followup_event" where
  \<comment> \<open>a message for another key\<close>
  "demoElsewhere now prompt restart =
     EvEnqueue now ''m'' (demoRun prompt prompt) (demoSettings Followup 2 DropNew) DedupeMessageId (Some 8) restart"

definition demoPlain :: "followup_event list" where
  "demoPlain =
     [demoEnqueue 1 (demoSettings Followup 2 DropNew) ''a'', EvResume 1 0,
      demoEnqueue 2 (demoSettings Followup 2 DropNew) ''b'',
      demoEnqueue 3 (demoSettings Followup 2 DropNew) ''c'', EvSettled True 0,
      demoEnqueue 4 (demoSettings Followup 2 DropNew) ''d'', EvResume 4 0, EvResume 5 0]"

definition demoOther :: "followup_event list" where
  \<comment> \<open>the same with a delivery that fails and a queue that waits under another key\<close>
  "demoOther = demoElsewhere 0 ''x'' True # EvResume 1 0 # EvSettled False 0 #
     map (\<lambda>e. case e of EvResume now tid \<Rightarrow> EvResume now (tid + 1) | EvSettled good tid \<Rightarrow> EvSettled good (tid + 1)
       | _ \<Rightarrow> e) demoPlain @ [EvResume 6 0, demoElsewhere 7 ''y'' False]"

lemma followup_exactly_once_in_order_witness:
  "deliveredTo ''k'' (fold applyFollowup demoOther demoState) @ backlog ''k'' (fold applyFollowup demoOther demoState)
     = acceptedRuns ''k'' demoState demoOther
   \<and> promptsTo ''k'' (fold applyFollowup demoOther demoState) = [''a'', ''b'']"
proof
  show "deliveredTo ''k'' (fold applyFollowup demoOther demoState) @ backlog ''k'' (fold applyFollowup demoOther demoState)
     = acceptedRuns ''k'' demoState demoOther"
    by (rule followup_exactly_once_in_order [OF _ demoState_def refl]) code_simp
  show "promptsTo ''k'' (fold applyFollowup demoOther demoState) = [''a'', ''b'']"
    by code_simp
qed

definition demoKept :: "followup_event list" where
  \<comment> \<open>a message is queued without starting a drain, the drain is scheduled; then the same under another
    key, whose drain is still owed\<close>
  "demoKept =
     [EvEnqueue 1 ''k'' (demoRun ''a'' ''a'') (demoSettings Followup 2 DropNew) DedupeMessageId (Some 7) False,
      EvSchedule ''k'' 7, demoEnqueue 2 (demoSettings Followup 2 DropNew) ''b'', demoElsewhere 3 ''x'' False]"

lemma followup_no_stranded_backlog_witness:
  "(\<exists>tid th. mapGet (drains (fold applyFollowup demoKept demoState)) tid = Some th \<and> thQueue th = 0
     \<and> thKey th = ''k'') \<and> leftWaiting demoState demoKept {} = {''m''}"
proof
  show w: "leftWaiting demoState demoKept {} = {''m''}" by code_simp
  show "\<exists>tid th. mapGet (drains (fold applyFollowup demoKept demoState)) tid = Some th \<and> thQueue th = 0
     \<and> thKey th = ''k''"
  proof (rule followup_no_stranded_backlog [OF demoState_def refl])
    show "''k'' \<notin> leftWaiting demoState demoKept {}" unfolding w by simp
    show "mapGet (queues (fold applyFollowup demoKept demoState)) ''k'' = Some 0" by code_simp
    show "hasWork (qheap (fold applyFollowup demoKept demoState) 0)" by code_simp
    show "mapHas (callbacks (fold applyFollowup demoKept demoState)) ''k''" by code_simp
  qed
qed

section \<open>A redelivered message is queued once\<close>

lemma recentKeyOf_nonempty: "recentKeyOf dm run key = Some k \<Longrightarrow> k \<noteq> []"
  by (auto simp: recentKeyOf_def buildRecentMessageIdKey_def jsonStringArray_def split: if_splits option.splits)

lemma schedule_recent [simp]: "recent (scheduleFollowupDrain key cb s) = recent s"
  by (simp add: schedule_cases startDrain_def split: option.splits)

lemma kick_recent [simp]: "recent (kickFollowupDrainIfIdle key s) = recent s"
  by (simp add: kickFollowupDrainIfIdle_def split: option.splits)

lemma finish_recent [simp]: "recent (finishDrain tid th s) = recent s"
  by (simp add: finishDrain_cases endDrain_def)

lemma loopHead_recent [simp]: "recent (loopHead tid th s) = recent s"
  by (simp add: loopHead_def Let_def)

lemma drainNext_recent [simp]: "recent (drainNext tid th kind f s) = recent s"
  by (simp add: drainNext_def split: list.splits)

lemma resume_recent [simp]: "recent (resume now tid s) = recent s"
  by (simp add: resume_def afterDebounce_def collectBatch_def Let_def split: option.splits drain_pc.splits)

lemma settled_recent [simp]: "recent (deliverySettled ok tid s) = recent s"
  by (simp add: deliverySettled_def Let_def split: option.splits drain_pc.splits)

lemma elapsed_recent [simp]: "recent (debounceElapsed now tid s) = recent s"
  by (simp add: debounceElapsed_def split: option.splits drain_pc.splits)

lemma getQueue_recent: "getFollowupQueue key st s = (r, s1) \<Longrightarrow> recent s1 = recent s"
  by (auto simp: getFollowupQueue_def Let_def split: option.splits)

lemma enqueue_recent:
  "recent (snd (enqueueFollowupRun now key run st dm cb restart s)) =
     (let d1 = applyDedupe (DPeek (recentKeyOf dm run key) now) (recent s)
      in if fst (enqueueFollowupRun now key run st dm cb restart s)
         then applyDedupe (DCheck (recentKeyOf dm run key) now) d1 else d1)"
proof -
  obtain r s1 where g: "getFollowupQueue key st s = (r, s1)" by fastforce
  obtain hit d1 where h: "dedupePeek (recentKeyOf dm run key) now (recent s1) = (hit, d1)" by fastforce
  obtain acc q where p: "pushed now run (qheap s1 r) = (acc, q)" by fastforce
  have cb: "recent (case cb of None \<Rightarrow> t | Some c \<Rightarrow> rememberFollowupDrainCallback key c t) = recent t" for t
    by (simp split: option.splits)
  have "applyDedupe (DPeek (recentKeyOf dm run key) now) (recent s) = d1"
    using h getQueue_recent [OF g] by simp
  then show ?thesis
    unfolding enqueue_cases [OF g h p] Let_def by (simp add: cb)
qed

lemma enqueue_hit:
  "fst (dedupePeek (recentKeyOf dm run key) now (recent s)) \<Longrightarrow>
   \<not> fst (enqueueFollowupRun now key run st dm cb restart s)"
proof -
  obtain r s1 where g: "getFollowupQueue key st s = (r, s1)" by fastforce
  obtain hit d1 where h: "dedupePeek (recentKeyOf dm run key) now (recent s1) = (hit, d1)" by fastforce
  obtain acc q where p: "pushed now run (qheap s1 r) = (acc, q)" by fastforce
  show "fst (dedupePeek (recentKeyOf dm run key) now (recent s)) \<Longrightarrow> ?thesis"
    using h by (simp add: enqueue_cases [OF g h p] getQueue_recent [OF g])
qed

fun quietFollowup :: "string \<Rightarrow> int \<Rightarrow> string set \<Rightarrow> followup_event \<Rightarrow> bool" where
  \<comment> \<open>within five minutes of \<open>t0\<close>, with message ids of \<open>K\<close> only, and no reset of the ids\<close>
  "quietFollowup k t0 K (EvEnqueue now key run st dm cb restart) =
     (t0 \<le> now \<and> now - t0 < 300000
      \<and> (case recentKeyOf dm run key of None \<Rightarrow> True | Some k' \<Rightarrow> k' = k \<or> k' \<in> K))"
| "quietFollowup k t0 K EvResetRecent = False"
| "quietFollowup k t0 K _ = True"

lemma followup_remembering:
  assumes inv: "remembering k t0 K (recent s) \<and> ttlMs (recent s) = 300000" and q: "quietFollowup k t0 K e"
  shows "remembering k t0 K (recent (applyFollowup e s)) \<and> ttlMs (recent (applyFollowup e s)) = 300000"
proof (cases e)
  case (EvEnqueue now key run st dm cb restart)
  let ?k = "recentKeyOf dm run key"
  have ok: "quietOp k t0 300000 K (DPeek ?k now)" "quietOp k t0 300000 K (DCheck ?k now)"
    using q EvEnqueue by (simp_all split: option.splits)
  note peek = remembering_step [OF inv ok(1)]
  from peek remembering_step [OF peek ok(2)] show ?thesis
    by (simp add: EvEnqueue enqueue_recent Let_def)
next
  case (EvClear key)
  with inv show ?thesis by (simp add: clearFollowupQueue_def Let_def split: option.splits)
next
  case (EvForgetCallback key)
  with inv show ?thesis by (simp add: clearFollowupDrainCallback_def)
next
  case (EvRefresh p)
  with inv show ?thesis by (simp add: refreshQueuedFollowupSession_def Let_def split: option.splits)
qed (use inv q in simp_all)

interpretation followup_ids:
  event_invariant applyFollowup "quietFollowup k t0 K"
    "\<lambda>s. remembering k t0 K (recent s) \<and> ttlMs (recent s) = 300000"
  for k t0 K
  by unfold_locales (rule followup_remembering)

lemma followup_recent_ok:
  "dedupeOk (recent (fold applyFollowup es (initialFollowupState f)))
   \<and> ttlMs (recent (fold applyFollowup es (initialFollowupState f))) = 300000
   \<and> maxSize (recent (fold applyFollowup es (initialFollowupState f))) = 10000"
proof (rule fold_invariant [where Q = "\<lambda>_. True"])
  show "dedupeOk (recent (initialFollowupState f)) \<and> ttlMs (recent (initialFollowupState f)) = 300000
      \<and> maxSize (recent (initialFollowupState f)) = 10000"
    by (simp add: initialFollowupState_def create_dedupe_ok) (simp add: createDedupeCache_def)
next
  fix e and s :: followup_state assume s: "dedupeOk (recent s) \<and> ttlMs (recent s) = 300000 \<and> maxSize (recent s) = 10000"
  show "dedupeOk (recent (applyFollowup e s)) \<and> ttlMs (recent (applyFollowup e s)) = 300000
      \<and> maxSize (recent (applyFollowup e s)) = 10000"
  proof (cases e)
    case (EvEnqueue now key run st dm cb restart)
    with s show ?thesis
      using applyDedupe_ok applyDedupe_fields by (simp add: enqueue_recent Let_def del: applyDedupe.simps)
  qed (use s in \<open>auto simp: clearFollowupQueue_def clearFollowupDrainCallback_def
      refreshQueuedFollowupSession_def resetRecentQueuedMessageIdDedupe_def dedupeClear_def dedupeOk_def
      Let_def split: option.splits\<close>)
qed simp

text \<open>
  C20. A redelivered message is queued at most once: after a message with an id was accepted in a dedupe mode
  other than none, every enqueue of a message with the same id, queue and routing within five minutes, again
  in a mode other than none (\<open>recentKeyOf\<close> gives the same key for both), is refused, also when the first copy
  has long been delivered, whatever happens in between, as long as fewer than 10000 other ids come in and
  the ids are not reset.
\<close>

theorem followup_redelivery_refused:
  assumes "s = fold applyFollowup before (initialFollowupState isRoutable)"
    and "enqueueFollowupRun t0 key run st dm cb restart s = (True, s1)"
    and "recentKeyOf dm run key = Some k" "recentKeyOf dm' run' key' = Some k"
    and "finite K" "card K < 10000" "list_all (quietFollowup k t0 K) events"
    and "t0 \<le> now" "now - t0 < 300000"
  shows "\<not> fst (enqueueFollowupRun now key' run' st' dm' cb' restart' (fold applyFollowup events s1))"
proof -
  have ok: "dedupeOk (recent s)" "ttlMs (recent s) = 300000" "maxSize (recent s) = 10000"
    using followup_recent_ok [of before isRoutable] by (simp_all add: assms(1))
  have k: "k \<noteq> []" by (rule recentKeyOf_nonempty [OF assms(3)])
  let ?d = "applyDedupe (DPeek (Some k) t0) (recent s)"
  have d: "recent s1 = snd (dedupeCheck (Some k) t0 ?d)"
    using enqueue_recent [of t0 key run st dm cb restart s] assms(2,3) by (simp add: Let_def)
  have "dedupeOk ?d" "ttlMs ?d = 300000" "maxSize ?d = 10000"
    using ok applyDedupe_ok [of "recent s" "DPeek (Some k) t0"] applyDedupe_fields [of "DPeek (Some k) t0" "recent s"]
    by simp_all
  then have "remembering k t0 K (recent s1)" "ttlMs (recent s1) = 300000"
    using check_starts_memory [of ?d k K t0] k assms(5,6) applyDedupe_fields(1) [of "DCheck (Some k) t0" ?d]
    by (simp_all add: d)
  then have "remembering k t0 K (recent (fold applyFollowup events s1))
      \<and> ttlMs (recent (fold applyFollowup events s1)) = 300000"
    by (intro followup_ids.run_inv [OF _ assms(7)]) simp
  then have "fst (dedupePeek (Some k) now (recent (fold applyFollowup events s1)))"
    using hasUnexpired_remembers [of k t0 K _ now k False] k assms(8,9)
    by (simp add: dedupePeek_def remembering_def)
  with enqueue_hit [of dm' run' key' now] assms(4) show ?thesis by simp
qed

lemma followup_redelivery_refused_witness:
  "\<not> fst (enqueueFollowupRun 200000 ''k'' (demoRun ''a again'' ''m1'') (demoSettings Followup 2 DropNew)
       DedupeMessageId (Some 7) True
       (fold applyFollowup [EvResume 1 0, EvSettled True 0, EvResume 2 0, demoEnqueue 3 (demoSettings Followup 2 DropNew) ''b'']
         (snd (enqueueFollowupRun 1 ''k'' (demoRun ''a'' ''m1'') (demoSettings Followup 2 DropNew)
                 DedupeMessageId (Some 7) True demoState))))"
  (is "\<not> fst (enqueueFollowupRun _ _ _ _ _ _ _ (fold _ _ (snd ?first)))")
proof (rule followup_redelivery_refused)
  let ?key = "the (recentKeyOf DedupeMessageId (demoRun ''a'' ''m1'') ''k'')"
  let ?K = "{the (recentKeyOf DedupeMessageId (demoRun ''b'' ''b'') ''k'')}"
  show "demoState = fold applyFollowup [] (initialFollowupState (\<lambda>c. c = ''line''))" by (simp add: demoState_def)
  have "fst ?first" by code_simp
  then show "?first = (True, snd ?first)" by (metis prod.collapse)
  show "recentKeyOf DedupeMessageId (demoRun ''a'' ''m1'') ''k'' = Some ?key" by code_simp
  show "recentKeyOf DedupeMessageId (demoRun ''a again'' ''m1'') ''k'' = Some ?key" by code_simp
  show "finite ?K" "card ?K < 10000" by simp_all
  show "list_all (quietFollowup ?key 1 ?K)
      [EvResume 1 0, EvSettled True 0, EvResume 2 0, demoEnqueue 3 (demoSettings Followup 2 DropNew) ''b'']"
    by (simp add: demoEnqueue_def recentKeyOf_def buildRecentMessageIdKey_def demoRun_def trimmed_def)
qed simp_all

section \<open>The ids of different messages differ\<close>

text \<open>
  The key under which a message id is remembered has no collisions: two messages with ids get the
  same key exactly if they agree on the queue, the channel, the recipient, the account, the thread
  (a missing part counting as empty, a numeric thread as its text) and the trimmed id, whatever
  quotes, commas or other characters these contain.
\<close>

theorem message_keys_collision_free:
  assumes "trimmed (fuMessageId run) = Some m" "trimmed (fuMessageId run') = Some m'"
  shows "buildRecentMessageIdKey run key = buildRecentMessageIdKey run' key' \<longleftrightarrow>
    (key, coalesce (fuChannel run) [], coalesce (fuTo run) [], coalesce (fuAccountId run) [],
      coalesce (map_option threadIdString (fuThreadId run)) [], m)
    = (key', coalesce (fuChannel run') [], coalesce (fuTo run') [], coalesce (fuAccountId run') [],
      coalesce (map_option threadIdString (fuThreadId run')) [], m')"
proof -
  let ?parts = "\<lambda>key run m. [''queue'', key, coalesce (fuChannel run) [], coalesce (fuTo run) [],
    coalesce (fuAccountId run) [], coalesce (map_option threadIdString (fuThreadId run)) [], m]"
  have "buildRecentMessageIdKey run key = Some (jsonStringArray (?parts key run m))"
    "buildRecentMessageIdKey run' key' = Some (jsonStringArray (?parts key' run' m'))"
    using assms by (simp_all add: buildRecentMessageIdKey_def split: option.splits)
  moreover have "jsonStringArray (?parts key run m) = jsonStringArray (?parts key' run' m')
      \<longleftrightarrow> ?parts key run m = ?parts key' run' m'"
    using jsonStringArray_inj [of "?parts key run m" "?parts key' run' m'"] by auto
  ultimately show ?thesis by simp
qed

lemma message_keys_collision_free_witness:
  "buildRecentMessageIdKey (demoRun ''a'' ''1\",\"2'') ''k'' = buildRecentMessageIdKey (demoRun ''a'' ''2'') ''k\",\"1''
   \<longleftrightarrow> (''k'', coalesce (fuChannel (demoRun ''a'' ''1\",\"2'')) [], coalesce (fuTo (demoRun ''a'' ''1\",\"2'')) [],
      coalesce (fuAccountId (demoRun ''a'' ''1\",\"2'')) [],
      coalesce (map_option threadIdString (fuThreadId (demoRun ''a'' ''1\",\"2''))) [], ''1\",\"2'')
    = (''k\",\"1'', coalesce (fuChannel (demoRun ''a'' ''2'')) [], coalesce (fuTo (demoRun ''a'' ''2'')) [],
      coalesce (fuAccountId (demoRun ''a'' ''2'')) [],
      coalesce (map_option threadIdString (fuThreadId (demoRun ''a'' ''2''))) [], ''2'')"
  by (rule message_keys_collision_free) code_simp+

section \<open>Where messages are lost\<close>

text \<open>
  The summary of an overflow takes a message with it: when a queue that is delivered one by one
  has drops to report, the first waiting message is removed from the queue, but what is delivered in
  its place is the summary alone; the text of that message is never delivered.
\<close>

theorem summary_consumes_message:
  assumes "mapGet (drains s) tid = Some th" "thPc th = DebounceReady"
    and "q = qheap s (thQueue th)" "mode q \<noteq> Collect" "dropPolicy q = Summarize" "0 < droppedCount q"
    and "items q = x # xs" "lastRun q = Some run"
    and "previewQueueSummaryPrompt q ''message'' None = Some prompt"
    and "t = applyFollowup (EvSettled True tid) (applyFollowup (EvResume now tid) s)"
  shows "items (qheap t (thQueue th)) = xs
    \<and> (\<exists>d. delivered t = delivered s @ [d] \<and> fuPrompt (dvRun d) = prompt)"
proof -
  let ?p = "(freshPayload prompt run now)\<lparr>fuChannel := fuChannel x, fuTo := fuTo x,
    fuAccountId := fuAccountId x, fuThreadId := fuThreadId x\<rparr>"
  have r: "applyFollowup (EvResume now tid) s = setPc tid th (AwaitItem SummaryItem) (deliver th ?p s)"
    using assms by (simp add: resume_def afterDebounce_def Let_def drainNext_def)
  have "t = setPc tid (th\<lparr>thPc := AwaitItem SummaryItem\<rparr>) (AfterItem SummaryItem True)
      (mapQueue (thQueue th) (\<lambda>q. q\<lparr>items := drop 1 (items q)\<rparr>)
        (setPc tid th (AwaitItem SummaryItem) (deliver th ?p s)))"
    unfolding assms(10) r by (simp add: deliverySettled_def)
  with assms(3,7) show ?thesis
    by (simp add: deliver_def freshPayload_def)
qed

definition demoOverflow :: followup_state where
  \<comment> \<open>three messages while nobody drains, cap 2, then a drain is scheduled\<close>
  "demoOverflow = fold applyFollowup
     (map (\<lambda>(now, p). EvEnqueue now ''k'' (demoRun p p) (demoSettings Followup 2 Summarize) DedupeMessageId None True)
        [(1, ''a''), (2, ''b''), (3, ''c'')] @ [EvSchedule ''k'' 7]) demoState"

lemma summary_consumes_message_witness:
  "map fuPrompt (items (qheap demoOverflow 0)) = [''b'', ''c''] \<and>
   (let t = applyFollowup (EvSettled True 0) (applyFollowup (EvResume 4 0) demoOverflow)
    in items (qheap t 0) = tl (items (qheap demoOverflow 0))
       \<and> (\<exists>d. delivered t = delivered demoOverflow @ [d] \<and> fuPrompt (dvRun d) =
            the (previewQueueSummaryPrompt (qheap demoOverflow 0) ''message'' None)))"
  unfolding Let_def
proof
  show "map fuPrompt (items (qheap demoOverflow 0)) = [''b'', ''c'']" by code_simp
  let ?th = "the (mapGet (drains demoOverflow) 0)" and ?q = "qheap demoOverflow 0"
  have q: "thQueue ?th = 0" by code_simp
  have "items (qheap (applyFollowup (EvSettled True 0) (applyFollowup (EvResume 4 0) demoOverflow)) (thQueue ?th))
       = tl (items ?q)
     \<and> (\<exists>d. delivered (applyFollowup (EvSettled True 0) (applyFollowup (EvResume 4 0) demoOverflow))
           = delivered demoOverflow @ [d] \<and> fuPrompt (dvRun d) =
            the (previewQueueSummaryPrompt ?q ''message'' None))"
  proof (rule summary_consumes_message [OF _ _ _ _ _ _ _ _ _ refl])
    show "mapGet (drains demoOverflow) 0 = Some ?th" by code_simp
    show "thPc ?th = DebounceReady" by code_simp
    show "?q = qheap demoOverflow (thQueue ?th)" by (simp only: q)
    show "mode ?q \<noteq> Collect" by code_simp
    show "dropPolicy ?q = Summarize" by code_simp
    show "0 < droppedCount ?q" by code_simp
    have "items ?q \<noteq> []" by code_simp
    then show "items ?q = hd (items ?q) # tl (items ?q)" by simp
    have "lastRun ?q \<noteq> None" by code_simp
    then show "lastRun ?q = Some (the (lastRun ?q))" by simp
    have "previewQueueSummaryPrompt ?q ''message'' None \<noteq> None" by code_simp
    then show "previewQueueSummaryPrompt ?q ''message'' None
        = Some (the (previewQueueSummaryPrompt ?q ''message'' None))" by simp
  qed
  then show "items (qheap (applyFollowup (EvSettled True 0) (applyFollowup (EvResume 4 0) demoOverflow)) 0)
       = tl (items ?q)
     \<and> (\<exists>d. delivered (applyFollowup (EvSettled True 0) (applyFollowup (EvResume 4 0) demoOverflow))
           = delivered demoOverflow @ [d] \<and> fuPrompt (dvRun d) =
            the (previewQueueSummaryPrompt ?q ''message'' None))"
    by (simp only: q)
qed

text \<open>
  An overflow during a delivery loses a message: with cap 2 and the policy \<open>DropOld\<close>, while
  the first message is being delivered a third one arrives; the policy drops the message in delivery
  from the queue, and when the delivery ends the drain removes the second one, which is never
  delivered. The same three messages without the overflow are all delivered.
\<close>

theorem overflow_in_delivery_loses_message:
  "promptsTo ''k'' (fold applyFollowup
     [demoEnqueue 1 (demoSettings Followup 2 DropOld) ''a'', EvResume 1 0,
      demoEnqueue 2 (demoSettings Followup 2 DropOld) ''b'', demoEnqueue 3 (demoSettings Followup 2 DropOld) ''c'',
      EvSettled True 0, EvResume 4 0, EvResume 4 0, EvSettled True 0, EvResume 5 0, EvResume 5 0] demoState)
     = [''a'', ''c'']
   \<and> mapGet (queues (fold applyFollowup
     [demoEnqueue 1 (demoSettings Followup 2 DropOld) ''a'', EvResume 1 0,
      demoEnqueue 2 (demoSettings Followup 2 DropOld) ''b'', demoEnqueue 3 (demoSettings Followup 2 DropOld) ''c'',
      EvSettled True 0, EvResume 4 0, EvResume 4 0, EvSettled True 0, EvResume 5 0, EvResume 5 0] demoState)) ''k''
     = None
   \<and> map fuPrompt (acceptedRuns ''k'' demoState
     [demoEnqueue 1 (demoSettings Followup 2 DropOld) ''a'',
      demoEnqueue 2 (demoSettings Followup 2 DropOld) ''b'', demoEnqueue 3 (demoSettings Followup 2 DropOld) ''c''])
     = [''a'', ''b'', ''c'']"
  by (intro conjI; code_simp)

text \<open>
  What happens when \<open>dropPolicy\<close> is changed while drops are waiting to be reported: nothing clears
  \<open>droppedCount\<close> any more, so the drain has work and nothing to do.
\<close>

definition spinning :: "string \<Rightarrow> nat \<Rightarrow> followup_state \<Rightarrow> bool" where
  \<comment> \<open>the newest drain is past its debounce, on an empty queue with drops it will not report\<close>
  "spinning key r s \<longleftrightarrow>
     mapGet (queues s) key = Some r \<and> items (qheap s r) = [] \<and> 0 < droppedCount (qheap s r)
     \<and> dropPolicy (qheap s r) \<noteq> Summarize \<and> mode (qheap s r) \<noteq> Collect \<and> debounceMs (qheap s r) \<le> 0
     \<and> 0 < nextDrain s \<and> (\<forall>t \<in> fst ` set (drains s). t < nextDrain s)
     \<and> (case mapGet (drains s) (nextDrain s - 1) of None \<Rightarrow> False
        | Some th \<Rightarrow> thKey th = key \<and> thQueue th = r \<and> thPc th = DebounceReady)"

fun spinDrain :: "int \<Rightarrow> nat \<Rightarrow> followup_state \<Rightarrow> followup_state" where
  \<comment> \<open>the next \<open>n\<close> rounds of microtasks of the newest drain\<close>
  "spinDrain now 0 s = s"
| "spinDrain now (Suc n) s =
     (let tid = nextDrain s - 1
      in spinDrain now n (applyFollowup (EvResume now tid) (applyFollowup (EvResume now tid) s)))"

lemma map_of_append_fresh: "k \<notin> fst ` set m \<Longrightarrow> map_of (m @ [(k, v)]) k = Some v"
  by (induction m) auto

lemma keys_mapSet: "fst ` set (mapSet k v m) = insert k (fst ` set m)"
  by (induction m) auto

lemma spin_round:
  assumes "spinning key r s"
  and t_eq: "t = applyFollowup (EvResume now (nextDrain s - 1)) (applyFollowup (EvResume now (nextDrain s - 1)) s)"
  shows "spinning key r t \<and> delivered t = delivered s"
proof -
  let ?tid = "nextDrain s - 1" and ?q = "qheap s r"
  obtain th where th: "mapGet (drains s) ?tid = Some th" "thKey th = key" "thQueue th = r" "thPc th = DebounceReady"
    using assms(1) by (auto simp: spinning_def split: option.splits)
  note sp = assms(1) [unfolded spinning_def]
  then have lt: "\<forall>t \<in> fst ` set (drains s). t < nextDrain s" by blast
  let ?th1 = "th\<lparr>thPc := AfterItem PlainItem False\<rparr>"
  let ?s1 = "setPc ?tid th (AfterItem PlainItem False) s"
  have "previewQueueSummaryPrompt ?q ''message'' None = None" using sp by (simp add: preview_None_iff)
  then have s1: "applyFollowup (EvResume now ?tid) s = ?s1"
    using th sp by (simp add: resume_def afterDebounce_def Let_def drainNext_def)
  let ?e = "endDrain ?tid ?th1 ?s1"
  have work: "hasWork ?q" using sp by (simp add: hasWork_def)
  have "t = finishDrain ?tid ?th1 ?s1"
    unfolding t_eq s1 using th by (simp add: resume_def)
  also have "\<dots> = scheduleFollowupDrain key (thCallback ?th1) ?e"
    using th work by (simp add: finishDrain_cases)
  also have "\<dots> = startDrain key r (coalesce (mapGet (callbacks ?e) key) (thCallback ?th1)) ?e"
    using th sp work by (simp add: schedule_cases endDrain_def hasWork_def)
  finally have t: "t = startDrain key r (coalesce (mapGet (callbacks ?e) key) (thCallback ?th1)) ?e" .
  have sub: "fst ` set (drains ?e) \<subseteq> fst ` set (drains s)"
  proof -
    have "fst ` set (mapSet ?tid ?th1 (drains s)) \<subseteq> insert ?tid (fst ` set (drains s))"
      by (simp add: keys_mapSet)
    moreover have "?tid \<in> fst ` set (drains s)" using map_of_SomeD [OF th(1)] by force
    ultimately show ?thesis by (auto simp: endDrain_def set_mapDelete)
  qed
  have n: "nextDrain ?e = nextDrain s" by (simp add: endDrain_def setPc_def)
  have fresh: "nextDrain s \<notin> fst ` set (drains ?e)" using sub lt by blast
  have heap: "qheap t r = ?q\<lparr>draining := True\<rparr>" "nextDrain t = nextDrain s + 1" "delivered t = delivered s"
    "queues t = queues s"
    using th n by (simp_all add: t startDrain_simps endDrain_def setPc_def startDrain_def)
  have dr: "drains t = drains ?e @ [(nextDrain s, \<lparr>thKey = key, thQueue = r,
      thCallback = coalesce (mapGet (callbacks ?e) key) (thCallback ?th1), thForce = False,
      thPc = DebounceReady\<rparr>)]"
    using sp th n by (simp add: t startDrain_def endDrain_def debouncePc_def)
  have "mapGet (drains t) (nextDrain t - 1) = Some \<lparr>thKey = key, thQueue = r,
      thCallback = coalesce (mapGet (callbacks ?e) key) (thCallback ?th1), thForce = False,
      thPc = DebounceReady\<rparr>"
    using map_of_append_fresh [OF fresh] by (simp add: dr heap(2))
  moreover have "\<forall>u \<in> fst ` set (drains t). u < nextDrain t"
  proof -
    have "fst ` set (drains t) = insert (nextDrain s) (fst ` set (drains ?e))" by (simp add: dr)
    moreover have "\<forall>u \<in> fst ` set (drains ?e). u < nextDrain s" using sub lt by blast
    ultimately show ?thesis unfolding heap(2) by (metis insert_iff less_Suc_eq Suc_eq_plus1)
  qed
  ultimately show ?thesis using sp heap by (simp add: spinning_def)
qed

text \<open>
  The drain never rests after the drop policy is changed while drops are unreported: with an empty
  queue whose \<open>droppedCount\<close> is positive and whose policy is no longer \<open>Summarize\<close>, the drain ends
  and restarts itself microtask after microtask, for ever, and delivers nothing.
\<close>

theorem policy_change_makes_drain_spin:
  assumes "spinning key r s"
  shows "spinning key r (spinDrain now n s) \<and> delivered (spinDrain now n s) = delivered s"
  using assms
proof (induction n arbitrary: s)
  case (Suc n)
  from spin_round [OF Suc.prems refl, of now] Suc.IH show ?case by (simp add: Let_def)
qed simp

definition demoSpin :: followup_state where
  \<comment> \<open>an overflow under \<open>Summarize\<close>, then a message under \<open>DropOld\<close>, then the drain of both\<close>
  "demoSpin = fold applyFollowup
     (map (\<lambda>(now, p, pol). EvEnqueue now ''k'' (demoRun p p) (demoSettings Followup 1 pol) DedupeMessageId None True)
        [(1, ''a'', Summarize), (2, ''b'', Summarize), (3, ''c'', DropOld)]
      @ [EvSchedule ''k'' 7, EvResume 4 0, EvSettled True 0, EvResume 5 0]) demoState"

lemma policy_change_makes_drain_spin_witness:
  "spinning ''k'' 0 (spinDrain 6 1000000 demoSpin)
   \<and> delivered (spinDrain 6 1000000 demoSpin) = delivered demoSpin"
  by (rule policy_change_makes_drain_spin) code_simp

text \<open>
  Clearing a session while a message of it is being delivered breaks the one-at-a-time delivery:
  the next message opens a new queue under the same key, whose drain delivers next to the old one;
  and when the old drain ends it removes the new queue and its callback from the registry.
\<close>

theorem clear_in_delivery_splits_drain:
  "let st = demoSettings Followup 5 DropNew;
       s = fold applyFollowup
             [demoEnqueue 1 st ''a'', EvResume 1 0, EvClear ''k'', demoEnqueue 2 st ''b'', EvResume 2 1] demoState;
       t = fold applyFollowup [EvSettled True 0, EvResume 3 0] s
   in map inDelivery (drainsOf ''k'' s) = [True, True]
      \<and> mapGet (queues s) ''k'' = Some 1 \<and> mapGet (queues t) ''k'' = None
      \<and> mapGet (callbacks t) ''k'' = None \<and> map fuPrompt (items (qheap t 1)) = [''b'']"
  unfolding Let_def by (intro conjI; code_simp)

end
