(* ===== verification/WrapperResolution.thy ===== *)
theory WrapperResolution
  imports Prelude "HOL-Library.Sublist"
begin

text \<open>
  What command really runs behind wrappers such as \<open>env\<close>, \<open>nice\<close> or \<open>busybox\<close>: the
  tokens (\<open>src/src/infra/exec-wrapper-tokens.ts\<close>), the wrappers that dispatch to another command
  (\<open>dispatch-wrapper-resolution.ts\<close>), inline shell commands (\<open>shell-inline-command.ts\<close>,
  \<open>shell-wrapper-resolution.ts\<close>) and the plan the execution policy trusts
  (\<open>exec-wrapper-trust-plan.ts\<close>).

  An \<open>argv\<close> is a list of strings; a position in it is the suffix from there on. \<open>path.posix.basename\<close>
  and \<open>path.win32.basename\<close> of Node are written out. The operating system, \<open>process.platform\<close>, is the
  argument \<open>host\<close>; \<open>plat\<close> is the parameter \<open>platform\<close> of the source, which defaults to it.
\<close>

section \<open>Tokens (\<open>exec-wrapper-tokens.ts\<close>)\<close>

definition lastComponent :: "(char \<Rightarrow> bool) \<Rightarrow> string \<Rightarrow> string" where
  "lastComponent isSep p = rev (takeWhile (\<lambda>c. \<not> isSep c) (dropWhile isSep (rev p)))"

definition isLetter :: "char \<Rightarrow> bool" where
  "isLetter c \<longleftrightarrow> (let n = (of_char c :: nat) in (65 \<le> n \<and> n \<le> 90) \<or> (97 \<le> n \<and> n \<le> 122))"

definition isDigit :: "char \<Rightarrow> bool" where
  "isDigit c \<longleftrightarrow> (let n = (of_char c :: nat) in 48 \<le> n \<and> n \<le> 57)"

definition isWordChar :: "char \<Rightarrow> bool" where
  \<comment> \<open>the class \<open>[A-Za-z0-9_]\<close>\<close>
  "isWordChar c \<longleftrightarrow> isLetter c \<or> isDigit c \<or> c = CHR ''_''"

definition posixBasename :: "string \<Rightarrow> string" where
  "posixBasename p = lastComponent (\<lambda>c. c = CHR ''/'') p"

definition win32Basename :: "string \<Rightarrow> string" where
  "win32Basename p =
     lastComponent (\<lambda>c. c = CHR ''/'' \<or> c = CHR 0x5C)
       (case p of d # c # rest \<Rightarrow> if isLetter d \<and> c = CHR '':'' then rest else p | _ \<Rightarrow> p)"

definition endsWith :: "string \<Rightarrow> string \<Rightarrow> bool" where
  "endsWith s t \<longleftrightarrow> startsWith (rev s) (rev t)"

fun stripSuffixFrom :: "string list \<Rightarrow> string \<Rightarrow> string" where
  "stripSuffixFrom [] v = v"
| "stripSuffixFrom (s # ss) v = (if endsWith v s then take (length v - length s) v else stripSuffixFrom ss v)"

definition stripWindowsExecutableSuffix :: "string \<Rightarrow> string" where
  "stripWindowsExecutableSuffix v = stripSuffixFrom [''.exe'', ''.cmd'', ''.bat'', ''.com''] v"

definition basenameLower :: "string \<Rightarrow> string" where
  "basenameLower token =
     (let win = win32Basename token; posix = posixBasename token;
          base = (if length win < length posix then win else posix)
      in toLowerCase (trim base))"

definition normalizeExecutableToken :: "string \<Rightarrow> string" where
  "normalizeExecutableToken token = stripWindowsExecutableSuffix (basenameLower token)"

section \<open>Dispatch wrappers (\<open>dispatch-wrapper-resolution.ts\<close>)\<close>

definition maxDispatchWrapperDepth :: nat where
  "maxDispatchWrapperDepth = 4"

definition envOptionsWithValue :: "string list" where
  "envOptionsWithValue = [''-u'', ''--unset'', ''-c'', ''--chdir'', ''-s'', ''--split-string'',
     ''--default-signal'', ''--ignore-signal'', ''--block-signal'']"

definition envInlineValuePrefixes :: "string list" where
  "envInlineValuePrefixes = [''-u'', ''-c'', ''-s'', ''--unset='', ''--chdir='', ''--split-string='',
     ''--default-signal='', ''--ignore-signal='', ''--block-signal='']"

definition envFlagOptions :: "string list" where
  "envFlagOptions = [''-i'', ''--ignore-environment'', ''-0'', ''--null'']"

definition niceOptionsWithValue :: "string list" where
  "niceOptionsWithValue = [''-n'', ''--adjustment'', ''--priority'']"

definition caffeinateOptionsWithValue :: "string list" where
  "caffeinateOptionsWithValue = [''-t'', ''-w'']"

definition stdbufOptionsWithValue :: "string list" where
  "stdbufOptionsWithValue = [''-i'', ''--input'', ''-o'', ''--output'', ''-e'', ''--error'']"

definition timeFlagOptions :: "string list" where
  "timeFlagOptions = [''-a'', ''--append'', ''-h'', ''--help'', ''-l'', ''-p'', ''-q'', ''--quiet'',
     ''-v'', ''--verbose'', ''-V'', ''--version'']"

definition timeOptionsWithValue :: "string list" where
  "timeOptionsWithValue = [''-f'', ''--format'', ''-o'', ''--output'']"

definition bsdScriptFlagOptions :: "string list" where
  "bsdScriptFlagOptions = [''-a'', ''-d'', ''-k'', ''-p'', ''-q'', ''-r'']"

definition bsdScriptOptionsWithValue :: "string list" where
  "bsdScriptOptionsWithValue = [''-F'', ''-t'']"

definition sandboxExecOptionsWithValue :: "string list" where
  "sandboxExecOptionsWithValue = [''-f'', ''-p'', ''-d'']"

definition timeoutFlagOptions :: "string list" where
  "timeoutFlagOptions = [''--foreground'', ''--preserve-status'', ''-v'', ''--verbose'']"

definition timeoutOptionsWithValue :: "string list" where
  "timeoutOptionsWithValue = [''-k'', ''--kill-after'', ''-s'', ''--signal'']"

definition xcrunFlagOptions :: "string list" where
  "xcrunFlagOptions = [''-k'', ''--kill-cache'', ''-l'', ''--log'', ''-n'', ''--no-cache'', ''-r'',
     ''--run'', ''-v'', ''--verbose'']"

definition isArchSelectorToken :: "string \<Rightarrow> bool" where
  "isArchSelectorToken token \<longleftrightarrow>
     (case token of [] \<Rightarrow> False | c # rest \<Rightarrow> c = CHR ''-'' \<and> rest \<noteq> [] \<and> list_all isWordChar rest)"

definition isKnownArchSelectorToken :: "string \<Rightarrow> bool" where
  "isKnownArchSelectorToken token \<longleftrightarrow>
     token \<in> set [''-arm64'', ''-arm64e'', ''-i386'', ''-x86_64'', ''-x86_64h'']"

definition isKnownArchNameToken :: "string \<Rightarrow> bool" where
  "isKnownArchNameToken token \<longleftrightarrow> isKnownArchSelectorToken (CHR ''-'' # token)"

datatype scan_directive = Continue | ConsumeNext | Stop | Invalid

definition isEnvAssignment :: "string \<Rightarrow> bool" where
  "isEnvAssignment token \<longleftrightarrow>
     (case token of [] \<Rightarrow> False
      | c # rest \<Rightarrow> (isLetter c \<or> c = CHR ''_'') \<and> startsWith (dropWhile isWordChar rest) ''='')"

definition hasEnvInlineValuePrefix :: "string \<Rightarrow> bool" where
  "hasEnvInlineValuePrefix lower \<longleftrightarrow> list_ex (startsWith lower) envInlineValuePrefixes"

definition optionFlag :: "string \<Rightarrow> string" where
  \<comment> \<open>\<open>const [flag] = lower.split("=", 2)\<close>\<close>
  "optionFlag lower = takeWhile (\<lambda>c. c \<noteq> CHR ''='') lower"

definition hasEquals :: "string \<Rightarrow> bool" where
  "hasEquals s \<longleftrightarrow> CHR ''='' \<in> set s"

definition dashOption :: "string \<Rightarrow> bool" where
  \<comment> \<open>the negation of \<open>!token.startsWith("-") || token === "-"\<close>\<close>
  "dashOption token \<longleftrightarrow> startsWith token ''-'' \<and> token \<noteq> ''-''"

text \<open>
  The loop of \<open>scanWrapperInvocation\<close>. \<open>st\<close> is what the closure \<open>onToken\<close> remembers (only that
  of \<open>arch\<close> does). The result is the suffix at which the loop ends and whether an option still waits
  for its value, or \<open>None\<close> for an invalid token.
\<close>

fun scanLoop ::
  "string list \<Rightarrow> ('s \<Rightarrow> string \<Rightarrow> string \<Rightarrow> scan_directive \<times> 's) \<Rightarrow> 's \<Rightarrow> bool \<Rightarrow> string list \<Rightarrow>
   (string list \<times> bool) option" where
  "scanLoop seps onToken st expects [] = Some ([], expects)"
| "scanLoop seps onToken st expects (arg # rest) =
     (let token = trim arg
      in if token = [] then scanLoop seps onToken st expects rest
         else if expects then scanLoop seps onToken st False rest
         else if token \<in> set seps then Some (rest, False)
         else (case onToken st token (toLowerCase token) of
                 (Stop, _) \<Rightarrow> Some (arg # rest, False)
               | (Invalid, _) \<Rightarrow> None
               | (ConsumeNext, st') \<Rightarrow> scanLoop seps onToken st' True rest
               | (Continue, st') \<Rightarrow> scanLoop seps onToken st' False rest))"

definition scanWrapperInvocation ::
  "string list \<Rightarrow> ('s \<Rightarrow> string \<Rightarrow> string \<Rightarrow> scan_directive \<times> 's) \<Rightarrow> 's \<Rightarrow>
   (string list \<Rightarrow> string list option) \<Rightarrow> string list \<Rightarrow> string list option" where
  "scanWrapperInvocation seps onToken st adjust argv =
     (case scanLoop seps onToken st False (drop 1 argv) of
        None \<Rightarrow> None
      | Some (rest, expects) \<Rightarrow>
          if expects then None
          else (case adjust rest of None \<Rightarrow> None | Some cmd \<Rightarrow> if cmd = [] then None else Some cmd))"

definition stateless :: "(string \<Rightarrow> string \<Rightarrow> scan_directive) \<Rightarrow> unit \<Rightarrow> string \<Rightarrow> string \<Rightarrow> scan_directive \<times> unit" where
  "stateless f u token lower = (f token lower, ())"

definition envOnToken :: "string \<Rightarrow> string \<Rightarrow> scan_directive" where
  "envOnToken token lower =
     (if isEnvAssignment token then Continue
      else if \<not> dashOption token then Stop
      else if optionFlag lower \<in> set envFlagOptions then Continue
      else if optionFlag lower \<in> set envOptionsWithValue
        then (if hasEquals lower then Continue else ConsumeNext)
      else if hasEnvInlineValuePrefix lower then Continue
      else Invalid)"

definition unwrapEnvInvocation :: "string list \<Rightarrow> string list option" where
  "unwrapEnvInvocation argv = scanWrapperInvocation [''--'', ''-''] (stateless envOnToken) () Some argv"

fun envModifiersLoop :: "bool \<Rightarrow> string list \<Rightarrow> bool" where
  "envModifiersLoop expects [] = False"
| "envModifiersLoop expects (arg # rest) =
     (let token = trim arg
      in if token = [] then envModifiersLoop expects rest
         else if expects then True
         else if token = ''--'' \<or> token = ''-'' then False
         else if isEnvAssignment token then True
         else if \<not> dashOption token then False
         else (let lower = toLowerCase token; flag = optionFlag lower
               in if flag \<in> set envFlagOptions then True
                  else if flag \<in> set envOptionsWithValue
                    then (if hasEquals lower then True else envModifiersLoop True rest)
                  else True))"

definition envInvocationUsesModifiers :: "string list \<Rightarrow> bool" where
  "envInvocationUsesModifiers argv = envModifiersLoop False (drop 1 argv)"

definition unwrapDashOptionInvocation ::
  "(string \<Rightarrow> string \<Rightarrow> scan_directive) \<Rightarrow> (string list \<Rightarrow> string list option) \<Rightarrow> string list \<Rightarrow> string list option" where
  "unwrapDashOptionInvocation onFlag adjust argv =
     scanWrapperInvocation [''--'']
       (stateless (\<lambda>token lower. if \<not> dashOption token then Stop else onFlag (optionFlag lower) lower))
       () adjust argv"

definition valueOption :: "string \<Rightarrow> string \<Rightarrow> scan_directive" where
  \<comment> \<open>\<open>lower.includes("=") || lower !== flag ? "continue" : "consume-next"\<close>\<close>
  "valueOption flag lower = (if hasEquals lower \<or> lower \<noteq> flag then Continue else ConsumeNext)"

definition isNegativeNumber :: "string \<Rightarrow> bool" where
  "isNegativeNumber s \<longleftrightarrow>
     (case s of [] \<Rightarrow> False | c # rest \<Rightarrow> c = CHR ''-'' \<and> rest \<noteq> [] \<and> list_all isDigit rest)"

definition unwrapNiceInvocation :: "string list \<Rightarrow> string list option" where
  "unwrapNiceInvocation = unwrapDashOptionInvocation
     (\<lambda>flag lower. if isNegativeNumber lower then Continue
        else if flag \<in> set niceOptionsWithValue then valueOption flag lower
        else if startsWith lower ''-n'' \<and> length lower > 2 then Continue
        else Invalid) Some"

definition unwrapCaffeinateInvocation :: "string list \<Rightarrow> string list option" where
  "unwrapCaffeinateInvocation = unwrapDashOptionInvocation
     (\<lambda>flag lower. if flag \<in> set [''-d'', ''-i'', ''-m'', ''-s'', ''-u''] then Continue
        else if flag \<in> set caffeinateOptionsWithValue then valueOption flag lower
        else Invalid) Some"

definition unwrapNohupInvocation :: "string list \<Rightarrow> string list option" where
  "unwrapNohupInvocation = scanWrapperInvocation [''--'']
     (stateless (\<lambda>token lower. if \<not> dashOption token then Stop
        else if lower = ''--help'' \<or> lower = ''--version'' then Continue else Invalid)) () Some"

definition unwrapSandboxExecInvocation :: "string list \<Rightarrow> string list option" where
  "unwrapSandboxExecInvocation = unwrapDashOptionInvocation
     (\<lambda>flag lower. if flag \<in> set sandboxExecOptionsWithValue then valueOption flag lower else Invalid) Some"

definition unwrapStdbufInvocation :: "string list \<Rightarrow> string list option" where
  "unwrapStdbufInvocation = unwrapDashOptionInvocation
     (\<lambda>flag lower. if flag \<notin> set stdbufOptionsWithValue then Invalid
        else if hasEquals lower then Continue else ConsumeNext) Some"

definition unwrapTimeInvocation :: "string list \<Rightarrow> string list option" where
  "unwrapTimeInvocation = unwrapDashOptionInvocation
     (\<lambda>flag lower. if flag \<in> set timeFlagOptions then Continue
        else if flag \<in> set timeOptionsWithValue then (if hasEquals lower then Continue else ConsumeNext)
        else Invalid) Some"

definition supportsScriptPositionalCommand :: "string \<Rightarrow> bool" where
  "supportsScriptPositionalCommand platform \<longleftrightarrow> platform = ''darwin'' \<or> platform = ''freebsd''"

fun afterTranscript :: "bool \<Rightarrow> string list \<Rightarrow> string list option" where
  \<comment> \<open>\<open>adjustCommandIndex\<close> of \<open>script\<close>: the argument after the transcript file\<close>
  "afterTranscript saw [] = None"
| "afterTranscript saw (arg # rest) =
     (if trim arg = [] then afterTranscript saw rest
      else if \<not> saw then afterTranscript True rest
      else Some (arg # rest))"

definition unwrapScriptInvocation :: "string \<Rightarrow> string list \<Rightarrow> string list option" where
  "unwrapScriptInvocation host argv =
     (if \<not> supportsScriptPositionalCommand host then None
      else scanWrapperInvocation [''--'']
        (stateless (\<lambda>token lower. if \<not> dashOption lower then Stop
           else (let flag = optionFlag token
                 in if flag \<in> set bsdScriptOptionsWithValue
                      then (if hasEquals token then Continue else ConsumeNext)
                    else if flag \<in> set bsdScriptFlagOptions then Continue
                    else Invalid))) () (afterTranscript False) argv)"

definition unwrapTimeoutInvocation :: "string list \<Rightarrow> string list option" where
  "unwrapTimeoutInvocation = unwrapDashOptionInvocation
     (\<lambda>flag lower. if flag \<in> set timeoutFlagOptions then Continue
        else if flag \<in> set timeoutOptionsWithValue then (if hasEquals lower then Continue else ConsumeNext)
        else Invalid)
     (\<lambda>rest. if drop 1 rest \<noteq> [] then Some (drop 1 rest) else None)"

definition archOnToken :: "bool \<Rightarrow> string \<Rightarrow> string \<Rightarrow> scan_directive \<times> bool" where
  "archOnToken expectsArchName token lower =
     (if expectsArchName then (if isKnownArchNameToken lower then Continue else Invalid, False)
      else if \<not> dashOption token then (Stop, False)
      else if lower = ''-32'' \<or> lower = ''-64'' then (Continue, False)
      else if lower = ''-arch'' then (Continue, True)
      else if lower \<in> set [''-c'', ''-d'', ''-e'', ''-h''] then (Invalid, False)
      else (if isArchSelectorToken token \<and> isKnownArchSelectorToken lower then Continue else Invalid, False))"

definition unwrapArchInvocation :: "string list \<Rightarrow> string list option" where
  "unwrapArchInvocation = scanWrapperInvocation [] archOnToken False Some"

definition supportsArchDispatchWrapper :: "string \<Rightarrow> bool" where
  "supportsArchDispatchWrapper platform \<longleftrightarrow> platform = ''darwin''"

definition supportsXcrunDispatchWrapper :: "string \<Rightarrow> bool" where
  "supportsXcrunDispatchWrapper platform \<longleftrightarrow> platform = ''darwin''"

definition unwrapXcrunInvocation :: "string list \<Rightarrow> string list option" where
  "unwrapXcrunInvocation = scanWrapperInvocation []
     (stateless (\<lambda>token lower. if \<not> dashOption token then Stop
        else if lower \<in> set xcrunFlagOptions then Continue else Invalid)) () Some"

datatype transparent_usage = Unspecified | Always | WhenUsed "string list \<Rightarrow> string \<Rightarrow> bool"

record dispatch_spec =
  dsName :: string
  dsUnwrap :: "(string list \<Rightarrow> string \<Rightarrow> string list option) option"
  dsTransparent :: transparent_usage

definition transparentSpec :: "string \<Rightarrow> (string list \<Rightarrow> string list option) \<Rightarrow> dispatch_spec" where
  "transparentSpec n f = \<lparr>dsName = n, dsUnwrap = Some (\<lambda>argv _. f argv), dsTransparent = Always\<rparr>"

definition opaqueSpec :: "string \<Rightarrow> dispatch_spec" where
  "opaqueSpec n = \<lparr>dsName = n, dsUnwrap = None, dsTransparent = Unspecified\<rparr>"

definition dispatchWrapperSpecs :: "string \<Rightarrow> dispatch_spec list" where
  "dispatchWrapperSpecs host =
    [\<lparr>dsName = ''arch'',
      dsUnwrap = Some (\<lambda>argv plat. if supportsArchDispatchWrapper plat then unwrapArchInvocation argv else None),
      dsTransparent = WhenUsed (\<lambda>_ plat. supportsArchDispatchWrapper plat)\<rparr>,
     transparentSpec ''caffeinate'' unwrapCaffeinateInvocation,
     opaqueSpec ''chrt'',
     opaqueSpec ''doas'',
     \<lparr>dsName = ''env'', dsUnwrap = Some (\<lambda>argv _. unwrapEnvInvocation argv),
      dsTransparent = WhenUsed (\<lambda>argv _. \<not> envInvocationUsesModifiers argv)\<rparr>,
     opaqueSpec ''ionice'',
     transparentSpec ''nice'' unwrapNiceInvocation,
     transparentSpec ''nohup'' unwrapNohupInvocation,
     transparentSpec ''sandbox-exec'' unwrapSandboxExecInvocation,
     transparentSpec ''script'' (unwrapScriptInvocation host),
     opaqueSpec ''setsid'',
     transparentSpec ''stdbuf'' unwrapStdbufInvocation,
     opaqueSpec ''sudo'',
     opaqueSpec ''taskset'',
     transparentSpec ''time'' unwrapTimeInvocation,
     transparentSpec ''timeout'' unwrapTimeoutInvocation,
     \<lparr>dsName = ''xcrun'',
      dsUnwrap = Some (\<lambda>argv plat. if supportsXcrunDispatchWrapper plat then unwrapXcrunInvocation argv else None),
      dsTransparent = WhenUsed (\<lambda>_ plat. supportsXcrunDispatchWrapper plat)\<rparr>]"

definition dispatchSpecByName :: "string \<Rightarrow> (string, dispatch_spec) jsmap" where
  "dispatchSpecByName host = map (\<lambda>spec. (dsName spec, spec)) (dispatchWrapperSpecs host)"

datatype unwrap_result = NotWrapper | Blocked string | Unwrapped string "string list"

record dispatch_trust_plan =
  dpArgv :: "string list"
  dpWrappers :: "string list"
  dpPolicyBlocked :: bool
  dpBlockedWrapper :: "string option"

definition unwrapDispatchWrapper :: "string \<Rightarrow> string list option \<Rightarrow> unwrap_result" where
  "unwrapDispatchWrapper wrapper unwrapped =
     (case unwrapped of Some argv \<Rightarrow> Unwrapped wrapper argv | None \<Rightarrow> Blocked wrapper)"

definition isDispatchWrapperExecutable :: "string \<Rightarrow> string \<Rightarrow> bool" where
  "isDispatchWrapperExecutable host token \<longleftrightarrow> mapHas (dispatchSpecByName host) (normalizeExecutableToken token)"

definition headToken :: "string list \<Rightarrow> string" where
  \<comment> \<open>\<open>argv[0]?.trim()\<close>; a missing one is as good as an empty one for every use\<close>
  "headToken argv = (case argv of [] \<Rightarrow> [] | a # _ \<Rightarrow> trim a)"

definition unwrapKnownDispatchWrapperInvocation :: "string \<Rightarrow> string list \<Rightarrow> string \<Rightarrow> unwrap_result" where
  "unwrapKnownDispatchWrapperInvocation host argv plat =
     (if headToken argv = [] then NotWrapper
      else (let wrapper = normalizeExecutableToken (headToken argv)
            in case mapGet (dispatchSpecByName host) wrapper of
                 None \<Rightarrow> NotWrapper
               | Some spec \<Rightarrow>
                   (case dsUnwrap spec of
                      Some f \<Rightarrow> unwrapDispatchWrapper wrapper (f argv plat)
                    | None \<Rightarrow> Blocked wrapper)))"

definition isSemanticDispatchWrapperUsage :: "string \<Rightarrow> string \<Rightarrow> string list \<Rightarrow> string \<Rightarrow> bool" where
  "isSemanticDispatchWrapperUsage host wrapper argv plat \<longleftrightarrow>
     (case mapGet (dispatchSpecByName host) wrapper of
        None \<Rightarrow> True
      | Some spec \<Rightarrow>
          (case dsUnwrap spec of None \<Rightarrow> True
           | Some _ \<Rightarrow> (case dsTransparent spec of
                WhenUsed f \<Rightarrow> \<not> f argv plat | Always \<Rightarrow> False | Unspecified \<Rightarrow> True)))"

definition blockedDispatchWrapperPlan :: "string list \<Rightarrow> string list \<Rightarrow> string \<Rightarrow> dispatch_trust_plan" where
  "blockedDispatchWrapperPlan argv wrappers blockedWrapper =
     \<lparr>dpArgv = argv, dpWrappers = wrappers, dpPolicyBlocked = True, dpBlockedWrapper = Some blockedWrapper\<rparr>"

text \<open>The loop over \<open>depth < maxDepth\<close>, by the rounds left: a plan to return, or the state it ends with.\<close>

fun dispatchPlanLoop ::
  "string \<Rightarrow> string \<Rightarrow> nat \<Rightarrow> string list \<Rightarrow> string list \<Rightarrow> dispatch_trust_plan + string list \<times> string list" where
  "dispatchPlanLoop host plat 0 current wrappers = Inr (current, wrappers)"
| "dispatchPlanLoop host plat (Suc rounds) current wrappers =
     (case unwrapKnownDispatchWrapperInvocation host current plat of
        Blocked w \<Rightarrow> Inl (blockedDispatchWrapperPlan current wrappers w)
      | NotWrapper \<Rightarrow> Inr (current, wrappers)
      | Unwrapped w argv \<Rightarrow>
          if argv = [] then Inr (current, wrappers)
          else if isSemanticDispatchWrapperUsage host w current plat
          then Inl (blockedDispatchWrapperPlan current (wrappers @ [w]) w)
          else dispatchPlanLoop host plat rounds argv (wrappers @ [w]))"

definition resolveDispatchWrapperTrustPlan ::
  "string \<Rightarrow> string list \<Rightarrow> nat \<Rightarrow> string \<Rightarrow> dispatch_trust_plan" where
  "resolveDispatchWrapperTrustPlan host argv maxDepth plat =
     (case dispatchPlanLoop host plat maxDepth argv [] of
        Inl plan \<Rightarrow> plan
      | Inr (current, wrappers) \<Rightarrow>
          (let open_plan = \<lparr>dpArgv = current, dpWrappers = wrappers, dpPolicyBlocked = False, dpBlockedWrapper = None\<rparr>
           in if length wrappers \<ge> maxDepth then
                (case unwrapKnownDispatchWrapperInvocation host current plat of
                   Blocked w \<Rightarrow> blockedDispatchWrapperPlan current wrappers w
                 | Unwrapped w _ \<Rightarrow> blockedDispatchWrapperPlan current wrappers w
                 | NotWrapper \<Rightarrow> open_plan)
              else open_plan))"

definition unwrapDispatchWrappersForResolution :: "string \<Rightarrow> string list \<Rightarrow> nat \<Rightarrow> string \<Rightarrow> string list" where
  "unwrapDispatchWrappersForResolution host argv maxDepth plat =
     dpArgv (resolveDispatchWrapperTrustPlan host argv maxDepth plat)"

definition hasDispatchEnvManipulation :: "string \<Rightarrow> string list \<Rightarrow> bool" where
  "hasDispatchEnvManipulation host argv \<longleftrightarrow>
     (case unwrapKnownDispatchWrapperInvocation host argv host of
        Unwrapped w _ \<Rightarrow> w = ''env'' \<and> envInvocationUsesModifiers argv | _ \<Rightarrow> False)"

section \<open>Inline shell commands (\<open>shell-inline-command.ts\<close>)\<close>

definition posixInlineCommandFlags :: "string list" where
  "posixInlineCommandFlags = [''-lc'', ''-c'', ''--command'']"

definition powershellInlineCommandFlags :: "string list" where
  "powershellInlineCommandFlags = [''-c'', ''-command'', ''--command'', ''-f'', ''-file'',
     ''-encodedcommand'', ''-enc'', ''-e'']"

definition isCombinedCFlag :: "string \<Rightarrow> bool" where
  \<comment> \<open>\<open>/^-[^-]*c[^-]*$/i\<close>\<close>
  "isCombinedCFlag token \<longleftrightarrow>
     (case token of [] \<Rightarrow> False
      | d # rest \<Rightarrow> d = CHR ''-'' \<and> CHR ''-'' \<notin> set rest \<and> (CHR ''c'' \<in> set rest \<or> CHR ''C'' \<in> set rest))"

record inline_match =
  imCommand :: "string option"
  imValueTokenIndex :: "nat option"

definition followingArgument :: "nat \<Rightarrow> string list \<Rightarrow> inline_match" where
  \<comment> \<open>the argument after position \<open>i\<close>, given what follows it\<close>
  "followingArgument i rest =
     (case rest of
        [] \<Rightarrow> \<lparr>imCommand = None, imValueTokenIndex = None\<rparr>
      | a # _ \<Rightarrow> \<lparr>imCommand = trimmed (Some a), imValueTokenIndex = Some (i + 1)\<rparr>)"

fun inlineCommandLoop :: "string list \<Rightarrow> bool \<Rightarrow> nat \<Rightarrow> string list \<Rightarrow> inline_match" where
  "inlineCommandLoop flags allowCombinedC i [] = \<lparr>imCommand = None, imValueTokenIndex = None\<rparr>"
| "inlineCommandLoop flags allowCombinedC i (arg # rest) =
     (let token = trim arg; lower = toLowerCase token
      in if token = [] then inlineCommandLoop flags allowCombinedC (i + 1) rest
         else if lower = ''--'' then \<lparr>imCommand = None, imValueTokenIndex = None\<rparr>
         else if lower \<in> set flags then followingArgument i rest
         else if allowCombinedC \<and> isCombinedCFlag token then
           (let inline = trim (drop (length (takeWhile (\<lambda>c. c \<noteq> CHR ''c'') lower) + 1) token)
            in if inline \<noteq> [] then \<lparr>imCommand = Some inline, imValueTokenIndex = Some i\<rparr>
               else followingArgument i rest)
         else inlineCommandLoop flags allowCombinedC (i + 1) rest)"

definition resolveInlineCommandMatch :: "string list \<Rightarrow> string list \<Rightarrow> bool \<Rightarrow> inline_match" where
  "resolveInlineCommandMatch argv flags allowCombinedC = inlineCommandLoop flags allowCombinedC 1 (drop 1 argv)"

section \<open>Shells (\<open>shell-wrapper-resolution.ts\<close>)\<close>

datatype shell_kind = Posix | Cmd | PowerShell

record shell_spec =
  ssKind :: shell_kind
  ssNames :: "string list"

definition shellWrapperSpecs :: "shell_spec list" where
  "shellWrapperSpecs =
    [\<lparr>ssKind = Posix, ssNames = [''ash'', ''bash'', ''dash'', ''fish'', ''ksh'', ''sh'', ''zsh'']\<rparr>,
     \<lparr>ssKind = Cmd, ssNames = [''cmd'']\<rparr>,
     \<lparr>ssKind = PowerShell, ssNames = [''powershell'', ''pwsh'']\<rparr>]"

definition shellMultiplexerNames :: "string list" where
  "shellMultiplexerNames = [''busybox'', ''toybox'']"

definition isShellWrapperExecutable :: "string \<Rightarrow> bool" where
  "isShellWrapperExecutable token \<longleftrightarrow>
     normalizeExecutableToken token \<in> set (concat (map ssNames shellWrapperSpecs))"

definition findShellWrapperSpec :: "string \<Rightarrow> shell_spec option" where
  "findShellWrapperSpec baseExecutable = find (\<lambda>spec. baseExecutable \<in> set (ssNames spec)) shellWrapperSpecs"

definition unwrapKnownShellMultiplexerInvocation :: "string list \<Rightarrow> unwrap_result" where
  "unwrapKnownShellMultiplexerInvocation argv =
     (if headToken argv = [] then NotWrapper
      else (let wrapper = normalizeExecutableToken (headToken argv)
            in if wrapper \<notin> set shellMultiplexerNames then NotWrapper
               else (let applet = (if headToken (drop 1 argv) = ''--'' then drop 2 argv else drop 1 argv)
                     in if headToken applet = [] \<or> \<not> isShellWrapperExecutable (headToken applet)
                        then Blocked wrapper else Unwrapped wrapper applet)))"

definition isCmdRunFlag :: "string \<Rightarrow> bool" where
  "isCmdRunFlag item \<longleftrightarrow> (let token = toLowerCase (trim item) in token = ''/c'' \<or> token = ''/k'')"

definition extractCmdInlineCommand :: "string list \<Rightarrow> string option" where
  "extractCmdInlineCommand argv =
     (case dropWhile (\<lambda>a. \<not> isCmdRunFlag a) argv of
        [] \<Rightarrow> None
      | _ # tail \<Rightarrow> if tail = [] then None else trimmed (Some (joinWith '' '' tail)))"

definition extractShellWrapperPayload :: "string list \<Rightarrow> shell_spec \<Rightarrow> string option" where
  "extractShellWrapperPayload argv spec =
     (case ssKind spec of
        Posix \<Rightarrow> imCommand (resolveInlineCommandMatch argv posixInlineCommandFlags True)
      | Cmd \<Rightarrow> extractCmdInlineCommand argv
      | PowerShell \<Rightarrow> imCommand (resolveInlineCommandMatch argv powershellInlineCommandFlags False))"

definition shellPayloadOf :: "string list \<Rightarrow> string option" where
  \<comment> \<open>the inline command of a shell that is called directly, the end of both recursions below\<close>
  "shellPayloadOf argv =
     (case findShellWrapperSpec (normalizeExecutableToken (headToken argv)) of
        None \<Rightarrow> None
      | Some spec \<Rightarrow> (let payload = extractShellWrapperPayload argv spec
                      in if truthy payload then payload else None))"

text \<open>
  Both recursions stop when \<open>depth\<close> is above \<open>MAX_DISPATCH_WRAPPER_DEPTH\<close>; here they go by the
  levels left, \<open>MAX_DISPATCH_WRAPPER_DEPTH + 1 - depth\<close>.
\<close>

fun envManipulationInternal :: "string \<Rightarrow> nat \<Rightarrow> string list \<Rightarrow> bool \<Rightarrow> bool" where
  "envManipulationInternal host 0 argv seen = False"
| "envManipulationInternal host (Suc levels) argv seen =
     (if headToken argv = [] then False
      else (case unwrapKnownDispatchWrapperInvocation host argv host of
        Blocked _ \<Rightarrow> False
      | Unwrapped _ inner \<Rightarrow>
          envManipulationInternal host levels inner (seen \<or> hasDispatchEnvManipulation host argv)
      | NotWrapper \<Rightarrow>
          (case unwrapKnownShellMultiplexerInvocation argv of
             Blocked _ \<Rightarrow> False
           | Unwrapped _ inner \<Rightarrow> envManipulationInternal host levels inner seen
           | NotWrapper \<Rightarrow> shellPayloadOf argv \<noteq> None \<and> seen)))"

definition hasEnvManipulationBeforeShellWrapper :: "string \<Rightarrow> string list \<Rightarrow> bool" where
  "hasEnvManipulationBeforeShellWrapper host argv =
     envManipulationInternal host (maxDispatchWrapperDepth + 1) argv False"

record shell_wrapper_command =
  swIsWrapper :: bool
  swCommand :: "string option"

definition noShellWrapper :: shell_wrapper_command where
  "noShellWrapper = \<lparr>swIsWrapper = False, swCommand = None\<rparr>"

fun extractShellWrapperInternal :: "string \<Rightarrow> nat \<Rightarrow> string list \<Rightarrow> string option \<Rightarrow> shell_wrapper_command" where
  "extractShellWrapperInternal host 0 argv rawCommand = noShellWrapper"
| "extractShellWrapperInternal host (Suc levels) argv rawCommand =
     (if headToken argv = [] then noShellWrapper
      else (case unwrapKnownDispatchWrapperInvocation host argv host of
        Blocked _ \<Rightarrow> noShellWrapper
      | Unwrapped _ inner \<Rightarrow> extractShellWrapperInternal host levels inner rawCommand
      | NotWrapper \<Rightarrow>
          (case unwrapKnownShellMultiplexerInvocation argv of
             Blocked _ \<Rightarrow> noShellWrapper
           | Unwrapped _ inner \<Rightarrow> extractShellWrapperInternal host levels inner rawCommand
           | NotWrapper \<Rightarrow>
               (case shellPayloadOf argv of
                  None \<Rightarrow> noShellWrapper
                | Some payload \<Rightarrow> \<lparr>swIsWrapper = True, swCommand = orElse rawCommand (Some payload)\<rparr>))))"

definition extractShellWrapperInlineCommand :: "string \<Rightarrow> string list \<Rightarrow> string option" where
  "extractShellWrapperInlineCommand host argv =
     (let extracted = extractShellWrapperInternal host (maxDispatchWrapperDepth + 1) argv None
      in if swIsWrapper extracted then swCommand extracted else None)"

definition extractShellWrapperCommand :: "string \<Rightarrow> string list \<Rightarrow> string option \<Rightarrow> shell_wrapper_command" where
  "extractShellWrapperCommand host argv rawCommand =
     extractShellWrapperInternal host (maxDispatchWrapperDepth + 1) argv (trimmed rawCommand)"

section \<open>The plan that is trusted (\<open>exec-wrapper-trust-plan.ts\<close>)\<close>

record exec_trust_plan =
  epArgv :: "string list"
  epPolicyArgv :: "string list"
  epWrapperChain :: "string list"
  epPolicyBlocked :: bool
  epBlockedWrapper :: "string option"
  epShellWrapperExecutable :: bool
  epShellInlineCommand :: "string option"

definition blockedExecWrapperTrustPlan :: "string list \<Rightarrow> string list \<Rightarrow> string list \<Rightarrow> string \<Rightarrow> exec_trust_plan" where
  "blockedExecWrapperTrustPlan argv policyArgv wrapperChain blockedWrapper =
     \<lparr>epArgv = argv, epPolicyArgv = policyArgv, epWrapperChain = wrapperChain, epPolicyBlocked = True,
      epBlockedWrapper = Some blockedWrapper, epShellWrapperExecutable = False, epShellInlineCommand = None\<rparr>"

definition finalizeExecWrapperTrustPlan ::
  "string \<Rightarrow> string list \<Rightarrow> string list \<Rightarrow> string list \<Rightarrow> bool \<Rightarrow> string option \<Rightarrow> exec_trust_plan" where
  "finalizeExecWrapperTrustPlan host argv policyArgv wrapperChain policyBlocked blockedWrapper =
     (let shell = (\<not> policyBlocked \<and> headToken argv \<noteq> [] \<and> isShellWrapperExecutable (headToken argv))
      in \<lparr>epArgv = argv, epPolicyArgv = policyArgv, epWrapperChain = wrapperChain,
          epPolicyBlocked = policyBlocked, epBlockedWrapper = blockedWrapper,
          epShellWrapperExecutable = shell,
          epShellInlineCommand = (if shell then extractShellWrapperInlineCommand host argv else None)\<rparr>)"

record plan_state =
  psCurrent :: "string list"
  psPolicyArgv :: "string list"
  psSawMultiplexer :: bool
  psChain :: "string list"

fun execPlanLoop :: "string \<Rightarrow> nat \<Rightarrow> nat \<Rightarrow> plan_state \<Rightarrow> exec_trust_plan + plan_state" where
  "execPlanLoop host maxDepth 0 st = Inr st"
| "execPlanLoop host maxDepth (Suc rounds) st =
     (let dispatchPlan = resolveDispatchWrapperTrustPlan host (psCurrent st) (maxDepth - length (psChain st)) host
      in if dpPolicyBlocked dispatchPlan then
           Inl (blockedExecWrapperTrustPlan (dpArgv dispatchPlan) (dpArgv dispatchPlan) (psChain st)
                 (coalesce (orElse (dpBlockedWrapper dispatchPlan)
                    (case psCurrent st of [] \<Rightarrow> None | a # _ \<Rightarrow> Some a)) ''unknown''))
         else if dpWrappers dispatchPlan \<noteq> [] then
           (let st' = st\<lparr>psChain := psChain st @ dpWrappers dispatchPlan, psCurrent := dpArgv dispatchPlan,
                       psPolicyArgv := (if psSawMultiplexer st then psPolicyArgv st else dpArgv dispatchPlan)\<rparr>
            in if length (psChain st') \<ge> maxDepth then Inr st' else execPlanLoop host maxDepth rounds st')
         else
           (case unwrapKnownShellMultiplexerInvocation (psCurrent st) of
              Blocked w \<Rightarrow> Inl (blockedExecWrapperTrustPlan (psCurrent st) (psPolicyArgv st) (psChain st) w)
            | NotWrapper \<Rightarrow> Inr st
            | Unwrapped w inner \<Rightarrow>
                (let st' = st\<lparr>psChain := psChain st @ [w], psCurrent := inner,
                            psPolicyArgv := (if psSawMultiplexer st then psPolicyArgv st else psCurrent st),
                            psSawMultiplexer := True\<rparr>
                 in if length (psChain st') \<ge> maxDepth then Inr st' else execPlanLoop host maxDepth rounds st')))"

definition resolveExecWrapperTrustPlan :: "string \<Rightarrow> string list \<Rightarrow> nat \<Rightarrow> exec_trust_plan" where
  "resolveExecWrapperTrustPlan host argv maxDepth =
     (case execPlanLoop host maxDepth maxDepth
         \<lparr>psCurrent = argv, psPolicyArgv = argv, psSawMultiplexer = False, psChain = []\<rparr> of
        Inl plan \<Rightarrow> plan
      | Inr st \<Rightarrow>
          (let blocked = (\<lambda>w. blockedExecWrapperTrustPlan (psCurrent st) (psPolicyArgv st) (psChain st) w);
               final = finalizeExecWrapperTrustPlan host (psCurrent st) (psPolicyArgv st) (psChain st) False None
           in if length (psChain st) \<ge> maxDepth then
                (case unwrapKnownDispatchWrapperInvocation host (psCurrent st) host of
                   Blocked w \<Rightarrow> blocked w
                 | Unwrapped w _ \<Rightarrow> blocked w
                 | NotWrapper \<Rightarrow>
                     (case unwrapKnownShellMultiplexerInvocation (psCurrent st) of
                        Blocked w \<Rightarrow> blocked w | Unwrapped w _ \<Rightarrow> blocked w | NotWrapper \<Rightarrow> final))
              else final))"

section \<open>Unwrapping only drops arguments\<close>

definition dropsArguments :: "(string list \<Rightarrow> string \<Rightarrow> string list option) \<Rightarrow> bool" where
  "dropsArguments f \<longleftrightarrow> (\<forall>argv plat inner. f argv plat = Some inner \<longrightarrow> inner \<noteq> [] \<and> suffix inner (drop (Suc 0) argv))"

lemma scanLoop_suffix: "scanLoop seps onToken st expects xs = Some (rest, e) \<Longrightarrow> suffix rest xs"
proof (induction seps onToken st expects xs rule: scanLoop.induct)
  case (2 seps onToken st expects arg rest')
  then show ?case
    by (auto simp: Let_def suffix_ConsI split: if_splits prod.splits scan_directive.splits)
qed simp

lemma afterTranscript_suffix: "afterTranscript saw xs = Some rest \<Longrightarrow> suffix rest xs"
  by (induction saw xs rule: afterTranscript.induct) (auto simp: suffix_ConsI split: if_splits)

lemma scan_drops:
  assumes "\<And>rest cmd. adjust rest = Some cmd \<Longrightarrow> suffix cmd rest"
    and "scanWrapperInvocation seps onToken st adjust argv = Some inner"
  shows "inner \<noteq> [] \<and> suffix inner (drop (Suc 0) argv)"
  using assms(2) scanLoop_suffix assms(1)
  by (fastforce simp: scanWrapperInvocation_def intro: suffix_order.trans split: option.splits prod.splits if_splits)

lemma scan_drops_Some:
  "scanWrapperInvocation seps onToken st Some argv = Some inner \<Longrightarrow> inner \<noteq> [] \<and> suffix inner (drop (Suc 0) argv)"
  by (rule scan_drops [of Some]) auto

lemmas unwrap_defs = unwrapEnvInvocation_def unwrapDashOptionInvocation_def unwrapNiceInvocation_def
  unwrapCaffeinateInvocation_def unwrapNohupInvocation_def unwrapSandboxExecInvocation_def
  unwrapStdbufInvocation_def unwrapTimeInvocation_def unwrapArchInvocation_def unwrapXcrunInvocation_def

lemma script_drops: "unwrapScriptInvocation host argv = Some inner \<Longrightarrow> inner \<noteq> [] \<and> suffix inner (drop (Suc 0) argv)"
  unfolding unwrapScriptInvocation_def
  by (cases "supportsScriptPositionalCommand host")
    (simp_all add: scan_drops [of "afterTranscript False", OF afterTranscript_suffix])

lemma timeout_drops: "unwrapTimeoutInvocation argv = Some inner \<Longrightarrow> inner \<noteq> [] \<and> suffix inner (drop (Suc 0) argv)"
  unfolding unwrapTimeoutInvocation_def unwrapDashOptionInvocation_def
  by (erule scan_drops [rotated]) (auto simp: suffix_drop split: if_splits)

lemma plain_drops:
  "dropsArguments (\<lambda>argv _. unwrapEnvInvocation argv)"
  "dropsArguments (\<lambda>argv _. unwrapNiceInvocation argv)"
  "dropsArguments (\<lambda>argv _. unwrapCaffeinateInvocation argv)"
  "dropsArguments (\<lambda>argv _. unwrapNohupInvocation argv)"
  "dropsArguments (\<lambda>argv _. unwrapSandboxExecInvocation argv)"
  "dropsArguments (\<lambda>argv _. unwrapStdbufInvocation argv)"
  "dropsArguments (\<lambda>argv _. unwrapTimeInvocation argv)"
  "dropsArguments (\<lambda>argv _. unwrapTimeoutInvocation argv)"
  "dropsArguments (\<lambda>argv _. unwrapScriptInvocation host argv)"
  "dropsArguments (\<lambda>argv plat. if supportsArchDispatchWrapper plat then unwrapArchInvocation argv else None)"
  "dropsArguments (\<lambda>argv plat. if supportsXcrunDispatchWrapper plat then unwrapXcrunInvocation argv else None)"
  unfolding dropsArguments_def unwrap_defs
  by (auto dest: scan_drops_Some script_drops timeout_drops split: if_splits)

lemma specs_drop:
  "list_all (\<lambda>spec. case dsUnwrap spec of None \<Rightarrow> True | Some f \<Rightarrow> dropsArguments f) (dispatchWrapperSpecs host)"
  by (simp add: dispatchWrapperSpecs_def transparentSpec_def opaqueSpec_def plain_drops)

lemma spec_drops:
  assumes "mapGet (dispatchSpecByName host) w = Some spec" "dsUnwrap spec = Some f"
  shows "dropsArguments f"
proof -
  have "spec \<in> set (dispatchWrapperSpecs host)"
    using mapGet_SomeD [OF assms(1)] by (auto simp: dispatchSpecByName_def)
  with specs_drop [of host] assms(2) show ?thesis by (auto simp: list_all_iff)
qed

lemma dispatch_unwrapped:
  assumes "unwrapKnownDispatchWrapperInvocation host argv plat = Unwrapped w inner"
  shows "inner \<noteq> []" "suffix inner argv" "headToken argv \<noteq> []"
proof -
  from assms obtain spec f where head: "headToken argv \<noteq> []"
    and spec: "mapGet (dispatchSpecByName host) w = Some spec" "dsUnwrap spec = Some f" "f argv plat = Some inner"
    by (auto simp: unwrapKnownDispatchWrapperInvocation_def Let_def unwrapDispatchWrapper_def
        split: if_splits option.splits)
  then show "inner \<noteq> []" "suffix inner argv"
    using spec_drops [OF spec(1,2)] suffix_drop [of "Suc 0" argv]
    by (auto simp: dropsArguments_def intro: suffix_order.trans)
  from head show "headToken argv \<noteq> []" .
qed

lemma multiplexer_unwrapped:
  assumes "unwrapKnownShellMultiplexerInvocation argv = Unwrapped w inner"
  shows "suffix inner argv" "headToken argv \<noteq> []" "isShellWrapperExecutable (headToken inner)" "headToken inner \<noteq> []"
  using assms by (auto simp: unwrapKnownShellMultiplexerInvocation_def Let_def suffix_drop split: if_splits)

section \<open>The loop of the dispatch plan\<close>

lemma dispatchPlanLoop_blocked:
  "dispatchPlanLoop host plat rounds current ws = Inl plan \<Longrightarrow> dpPolicyBlocked plan \<and> suffix (dpArgv plan) current"
proof (induction rounds arbitrary: current ws)
  case (Suc rounds)
  then show ?case
    by (auto simp: blockedDispatchWrapperPlan_def dest: dispatch_unwrapped(2) intro: suffix_order.trans
        split: unwrap_result.splits if_splits)
qed simp

lemma dispatchPlanLoop_open:
  "dispatchPlanLoop host plat rounds current ws = Inr (current', ws') \<Longrightarrow>
   \<exists>new. ws' = ws @ new \<and> length new \<le> rounds \<and> suffix current' current
     \<and> (length new < rounds \<longrightarrow> unwrapKnownDispatchWrapperInvocation host current' plat = NotWrapper)
     \<and> (new = [] \<longrightarrow> current' = current)"
proof (induction rounds arbitrary: current ws)
  case (Suc rounds)
  show ?case
  proof (cases "unwrapKnownDispatchWrapperInvocation host current plat")
    case (Unwrapped w inner)
    with Suc.prems dispatch_unwrapped [OF Unwrapped]
    have "dispatchPlanLoop host plat rounds inner (ws @ [w]) = Inr (current', ws')"
      by (auto split: if_splits)
    from Suc.IH [OF this] obtain new where new: "ws' = (ws @ [w]) @ new" "length new \<le> rounds" "suffix current' inner"
      "length new < rounds \<longrightarrow> unwrapKnownDispatchWrapperInvocation host current' plat = NotWrapper" by blast
    moreover have "suffix current' current"
      using new(3) dispatch_unwrapped(2) [OF Unwrapped] by (rule suffix_order.trans)
    ultimately show ?thesis by (intro exI [of _ "w # new"]) auto
  qed (use Suc.prems in auto)
qed simp

lemma dispatchPlanLoop_follows:
  "dispatchPlanLoop host host rounds current ws = Inr (current', ws @ new) \<Longrightarrow>
   extractShellWrapperInternal host (levels + length new) current raw =
     extractShellWrapperInternal host levels current' raw
   \<and> envManipulationInternal host (levels + length new) current seen =
     envManipulationInternal host levels current' seen"
proof (induction rounds arbitrary: current ws new)
  case (Suc rounds)
  show ?case
  proof (cases "unwrapKnownDispatchWrapperInvocation host current host")
    case (Unwrapped w inner)
    note u = dispatch_unwrapped [OF Unwrapped]
    from Suc.prems Unwrapped u have s: "\<not> isSemanticDispatchWrapperUsage host w current host"
      and l: "dispatchPlanLoop host host rounds inner (ws @ [w]) = Inr (current', ws @ new)"
      by (auto split: if_splits)
    from dispatchPlanLoop_open [OF l] obtain new' where new: "new = w # new'" by auto
    have h: "\<not> hasDispatchEnvManipulation host current"
    proof
      assume a: "hasDispatchEnvManipulation host current"
      then have "w = ''env''" "envInvocationUsesModifiers current"
        using Unwrapped by (auto simp: hasDispatchEnvManipulation_def)
      then have "isSemanticDispatchWrapperUsage host w current host"
        by (simp add: isSemanticDispatchWrapperUsage_def dispatchSpecByName_def dispatchWrapperSpecs_def
            transparentSpec_def opaqueSpec_def)
      with s show False by simp
    qed
    from Suc.IH [of inner "ws @ [w]" new'] l new
    show ?thesis using Unwrapped u(3) h by simp
  qed (use Suc.prems in auto)
qed simp

lemma dispatchPlan_open:
  assumes "\<not> dpPolicyBlocked (resolveDispatchWrapperTrustPlan host argv k plat)"
  defines "plan \<equiv> resolveDispatchWrapperTrustPlan host argv k plat"
  shows "dispatchPlanLoop host plat k argv [] = Inr (dpArgv plan, dpWrappers plan)"
    and "unwrapKnownDispatchWrapperInvocation host (dpArgv plan) plat = NotWrapper"
    and "suffix (dpArgv plan) argv" and "length (dpWrappers plan) \<le> k"
    and "dpWrappers plan = [] \<longrightarrow> dpArgv plan = argv"
proof -
  obtain current ws where l: "dispatchPlanLoop host plat k argv [] = Inr (current, ws)"
    using assms(1) dispatchPlanLoop_blocked
    by (fastforce simp: resolveDispatchWrapperTrustPlan_def split: sum.splits)
  have p: "plan = \<lparr>dpArgv = current, dpWrappers = ws, dpPolicyBlocked = False, dpBlockedWrapper = None\<rparr>
      \<and> (k \<le> length ws \<longrightarrow> unwrapKnownDispatchWrapperInvocation host current plat = NotWrapper)"
    using assms(1) unfolding plan_def resolveDispatchWrapperTrustPlan_def l
    by (auto simp: Let_def blockedDispatchWrapperPlan_def split: if_splits unwrap_result.splits)
  with l dispatchPlanLoop_open [OF l]
  show "dispatchPlanLoop host plat k argv [] = Inr (dpArgv plan, dpWrappers plan)"
    "unwrapKnownDispatchWrapperInvocation host (dpArgv plan) plat = NotWrapper"
    "suffix (dpArgv plan) argv" "length (dpWrappers plan) \<le> k"
    "dpWrappers plan = [] \<longrightarrow> dpArgv plan = argv"
    by (auto simp: not_le)
qed

section \<open>Shells are no wrappers\<close>

definition bare :: "string \<Rightarrow> string list \<Rightarrow> bool" where
  \<comment> \<open>what the argument vector names is neither a dispatch wrapper nor a shell multiplexer\<close>
  "bare host argv \<longleftrightarrow> unwrapKnownDispatchWrapperInvocation host argv host = NotWrapper
     \<and> unwrapKnownShellMultiplexerInvocation argv = NotWrapper"

lemma shell_bare:
  assumes "isShellWrapperExecutable (headToken argv)"
  shows "bare host argv"
proof -
  let ?n = "normalizeExecutableToken (headToken argv)"
  from assms consider "?n = ''ash''" | "?n = ''bash''" | "?n = ''dash''" | "?n = ''fish''" | "?n = ''ksh''"
    | "?n = ''sh''" | "?n = ''zsh''" | "?n = ''cmd''" | "?n = ''powershell''" | "?n = ''pwsh''"
    by (auto simp: isShellWrapperExecutable_def shellWrapperSpecs_def)
  then show ?thesis
    by cases (simp_all add: bare_def unwrapKnownDispatchWrapperInvocation_def Let_def dispatchSpecByName_def
        dispatchWrapperSpecs_def transparentSpec_def opaqueSpec_def
        unwrapKnownShellMultiplexerInvocation_def shellMultiplexerNames_def)
qed

lemma bare_plan: "bare host argv \<Longrightarrow> resolveDispatchWrapperTrustPlan host argv k host =
    \<lparr>dpArgv = argv, dpWrappers = [], dpPolicyBlocked = False, dpBlockedWrapper = None\<rparr>"
  by (cases k) (simp_all add: resolveDispatchWrapperTrustPlan_def bare_def Let_def)

section \<open>The loop of the trusted plan\<close>

definition policyOk :: "plan_state \<Rightarrow> bool" where
  "policyOk st \<longleftrightarrow>
     (if psSawMultiplexer st
      then isShellWrapperExecutable (headToken (psCurrent st))
        \<and> (\<exists>w. unwrapKnownShellMultiplexerInvocation (psPolicyArgv st) = Unwrapped w (psCurrent st))
      else psPolicyArgv st = psCurrent st)"

definition follows :: "string \<Rightarrow> plan_state \<Rightarrow> plan_state \<Rightarrow> bool" where
  \<comment> \<open>the later state has unwrapped some more, in the way the recursions of the shell part do\<close>
  "follows host st st' \<longleftrightarrow> suffix (psCurrent st') (psCurrent st)
     \<and> (\<exists>new. psChain st' = psChain st @ new
        \<and> (\<forall>levels raw. extractShellWrapperInternal host (levels + length new) (psCurrent st) raw
             = extractShellWrapperInternal host levels (psCurrent st') raw)
        \<and> (\<forall>levels seen. envManipulationInternal host (levels + length new) (psCurrent st) seen
             = envManipulationInternal host levels (psCurrent st') seen))"

lemma follows_refl: "follows host st st"
  by (auto simp: follows_def)

lemma follows_trans:
  assumes "follows host st st'" "follows host st' st''"
  shows "follows host st st''"
proof -
  from assms(1) obtain a where a: "psChain st' = psChain st @ a"
    "\<And>levels raw. extractShellWrapperInternal host (levels + length a) (psCurrent st) raw
             = extractShellWrapperInternal host levels (psCurrent st') raw"
    "\<And>levels seen. envManipulationInternal host (levels + length a) (psCurrent st) seen
             = envManipulationInternal host levels (psCurrent st') seen"
    "suffix (psCurrent st') (psCurrent st)"
    by (auto simp: follows_def)
  from assms(2) obtain b where b: "psChain st'' = psChain st' @ b"
    "\<And>levels raw. extractShellWrapperInternal host (levels + length b) (psCurrent st') raw
             = extractShellWrapperInternal host levels (psCurrent st'') raw"
    "\<And>levels seen. envManipulationInternal host (levels + length b) (psCurrent st') seen
             = envManipulationInternal host levels (psCurrent st'') seen"
    "suffix (psCurrent st'') (psCurrent st')"
    by (auto simp: follows_def)
  have l: "levels + length (a @ b) = (levels + length b) + length a" for levels :: nat by simp
  show ?thesis
    unfolding follows_def
    using a b suffix_order.trans [OF b(4) a(4)]
    by (intro conjI exI [of _ "a @ b"] allI) (simp_all only: l a(2,3) b(2,3) append_assoc)
qed

lemma follows_dispatch:
  assumes "\<not> dpPolicyBlocked (resolveDispatchWrapperTrustPlan host (psCurrent st) k host)"
  shows "follows host st (st\<lparr>psChain := psChain st @ dpWrappers (resolveDispatchWrapperTrustPlan host (psCurrent st) k host),
      psCurrent := dpArgv (resolveDispatchWrapperTrustPlan host (psCurrent st) k host), psPolicyArgv := p\<rparr>)"
  using dispatchPlan_open [OF assms] dispatchPlanLoop_follows [where ws = "[]" and host = host and rounds = k]
  by (auto simp: follows_def)

lemma follows_multiplexer:
  assumes "unwrapKnownDispatchWrapperInvocation host (psCurrent st) host = NotWrapper"
    and "unwrapKnownShellMultiplexerInvocation (psCurrent st) = Unwrapped w inner"
  shows "follows host st (st\<lparr>psChain := psChain st @ [w], psCurrent := inner, psPolicyArgv := p, psSawMultiplexer := True\<rparr>)"
  using assms multiplexer_unwrapped [OF assms(2)] by (auto simp: follows_def)

lemma execPlanLoop_open:
  assumes "execPlanLoop host maxDepth rounds st = Inr st'"
    and "length (psChain st) < maxDepth \<or> rounds = 0" "length (psChain st) \<le> maxDepth"
    and "maxDepth \<le> rounds + length (psChain st)" and "policyOk st"
  shows "follows host st st' \<and> policyOk st' \<and> length (psChain st') \<le> maxDepth
     \<and> (length (psChain st') < maxDepth \<longrightarrow> bare host (psCurrent st'))"
  using assms
proof (induction rounds arbitrary: st)
  case 0
  then show ?case by (auto simp: follows_refl)
next
  case (Suc rounds)
  let ?k = "maxDepth - length (psChain st)"
  let ?plan = "resolveDispatchWrapperTrustPlan host (psCurrent st) ?k host"
  have open_plan: "\<not> dpPolicyBlocked ?plan"
    using Suc.prems(1) by (auto simp: Let_def)
  note d = dispatchPlan_open [OF open_plan]
  have step: ?case
    if f: "follows host st st1" and ok: "policyOk st1" and len: "length (psChain st1) \<le> maxDepth"
      and more: "length (psChain st) < length (psChain st1)"
      and go: "(if maxDepth \<le> length (psChain st1) then Inr st1 else execPlanLoop host maxDepth rounds st1) = Inr st'"
    for st1
  proof (cases "maxDepth \<le> length (psChain st1)")
    case True
    with go f ok len show ?thesis by auto
  next
    case False
    with go Suc.IH [of st1] ok len more Suc.prems(4)
    have "follows host st1 st' \<and> policyOk st' \<and> length (psChain st') \<le> maxDepth
     \<and> (length (psChain st') < maxDepth \<longrightarrow> bare host (psCurrent st'))" by auto
    with f follows_trans show ?thesis by blast
  qed
  show ?case
  proof (cases "dpWrappers ?plan = []")
    case False
    have saw: "\<not> psSawMultiplexer st"
    proof
      assume "psSawMultiplexer st"
      with Suc.prems(5) have "bare host (psCurrent st)" by (auto simp: policyOk_def intro: shell_bare)
      with False bare_plan show False by simp
    qed
    let ?st1 = "st\<lparr>psChain := psChain st @ dpWrappers ?plan, psCurrent := dpArgv ?plan,
                       psPolicyArgv := (if psSawMultiplexer st then psPolicyArgv st else dpArgv ?plan)\<rparr>"
    show ?thesis
    proof (rule step [of ?st1])
      show "follows host st ?st1" by (rule follows_dispatch [OF open_plan])
      show "policyOk ?st1" using saw by (simp add: policyOk_def)
      show "length (psChain ?st1) \<le> maxDepth" using d(4) Suc.prems(3) by simp
      show "length (psChain st) < length (psChain ?st1)" using False by simp
      show "(if maxDepth \<le> length (psChain ?st1) then Inr ?st1 else execPlanLoop host maxDepth rounds ?st1) = Inr st'"
        using Suc.prems(1) open_plan False by (simp add: Let_def)
    qed
  next
    case True
    with d have nw: "unwrapKnownDispatchWrapperInvocation host (psCurrent st) host = NotWrapper" by auto
    show ?thesis
    proof (cases "unwrapKnownShellMultiplexerInvocation (psCurrent st)")
      case NotWrapper
      with Suc.prems open_plan True nw show ?thesis by (auto simp: follows_refl bare_def)
    next
      case (Blocked w)
      with Suc.prems open_plan True show ?thesis by auto
    next
      case (Unwrapped w inner)
      have saw: "\<not> psSawMultiplexer st"
      proof
        assume "psSawMultiplexer st"
        with Suc.prems(5) have "bare host (psCurrent st)" by (auto simp: policyOk_def intro: shell_bare)
        with Unwrapped show False by (simp add: bare_def)
      qed
      let ?st1 = "st\<lparr>psChain := psChain st @ [w], psCurrent := inner,
            psPolicyArgv := (if psSawMultiplexer st then psPolicyArgv st else psCurrent st), psSawMultiplexer := True\<rparr>"
      show ?thesis
      proof (rule step [of ?st1])
        show "follows host st ?st1" by (rule follows_multiplexer [OF nw Unwrapped])
        show "policyOk ?st1" using saw Unwrapped multiplexer_unwrapped(3) [OF Unwrapped] by (auto simp: policyOk_def)
        show "length (psChain ?st1) \<le> maxDepth" using Suc.prems(2,3) by auto
        show "length (psChain st) < length (psChain ?st1)" by simp
        show "(if maxDepth \<le> length (psChain ?st1) then Inr ?st1 else execPlanLoop host maxDepth rounds ?st1) = Inr st'"
          using Suc.prems(1) open_plan True Unwrapped by (simp add: Let_def)
      qed
    qed
  qed
qed

lemma execPlanLoop_blocked: "execPlanLoop host maxDepth rounds st = Inl plan \<Longrightarrow> epPolicyBlocked plan"
proof (induction rounds arbitrary: st)
  case (Suc rounds)
  then show ?case
    by (auto simp: Let_def blockedExecWrapperTrustPlan_def split: if_splits unwrap_result.splits)
qed simp

text \<open>What a plan that is not blocked comes from.\<close>

lemma exec_plan_open:
  assumes "\<not> epPolicyBlocked (resolveExecWrapperTrustPlan host argv maxDepth)"
  obtains st where "resolveExecWrapperTrustPlan host argv maxDepth =
      finalizeExecWrapperTrustPlan host (psCurrent st) (psPolicyArgv st) (psChain st) False None"
    and "bare host (psCurrent st)" "policyOk st" "length (psChain st) \<le> maxDepth"
    and "follows host \<lparr>psCurrent = argv, psPolicyArgv = argv, psSawMultiplexer = False, psChain = []\<rparr> st"
proof -
  let ?st0 = "\<lparr>psCurrent = argv, psPolicyArgv = argv, psSawMultiplexer = False, psChain = []\<rparr>"
  obtain st where l: "execPlanLoop host maxDepth maxDepth ?st0 = Inr st"
    using assms execPlanLoop_blocked
    by (fastforce simp: resolveExecWrapperTrustPlan_def split: sum.splits)
  have o: "follows host ?st0 st \<and> policyOk st \<and> length (psChain st) \<le> maxDepth
     \<and> (length (psChain st) < maxDepth \<longrightarrow> bare host (psCurrent st))"
    by (rule execPlanLoop_open [OF l]) (auto simp: policyOk_def)
  have p: "resolveExecWrapperTrustPlan host argv maxDepth =
      finalizeExecWrapperTrustPlan host (psCurrent st) (psPolicyArgv st) (psChain st) False None
     \<and> (maxDepth \<le> length (psChain st) \<longrightarrow> bare host (psCurrent st))"
    using assms unfolding resolveExecWrapperTrustPlan_def l bare_def
    by (auto simp: Let_def blockedExecWrapperTrustPlan_def split: if_splits unwrap_result.splits)
  show thesis
    by (rule that [of st]) (use o p in \<open>auto simp: not_le\<close>)
qed

section \<open>What the trusted plan guarantees\<close>

text \<open>
  C11. What is checked is what runs: unless the plan is blocked, its argument vector is the tail of the
  one given, starts with a program that is neither a dispatch wrapper nor a shell multiplexer, and was
  reached through at most \<open>maxDepth\<close> wrappers; there is no deeper wrapper to hide a command behind.
\<close>

theorem exec_plan_fully_unwrapped:
  assumes "\<not> epPolicyBlocked (resolveExecWrapperTrustPlan host argv maxDepth)"
  shows "suffix (epArgv (resolveExecWrapperTrustPlan host argv maxDepth)) argv
    \<and> length (epWrapperChain (resolveExecWrapperTrustPlan host argv maxDepth)) \<le> maxDepth
    \<and> unwrapKnownDispatchWrapperInvocation host (epArgv (resolveExecWrapperTrustPlan host argv maxDepth)) host = NotWrapper
    \<and> unwrapKnownShellMultiplexerInvocation (epArgv (resolveExecWrapperTrustPlan host argv maxDepth)) = NotWrapper"
  by (rule exec_plan_open [OF assms]) (auto simp: finalizeExecWrapperTrustPlan_def Let_def bare_def follows_def)

text \<open>
  The argument vector the allowlist is checked against is the one that runs, or a multiplexer such
  as \<open>busybox\<close> that was seen on the way and whose applet is the one that runs.
\<close>

theorem exec_plan_policy_target:
  assumes "\<not> epPolicyBlocked (resolveExecWrapperTrustPlan host argv maxDepth)"
  shows "epPolicyArgv (resolveExecWrapperTrustPlan host argv maxDepth)
      = epArgv (resolveExecWrapperTrustPlan host argv maxDepth)
    \<or> (\<exists>w. unwrapKnownShellMultiplexerInvocation (epPolicyArgv (resolveExecWrapperTrustPlan host argv maxDepth))
        = Unwrapped w (epArgv (resolveExecWrapperTrustPlan host argv maxDepth)))"
  by (rule exec_plan_open [OF assms])
    (auto simp: finalizeExecWrapperTrustPlan_def Let_def policyOk_def split: if_splits)

lemma find_shell_iff: "findShellWrapperSpec (normalizeExecutableToken t) = None \<longleftrightarrow> \<not> isShellWrapperExecutable t"
  by (auto simp: findShellWrapperSpec_def isShellWrapperExecutable_def find_None_iff)

lemma no_shell_no_payload: "\<not> isShellWrapperExecutable (headToken argv) \<Longrightarrow> shellPayloadOf argv = None"
  using find_shell_iff [of "headToken argv"] by (simp add: shellPayloadOf_def)

lemma bare_extract:
  "bare host argv \<Longrightarrow> extractShellWrapperInternal host (Suc levels) argv raw =
     (if headToken argv = [] then noShellWrapper else case shellPayloadOf argv of
        None \<Rightarrow> noShellWrapper | Some payload \<Rightarrow> \<lparr>swIsWrapper = True, swCommand = orElse raw (Some payload)\<rparr>)"
  by (simp add: bare_def)

lemma bare_env: "bare host argv \<Longrightarrow> \<not> envManipulationInternal host (Suc levels) argv False"
  by (simp add: bare_def)

text \<open>
  C12. The two resolvers agree on the inline command: for a command whose plan is not blocked, the inline shell
  command of the plan is the one that \<open>extractShellWrapperInlineCommand\<close> finds by its own recursion over the
  wrappers, and that recursion sees no change of the environment on the way.
\<close>

theorem exec_plan_matches_extraction:
  assumes "\<not> epPolicyBlocked (resolveExecWrapperTrustPlan host argv maxDispatchWrapperDepth)"
  shows "epShellInlineCommand (resolveExecWrapperTrustPlan host argv maxDispatchWrapperDepth)
      = extractShellWrapperInlineCommand host argv
    \<and> \<not> hasEnvManipulationBeforeShellWrapper host argv"
proof (rule exec_plan_open [OF assms])
  fix st
  let ?p = "resolveExecWrapperTrustPlan host argv maxDispatchWrapperDepth"
  assume p: "?p = finalizeExecWrapperTrustPlan host (psCurrent st) (psPolicyArgv st) (psChain st) False None"
    and b: "bare host (psCurrent st)" and len: "length (psChain st) \<le> maxDispatchWrapperDepth"
    and f: "follows host \<lparr>psCurrent = argv, psPolicyArgv = argv, psSawMultiplexer = False, psChain = []\<rparr> st"
  obtain l where l: "maxDispatchWrapperDepth + 1 = Suc l + length (psChain st)"
    using len by (metis add.commute add_Suc_right le_add_diff_inverse plus_1_eq_Suc)
  have e: "extractShellWrapperInternal host (maxDispatchWrapperDepth + 1) argv None
      = extractShellWrapperInternal host (Suc l) (psCurrent st) None"
    and m: "envManipulationInternal host (maxDispatchWrapperDepth + 1) argv False
      = envManipulationInternal host (Suc l) (psCurrent st) False"
    using f unfolding l follows_def plan_state.simps append_Nil by blast+
  have five: "maxDispatchWrapperDepth + 1 = Suc 4" by (simp add: maxDispatchWrapperDepth_def)
  have "extractShellWrapperInlineCommand host argv = extractShellWrapperInlineCommand host (psCurrent st)"
    unfolding extractShellWrapperInlineCommand_def e unfolding five bare_extract [OF b] ..
  moreover have "epShellInlineCommand ?p = extractShellWrapperInlineCommand host (psCurrent st)"
  proof (cases "headToken (psCurrent st) \<noteq> [] \<and> isShellWrapperExecutable (headToken (psCurrent st))")
    case True
    then show ?thesis by (simp add: p finalizeExecWrapperTrustPlan_def)
  next
    case False
    then have "extractShellWrapperInlineCommand host (psCurrent st) = None"
      unfolding extractShellWrapperInlineCommand_def five bare_extract [OF b]
      by (auto simp: no_shell_no_payload noShellWrapper_def)
    with False show ?thesis by (auto simp: p finalizeExecWrapperTrustPlan_def Let_def)
  qed
  ultimately show ?thesis
    using m bare_env [OF b] by (simp add: hasEnvManipulationBeforeShellWrapper_def)
qed

definition demoArgv :: "string list" where
  "demoArgv = [''/usr/bin/env'', ''--'', ''nice'', ''-n'', ''5'', ''busybox'', ''sh'', ''-c'', ''ls -l'']"

definition demoPlan :: exec_trust_plan where
  "demoPlan = \<lparr>epArgv = [''sh'', ''-c'', ''ls -l''], epPolicyArgv = [''busybox'', ''sh'', ''-c'', ''ls -l''],
     epWrapperChain = [''env'', ''nice'', ''busybox''], epPolicyBlocked = False, epBlockedWrapper = None,
     epShellWrapperExecutable = True, epShellInlineCommand = Some ''ls -l''\<rparr>"

lemma demo_plan: "resolveExecWrapperTrustPlan ''linux'' demoArgv maxDispatchWrapperDepth = demoPlan"
  by code_simp

lemma demo_open: "\<not> epPolicyBlocked (resolveExecWrapperTrustPlan ''linux'' demoArgv maxDispatchWrapperDepth)"
  by (simp add: demo_plan demoPlan_def)

lemma exec_plan_fully_unwrapped_witness:
  "unwrapKnownDispatchWrapperInvocation ''linux'' [''sh'', ''-c'', ''ls -l''] ''linux'' = NotWrapper
   \<and> suffix [''sh'', ''-c'', ''ls -l''] demoArgv"
  using exec_plan_fully_unwrapped [OF demo_open] by (simp add: demo_plan) (simp add: demoPlan_def)

lemma exec_plan_policy_target_witness:
  "\<exists>w. unwrapKnownShellMultiplexerInvocation [''busybox'', ''sh'', ''-c'', ''ls -l''] = Unwrapped w [''sh'', ''-c'', ''ls -l'']"
  using exec_plan_policy_target [OF demo_open] by (simp add: demo_plan) (simp add: demoPlan_def)

lemma exec_plan_matches_extraction_witness:
  "extractShellWrapperInlineCommand ''linux'' demoArgv = Some ''ls -l''
   \<and> \<not> hasEnvManipulationBeforeShellWrapper ''linux'' demoArgv"
  using exec_plan_matches_extraction [OF demo_open] by (simp add: demo_plan) (simp add: demoPlan_def)

section \<open>Transparent \<open>env\<close>\<close>

lemma env_consume_blank:
  "\<not> envModifiersLoop True xs \<Longrightarrow> scanLoop seps onToken st True xs = Some (rest, e) \<Longrightarrow> e"
  by (induction xs arbitrary: rest e) (auto simp: Let_def split: if_splits)

lemma env_transparent_prefix:
  "\<not> envModifiersLoop False xs \<Longrightarrow>
   scanLoop [''--'', ''-''] (stateless envOnToken) () False xs = Some (rest, False) \<Longrightarrow>
   \<exists>pre. xs = pre @ rest \<and> list_all (\<lambda>a. trim a \<in> {[], ''--'', ''-''}) pre"
proof (induction xs)
  case (Cons arg xs)
  consider (blank) "trim arg = []" | (sep) "trim arg = ''--'' \<or> trim arg = ''-''"
    | (other) "trim arg \<noteq> []" "trim arg \<noteq> ''--''" "trim arg \<noteq> ''-''" by blast
  then show ?case
  proof cases
    case blank
    with Cons obtain pre where "xs = pre @ rest \<and> list_all (\<lambda>a. trim a \<in> {[], ''--'', ''-''}) pre" by auto
    with blank show ?thesis by (intro exI [of _ "arg # pre"]) simp
  next
    case sep
    with Cons.prems show ?thesis by (intro exI [of _ "[arg]"]) auto
  next
    case other
    with Cons.prems have "\<not> isEnvAssignment (trim arg)" by (auto simp: Let_def)
    with other Cons.prems have "rest = arg # xs"
      by (auto simp: Let_def stateless_def envOnToken_def split: if_splits dest!: env_consume_blank)
    then show ?thesis by simp
  qed
qed simp

text \<open>
  An \<open>env\<close> that counts as transparent changes nothing on its command line: between it and the
  command it dispatches to there are only blank arguments and the separators \<open>-\<close> and \<open>--\<close>; every
  option and every assignment makes the plan blocked.
\<close>

theorem transparent_env_changes_nothing:
  assumes "normalizeExecutableToken (headToken argv) = ''env''"
    and "resolveDispatchWrapperTrustPlan host argv (Suc n) plat = plan" "\<not> dpPolicyBlocked plan"
  shows "\<exists>pre inner. drop 1 argv = pre @ inner \<and> unwrapEnvInvocation argv = Some inner
    \<and> list_all (\<lambda>a. trim a \<in> {[], ''--'', ''-''}) pre"
proof -
  have spec: "mapGet (dispatchSpecByName host) ''env'' = Some \<lparr>dsName = ''env'',
      dsUnwrap = Some (\<lambda>argv _. unwrapEnvInvocation argv), dsTransparent = WhenUsed (\<lambda>argv _. \<not> envInvocationUsesModifiers argv)\<rparr>"
    by (simp add: dispatchSpecByName_def dispatchWrapperSpecs_def transparentSpec_def opaqueSpec_def)
  have head: "headToken argv \<noteq> []"
  proof
    assume "headToken argv = []"
    then have "normalizeExecutableToken [] = ''env''" using assms(1) by simp
    moreover have "normalizeExecutableToken [] = []" by code_simp
    ultimately show False by simp
  qed
  have u: "unwrapKnownDispatchWrapperInvocation host argv plat =
      unwrapDispatchWrapper ''env'' (unwrapEnvInvocation argv)"
    using head by (simp add: unwrapKnownDispatchWrapperInvocation_def assms(1) spec)
  have o: "\<not> dpPolicyBlocked (resolveDispatchWrapperTrustPlan host argv (Suc n) plat)"
    using assms(2,3) by simp
  obtain inner where inner: "unwrapEnvInvocation argv = Some inner"
    using dispatchPlan_open(1) [OF o] u
    by (cases "unwrapEnvInvocation argv") (auto simp: unwrapDispatchWrapper_def)
  have "\<not> envInvocationUsesModifiers argv"
    using dispatchPlan_open(1) [OF o] u inner dispatch_unwrapped(1) [of host argv plat "''env''" inner] spec
    by (auto simp: unwrapDispatchWrapper_def isSemanticDispatchWrapperUsage_def split: if_splits)
  moreover from inner have "scanLoop [''--'', ''-''] (stateless envOnToken) () False (drop 1 argv) = Some (inner, False)"
    by (auto simp: unwrapEnvInvocation_def scanWrapperInvocation_def split: option.splits if_splits)
  ultimately obtain pre where "drop 1 argv = pre @ inner" "list_all (\<lambda>a. trim a \<in> {[], ''--'', ''-''}) pre"
    using env_transparent_prefix [of "drop 1 argv" inner] by (auto simp: envInvocationUsesModifiers_def)
  with inner show ?thesis by blast
qed

lemma transparent_env_changes_nothing_witness:
  "\<exists>pre inner. drop 1 demoArgv = pre @ inner \<and> unwrapEnvInvocation demoArgv = Some inner
    \<and> list_all (\<lambda>a. trim a \<in> {[], ''--'', ''-''}) pre"
proof (rule transparent_env_changes_nothing [where n = 3 and host = "''linux''" and plat = "''linux''"])
  show "normalizeExecutableToken (headToken demoArgv) = ''env''" by code_simp
  show "\<not> dpPolicyBlocked (resolveDispatchWrapperTrustPlan ''linux'' demoArgv (Suc 3) ''linux'')" by code_simp
qed (rule refl)

text \<open>
  A lone \<open>-\<close> slips through: \<open>env -i node\<close> is blocked because it empties the environment, but
  \<open>env - node\<close>, which means the same to \<open>env(1)\<close>, counts as a transparent wrapper.
\<close>

theorem env_lone_dash_is_trusted:
  "epPolicyBlocked (resolveExecWrapperTrustPlan ''linux'' [''env'', ''-i'', ''node''] 4)
   \<and> \<not> epPolicyBlocked (resolveExecWrapperTrustPlan ''linux'' [''env'', ''-'', ''node''] 4)
   \<and> epArgv (resolveExecWrapperTrustPlan ''linux'' [''env'', ''-'', ''node''] 4) = [''node'']"
  by (intro conjI; code_simp)

end
