(* ===== verification/ExecApproval.thy ===== *)
theory ExecApproval
  imports Prelude
begin

text \<open>
  The approvals a gateway asks for before a command or a plugin action runs,
  \<open>src/src/gateway/exec-approval-manager.ts\<close>: creation and registration, decision, expiry by timer,
  the grace period in which a decided entry is kept, one-time approvals, lookup by prefix.

  Entries are objects whose identity matters (a grace timer deletes only its own entry), so the model
  keeps every entry ever registered in a list and knows it by its position; \<open>pending\<close> maps ids to
  positions. A promise is known by the position of its entry and \<open>settled\<close> logs every call of its
  \<open>resolve\<close>. The expiry timer of an entry is the flag \<open>peTimer\<close>, the grace timers that are running are
  listed in \<open>graceTimers\<close>; that a timer fires is an event. The record handed to \<open>register\<close> belongs to the
  entry from then on: the callers create it, add their metadata and register it once. \<open>randomUUID\<close> is
  an argument.
\<close>

section \<open>State\<close>

datatype decision = AllowOnce | AllowAlways | Deny

record 'p approval_record =
  apId :: string
  apRequest :: 'p
  apCreatedAtMs :: int
  apExpiresAtMs :: int
  apConnId :: "string option"
  apDeviceId :: "string option"
  apClientId :: "string option"
  apResolvedAtMs :: "int option"
  apDecision :: "decision option"
  apResolvedBy :: "string option"

record 'p pending_entry =
  peRecord :: "'p approval_record"
  peTimer :: bool

record 'p approval_manager =
  amEntries :: "'p pending_entry list"
  pending :: "(string, nat) jsmap"
  graceTimers :: "(string \<times> nat) list"
  settled :: "(nat \<times> decision option) list"

definition initialManager :: "'p approval_manager" where
  "initialManager = \<lparr>amEntries = [], pending = [], graceTimers = [], settled = []\<rparr>"

definition entryAt :: "'p approval_manager \<Rightarrow> nat \<Rightarrow> 'p pending_entry" where
  "entryAt m r = amEntries m ! r"

definition recordAt :: "'p approval_manager \<Rightarrow> nat \<Rightarrow> 'p approval_record" where
  "recordAt m r = peRecord (entryAt m r)"

definition setEntry :: "nat \<Rightarrow> 'p pending_entry \<Rightarrow> 'p approval_manager \<Rightarrow> 'p approval_manager" where
  "setEntry r e m = m\<lparr>amEntries := (amEntries m)[r := e]\<rparr>"

section \<open>Operations\<close>

definition createApproval :: "'p \<Rightarrow> int \<Rightarrow> string option \<Rightarrow> string \<Rightarrow> int \<Rightarrow> 'p approval_record" where
  "createApproval request timeoutMs ident uuid now =
     \<lparr>apId = coalesce (trimmed ident) uuid, apRequest = request, apCreatedAtMs = now,
      apExpiresAtMs = now + timeoutMs, apConnId = None, apDeviceId = None, apClientId = None,
      apResolvedAtMs = None, apDecision = None, apResolvedBy = None\<rparr>"

datatype register_error = AlreadyResolved string

definition registerApproval ::
  "'p approval_record \<Rightarrow> 'p approval_manager \<Rightarrow> (register_error + nat) \<times> 'p approval_manager" where
  "registerApproval rec m =
     (case mapGet (pending m) (apId rec) of
        Some r \<Rightarrow>
          (if apResolvedAtMs (recordAt m r) = None then (Inr r, m)
           else (Inl (AlreadyResolved (apId rec)), m))
      | None \<Rightarrow>
          (let r = length (amEntries m)
           in (Inr r, m\<lparr>amEntries := amEntries m @ [\<lparr>peRecord = rec, peTimer = True\<rparr>],
                        pending := mapSet (apId rec) r (pending m)\<rparr>)))"

definition settleEntry ::
  "string \<Rightarrow> nat \<Rightarrow> decision option \<Rightarrow> string option \<Rightarrow> int \<Rightarrow> 'p approval_manager \<Rightarrow> 'p approval_manager" where
  \<comment> \<open>what \<open>resolve\<close> and \<open>expire\<close> do with an entry that is still open\<close>
  "settleEntry recordId r d resolvedBy now m =
     (let e = entryAt m r;
          m1 = setEntry r \<lparr>peRecord = (peRecord e)\<lparr>apResolvedAtMs := Some now, apDecision := d,
                             apResolvedBy := resolvedBy\<rparr>, peTimer = False\<rparr> m
      in m1\<lparr>settled := settled m1 @ [(r, d)], graceTimers := graceTimers m1 @ [(recordId, r)]\<rparr>)"

definition resolveApproval ::
  "string \<Rightarrow> decision \<Rightarrow> string option \<Rightarrow> int \<Rightarrow> 'p approval_manager \<Rightarrow> bool \<times> 'p approval_manager" where
  "resolveApproval recordId d resolvedBy now m =
     (case mapGet (pending m) recordId of
        None \<Rightarrow> (False, m)
      | Some r \<Rightarrow>
          if apResolvedAtMs (recordAt m r) \<noteq> None then (False, m)
          else (True, settleEntry recordId r (Some d) resolvedBy now m))"

definition expireApproval ::
  "string \<Rightarrow> string option \<Rightarrow> int \<Rightarrow> 'p approval_manager \<Rightarrow> bool \<times> 'p approval_manager" where
  "expireApproval recordId resolvedBy now m =
     (case mapGet (pending m) recordId of
        None \<Rightarrow> (False, m)
      | Some r \<Rightarrow>
          if apResolvedAtMs (recordAt m r) \<noteq> None then (False, m)
          else (True, settleEntry recordId r None resolvedBy now m))"

definition getSnapshot :: "string \<Rightarrow> 'p approval_manager \<Rightarrow> 'p approval_record option" where
  "getSnapshot recordId m = map_option (recordAt m) (mapGet (pending m) recordId)"

definition consumeAllowOnce :: "string \<Rightarrow> 'p approval_manager \<Rightarrow> bool \<times> 'p approval_manager" where
  "consumeAllowOnce recordId m =
     (case mapGet (pending m) recordId of
        None \<Rightarrow> (False, m)
      | Some r \<Rightarrow>
          if apDecision (recordAt m r) \<noteq> Some AllowOnce then (False, m)
          else (True, setEntry r ((entryAt m r)\<lparr>peRecord := (recordAt m r)\<lparr>apDecision := None\<rparr>\<rparr>) m))"

definition awaitDecision :: "string \<Rightarrow> 'p approval_manager \<Rightarrow> nat option" where
  "awaitDecision recordId m = mapGet (pending m) recordId"

datatype id_lookup = LookupExact string | LookupPrefix string | LookupAmbiguous "string list" | LookupNone

definition pendingMatches :: "string \<Rightarrow> 'p approval_manager \<Rightarrow> string list" where
  "pendingMatches lowerPrefix m =
     map fst (filter (\<lambda>(i, r). apResolvedAtMs (recordAt m r) = None \<and> startsWith (toLowerCase i) lowerPrefix)
                (pending m))"

definition lookupPendingId :: "string \<Rightarrow> 'p approval_manager \<Rightarrow> id_lookup" where
  "lookupPendingId input m =
     (let normalized = trim input
      in if normalized = [] then LookupNone
         else (case mapGet (pending m) normalized of
                 Some r \<Rightarrow> if apResolvedAtMs (recordAt m r) = None then LookupExact normalized else LookupNone
               | None \<Rightarrow>
                   (case pendingMatches (toLowerCase normalized) m of
                      [] \<Rightarrow> LookupNone
                    | [i] \<Rightarrow> LookupPrefix i
                    | i # j # is \<Rightarrow> LookupAmbiguous (i # j # is))))"

definition expiryFires :: "nat \<Rightarrow> int \<Rightarrow> 'p approval_manager \<Rightarrow> 'p approval_manager" where
  \<comment> \<open>the timer set by \<open>register\<close>\<close>
  "expiryFires r now m =
     (if r < length (amEntries m) \<and> peTimer (entryAt m r)
      then snd (expireApproval (apId (recordAt m r)) None now (setEntry r ((entryAt m r)\<lparr>peTimer := False\<rparr>) m))
      else m)"

definition graceFires :: "string \<Rightarrow> nat \<Rightarrow> 'p approval_manager \<Rightarrow> 'p approval_manager" where
  \<comment> \<open>a timer set by \<open>resolve\<close> or \<open>expire\<close>\<close>
  "graceFires recordId r m =
     (if (recordId, r) \<in> set (graceTimers m)
      then (let m1 = m\<lparr>graceTimers := remove1 (recordId, r) (graceTimers m)\<rparr>
            in if mapGet (pending m1) recordId = Some r then m1\<lparr>pending := mapDelete recordId (pending m1)\<rparr> else m1)
      else m)"

datatype 'p approval_event =
    ApRegister "'p approval_record"
  | ApResolve string decision "string option" int
  | ApExpire string "string option" int
  | ApExpiryFires nat int
  | ApGraceFires string nat
  | ApConsume string

fun applyApproval :: "'p approval_event \<Rightarrow> 'p approval_manager \<Rightarrow> 'p approval_manager" where
  "applyApproval (ApRegister rec) m = snd (registerApproval rec m)"
| "applyApproval (ApResolve i d by' now) m = snd (resolveApproval i d by' now m)"
| "applyApproval (ApExpire i by' now) m = snd (expireApproval i by' now m)"
| "applyApproval (ApExpiryFires r now) m = expiryFires r now m"
| "applyApproval (ApGraceFires i r) m = graceFires i r m"
| "applyApproval (ApConsume i) m = snd (consumeAllowOnce i m)"

fun freshRecord :: "'p approval_event \<Rightarrow> bool" where
  \<comment> \<open>a record is registered as \<open>create\<close> made it, with the caller's metadata added\<close>
  "freshRecord (ApRegister rec) \<longleftrightarrow> apResolvedAtMs rec = None \<and> apDecision rec = None \<and> apResolvedBy rec = None"
| "freshRecord _ \<longleftrightarrow> True"

section \<open>Invariant\<close>

lemma entryAt_setEntry: "r < length (amEntries m) \<Longrightarrow>
    entryAt (setEntry r e m) k = (if k = r then e else entryAt m k)"
  by (auto simp: entryAt_def setEntry_def)

lemma setEntry_simps [simp]:
  "length (amEntries (setEntry r e m)) = length (amEntries m)"
  "pending (setEntry r e m) = pending m" "graceTimers (setEntry r e m) = graceTimers m"
  "settled (setEntry r e m) = settled m"
  by (simp_all add: setEntry_def)

definition registeredAt :: "'p approval_manager \<Rightarrow> nat \<Rightarrow> bool" where
  "registeredAt m r \<longleftrightarrow> r < length (amEntries m) \<and> mapGet (pending m) (apId (recordAt m r)) = Some r"

definition entryOk :: "'p approval_manager \<Rightarrow> nat \<Rightarrow> bool" where
  "entryOk m r \<longleftrightarrow>
     (if apResolvedAtMs (recordAt m r) = None
      then registeredAt m r \<and> peTimer (entryAt m r) \<and> r \<notin> fst ` set (settled m)
        \<and> apDecision (recordAt m r) = None \<and> apResolvedBy (recordAt m r) = None
      else \<not> peTimer (entryAt m r) \<and> r \<in> fst ` set (settled m)
        \<and> (registeredAt m r \<longrightarrow> (apId (recordAt m r), r) \<in> set (graceTimers m)))"

definition managerInv :: "'p approval_manager \<Rightarrow> bool" where
  "managerInv m \<longleftrightarrow> wfMap (pending m)
     \<and> (\<forall>i r. mapGet (pending m) i = Some r \<longrightarrow> r < length (amEntries m) \<and> apId (recordAt m r) = i)
     \<and> (\<forall>r < length (amEntries m). entryOk m r)
     \<and> (\<forall>(i, r) \<in> set (graceTimers m). r < length (amEntries m) \<and> apResolvedAtMs (recordAt m r) \<noteq> None
          \<and> apId (recordAt m r) = i \<and> registeredAt m r)
     \<and> distinct (graceTimers m)
     \<and> distinct (map fst (settled m)) \<and> fst ` set (settled m) \<subseteq> {..<length (amEntries m)}"

lemma managerInvD:
  assumes "managerInv m"
  shows "wfMap (pending m)"
    and "mapGet (pending m) i = Some r \<Longrightarrow> r < length (amEntries m) \<and> apId (recordAt m r) = i"
    and "r < length (amEntries m) \<Longrightarrow> entryOk m r"
    and "distinct (map fst (settled m))"
    and "fst ` set (settled m) \<subseteq> {..<length (amEntries m)}"
    and "(i, r) \<in> set (graceTimers m) \<Longrightarrow> r < length (amEntries m) \<and> apResolvedAtMs (recordAt m r) \<noteq> None
          \<and> apId (recordAt m r) = i \<and> registeredAt m r"
    and "distinct (graceTimers m)"
  using assms by (auto simp: managerInv_def)

lemma managerInv_initial: "managerInv initialManager"
  by (simp add: managerInv_def initialManager_def)

lemma register_new_inv:
  fixes m :: "'p approval_manager" and rec :: "'p approval_record"
  assumes m: "managerInv m" and fresh: "freshRecord (ApRegister rec)" and new: "mapGet (pending m) (apId rec) = None"
  defines "m' \<equiv> m\<lparr>amEntries := amEntries m @ [\<lparr>peRecord = rec, peTimer = True\<rparr>],
                 pending := mapSet (apId rec) (length (amEntries m)) (pending m)\<rparr>"
  shows "managerInv m'"
proof -
  let ?n = "length (amEntries m)"
  have old: "entryAt m' r = entryAt m r" "recordAt m' r = recordAt m r" if "r < ?n" for r
    using that by (simp_all add: m'_def entryAt_def recordAt_def nth_append)
  have at: "entryAt m' ?n = \<lparr>peRecord = rec, peTimer = True\<rparr>" "recordAt m' ?n = rec"
    by (simp_all add: m'_def entryAt_def recordAt_def)
  have len: "length (amEntries m') = Suc ?n" by (simp add: m'_def)
  have fields: "pending m' = mapSet (apId rec) ?n (pending m)" "graceTimers m' = graceTimers m"
    "settled m' = settled m" by (simp_all add: m'_def)
  have reg: "registeredAt m' r \<longleftrightarrow> registeredAt m r" if "r < ?n" for r
    using that new by (cases "apId (recordAt m r) = apId rec") (simp_all add: registeredAt_def old len fields)
  have ok: "entryOk m' r" if "r < Suc ?n" for r
  proof (cases "r = ?n")
    case True
    have "?n \<notin> fst ` set (settled m)" using managerInvD(5) [OF m] by auto
    with True fresh show ?thesis
      by (simp add: entryOk_def at registeredAt_def len fields)
  next
    case False
    with that managerInvD(3) [OF m, of r] reg [of r] show ?thesis
      by (simp add: entryOk_def old fields)
  qed
  have p: "mapGet (pending m') i = Some r \<Longrightarrow> r < Suc ?n \<and> apId (recordAt m' r) = i" for i r
    using managerInvD(2) [OF m, of i r] at old [of r] by (auto simp: fields mapGet_set split: if_splits)
  have g: "\<forall>(i, r) \<in> set (graceTimers m'). r < Suc ?n \<and> apResolvedAtMs (recordAt m' r) \<noteq> None
          \<and> apId (recordAt m' r) = i \<and> registeredAt m' r"
    using managerInvD(6) [OF m] old reg by (auto simp: fields less_SucI)
  show ?thesis
    unfolding managerInv_def len
  proof (intro conjI)
    show "wfMap (pending m')" using managerInvD(1) [OF m] by (simp add: fields)
    show "fst ` set (settled m') \<subseteq> {..<Suc ?n}" using managerInvD(5) [OF m] by (auto simp: fields)
  qed (use p ok g managerInvD(4,7) [OF m] in \<open>simp_all add: fields\<close>)
qed

lemma registerApproval_inv:
  "managerInv m \<Longrightarrow> freshRecord (ApRegister rec) \<Longrightarrow> managerInv (snd (registerApproval rec m))"
  using register_new_inv [of m rec]
  by (auto simp: registerApproval_def Let_def simp del: freshRecord.simps split: option.splits)

text \<open>An open entry that is decided, whether its timer still runs or has just fired.\<close>

lemma settleEntry_inv:
  fixes m :: "'p approval_manager" and d :: "decision option" and b :: "string option" and now :: int and t :: bool
    and i :: string and r :: nat
  assumes m: "managerInv m" and i: "mapGet (pending m) i = Some r"
    and u: "apResolvedAtMs (recordAt m r) = None"
  defines "m' \<equiv> settleEntry i r d b now (setEntry r ((entryAt m r)\<lparr>peTimer := t\<rparr>) m)"
  shows "managerInv m'"
proof -
  note ok = managerInvD(2) [OF m i]
  then have len: "length (amEntries m') = length (amEntries m)"
    by (simp add: m'_def settleEntry_def Let_def)
  have rec: "recordAt m' k = (if k = r then (recordAt m r)\<lparr>apResolvedAtMs := Some now, apDecision := d, apResolvedBy := b\<rparr>
      else recordAt m k)" for k
    using ok by (simp add: m'_def settleEntry_def Let_def recordAt_def entryAt_def setEntry_def)
  have tim: "peTimer (entryAt m' k) = (k \<noteq> r \<and> peTimer (entryAt m k))" for k
    using ok by (cases "k = r") (simp_all add: m'_def settleEntry_def Let_def recordAt_def entryAt_def setEntry_def)
  have fields: "pending m' = pending m" "graceTimers m' = graceTimers m @ [(i, r)]" "settled m' = settled m @ [(r, d)]"
    by (simp_all add: m'_def settleEntry_def Let_def)
  have reg: "registeredAt m' k \<longleftrightarrow> registeredAt m k" for k
    by (simp add: registeredAt_def len rec fields)
  have fresh: "r \<notin> fst ` set (settled m)" "(i, r) \<notin> set (graceTimers m)"
    using managerInvD(3) [OF m, of r] managerInvD(6) [OF m, of i r] ok u by (auto simp: entryOk_def)
  have e: "entryOk m' k" if "k < length (amEntries m)" for k
    using managerInvD(3) [OF m that] ok by (auto simp: entryOk_def rec tim fields reg)
  have r: "registeredAt m r" using i ok by (simp add: registeredAt_def)
  show ?thesis
    unfolding managerInv_def len
    using m ok r fresh e managerInvD(2) [OF m]
    by (auto simp: managerInv_def rec fields reg split: prod.splits)
qed

lemma setEntry_same: "setEntry r (entryAt m r) m = m"
  by (simp add: setEntry_def entryAt_def)

lemma settleEntry_open_inv:
  "managerInv m \<Longrightarrow> mapGet (pending m) i = Some r \<Longrightarrow> apResolvedAtMs (recordAt m r) = None \<Longrightarrow>
   managerInv (settleEntry i r d b now m)"
  using settleEntry_inv [of m i r d b now "peTimer (entryAt m r)"] by (simp add: setEntry_same)

lemma resolveApproval_inv: "managerInv m \<Longrightarrow> managerInv (snd (resolveApproval i d b now m))"
  by (auto simp: resolveApproval_def settleEntry_open_inv split: option.splits)

lemma expireApproval_inv: "managerInv m \<Longrightarrow> managerInv (snd (expireApproval i b now m))"
  by (auto simp: expireApproval_def settleEntry_open_inv split: option.splits)

lemma expiryFires_inv:
  assumes m: "managerInv m"
  shows "managerInv (expiryFires r now m)"
proof (cases "r < length (amEntries m) \<and> peTimer (entryAt m r)")
  case True
  then have o: "apResolvedAtMs (recordAt m r) = None" and g: "mapGet (pending m) (apId (recordAt m r)) = Some r"
    using managerInvD(3) [OF m, of r] by (auto simp: entryOk_def registeredAt_def split: if_splits)
  have same: "recordAt (setEntry r ((entryAt m r)\<lparr>peTimer := False\<rparr>) m) r = recordAt m r"
    using True by (simp add: recordAt_def entryAt_setEntry)
  show ?thesis
    using True o g settleEntry_inv [OF m g o, of None None now False]
    by (simp add: expiryFires_def expireApproval_def same)
qed (use m in \<open>auto simp: expiryFires_def\<close>)

lemma graceFires_inv:
  assumes m: "managerInv m"
  shows "managerInv (graceFires i r m)"
proof (cases "(i, r) \<in> set (graceTimers m)")
  case True
  note t = managerInvD(6) [OF m True]
  define m' where "m' = graceFires i r m"
  have fields: "amEntries m' = amEntries m" "settled m' = settled m" "pending m' = mapDelete i (pending m)"
    "graceTimers m' = remove1 (i, r) (graceTimers m)"
    using t True unfolding m'_def by (auto simp: graceFires_def registeredAt_def Let_def)
  have at: "recordAt m' k = recordAt m k" "entryAt m' k = entryAt m k" for k
    by (simp_all add: recordAt_def entryAt_def fields)
  have reg: "registeredAt m' k \<longleftrightarrow> registeredAt m k \<and> apId (recordAt m k) \<noteq> i" for k
    by (auto simp: registeredAt_def at fields mapGet_delete)
  have own: "apId (recordAt m k) = i \<Longrightarrow> registeredAt m k \<Longrightarrow> k = r" for k
    using t unfolding registeredAt_def by (metis option.inject)
  have g: "p \<in> set (graceTimers m') \<longleftrightarrow> p \<in> set (graceTimers m) \<and> p \<noteq> (i, r)" for p
    using managerInvD(7) [OF m] by (simp add: fields)
  have e: "entryOk m' k" if "k < length (amEntries m)" for k
  proof (cases "k = r")
    case True
    then show ?thesis using managerInvD(3) [OF m that] t unfolding entryOk_def at reg fields(2) by auto
  next
    case False
    then have "registeredAt m' k \<longleftrightarrow> registeredAt m k" using own [of k] by (auto simp: reg)
    with False managerInvD(3) [OF m that] show ?thesis
      unfolding entryOk_def at fields(2) g by (auto split: if_splits)
  qed
  have gt: "k < length (amEntries m) \<and> apResolvedAtMs (recordAt m k) \<noteq> None \<and> apId (recordAt m k) = j \<and> registeredAt m' k"
    if "(j, k) \<in> set (graceTimers m')" for j k
    using managerInvD(6) [OF m, of j k] that own [of k] unfolding g reg by auto
  show ?thesis
    unfolding m'_def [symmetric] managerInv_def
  proof (intro conjI)
    show "\<forall>j k. mapGet (pending m') j = Some k \<longrightarrow> k < length (amEntries m') \<and> apId (recordAt m' k) = j"
      using managerInvD(2) [OF m] by (simp add: at fields mapGet_delete)
    show "\<forall>(j, k) \<in> set (graceTimers m'). k < length (amEntries m') \<and> apResolvedAtMs (recordAt m' k) \<noteq> None
          \<and> apId (recordAt m' k) = j \<and> registeredAt m' k"
      using gt by (auto simp: at fields(1))
  qed (use e managerInvD(1,4,5,7) [OF m] in \<open>simp_all add: fields\<close>)
qed (use m in \<open>simp add: graceFires_def\<close>)

lemma consumeAllowOnce_inv:
  assumes m: "managerInv m"
  shows "managerInv (snd (consumeAllowOnce i m))"
proof (cases "mapGet (pending m) i")
  case (Some r)
  show ?thesis
  proof (cases "apDecision (recordAt m r) = Some AllowOnce")
    case True
    note ok = managerInvD(2) [OF m Some]
    let ?m = "setEntry r ((entryAt m r)\<lparr>peRecord := (recordAt m r)\<lparr>apDecision := None\<rparr>\<rparr>) m"
    have f: "snd (consumeAllowOnce i m) = ?m" using Some True by (simp add: consumeAllowOnce_def)
    have rec: "recordAt ?m k = (if k = r then (recordAt m r)\<lparr>apDecision := None\<rparr> else recordAt m k)"
      and tim: "peTimer (entryAt ?m k) = peTimer (entryAt m k)" for k
      using ok by (simp_all add: recordAt_def entryAt_setEntry)
    have reg: "registeredAt ?m k \<longleftrightarrow> registeredAt m k" for k
      by (simp add: registeredAt_def rec)
    have res: "apResolvedAtMs (recordAt m r) \<noteq> None"
      using managerInvD(3) [OF m, of r] ok True by (auto simp: entryOk_def split: if_splits)
    have e: "entryOk ?m k" if "k < length (amEntries m)" for k
      using managerInvD(3) [OF m that] res by (auto simp: entryOk_def rec tim reg)
    show ?thesis
      unfolding f managerInv_def
      using e managerInvD [OF m] by (auto simp: rec reg)
  next
    case False
    with m Some show ?thesis by (simp add: consumeAllowOnce_def)
  qed
qed (use m in \<open>simp add: consumeAllowOnce_def\<close>)

interpretation approvals: event_invariant applyApproval freshRecord managerInv
proof unfold_locales
  fix m :: "'a approval_manager" and e :: "'a approval_event"
  assume "managerInv m" "freshRecord e"
  then show "managerInv (applyApproval e m)"
    by (cases e) (simp_all add: registerApproval_inv resolveApproval_inv expireApproval_inv expiryFires_inv
        graceFires_inv consumeAllowOnce_inv del: freshRecord.simps)
qed

section \<open>Every approval is decided once\<close>

lemma managerInv_run: "list_all freshRecord es \<Longrightarrow> managerInv (fold applyApproval es initialManager)"
  using approvals.run_inv [OF managerInv_initial] .

text \<open>
  C22. Every approval is decided exactly once: whatever registrations, decisions, expiries, timers and
  consumptions happen, no promise is settled twice, and every approval ever registered is either
  settled, or still open under its own id with its expiry timer running, so it cannot stay undecided.
\<close>

theorem approval_settles_once:
  assumes "list_all freshRecord es" "m = fold applyApproval es initialManager"
  shows "distinct (map fst (settled m))
    \<and> (\<forall>r < length (amEntries m).
         if r \<in> fst ` set (settled m) then apResolvedAtMs (recordAt m r) \<noteq> None
         else apResolvedAtMs (recordAt m r) = None \<and> peTimer (entryAt m r)
           \<and> mapGet (pending m) (apId (recordAt m r)) = Some r)"
proof (intro conjI allI impI)
  have m: "managerInv m" using managerInv_run [OF assms(1)] assms(2) by simp
  then show "distinct (map fst (settled m))" by (rule managerInvD(4))
  fix r
  assume "r < length (amEntries m)"
  from managerInvD(3) [OF m this]
  show "if r \<in> fst ` set (settled m) then apResolvedAtMs (recordAt m r) \<noteq> None
        else apResolvedAtMs (recordAt m r) = None \<and> peTimer (entryAt m r)
          \<and> mapGet (pending m) (apId (recordAt m r)) = Some r"
    unfolding entryOk_def registeredAt_def by argo
qed

text \<open>A decided entry is not decided again, and what a promise was settled with stays.\<close>

lemma settled_step: "\<exists>new. settled (applyApproval e m) = settled m @ new"
  by (cases e)
    (auto simp: registerApproval_def resolveApproval_def expireApproval_def expiryFires_def graceFires_def
      consumeAllowOnce_def settleEntry_def Let_def split: option.splits)

lemma settled_run: "\<exists>new. settled (fold applyApproval es m) = settled m @ new"
proof (induction es arbitrary: m)
  case (Cons e es)
  from settled_step [of e m] obtain a where a: "settled (applyApproval e m) = settled m @ a" by blast
  from Cons [of "applyApproval e m"] obtain b where
    "settled (fold applyApproval es (applyApproval e m)) = settled (applyApproval e m) @ b" by blast
  with a show ?case by (intro exI [of _ "a @ b"]) simp
qed simp

text \<open>
  C23. The first decision counts: once \<open>resolve\<close> has accepted a decision for an id, the promise of that
  approval is settled with this decision and with nothing else, for ever, whatever other decisions,
  expiries or timers come later.
\<close>

theorem first_decision_wins:
  assumes "list_all freshRecord es" "m = fold applyApproval es initialManager"
    and "resolveApproval i d b now m = (True, m1)" "awaitDecision i m = Some r" "list_all freshRecord es'"
  shows "filter (\<lambda>p. fst p = r) (settled (fold applyApproval es' m1)) = [(r, Some d)]"
proof -
  have m: "managerInv m" using managerInv_run [OF assms(1)] assms(2) by simp
  have m1: "m1 = applyApproval (ApResolve i d b now) m" using assms(3) by simp
  have "managerInv m1" using m unfolding m1 by (simp add: resolveApproval_inv)
  then have inv: "managerInv (fold applyApproval es' m1)" using approvals.run_inv assms(5) by blast
  from settled_run [of es' m1] obtain new where new: "settled (fold applyApproval es' m1) = settled m1 @ new" by blast
  have "(r, Some d) \<in> set (settled m1)"
    using assms(3,4) by (auto simp: resolveApproval_def awaitDecision_def settleEntry_def Let_def split: if_splits)
  then obtain xs ys where xs: "settled (fold applyApproval es' m1) = xs @ (r, Some d) # ys"
    unfolding new by (metis append.assoc append_Cons split_list)
  then have "r \<notin> fst ` set xs" "r \<notin> fst ` set ys" using managerInvD(4) [OF inv] by auto
  then have "filter (\<lambda>p. fst p = r) xs = []" "filter (\<lambda>p. fst p = r) ys = []"
    by (auto simp: filter_empty_conv image_iff)
  then show ?thesis by (simp add: xs)
qed

section \<open>One-time approvals\<close>

fun consumesOf :: "string \<Rightarrow> 'p approval_event list \<Rightarrow> 'p approval_manager \<Rightarrow> nat" where
  \<comment> \<open>how often \<open>consumeAllowOnce\<close> of this id says yes\<close>
  "consumesOf i [] m = 0"
| "consumesOf i (e # es) m =
     (case e of ApConsume j \<Rightarrow> if j = i \<and> fst (consumeAllowOnce j m) then 1 else 0 | _ \<Rightarrow> 0)
     + consumesOf i es (applyApproval e m)"

fun onceGrantsOf :: "string \<Rightarrow> 'p approval_event list \<Rightarrow> 'p approval_manager \<Rightarrow> nat" where
  \<comment> \<open>how often \<open>resolve\<close> of this id accepts the decision \<open>allow-once\<close>\<close>
  "onceGrantsOf i [] m = 0"
| "onceGrantsOf i (e # es) m =
     (case e of ApResolve j d b now \<Rightarrow>
        if j = i \<and> d = AllowOnce \<and> fst (resolveApproval j d b now m) then 1 else 0 | _ \<Rightarrow> 0)
     + onceGrantsOf i es (applyApproval e m)"

definition openGrants :: "string \<Rightarrow> 'p approval_manager \<Rightarrow> nat" where
  "openGrants i m =
     (case mapGet (pending m) i of None \<Rightarrow> 0
      | Some r \<Rightarrow> if apDecision (recordAt m r) = Some AllowOnce then 1 else 0)"

lemma recordAt_settle:
  "r < length (amEntries m) \<Longrightarrow> recordAt (settleEntry i r d b now m) k =
     (if k = r then (recordAt m r)\<lparr>apResolvedAtMs := Some now, apDecision := d, apResolvedBy := b\<rparr> else recordAt m k)"
  by (cases "k = r") (simp_all add: settleEntry_def Let_def recordAt_def entryAt_def setEntry_def)

lemma pending_settle [simp]: "pending (settleEntry i r d b now m) = pending m"
  by (simp add: settleEntry_def Let_def)

lemma openGrants_settle:
  assumes "managerInv m" "mapGet (pending m) j = Some r"
  shows "openGrants i (settleEntry j r d b now m) =
    (if i = j then (if d = Some AllowOnce then 1 else 0) else openGrants i m)"
  using managerInvD(2) [OF assms(1), of j r] managerInvD(2) [OF assms(1), of i] assms(2)
  by (auto simp: openGrants_def recordAt_settle split: option.splits)

lemma recordAt_timer: "recordAt (setEntry r ((entryAt m r)\<lparr>peTimer := t\<rparr>) m) k = recordAt m k"
  by (cases "r < length (amEntries m)") (auto simp: recordAt_def entryAt_def setEntry_def nth_list_update list_update_beyond)

lemma openGrants_expire:
  assumes "managerInv m"
  shows "openGrants i (snd (expireApproval j b now m)) \<le> openGrants i m"
  using openGrants_settle [OF assms, of j _ i None b now]
  by (auto simp: expireApproval_def split: option.splits)

lemma openGrants_register:
  assumes "managerInv m" "freshRecord (ApRegister rec)"
  shows "openGrants i (snd (registerApproval rec m)) \<le> openGrants i m"
proof (cases "mapGet (pending m) (apId rec)")
  case None
  have "recordAt (snd (registerApproval rec m)) r = (if r = length (amEntries m) then rec else recordAt m r)"
    if "r \<le> length (amEntries m)" for r
    using that None by (auto simp: registerApproval_def Let_def recordAt_def entryAt_def nth_append)
  moreover have "pending (snd (registerApproval rec m)) = mapSet (apId rec) (length (amEntries m)) (pending m)"
    using None by (simp add: registerApproval_def Let_def)
  ultimately show ?thesis
    using assms None managerInvD(2) [OF assms(1), of i]
    by (auto simp: openGrants_def mapGet_set split: option.splits)
qed (auto simp: registerApproval_def)

lemma openGrants_expiry:
  assumes "managerInv m"
  shows "openGrants i (expiryFires r now m) \<le> openGrants i m"
proof (cases "r < length (amEntries m) \<and> peTimer (entryAt m r)")
  case True
  then have o: "apResolvedAtMs (recordAt m r) = None" "mapGet (pending m) (apId (recordAt m r)) = Some r"
    using managerInvD(3) [OF assms, of r] by (auto simp: entryOk_def registeredAt_def split: if_splits)
  let ?m = "setEntry r ((entryAt m r)\<lparr>peTimer := False\<rparr>) m"
  have "expiryFires r now m = settleEntry (apId (recordAt m r)) r None None now ?m"
    using True o by (simp add: expiryFires_def expireApproval_def recordAt_timer)
  then show ?thesis
    using o True managerInvD(2) [OF assms, of i] managerInvD(2) [OF assms, of "apId (recordAt m r)" r]
    by (auto simp: openGrants_def recordAt_settle recordAt_timer split: option.splits)
qed (auto simp: expiryFires_def)

lemma openGrants_grace: "openGrants i (graceFires j r m) \<le> openGrants i m"
  by (auto simp: graceFires_def Let_def openGrants_def mapGet_delete recordAt_def entryAt_def split: option.splits)

lemma openGrants_consume:
  assumes "managerInv m"
  shows "(if j = i \<and> fst (consumeAllowOnce j m) then 1 else 0) + openGrants i (snd (consumeAllowOnce j m)) \<le> openGrants i m"
proof (cases "mapGet (pending m) j")
  case (Some r)
  have "recordAt (setEntry r ((entryAt m r)\<lparr>peRecord := (recordAt m r)\<lparr>apDecision := None\<rparr>\<rparr>) m) k
    = (if k = r then (recordAt m r)\<lparr>apDecision := None\<rparr> else recordAt m k)" for k
    using managerInvD(2) [OF assms Some] by (simp add: recordAt_def entryAt_setEntry)
  with Some show ?thesis by (auto simp: consumeAllowOnce_def openGrants_def split: option.splits)
qed (simp add: consumeAllowOnce_def)

lemma once_step:
  assumes "managerInv m" "freshRecord e"
  shows "(case e of ApConsume j \<Rightarrow> if j = i \<and> fst (consumeAllowOnce j m) then 1 else 0 | _ \<Rightarrow> 0)
      + openGrants i (applyApproval e m)
    \<le> (case e of ApResolve j d b now \<Rightarrow>
        if j = i \<and> d = AllowOnce \<and> fst (resolveApproval j d b now m) then 1 else 0 | _ \<Rightarrow> 0) + openGrants i m"
proof (cases e)
  case (ApResolve j d b now)
  with openGrants_settle [OF assms(1), of j _ i "Some d" b now] show ?thesis
    by (auto simp: resolveApproval_def split: option.splits)
next
  case (ApConsume j)
  with openGrants_consume [OF assms(1), of j i] show ?thesis by simp
qed (use assms openGrants_register openGrants_expire openGrants_expiry openGrants_grace in
    \<open>simp_all del: freshRecord.simps\<close>)

lemma once_run:
  "managerInv m \<Longrightarrow> list_all freshRecord es \<Longrightarrow> consumesOf i es m \<le> onceGrantsOf i es m + openGrants i m"
proof (induction es arbitrary: m)
  case (Cons e es)
  then have "managerInv (applyApproval e m)" by (auto intro: approvals.inv_event)
  with Cons once_step [of m e i] show ?case by fastforce
qed simp

text \<open>
  C24. A one-time approval is used at most once: in any history the number of times an id is consumed is
  at most the number of times it was decided \<open>allow-once\<close>, however consumptions, timers, expiries and new
  registrations of the same id are interleaved.
\<close>

theorem allow_once_consumed_once:
  assumes "list_all freshRecord es"
  shows "consumesOf i es initialManager \<le> onceGrantsOf i es initialManager"
  using once_run [OF managerInv_initial assms, of i] by (simp add: openGrants_def initialManager_def)

section \<open>Lookup\<close>

definition openIds :: "'p approval_manager \<Rightarrow> string set" where
  "openIds m = {i. \<exists>r. mapGet (pending m) i = Some r \<and> apResolvedAtMs (recordAt m r) = None}"

lemma pendingMatches_set:
  "wfMap (pending m) \<Longrightarrow> set (pendingMatches p m) = {i \<in> openIds m. startsWith (toLowerCase i) p}"
  by (auto simp: pendingMatches_def openIds_def mapGet_in_set image_iff)

lemma pendingMatches_distinct: "wfMap (pending m) \<Longrightarrow> distinct (pendingMatches p m)"
  unfolding pendingMatches_def wfMap_def by (rule distinct_map_filter)

text \<open>
  A lookup never picks the wrong approval: what it returns for an input is an approval that is still
  open; by its full id, or by a prefix in any case that no other open approval shares, and a shared
  prefix is reported with all the ids it could mean.
\<close>

theorem lookup_pending_sound:
  assumes "list_all freshRecord es" "m = fold applyApproval es initialManager"
  shows "case lookupPendingId input m of
      LookupExact i \<Rightarrow> i = trim input \<and> i \<in> openIds m
    | LookupPrefix i \<Rightarrow> {j \<in> openIds m. startsWith (toLowerCase j) (toLowerCase (trim input))} = {i}
    | LookupAmbiguous is \<Rightarrow> {j \<in> openIds m. startsWith (toLowerCase j) (toLowerCase (trim input))} = set is
        \<and> 2 \<le> card (set is)
    | LookupNone \<Rightarrow> trim input = [] \<or> mapHas (pending m) (trim input)
        \<or> {j \<in> openIds m. startsWith (toLowerCase j) (toLowerCase (trim input))} = {}"
proof -
  have m: "managerInv m" using managerInv_run [OF assms(1)] assms(2) by simp
  let ?p = "toLowerCase (trim input)"
  note s = pendingMatches_set [OF managerInvD(1) [OF m], of ?p]
    and d = pendingMatches_distinct [OF managerInvD(1) [OF m], of ?p]
  show ?thesis
  proof (cases "trim input = [] \<or> mapHas (pending m) (trim input)")
    case True
    then show ?thesis by (auto simp: lookupPendingId_def Let_def openIds_def)
  next
    case False
    then have l: "lookupPendingId input m = (case pendingMatches ?p m of [] \<Rightarrow> LookupNone
        | [i] \<Rightarrow> LookupPrefix i | i # j # is \<Rightarrow> LookupAmbiguous (i # j # is))"
      by (simp add: lookupPendingId_def Let_def)
    show ?thesis
    proof (cases "pendingMatches ?p m" rule: remdups_adj.cases)
      case (3 x y xs)
      with d have "card (set (pendingMatches ?p m)) = length (x # y # xs)" by (metis distinct_card)
      with 3 s show ?thesis unfolding l by simp
    qed (use l s in simp_all)
  qed
qed

section \<open>A history\<close>

definition demoApprovals :: "unit approval_event list" where
  "demoApprovals =
     [ApRegister (createApproval () 60000 (Some '' abc-1 '') ''u1'' 0),
      ApRegister (createApproval () 60000 None ''abd-2'' 1),
      ApResolve ''abc-1'' AllowOnce (Some ''ops'') 5, ApResolve ''abc-1'' Deny (Some ''ops'') 6,
      ApConsume ''abc-1'', ApConsume ''abc-1'']"

definition demoManager :: "unit approval_manager" where
  "demoManager = fold applyApproval demoApprovals initialManager"

lemma demoApprovals_fresh: "list_all freshRecord demoApprovals"
  by code_simp

lemma approval_settles_once_witness:
  "map fst (settled demoManager) = [0] \<and> length (amEntries demoManager) = 2
   \<and> list_all (\<lambda>r. if r \<in> fst ` set (settled demoManager) then apResolvedAtMs (recordAt demoManager r) \<noteq> None
         else apResolvedAtMs (recordAt demoManager r) = None \<and> peTimer (entryAt demoManager r)
           \<and> mapGet (pending demoManager) (apId (recordAt demoManager r)) = Some r) [0..<length (amEntries demoManager)]"
proof (intro conjI)
  show "map fst (settled demoManager) = [0]" by code_simp
  show "length (amEntries demoManager) = 2" by code_simp
  from approval_settles_once [OF demoApprovals_fresh demoManager_def]
  show "list_all (\<lambda>r. if r \<in> fst ` set (settled demoManager) then apResolvedAtMs (recordAt demoManager r) \<noteq> None
         else apResolvedAtMs (recordAt demoManager r) = None \<and> peTimer (entryAt demoManager r)
           \<and> mapGet (pending demoManager) (apId (recordAt demoManager r)) = Some r) [0..<length (amEntries demoManager)]"
    unfolding list_all_iff by simp
qed

lemma allow_once_consumed_once_witness:
  "consumesOf ''abc-1'' demoApprovals initialManager = 1 \<and> onceGrantsOf ''abc-1'' demoApprovals initialManager = 1
   \<and> consumesOf ''abc-1'' demoApprovals initialManager \<le> onceGrantsOf ''abc-1'' demoApprovals initialManager"
  using allow_once_consumed_once [OF demoApprovals_fresh, of "''abc-1''"] by (intro conjI; (assumption | code_simp))

lemma first_decision_wins_witness:
  "filter (\<lambda>p. fst p = 1) (settled (fold applyApproval
     [ApResolve ''abd-2'' AllowAlways None 8, ApExpire ''abd-2'' None 9, ApGraceFires ''abd-2'' 1]
     (snd (resolveApproval ''abd-2'' Deny (Some ''ops'') 7 demoManager)))) = [(1, Some Deny)]"
proof (rule first_decision_wins [OF demoApprovals_fresh demoManager_def])
  have "fst (resolveApproval ''abd-2'' Deny (Some ''ops'') 7 demoManager)" by code_simp
  then show "resolveApproval ''abd-2'' Deny (Some ''ops'') 7 demoManager
      = (True, snd (resolveApproval ''abd-2'' Deny (Some ''ops'') 7 demoManager))"
    by (metis prod.collapse)
  show "awaitDecision ''abd-2'' demoManager = Some 1" by code_simp
  show "list_all freshRecord [ApResolve ''abd-2'' AllowAlways None 8, ApExpire ''abd-2'' None 9, ApGraceFires ''abd-2'' 1]"
    by simp
qed

lemma lookup_pending_sound_witness:
  "lookupPendingId '' AB'' demoManager = LookupPrefix ''abd-2''
   \<and> {j \<in> openIds demoManager. startsWith (toLowerCase j) (toLowerCase (trim '' AB''))} = {''abd-2''}"
proof -
  have "lookupPendingId '' AB'' demoManager = LookupPrefix ''abd-2''" by code_simp
  then show ?thesis
    using lookup_pending_sound [OF demoApprovals_fresh demoManager_def, of "'' AB''"] by simp
qed

end
