(* ===== verification/Json.thy ===== *)
theory Json
  imports Prelude
begin

text \<open>
  JavaScript values as they come out of a decoded request (\<open>unknown\<close> in the source): the values,
  property access, and \<open>String(value)\<close>. The decimal text of a number is a function of its own
  (\<open>numStr\<close>), which the definitions that need it take as an argument.
\<close>

datatype json =
    JUndefined
  | JNull
  | JBool bool
  | JNumber jsnum
  | JString string
  | JArray "json list"
  | JObject "(string \<times> json) list"

definition jsonProp :: "(string, json) jsmap \<Rightarrow> string \<Rightarrow> json" where
  \<comment> \<open>\<open>obj[key]\<close>\<close>
  "jsonProp obj key = coalesce (mapGet obj key) JUndefined"

definition asRecord :: "json \<Rightarrow> (string, json) jsmap option" where
  \<comment> \<open>an object that is neither \<open>null\<close> nor an array\<close>
  "asRecord v = (case v of JObject obj \<Rightarrow> Some obj | _ \<Rightarrow> None)"

fun isNullish :: "json \<Rightarrow> bool" where
  "isNullish JUndefined = True"
| "isNullish JNull = True"
| "isNullish _ = False"

fun jsonToString :: "(jsnum \<Rightarrow> string) \<Rightarrow> json \<Rightarrow> string" where
  \<comment> \<open>\<open>String(value)\<close> of a decoded value\<close>
  "jsonToString numStr JUndefined = ''undefined''"
| "jsonToString numStr JNull = ''null''"
| "jsonToString numStr (JBool b) = (if b then ''true'' else ''false'')"
| "jsonToString numStr (JNumber n) = numStr n"
| "jsonToString numStr (JString s) = s"
| "jsonToString numStr (JArray vs) =
     joinWith '','' (map (\<lambda>v. if isNullish v then [] else jsonToString numStr v) vs)"
| "jsonToString numStr (JObject obj) = ''[object Object]''"

definition optionJson :: "string option \<Rightarrow> json" where
  "optionJson x = (case x of None \<Rightarrow> JNull | Some s \<Rightarrow> JString s)"

lemma optionJson_simps [simp]: "optionJson None = JNull" "optionJson (Some s) = JString s"
  by (simp_all add: optionJson_def)

lemma jsonProp_set: "jsonProp (mapSet k v obj) k' = (if k' = k then v else jsonProp obj k')"
  by (simp add: jsonProp_def mapGet_set)

lemma jsonProp_delete: "jsonProp (mapDelete k obj) k' = (if k' = k then JUndefined else jsonProp obj k')"
  by (simp add: jsonProp_def mapGet_delete)

end
