(* ===== verification/SystemRunApproval.thy ===== *)
theory SystemRunApproval
  imports WrapperResolution ExecApproval Json
begin

text \<open>
  The gate before \<open>system.run\<close> on a node: what command is asked for
  (\<open>src/src/infra/system-run-command.ts\<close>), the plan and the binding of an approval
  (\<open>system-run-approval-binding.ts\<close>, \<open>system-run-approval-context.ts\<close>, \<open>system-run-normalize.ts\<close>) and
  \<open>sanitizeSystemRunParamsForForwarding\<close> (\<open>src/src/gateway/node-invoke-system-run-approval.ts\<close> with its
  \<open>-match\<close> and \<open>-errors\<close> files), which forwards a run as approved only on the word of the
  \<open>ExecApprovalManager\<close>.

  The record \<open>lib\<close> holds what the code takes from Node: the decimal text of a number, the hex SHA-256 of
  a string, the order of \<open>localeCompare\<close> (any total preorder of the strings is the order of some rational
  key) and \<open>process.platform\<close>.
\<close>

record lib =
  lbNumber :: "jsnum \<Rightarrow> string"
  lbSha256 :: "string \<Rightarrow> string"
  lbCollate :: "string \<Rightarrow> rat"
  lbPlatform :: string

section \<open>Normalisation (\<open>system-run-normalize.ts\<close>)\<close>

definition normalizeNonEmptyString :: "json \<Rightarrow> string option" where
  "normalizeNonEmptyString v = (case v of JString s \<Rightarrow> trimmed (Some s) | _ \<Rightarrow> None)"

definition normalizeStringArray :: "lib \<Rightarrow> json \<Rightarrow> string list" where
  "normalizeStringArray lib v = (case v of JArray vs \<Rightarrow> map (jsonToString (lbNumber lib)) vs | _ \<Rightarrow> [])"

section \<open>Commands (\<open>system-run-command.ts\<close>)\<close>

definition needsQuotes :: "string \<Rightarrow> bool" where
  "needsQuotes arg \<longleftrightarrow> list_ex (\<lambda>c. jsWhitespace c \<or> c = CHR 0x22) arg"

definition formatArg :: "string \<Rightarrow> string" where
  "formatArg arg =
     (if arg = [] then [CHR 0x22, CHR 0x22]
      else if \<not> needsQuotes arg then arg
      else [CHR 0x22] @ concat (map (\<lambda>c. if c = CHR 0x22 then [CHR 0x5C, CHR 0x22] else [c]) arg) @ [CHR 0x22])"

definition formatExecCommand :: "string list \<Rightarrow> string" where
  "formatExecCommand argv = joinWith '' '' (map formatArg argv)"

record command_display =
  cdShellPayload :: "string option"
  cdCommandText :: string
  cdPreviewText :: "string option"

definition inlineWrapperNames :: "string list" where
  "inlineWrapperNames = [''ash'', ''bash'', ''dash'', ''fish'', ''ksh'', ''powershell'', ''pwsh'', ''sh'', ''zsh'']"

definition unwrapShellWrapperArgv :: "string \<Rightarrow> string list \<Rightarrow> string list" where
  "unwrapShellWrapperArgv host argv =
     (let dispatchUnwrapped = unwrapDispatchWrappersForResolution host argv maxDispatchWrapperDepth host
      in case unwrapKnownShellMultiplexerInvocation dispatchUnwrapped of
           Unwrapped _ inner \<Rightarrow> inner | _ \<Rightarrow> dispatchUnwrapped)"

definition hasTrailingPositionalArgv :: "string \<Rightarrow> string list \<Rightarrow> bool" where
  "hasTrailingPositionalArgv host argv =
     (let wrapperArgv = unwrapShellWrapperArgv host argv; wrapper = normalizeExecutableToken (headToken wrapperArgv)
      in if headToken wrapperArgv = [] then False
         else if wrapper \<notin> set inlineWrapperNames then False
         else (case imValueTokenIndex
                 (if wrapper = ''powershell'' \<or> wrapper = ''pwsh''
                  then resolveInlineCommandMatch wrapperArgv powershellInlineCommandFlags False
                  else resolveInlineCommandMatch wrapperArgv posixInlineCommandFlags True) of
                 None \<Rightarrow> False
               | Some i \<Rightarrow> list_ex (\<lambda>a. trim a \<noteq> []) (drop (i + 1) wrapperArgv)))"

definition buildSystemRunCommandDisplay :: "string \<Rightarrow> string list \<Rightarrow> command_display" where
  "buildSystemRunCommandDisplay host argv =
     (let r = extractShellWrapperCommand host argv None;
          positional = hasTrailingPositionalArgv host argv;
          envManipulation = (swIsWrapper r \<and> hasEnvManipulationBeforeShellWrapper host argv)
      in \<lparr>cdShellPayload = swCommand r, cdCommandText = formatExecCommand argv,
          cdPreviewText = (case swCommand r of
             Some payload \<Rightarrow> if \<not> envManipulation \<and> \<not> positional then Some (trim payload) else None
           | None \<Rightarrow> None)\<rparr>)"

record reject =
  rjMessage :: string
  rjDetails :: "(string, json) jsmap"

definition normalizeRawCommandText :: "json \<Rightarrow> string option" where
  "normalizeRawCommandText v = (case v of JString s \<Rightarrow> trimmed (Some s) | _ \<Rightarrow> None)"

definition validateSystemRunCommandConsistency ::
  "string \<Rightarrow> string list \<Rightarrow> string option \<Rightarrow> bool \<Rightarrow> reject + command_display" where
  "validateSystemRunCommandConsistency host argv rawCommand allowLegacyShellText =
     (let display = buildSystemRunCommandDisplay host argv
      in case trimmed rawCommand of
           None \<Rightarrow> Inr display
         | Some raw \<Rightarrow>
             if raw \<noteq> cdCommandText display \<and> \<not> (allowLegacyShellText \<and> cdPreviewText display = Some raw)
             then Inl \<lparr>rjMessage = ''INVALID_REQUEST: rawCommand does not match command'',
                       rjDetails = [(''code'', JString ''RAW_COMMAND_MISMATCH''), (''rawCommand'', JString raw),
                         (''inferred'', JString (cdCommandText display)),
                         (''formattedArgv'', JString (cdCommandText display))]\<rparr>
             else Inr display)"

record resolved_command =
  rcArgv :: "string list"
  rcDisplay :: command_display

definition resolveSystemRunCommandWithMode :: "lib \<Rightarrow> json \<Rightarrow> json \<Rightarrow> bool \<Rightarrow> reject + resolved_command" where
  "resolveSystemRunCommandWithMode lib command rawCommand allowLegacyShellText =
     (let raw = normalizeRawCommandText rawCommand
      in case command of
           JArray (v # vs) \<Rightarrow>
             (let argv = map (jsonToString (lbNumber lib)) (v # vs)
              in case validateSystemRunCommandConsistency (lbPlatform lib) argv raw allowLegacyShellText of
                   Inl e \<Rightarrow> Inl e
                 | Inr display \<Rightarrow> Inr \<lparr>rcArgv = argv, rcDisplay = display\<rparr>)
         | _ \<Rightarrow>
             if raw \<noteq> None
             then Inl \<lparr>rjMessage = ''rawCommand requires params.command'',
                       rjDetails = [(''code'', JString ''MISSING_COMMAND'')]\<rparr>
             else Inr \<lparr>rcArgv = [], rcDisplay = \<lparr>cdShellPayload = None, cdCommandText = [], cdPreviewText = None\<rparr>\<rparr>)"

definition resolveSystemRunCommand :: "lib \<Rightarrow> json \<Rightarrow> json \<Rightarrow> reject + resolved_command" where
  "resolveSystemRunCommand lib command rawCommand = resolveSystemRunCommandWithMode lib command rawCommand False"

definition resolveSystemRunCommandRequest :: "lib \<Rightarrow> json \<Rightarrow> json \<Rightarrow> reject + resolved_command" where
  "resolveSystemRunCommandRequest lib command rawCommand = resolveSystemRunCommandWithMode lib command rawCommand True"

section \<open>Plans and bindings (\<open>system-run-approval-binding.ts\<close>)\<close>

record file_operand =
  foArgvIndex :: int
  foPath :: string
  foSha256 :: string

record approval_plan =
  plArgv :: "string list"
  plCwd :: "string option"
  plCommandText :: string
  plCommandPreview :: "string option"
  plAgentId :: "string option"
  plSessionKey :: "string option"
  plMutableFileOperand :: "file_operand option"

record approval_binding =
  bnArgv :: "string list"
  bnCwd :: "string option"
  bnAgentId :: "string option"
  bnSessionKey :: "string option"
  bnEnvHash :: "string option"

definition naturalNumber :: "json \<Rightarrow> int option" where
  "naturalNumber v =
     (case v of JNumber (JNum q) \<Rightarrow> if q = of_int \<lfloor>q\<rfloor> \<and> q \<ge> 0 then Some \<lfloor>q\<rfloor> else None | _ \<Rightarrow> None)"

definition normalizeFileOperand :: "json \<Rightarrow> file_operand option option" where
  \<comment> \<open>\<open>None\<close> is \<open>undefined\<close>, \<open>Some None\<close> is \<open>null\<close>\<close>
  "normalizeFileOperand v =
     (if v = JUndefined then None
      else (case asRecord v of
         None \<Rightarrow> Some None
       | Some candidate \<Rightarrow>
           Some (case (naturalNumber (jsonProp candidate ''argvIndex''),
                       normalizeNonEmptyString (jsonProp candidate ''path''),
                       normalizeNonEmptyString (jsonProp candidate ''sha256'')) of
                   (Some i, Some p, Some h) \<Rightarrow> Some \<lparr>foArgvIndex = i, foPath = p, foSha256 = h\<rparr>
                 | _ \<Rightarrow> None)))"

definition normalizeSystemRunApprovalPlan :: "lib \<Rightarrow> json \<Rightarrow> approval_plan option" where
  "normalizeSystemRunApprovalPlan lib v =
     (case asRecord v of
        None \<Rightarrow> None
      | Some candidate \<Rightarrow>
          (let argv = normalizeStringArray lib (jsonProp candidate ''argv'');
               operand = normalizeFileOperand (jsonProp candidate ''mutableFileOperand'')
           in if argv = [] then None
              else if operand = Some None then None
              else (case orElse (normalizeNonEmptyString (jsonProp candidate ''commandText''))
                          (normalizeNonEmptyString (jsonProp candidate ''rawCommand'')) of
                      None \<Rightarrow> None
                    | Some commandText \<Rightarrow>
                        Some \<lparr>plArgv = argv, plCwd = normalizeNonEmptyString (jsonProp candidate ''cwd''),
                          plCommandText = commandText,
                          plCommandPreview = normalizeNonEmptyString (jsonProp candidate ''commandPreview''),
                          plAgentId = normalizeNonEmptyString (jsonProp candidate ''agentId''),
                          plSessionKey = normalizeNonEmptyString (jsonProp candidate ''sessionKey''),
                          plMutableFileOperand = Option.bind operand (\<lambda>f. f)\<rparr>)))"

definition portableEnvKey :: "(char \<Rightarrow> bool) \<Rightarrow> string \<Rightarrow> bool" where
  \<comment> \<open>\<open>/^[A-Za-z_][...]*$/\<close>\<close>
  "portableEnvKey rest key \<longleftrightarrow>
     (case key of [] \<Rightarrow> False | c # cs \<Rightarrow> (isLetter c \<or> c = CHR ''_'') \<and> list_all rest cs)"

definition normalizeHostOverrideEnvVarKey :: "string \<Rightarrow> string option" where
  "normalizeHostOverrideEnvVarKey rawKey =
     (let key = trim rawKey
      in if key = [] then None
         else if portableEnvKey isWordChar key
           \<or> portableEnvKey (\<lambda>c. isWordChar c \<or> c = CHR ''('' \<or> c = CHR '')'') key
         then Some key else None)"

definition envEntry :: "string \<times> json \<Rightarrow> (string \<times> string) option" where
  "envEntry p = (case p of (rawKey, JString v) \<Rightarrow> map_option (\<lambda>k. (k, v)) (normalizeHostOverrideEnvVarKey rawKey)
                 | _ \<Rightarrow> None)"

definition normalizeSystemRunEnvEntries :: "lib \<Rightarrow> json \<Rightarrow> (string \<times> string) list" where
  "normalizeSystemRunEnvEntries lib env =
     (case asRecord env of None \<Rightarrow> []
      | Some obj \<Rightarrow> sort_key (\<lambda>p. lbCollate lib (fst p)) (List.map_filter envEntry obj))"

definition jsonPairs :: "(string \<times> string) list \<Rightarrow> string" where
  \<comment> \<open>\<open>JSON.stringify(entries)\<close>\<close>
  "jsonPairs entries = ''['' @ joinWith '','' (map (\<lambda>(k, v). jsonStringArray [k, v]) entries) @ '']''"

definition hashSystemRunEnvEntries :: "lib \<Rightarrow> (string \<times> string) list \<Rightarrow> string option" where
  "hashSystemRunEnvEntries lib entries = (if entries = [] then None else Some (lbSha256 lib (jsonPairs entries)))"

definition buildSystemRunApprovalEnvBinding :: "lib \<Rightarrow> json \<Rightarrow> string option \<times> string list" where
  "buildSystemRunApprovalEnvBinding lib env =
     (let entries = normalizeSystemRunEnvEntries lib env
      in (hashSystemRunEnvEntries lib entries, map fst entries))"

definition buildSystemRunApprovalBinding ::
  "lib \<Rightarrow> json \<Rightarrow> json \<Rightarrow> json \<Rightarrow> json \<Rightarrow> json \<Rightarrow> approval_binding \<times> string list" where
  "buildSystemRunApprovalBinding lib argv cwd agentId sessionKey env =
     (case buildSystemRunApprovalEnvBinding lib env of
        (envHash, envKeys) \<Rightarrow>
          (\<lparr>bnArgv = normalizeStringArray lib argv, bnCwd = normalizeNonEmptyString cwd,
            bnAgentId = normalizeNonEmptyString agentId, bnSessionKey = normalizeNonEmptyString sessionKey,
            bnEnvHash = envHash\<rparr>, envKeys))"

fun argvLoop :: "string list \<Rightarrow> string list \<Rightarrow> bool" where
  "argvLoop (e # es) (a # as) = (if e \<noteq> a then False else argvLoop es as)"
| "argvLoop _ _ = True"

definition argvMatches :: "string list \<Rightarrow> string list \<Rightarrow> bool" where
  "argvMatches expectedArgv actualArgv =
     (if expectedArgv = [] \<or> length expectedArgv \<noteq> length actualArgv then False
      else argvLoop expectedArgv actualArgv)"

record mismatch =
  mmCode :: string
  mmMessage :: string
  mmDetails :: "(string, json) jsmap"

definition requestMismatch :: "(string, json) jsmap \<Rightarrow> mismatch" where
  "requestMismatch details = \<lparr>mmCode = ''APPROVAL_REQUEST_MISMATCH'',
     mmMessage = ''approval id does not match request'', mmDetails = details\<rparr>"

definition stringsJson :: "string list \<Rightarrow> json" where
  "stringsJson ss = JArray (map JString ss)"

definition envBindingMissing :: "string list \<Rightarrow> mismatch" where
  "envBindingMissing envKeys = \<lparr>mmCode = ''APPROVAL_ENV_BINDING_MISSING'',
     mmMessage = ''approval id missing env binding for requested env overrides'',
     mmDetails = [(''envKeys'', stringsJson envKeys)]\<rparr>"

definition matchSystemRunApprovalEnvHash :: "string option \<Rightarrow> string option \<Rightarrow> string list \<Rightarrow> mismatch option" where
  \<comment> \<open>\<open>None\<close> is \<open>{ ok: true }\<close>\<close>
  "matchSystemRunApprovalEnvHash expected actual envKeys =
     (if \<not> truthy expected \<and> \<not> truthy actual \<and> envKeys \<noteq> [] then Some (envBindingMissing envKeys)
      else if \<not> truthy expected \<and> \<not> truthy actual then None
      else if \<not> truthy expected \<and> truthy actual then Some (envBindingMissing envKeys)
      else if expected \<noteq> actual
      then Some \<lparr>mmCode = ''APPROVAL_ENV_MISMATCH'', mmMessage = ''approval id env binding mismatch'',
                 mmDetails = [(''envKeys'', stringsJson envKeys), (''expectedEnvHash'', optionJson expected),
                              (''actualEnvHash'', optionJson actual)]\<rparr>
      else None)"

definition matchSystemRunApprovalBinding :: "approval_binding \<Rightarrow> approval_binding \<Rightarrow> string list \<Rightarrow> mismatch option" where
  "matchSystemRunApprovalBinding expected actual envKeys =
     (if \<not> argvMatches (bnArgv expected) (bnArgv actual) then Some (requestMismatch [])
      else if bnCwd expected \<noteq> bnCwd actual then Some (requestMismatch [])
      else if bnAgentId expected \<noteq> bnAgentId actual then Some (requestMismatch [])
      else if bnSessionKey expected \<noteq> bnSessionKey actual then Some (requestMismatch [])
      else matchSystemRunApprovalEnvHash (bnEnvHash expected) (bnEnvHash actual) envKeys)"

definition toSystemRunApprovalMismatchError :: "string \<Rightarrow> mismatch \<Rightarrow> reject" where
  "toSystemRunApprovalMismatchError runId m =
     \<lparr>rjMessage = mmMessage m,
      rjDetails = fold (\<lambda>(k, v) d. mapSet k v d) (mmDetails m)
        [(''code'', JString (mmCode m)), (''runId'', JString runId)]\<rparr>"

section \<open>Runtime context (\<open>system-run-approval-context.ts\<close>)\<close>

record runtime_context =
  rtPlan :: "approval_plan option"
  rtArgv :: "string list"
  rtCwd :: "string option"
  rtAgentId :: "string option"
  rtSessionKey :: "string option"
  rtCommandText :: string

definition resolveSystemRunApprovalRuntimeContext ::
  "lib \<Rightarrow> json \<Rightarrow> json \<Rightarrow> json \<Rightarrow> json \<Rightarrow> json \<Rightarrow> json \<Rightarrow> reject + runtime_context" where
  "resolveSystemRunApprovalRuntimeContext lib plan command rawCommand cwd agentId sessionKey =
     (case normalizeSystemRunApprovalPlan lib plan of
        Some p \<Rightarrow> Inr \<lparr>rtPlan = Some p, rtArgv = plArgv p, rtCwd = plCwd p, rtAgentId = plAgentId p,
                      rtSessionKey = plSessionKey p, rtCommandText = plCommandText p\<rparr>
      | None \<Rightarrow>
          (case resolveSystemRunCommandRequest lib command rawCommand of
             Inl e \<Rightarrow> Inl e
           | Inr c \<Rightarrow> Inr \<lparr>rtPlan = None, rtArgv = rcArgv c, rtCwd = normalizeNonEmptyString cwd,
                       rtAgentId = normalizeNonEmptyString agentId,
                       rtSessionKey = normalizeNonEmptyString sessionKey,
                       rtCommandText = cdCommandText (rcDisplay c)\<rparr>))"

definition normalizeCommandPreview :: "json \<Rightarrow> string \<Rightarrow> string option" where
  "normalizeCommandPreview v authoritative =
     (case normalizeNonEmptyString v of
        None \<Rightarrow> None | Some preview \<Rightarrow> if preview = authoritative then None else Some preview)"

record request_context =
  rxPlan :: "approval_plan option"
  rxCommandArgv :: "string list option"
  rxCommandText :: string
  rxCommandPreview :: "string option"
  rxCwd :: "string option"
  rxAgentId :: "string option"
  rxSessionKey :: "string option"

definition resolveSystemRunApprovalRequestContext ::
  "lib \<Rightarrow> json \<Rightarrow> json \<Rightarrow> json \<Rightarrow> json \<Rightarrow> json \<Rightarrow> json \<Rightarrow> json \<Rightarrow> request_context" where
  "resolveSystemRunApprovalRequestContext lib host command commandArgv systemRunPlan cwd agentId sessionKey =
     (let normalizedPlan = (if coalesce (normalizeNonEmptyString host) [] = ''node''
                            then normalizeSystemRunApprovalPlan lib systemRunPlan else None);
          fallbackArgv = normalizeStringArray lib commandArgv;
          fallbackCommand = (case command of JString s \<Rightarrow> s | _ \<Rightarrow> []);
          commandText = (case normalizedPlan of
              None \<Rightarrow> fallbackCommand
            | Some p \<Rightarrow> if plCommandText p \<noteq> [] then plCommandText p else formatExecCommand (plArgv p));
          commandPreview = Option.bind normalizedPlan (\<lambda>p.
              normalizeCommandPreview (JString (coalesce (plCommandPreview p) fallbackCommand)) commandText);
          plan = map_option (\<lambda>p. p\<lparr>plCommandPreview := commandPreview\<rparr>) normalizedPlan
      in \<lparr>rxPlan = plan,
          rxCommandArgv = (case plan of Some p \<Rightarrow> Some (plArgv p)
             | None \<Rightarrow> if fallbackArgv \<noteq> [] then Some fallbackArgv else None),
          rxCommandText = commandText, rxCommandPreview = commandPreview,
          rxCwd = orElse (Option.bind plan plCwd) (normalizeNonEmptyString cwd),
          rxAgentId = orElse (Option.bind plan plAgentId) (normalizeNonEmptyString agentId),
          rxSessionKey = orElse (Option.bind plan plSessionKey) (normalizeNonEmptyString sessionKey)\<rparr>)"

definition parsePreparedSystemRunPayload :: "lib \<Rightarrow> json \<Rightarrow> approval_plan option" where
  "parsePreparedSystemRunPayload lib payload =
     (case asRecord payload of
        None \<Rightarrow> None
      | Some raw \<Rightarrow>
          (case normalizeSystemRunApprovalPlan lib (jsonProp raw ''plan'') of
             Some plan \<Rightarrow> Some plan
           | None \<Rightarrow>
               (case asRecord (jsonProp raw ''plan'') of
                  None \<Rightarrow> None
                | Some legacyPlan \<Rightarrow>
                    (let argv = normalizeStringArray lib (jsonProp legacyPlan ''argv'');
                         commandText = orElse (normalizeNonEmptyString (jsonProp legacyPlan ''rawCommand''))
                           (orElse (normalizeNonEmptyString (jsonProp raw ''commandText''))
                             (normalizeNonEmptyString (jsonProp raw ''cmdText'')))
                     in case commandText of
                          None \<Rightarrow> None
                        | Some text \<Rightarrow>
                            if argv = [] then None
                            else Some \<lparr>plArgv = argv, plCwd = normalizeNonEmptyString (jsonProp legacyPlan ''cwd''),
                              plCommandText = text,
                              plCommandPreview = normalizeNonEmptyString (jsonProp legacyPlan ''commandPreview''),
                              plAgentId = normalizeNonEmptyString (jsonProp legacyPlan ''agentId''),
                              plSessionKey = normalizeNonEmptyString (jsonProp legacyPlan ''sessionKey''),
                              plMutableFileOperand = None\<rparr>))))"

section \<open>The gate (\<open>node-invoke-system-run-approval.ts\<close>)\<close>

record exec_request =
  rqHost :: "string option"
  rqNodeId :: "string option"
  rqSystemRunPlan :: json
  rqSystemRunBinding :: "approval_binding option"

record approval_client =
  acConnId :: "string option"
  acScopes :: json
  acDeviceId :: "string option"

datatype forward_result = Forward json | Reject reject

definition guardError :: "string \<Rightarrow> string \<Rightarrow> (string, json) jsmap \<Rightarrow> reject" where
  \<comment> \<open>\<open>systemRunApprovalGuardError\<close>\<close>
  "guardError code message details = \<lparr>rjMessage = message,
     rjDetails = fold (\<lambda>(k, v) d. mapSet k v d) details [(''code'', JString code)]\<rparr>"

definition systemRunApprovalRequired :: "string \<Rightarrow> reject" where
  "systemRunApprovalRequired runId =
     guardError ''APPROVAL_REQUIRED'' ''approval required'' [(''runId'', JString runId)]"

definition evaluateSystemRunApprovalMatch ::
  "lib \<Rightarrow> string list \<Rightarrow> exec_request \<Rightarrow> string option \<Rightarrow> string option \<Rightarrow> string option \<Rightarrow> json \<Rightarrow> mismatch option" where
  "evaluateSystemRunApprovalMatch lib argv request cwd agentId sessionKey env =
     (if rqHost request \<noteq> Some ''node'' then Some (requestMismatch [])
      else (case buildSystemRunApprovalBinding lib (stringsJson argv) (optionJson cwd) (optionJson agentId)
                   (optionJson sessionKey) env of
        (actual, envKeys) \<Rightarrow>
          (case rqSystemRunBinding request of
             None \<Rightarrow> Some (requestMismatch [(''envKeys'', stringsJson envKeys)])
           | Some expected \<Rightarrow> matchSystemRunApprovalBinding expected actual envKeys)))"

definition normalizeApprovalDecision :: "json \<Rightarrow> string option" where
  "normalizeApprovalDecision v =
     (case normalizeNonEmptyString v of
        None \<Rightarrow> None | Some s \<Rightarrow> if s = ''allow-once'' \<or> s = ''allow-always'' then Some s else None)"

definition clientHasApprovals :: "approval_client option \<Rightarrow> bool" where
  "clientHasApprovals client \<longleftrightarrow>
     (case client of None \<Rightarrow> False
      | Some c \<Rightarrow> (case acScopes c of
          JArray scopes \<Rightarrow> JString ''operator.admin'' \<in> set scopes \<or> JString ''operator.approvals'' \<in> set scopes
        | _ \<Rightarrow> False))"

definition forwardedKeys :: "string list" where
  "forwardedKeys = [''command'', ''rawCommand'', ''systemRunPlan'', ''cwd'', ''env'', ''timeoutMs'',
     ''needsScreenRecording'', ''agentId'', ''sessionKey'', ''runId'', ''suppressNotifyOnExit'']"

definition pickSystemRunParams :: "(string, json) jsmap \<Rightarrow> (string, json) jsmap" where
  "pickSystemRunParams raw =
     fold (\<lambda>key next. case mapGet raw key of None \<Rightarrow> next | Some v \<Rightarrow> mapSet key v next) forwardedKeys []"

definition planJson :: "approval_plan \<Rightarrow> json" where
  "planJson p = JObject
     [(''argv'', stringsJson (plArgv p)), (''cwd'', optionJson (plCwd p)),
      (''commandText'', JString (plCommandText p)), (''commandPreview'', optionJson (plCommandPreview p)),
      (''agentId'', optionJson (plAgentId p)), (''sessionKey'', optionJson (plSessionKey p)),
      (''mutableFileOperand'', (case plMutableFileOperand p of None \<Rightarrow> JUndefined
         | Some f \<Rightarrow> JObject [(''argvIndex'', JNumber (JNum (of_int (foArgvIndex f)))),
              (''path'', JString (foPath f)), (''sha256'', JString (foSha256 f))]))]"

definition setOrDelete :: "string \<Rightarrow> string option \<Rightarrow> (string, json) jsmap \<Rightarrow> (string, json) jsmap" where
  \<comment> \<open>\<open>if (v) { next[key] = v } else { delete next[key] }\<close>\<close>
  "setOrDelete key v next = (if truthy v then mapSet key (optionJson v) next else mapDelete key next)"

definition forwardPlan :: "runtime_context \<Rightarrow> (string, json) jsmap \<Rightarrow> (string, json) jsmap" where
  "forwardPlan ctx next =
     (case rtPlan ctx of
        None \<Rightarrow> next
      | Some p \<Rightarrow>
          (let n1 = mapSet ''systemRunPlan'' (planJson p) (mapSet ''command'' (stringsJson (plArgv p)) next);
               n2 = setOrDelete ''rawCommand'' (Some (rtCommandText ctx)) n1;
               n3 = setOrDelete ''cwd'' (rtCwd ctx) n2;
               n4 = setOrDelete ''agentId'' (rtAgentId ctx) n3
           in setOrDelete ''sessionKey'' (rtSessionKey ctx) n4))"

definition runDetails :: "string \<Rightarrow> (string, json) jsmap" where
  "runDetails runId = [(''runId'', JString runId)]"

definition bindingError ::
  "string option \<Rightarrow> approval_client option \<Rightarrow> string \<Rightarrow> exec_request approval_record \<Rightarrow> int \<Rightarrow> reject option" where
  \<comment> \<open>the guards between the snapshot and the runtime context, in their order\<close>
  "bindingError nodeId client runId snapshot nowMs =
     (if nowMs > apExpiresAtMs snapshot
      then Some (guardError ''APPROVAL_EXPIRED'' ''approval expired'' (runDetails runId))
      else (case trimmed nodeId of
        None \<Rightarrow> Some (guardError ''MISSING_NODE_ID'' ''node.invoke requires nodeId'' (runDetails runId))
      | Some targetNodeId \<Rightarrow>
          (case trimmed (rqNodeId (apRequest snapshot)) of
             None \<Rightarrow> Some (guardError ''APPROVAL_NODE_BINDING_MISSING'' ''approval id missing node binding'' (runDetails runId))
           | Some approvalNodeId \<Rightarrow>
               if approvalNodeId \<noteq> targetNodeId
               then Some (guardError ''APPROVAL_NODE_MISMATCH'' ''approval id not valid for this node'' (runDetails runId))
               else if truthy (apDeviceId snapshot)
               then (if apDeviceId snapshot \<noteq> Option.bind client acDeviceId
                     then Some (guardError ''APPROVAL_DEVICE_MISMATCH'' ''approval id not valid for this device'' (runDetails runId))
                     else None)
               else if truthy (apConnId snapshot) \<and> apConnId snapshot \<noteq> Option.bind client acConnId
               then Some (guardError ''APPROVAL_CLIENT_MISMATCH'' ''approval id not valid for this client'' (runDetails runId))
               else None)))"

definition approvedParams :: "string \<Rightarrow> (string, json) jsmap \<Rightarrow> json" where
  "approvedParams d next = JObject (mapSet ''approvalDecision'' (JString d) (mapSet ''approved'' (JBool True) next))"

definition timedOut :: "'p approval_record \<Rightarrow> bool" where
  "timedOut snapshot \<longleftrightarrow> apResolvedAtMs snapshot \<noteq> None \<and> apDecision snapshot = None \<and> apResolvedBy snapshot = None"

definition enforceDecision ::
  "bool \<Rightarrow> string option \<Rightarrow> approval_client option \<Rightarrow> string \<Rightarrow> exec_request approval_record \<Rightarrow> (string, json) jsmap \<Rightarrow>
   exec_request approval_manager \<Rightarrow> forward_result \<times> exec_request approval_manager" where
  "enforceDecision approved requestedDecision client runId snapshot next manager =
     (if apDecision snapshot = Some AllowOnce
      then (case consumeAllowOnce runId manager of
              (consumed, m1) \<Rightarrow>
                if \<not> consumed then (Reject (systemRunApprovalRequired runId), m1)
                else (Forward (approvedParams ''allow-once'' next), m1))
      else if apDecision snapshot = Some AllowAlways then (Forward (approvedParams ''allow-always'' next), manager)
      else if timedOut snapshot \<and> approved \<and> requestedDecision = Some ''allow-once'' \<and> clientHasApprovals client
      then (Forward (approvedParams ''allow-once'' next), manager)
      else (Reject (systemRunApprovalRequired runId), manager))"

definition sanitizeSystemRunParams ::
  "lib \<Rightarrow> string option \<Rightarrow> json \<Rightarrow> approval_client option \<Rightarrow> exec_request approval_manager option \<Rightarrow> int \<Rightarrow>
   forward_result \<times> exec_request approval_manager option" where
  "sanitizeSystemRunParams lib nodeId rawParams client execApprovalManager nowMs =
     (case asRecord rawParams of
        None \<Rightarrow> (Forward rawParams, execApprovalManager)
      | Some p \<Rightarrow>
          (let approved = (jsonProp p ''approved'' = JBool True);
               requestedDecision = normalizeApprovalDecision (jsonProp p ''approvalDecision'');
               next = pickSystemRunParams p
           in if \<not> (approved \<or> requestedDecision \<noteq> None)
              then (case resolveSystemRunCommandRequest lib (jsonProp p ''command'') (jsonProp p ''rawCommand'') of
                      Inl e \<Rightarrow> (Reject e, execApprovalManager)
                    | Inr _ \<Rightarrow> (Forward (JObject next), execApprovalManager))
              else (case normalizeNonEmptyString (jsonProp p ''runId'') of
                None \<Rightarrow> (Reject (guardError ''MISSING_RUN_ID'' ''approval override requires params.runId'' []), execApprovalManager)
              | Some runId \<Rightarrow>
                  (case execApprovalManager of
                     None \<Rightarrow> (Reject (guardError ''APPROVALS_UNAVAILABLE'' ''exec approvals unavailable'' []), None)
                   | Some manager \<Rightarrow>
                       (case getSnapshot runId manager of
                          None \<Rightarrow> (Reject (guardError ''UNKNOWN_APPROVAL_ID'' ''unknown or expired approval id'' (runDetails runId)), Some manager)
                        | Some snapshot \<Rightarrow>
                            (case bindingError nodeId client runId snapshot nowMs of
                               Some e \<Rightarrow> (Reject e, Some manager)
                             | None \<Rightarrow>
                                 (case resolveSystemRunApprovalRuntimeContext lib (rqSystemRunPlan (apRequest snapshot))
                                         (jsonProp p ''command'') (jsonProp p ''rawCommand'') (jsonProp p ''cwd'')
                                         (jsonProp p ''agentId'') (jsonProp p ''sessionKey'') of
                                    Inl e \<Rightarrow> (Reject e, Some manager)
                                  | Inr ctx \<Rightarrow>
                                      (case evaluateSystemRunApprovalMatch lib (rtArgv ctx) (apRequest snapshot)
                                              (rtCwd ctx) (rtAgentId ctx) (rtSessionKey ctx) (jsonProp p ''env'') of
                                         Some mm \<Rightarrow> (Reject (toSystemRunApprovalMismatchError runId mm), Some manager)
                                       | None \<Rightarrow>
                                           (case enforceDecision approved requestedDecision client runId snapshot
                                                   (forwardPlan ctx next) manager of
                                              (res, m1) \<Rightarrow> (res, Some m1))))))))))"

section \<open>Normal forms\<close>

lemma trimmed_None [simp]: "trimmed None = None"
  by (simp add: trimmed_def)

lemma trimmed_idem [simp]: "trimmed (trimmed x) = trimmed x"
  by (auto simp: trimmed_def split: option.splits)

lemma normal_Some: "normalizeNonEmptyString v = Some s \<Longrightarrow> trim s = s \<and> s \<noteq> []"
  by (auto simp: normalizeNonEmptyString_def trimmed_def split: json.splits if_splits)

lemma normal_optionJson [simp]: "normalizeNonEmptyString (optionJson x) = trimmed x"
  by (cases x) (simp_all add: normalizeNonEmptyString_def trimmed_def)

lemma trimmed_normal [simp]: "trimmed (normalizeNonEmptyString v) = normalizeNonEmptyString v"
  by (auto simp: normalizeNonEmptyString_def split: json.splits)

lemma truthy_normal [simp]: "truthy (normalizeNonEmptyString v) \<longleftrightarrow> normalizeNonEmptyString v \<noteq> None"
  using normal_Some by (auto simp: truthy_def split: option.splits)

lemma normalizeStringArray_strings [simp]: "normalizeStringArray lib (stringsJson ss) = ss"
  by (induction ss) (simp_all add: normalizeStringArray_def stringsJson_def)

lemma argvLoop_eq: "length es = length as \<Longrightarrow> argvLoop es as \<longleftrightarrow> es = as"
  by (induction es as rule: list_induct2) auto

lemma argvMatches_iff: "argvMatches es as \<longleftrightarrow> es \<noteq> [] \<and> es = as"
  by (auto simp: argvMatches_def argvLoop_eq)

lemma normalOperand_fields:
  assumes "normalizeFileOperand v = Some (Some f)"
  shows "0 \<le> foArgvIndex f \<and> trim (foPath f) = foPath f \<and> foPath f \<noteq> [] \<and> trim (foSha256 f) = foSha256 f \<and> foSha256 f \<noteq> []"
proof -
  obtain candidate where c: "asRecord v = Some candidate" using assms
    by (auto simp: normalizeFileOperand_def split: option.splits if_splits)
  obtain i p h where f: "naturalNumber (jsonProp candidate ''argvIndex'') = Some i"
    "normalizeNonEmptyString (jsonProp candidate ''path'') = Some p"
    "normalizeNonEmptyString (jsonProp candidate ''sha256'') = Some h" "f = \<lparr>foArgvIndex = i, foPath = p, foSha256 = h\<rparr>"
    using assms c by (auto simp: normalizeFileOperand_def split: option.splits if_splits)
  have "0 \<le> i" using f(1) by (auto simp: naturalNumber_def split: json.splits jsnum.splits if_splits)
  then show ?thesis using normal_Some[OF f(2)] normal_Some[OF f(3)] by (simp add: f(4))
qed

lemma normalPlan_fields:
  assumes "normalizeSystemRunApprovalPlan lib v = Some p"
  shows "plArgv p \<noteq> []" "trim (plCommandText p) = plCommandText p" "plCommandText p \<noteq> []"
    "trimmed (plCwd p) = plCwd p" "trimmed (plAgentId p) = plAgentId p" "trimmed (plSessionKey p) = plSessionKey p"
    "trimmed (plCommandPreview p) = plCommandPreview p"
    "\<And>f. plMutableFileOperand p = Some f \<Longrightarrow> 0 \<le> foArgvIndex f \<and> trim (foPath f) = foPath f \<and> foPath f \<noteq> []
       \<and> trim (foSha256 f) = foSha256 f \<and> foSha256 f \<noteq> []"
proof -
  obtain candidate where c: "asRecord v = Some candidate" using assms
    by (auto simp: normalizeSystemRunApprovalPlan_def split: option.splits)
  define argv where "argv = normalizeStringArray lib (jsonProp candidate ''argv'')"
  define operand where "operand = normalizeFileOperand (jsonProp candidate ''mutableFileOperand'')"
  define command where "command = orElse (normalizeNonEmptyString (jsonProp candidate ''commandText''))
     (normalizeNonEmptyString (jsonProp candidate ''rawCommand''))"
  have shape: "(if argv = [] then None else if operand = Some None then None else (case command of None \<Rightarrow> None
     | Some commandText \<Rightarrow> Some \<lparr>plArgv = argv, plCwd = normalizeNonEmptyString (jsonProp candidate ''cwd''), plCommandText = commandText,
         plCommandPreview = normalizeNonEmptyString (jsonProp candidate ''commandPreview''),
         plAgentId = normalizeNonEmptyString (jsonProp candidate ''agentId''),
         plSessionKey = normalizeNonEmptyString (jsonProp candidate ''sessionKey''),
         plMutableFileOperand = Option.bind operand (\<lambda>f. f)\<rparr>)) = Some p"
    using assms unfolding normalizeSystemRunApprovalPlan_def c option.case Let_def argv_def operand_def command_def by assumption
  obtain commandText where t: "command = Some commandText"
    using shape by (cases command) (simp_all split: if_split_asm)
  have ctext: "trim commandText = commandText \<and> commandText \<noteq> []"
    using t unfolding command_def
    by (cases "normalizeNonEmptyString (jsonProp candidate ''commandText'')") (auto dest: normal_Some)
  have p: "argv \<noteq> []" "p = \<lparr>plArgv = argv, plCwd = normalizeNonEmptyString (jsonProp candidate ''cwd''), plCommandText = commandText,
         plCommandPreview = normalizeNonEmptyString (jsonProp candidate ''commandPreview''),
         plAgentId = normalizeNonEmptyString (jsonProp candidate ''agentId''),
         plSessionKey = normalizeNonEmptyString (jsonProp candidate ''sessionKey''),
         plMutableFileOperand = Option.bind operand (\<lambda>f. f)\<rparr>"
    using shape unfolding t option.case by (simp_all split: if_split_asm)
  show "plArgv p \<noteq> []" "trim (plCommandText p) = plCommandText p" "plCommandText p \<noteq> []"
    "trimmed (plCwd p) = plCwd p" "trimmed (plAgentId p) = plAgentId p" "trimmed (plSessionKey p) = plSessionKey p"
    "trimmed (plCommandPreview p) = plCommandPreview p"
    using p ctext by simp_all
  show "0 \<le> foArgvIndex f \<and> trim (foPath f) = foPath f \<and> foPath f \<noteq> [] \<and> trim (foSha256 f) = foSha256 f \<and> foSha256 f \<noteq> []"
    if "plMutableFileOperand p = Some f" for f
  proof -
    have "operand = Some (Some f)" using that p by (cases operand) auto
    then show ?thesis unfolding operand_def by (rule normalOperand_fields)
  qed
qed

lemma planJson_normal:
  assumes "plArgv p \<noteq> []" "trim (plCommandText p) = plCommandText p" "plCommandText p \<noteq> []"
    "trimmed (plCwd p) = plCwd p" "trimmed (plAgentId p) = plAgentId p" "trimmed (plSessionKey p) = plSessionKey p"
    "trimmed (plCommandPreview p) = plCommandPreview p"
    "\<And>f. plMutableFileOperand p = Some f \<Longrightarrow> 0 \<le> foArgvIndex f \<and> trim (foPath f) = foPath f \<and> foPath f \<noteq> []
       \<and> trim (foSha256 f) = foSha256 f \<and> foSha256 f \<noteq> []"
  shows "normalizeSystemRunApprovalPlan lib (planJson p) = Some p"
proof -
  have str: "normalizeNonEmptyString (JString s) = Some s" if "trim s = s" "s \<noteq> []" for s
    using that by (simp add: normalizeNonEmptyString_def trimmed_def)
  have op: "normalizeFileOperand (case plMutableFileOperand p of None \<Rightarrow> JUndefined
         | Some f \<Rightarrow> JObject [(''argvIndex'', JNumber (JNum (of_int (foArgvIndex f)))),
              (''path'', JString (foPath f)), (''sha256'', JString (foSha256 f))])
      = map_option Some (plMutableFileOperand p)"
  proof (cases "plMutableFileOperand p")
    case (Some f)
    with assms(8) [OF Some] show ?thesis
      by (simp add: normalizeFileOperand_def asRecord_def jsonProp_def naturalNumber_def str)
  qed (simp add: normalizeFileOperand_def)
  have "map_option Some x \<noteq> Some None" "Option.bind (map_option Some x) (\<lambda>f. f) = x" for x :: "file_operand option"
    by (cases x; simp)+
  then show ?thesis
    using assms(1-7) by (simp add: normalizeSystemRunApprovalPlan_def planJson_def asRecord_def jsonProp_def op str)
qed

text \<open>
  C29. A plan survives its journey: the plan object that the gate puts into the forwarded parameters is
  read back by the receiver's normalisation as the very same plan, with no field lost or changed.
\<close>

theorem approval_plan_roundtrip:
  assumes "normalizeSystemRunApprovalPlan lib v = Some p"
  shows "normalizeSystemRunApprovalPlan lib (planJson p) = Some p"
  by (rule planJson_normal) (use normalPlan_fields [OF assms] in simp_all)

section \<open>The hash binds the environment\<close>

lemma jsonPair_prefix:
  assumes "jsonStringArray [a, b] @ r = jsonStringArray [c, d] @ r'"
  shows "a = c \<and> b = d \<and> r = r'"
proof -
  from assms have "jsonString a @ ('','' @ jsonString b @ '']'' @ r) = jsonString c @ ('','' @ jsonString d @ '']'' @ r')"
    by (simp add: jsonStringArray_def)
  from jsonString_inj [OF this] have 1: "a = c" and "jsonString b @ ('']'' @ r) = jsonString d @ ('']'' @ r')" by auto
  from 1 jsonString_inj [OF this(2)] show ?thesis by simp
qed

lemma jsonPairs_tail_inj:
  "joinWith '','' (map (\<lambda>(k, v). jsonStringArray [k, v]) es) @ '']'' =
   joinWith '','' (map (\<lambda>(k, v). jsonStringArray [k, v]) fs) @ '']'' \<Longrightarrow> es = fs"
proof (induction es arbitrary: fs)
  case Nil
  then show ?case
    by (cases fs; cases "tl fs") (auto simp: jsonStringArray_def split: prod.splits)
next
  case (Cons e es)
  obtain k v where e: "e = (k, v)" by (cases e)
  show ?case
  proof (cases fs)
    case Nil
    with Cons.prems show ?thesis by (cases es) (auto simp: e jsonStringArray_def)
  next
    case (Cons f fs')
    obtain k' v' where f: "f = (k', v')" by (cases f)
    define rest where "rest = (\<lambda>xs. (if xs = [] then '']''
        else '','' @ joinWith '','' (map (\<lambda>(k, v). jsonStringArray [k, v]) xs) @ '']''))"
    have split: "joinWith '','' (map (\<lambda>(k, v). jsonStringArray [k, v]) ((x, y) # xs)) @ '']''
        = jsonStringArray [x, y] @ rest xs" for x y xs
      by (cases xs) (simp_all add: rest_def)
    have "jsonStringArray [k, v] @ rest es = jsonStringArray [k', v'] @ rest fs'"
      using Cons.prems unfolding Cons e f split .
    then have eq: "k = k' \<and> v = v' \<and> rest es = rest fs'" by (rule jsonPair_prefix)
    then have "es = fs'"
      using Cons.IH [of fs'] by (auto simp: rest_def split: if_splits)
    with eq show ?thesis by (simp add: Cons e f)
  qed
qed

lemma jsonPairs_inj: "jsonPairs es = jsonPairs fs \<Longrightarrow> es = fs"
  using jsonPairs_tail_inj [of es fs] by (simp add: jsonPairs_def)

text \<open>
  C28. The environment hash binds the environment: if two requests have the same hash, then the variables
  they override and the values they set are the same, in the same order, or else the two texts that were
  hashed, the JSON arrays of their entries, are themselves different texts with the same SHA-256.
\<close>

theorem env_hash_binds_environment:
  assumes "fst (buildSystemRunApprovalEnvBinding lib env) = fst (buildSystemRunApprovalEnvBinding lib env')"
    and "e = normalizeSystemRunEnvEntries lib env" "e' = normalizeSystemRunEnvEntries lib env'"
  shows "e = e' \<or> (jsonPairs e \<noteq> jsonPairs e' \<and> lbSha256 lib (jsonPairs e) = lbSha256 lib (jsonPairs e'))"
  using assms jsonPairs_inj
  by (auto simp: buildSystemRunApprovalEnvBinding_def hashSystemRunEnvEntries_def Let_def split: if_splits)

lemma env_match:
  assumes "matchSystemRunApprovalEnvHash expected (fst (buildSystemRunApprovalEnvBinding lib env))
      (snd (buildSystemRunApprovalEnvBinding lib env)) = None"
  shows "if truthy expected then fst (buildSystemRunApprovalEnvBinding lib env) = expected
    else normalizeSystemRunEnvEntries lib env = []"
  using assms
  by (auto simp: matchSystemRunApprovalEnvHash_def buildSystemRunApprovalEnvBinding_def hashSystemRunEnvEntries_def
      Let_def split: if_splits)

section \<open>What is forwarded as approved\<close>

definition controlKeys :: "string set" where
  "controlKeys = {''approved'', ''approvalDecision''}"

lemma pick_get: "mapGet (pickSystemRunParams raw) k = (if k \<in> set forwardedKeys then mapGet raw k else None)"
proof -
  have "mapGet (fold (\<lambda>key next. case mapGet raw key of None \<Rightarrow> next | Some v \<Rightarrow> mapSet key v next) ks acc) k
      = (if k \<in> set ks \<and> mapGet raw k \<noteq> None then mapGet raw k else mapGet acc k)" for ks acc
    by (induction ks arbitrary: acc) (auto simp: mapGet_set split: option.splits)
  then show ?thesis by (simp add: pickSystemRunParams_def)
qed

lemma pick_prop: "k \<in> set forwardedKeys \<Longrightarrow> jsonProp (pickSystemRunParams raw) k = jsonProp raw k"
  by (simp add: jsonProp_def pick_get)

lemma setOrDelete_prop: "jsonProp (setOrDelete key v next) k =
    (if k = key then (if truthy v then optionJson v else JUndefined) else jsonProp next k)"
  by (simp add: setOrDelete_def jsonProp_set jsonProp_delete)

lemma setOrDelete_get: "mapGet (setOrDelete key v next) k =
    (if k = key then (if truthy v then Some (optionJson v) else None) else mapGet next k)"
  by (simp add: setOrDelete_def mapGet_set mapGet_delete)

lemma forwardPlan_keys: "mapGet (forwardPlan ctx next) k = Some y \<Longrightarrow> k \<in> set forwardedKeys \<or> mapHas next k"
  by (auto simp: forwardPlan_def Let_def forwardedKeys_def mapGet_set setOrDelete_get split: option.splits if_splits)

lemma approvedParams_keys:
  "approvedParams d next = JObject out \<Longrightarrow> mapHas out k \<longleftrightarrow> k \<in> controlKeys \<or> mapHas next k"
  by (auto simp: approvedParams_def controlKeys_def mapGet_set)

lemma enforce_forward:
  assumes "enforceDecision approved requested client runId snapshot next m = (Forward (JObject out), m')"
  obtains d where "approvedParams d next = JObject out"
    and "(d = ''allow-once'' \<and> apDecision snapshot = Some AllowOnce \<and> consumeAllowOnce runId m = (True, m'))
     \<or> (d = ''allow-always'' \<and> apDecision snapshot = Some AllowAlways \<and> m' = m)
     \<or> (d = ''allow-once'' \<and> timedOut snapshot \<and> approved \<and> requested = Some ''allow-once'' \<and> clientHasApprovals client \<and> m' = m)"
proof -
  note a = assms [unfolded enforceDecision_def]
  consider (once) "apDecision snapshot = Some AllowOnce" | (always) "apDecision snapshot = Some AllowAlways"
    | (other) "apDecision snapshot \<noteq> Some AllowOnce" "apDecision snapshot \<noteq> Some AllowAlways" by blast
  then show thesis
  proof cases
    case once
    with a that [of "''allow-once''"] show thesis by (auto split: prod.splits if_splits)
  next
    case always
    with a that [of "''allow-always''"] show thesis by auto
  next
    case other
    with a that [of "''allow-once''"] show thesis by (auto split: if_splits)
  qed
qed

text \<open>What a call that forwards went through: without an override, or down to the decision.\<close>

lemma sanitize_forward:
  assumes "sanitizeSystemRunParams lib nodeId (JObject p) client mgr now = (Forward (JObject out), mgr')"
  obtains (plain) "out = pickSystemRunParams p" "mgr' = mgr"
    "jsonProp p ''approved'' \<noteq> JBool True" "normalizeApprovalDecision (jsonProp p ''approvalDecision'') = None"
  | (override) runId m m' snapshot ctx where "normalizeNonEmptyString (jsonProp p ''runId'') = Some runId"
    "mgr = Some m" "mgr' = Some m'" "getSnapshot runId m = Some snapshot"
    "bindingError nodeId client runId snapshot now = None"
    "resolveSystemRunApprovalRuntimeContext lib (rqSystemRunPlan (apRequest snapshot)) (jsonProp p ''command'')
       (jsonProp p ''rawCommand'') (jsonProp p ''cwd'') (jsonProp p ''agentId'') (jsonProp p ''sessionKey'') = Inr ctx"
    "evaluateSystemRunApprovalMatch lib (rtArgv ctx) (apRequest snapshot) (rtCwd ctx) (rtAgentId ctx)
       (rtSessionKey ctx) (jsonProp p ''env'') = None"
    "enforceDecision (jsonProp p ''approved'' = JBool True)
       (normalizeApprovalDecision (jsonProp p ''approvalDecision'')) client runId snapshot
       (forwardPlan ctx (pickSystemRunParams p)) m = (Forward (JObject out), m')"
  using assms
  by (auto simp: sanitizeSystemRunParams_def asRecord_def Let_def split: if_splits option.splits sum.splits prod.splits)

text \<open>
  Nothing is smuggled through the gate: every field of the parameters it forwards is one of the
  eleven that \<open>system.run\<close> understands or one of the two control fields, and the control fields are
  never there unless a manager of approvals answered for them.
\<close>

theorem sanitize_forwards_only_known_fields:
  assumes "sanitizeSystemRunParams lib nodeId (JObject p) client mgr now = (Forward (JObject out), mgr')"
  shows "{k. mapHas out k} \<subseteq> set forwardedKeys \<union> controlKeys
    \<and> (mgr = None \<longrightarrow> {k. mapHas out k} \<subseteq> set forwardedKeys)"
  using assms
proof (cases rule: sanitize_forward)
  case plain
  then show ?thesis by (auto simp: pick_get split: if_splits)
next
  case (override runId m m' snapshot ctx)
  from override(8) obtain d where "approvedParams d (forwardPlan ctx (pickSystemRunParams p)) = JObject out"
    by (rule enforce_forward)
  note k = approvedParams_keys [OF this]
  have "mapHas out k \<Longrightarrow> k \<in> set forwardedKeys \<union> controlKeys" for k
    unfolding k by (auto dest!: forwardPlan_keys simp: pick_get split: if_splits)
  with override(2) show ?thesis by blast
qed

text \<open>
  The rest of the section: what the forwarded parameters say, compared with the binding that was approved.
\<close>

definition runsAs :: "lib \<Rightarrow> (string, json) jsmap \<Rightarrow> approval_binding \<Rightarrow> bool" where
  "runsAs lib out b \<longleftrightarrow>
     normalizeStringArray lib (jsonProp out ''command'') = bnArgv b \<and> bnArgv b \<noteq> []
     \<and> normalizeNonEmptyString (jsonProp out ''cwd'') = bnCwd b
     \<and> normalizeNonEmptyString (jsonProp out ''agentId'') = bnAgentId b
     \<and> normalizeNonEmptyString (jsonProp out ''sessionKey'') = bnSessionKey b
     \<and> (if truthy (bnEnvHash b)
        then fst (buildSystemRunApprovalEnvBinding lib (jsonProp out ''env'')) = bnEnvHash b
        else normalizeSystemRunEnvEntries lib (jsonProp out ''env'') = [])"

lemma match_binding:
  assumes "evaluateSystemRunApprovalMatch lib argv request cwd agentId sessionKey env = None"
  obtains b where "rqSystemRunBinding request = Some b" "rqHost request = Some ''node''"
    "bnArgv b = argv" "argv \<noteq> []" "bnCwd b = trimmed cwd" "bnAgentId b = trimmed agentId"
    "bnSessionKey b = trimmed sessionKey"
    "if truthy (bnEnvHash b) then fst (buildSystemRunApprovalEnvBinding lib env) = bnEnvHash b
     else normalizeSystemRunEnvEntries lib env = []"
proof -
  obtain b where b: "rqSystemRunBinding request = Some b" "rqHost request = Some ''node''"
    and m: "matchSystemRunApprovalBinding b \<lparr>bnArgv = argv, bnCwd = trimmed cwd, bnAgentId = trimmed agentId,
       bnSessionKey = trimmed sessionKey, bnEnvHash = fst (buildSystemRunApprovalEnvBinding lib env)\<rparr>
       (snd (buildSystemRunApprovalEnvBinding lib env)) = None"
    using assms
    by (auto simp: evaluateSystemRunApprovalMatch_def buildSystemRunApprovalBinding_def
        split: if_splits option.splits prod.splits)
  then have "bnArgv b = argv" "argv \<noteq> []" "bnCwd b = trimmed cwd" "bnAgentId b = trimmed agentId"
    "bnSessionKey b = trimmed sessionKey"
    and e: "matchSystemRunApprovalEnvHash (bnEnvHash b) (fst (buildSystemRunApprovalEnvBinding lib env))
       (snd (buildSystemRunApprovalEnvBinding lib env)) = None"
    by (auto simp: matchSystemRunApprovalBinding_def argvMatches_iff split: if_splits)
  with b env_match [OF e] that show thesis by blast
qed

lemma resolved_argv:
  assumes "resolveSystemRunCommandRequest lib command rawCommand = Inr c" "rcArgv c \<noteq> []"
  shows "rcArgv c = normalizeStringArray lib command"
  using assms
  by (auto simp: resolveSystemRunCommandRequest_def resolveSystemRunCommandWithMode_def normalizeStringArray_def Let_def
      split: json.splits list.splits if_splits sum.splits)

lemma context_cases:
  assumes "resolveSystemRunApprovalRuntimeContext lib plan command rawCommand cwd agentId sessionKey = Inr ctx"
    and "rtArgv ctx \<noteq> []"
  obtains (plan) pl where "rtPlan ctx = Some pl" "rtArgv ctx = plArgv pl"
  | (direct) "rtPlan ctx = None" "rtArgv ctx = normalizeStringArray lib command" "rtCwd ctx = normalizeNonEmptyString cwd"
    "rtAgentId ctx = normalizeNonEmptyString agentId" "rtSessionKey ctx = normalizeNonEmptyString sessionKey"
  using assms resolved_argv
  by (fastforce simp: resolveSystemRunApprovalRuntimeContext_def split: option.splits sum.splits)

lemma context_params:
  assumes "resolveSystemRunApprovalRuntimeContext lib plan (jsonProp p ''command'') (jsonProp p ''rawCommand'')
      (jsonProp p ''cwd'') (jsonProp p ''agentId'') (jsonProp p ''sessionKey'') = Inr ctx" "rtArgv ctx \<noteq> []"
  defines "next \<equiv> forwardPlan ctx (pickSystemRunParams p)"
  shows "normalizeStringArray lib (jsonProp next ''command'') = rtArgv ctx
    \<and> normalizeNonEmptyString (jsonProp next ''cwd'') = trimmed (rtCwd ctx)
    \<and> normalizeNonEmptyString (jsonProp next ''agentId'') = trimmed (rtAgentId ctx)
    \<and> normalizeNonEmptyString (jsonProp next ''sessionKey'') = trimmed (rtSessionKey ctx)
    \<and> jsonProp next ''env'' = jsonProp p ''env''"
proof -
  have sd: "normalizeNonEmptyString (if truthy v then optionJson v else JUndefined) = trimmed v" for v
    by (cases v) (auto simp: normalizeNonEmptyString_def trimmed_def)
  have pick: "jsonProp (pickSystemRunParams p) ''command'' = jsonProp p ''command''"
    "jsonProp (pickSystemRunParams p) ''cwd'' = jsonProp p ''cwd''"
    "jsonProp (pickSystemRunParams p) ''agentId'' = jsonProp p ''agentId''"
    "jsonProp (pickSystemRunParams p) ''sessionKey'' = jsonProp p ''sessionKey''"
    "jsonProp (pickSystemRunParams p) ''env'' = jsonProp p ''env''"
    by (simp_all add: pick_prop forwardedKeys_def)
  from assms(1,2) show ?thesis
  proof (cases rule: context_cases)
    case (plan pl)
    then show ?thesis
      by (simp add: next_def forwardPlan_def Let_def setOrDelete_prop jsonProp_set pick sd)
  next
    case direct
    then show ?thesis by (simp add: next_def forwardPlan_def pick)
  qed
qed

lemma approvedParams_prop:
  "approvedParams d next = JObject out \<Longrightarrow> k \<notin> controlKeys \<Longrightarrow> jsonProp out k = jsonProp next k"
  by (auto simp: approvedParams_def controlKeys_def jsonProp_set)

text \<open>
  C1. No run is forwarded as approved without an approval that covers exactly it: there is an approval
  record under the run id, not expired, for the same node, asked for by the same device (or, without one,
  the same connection), whose binding has the argument vector, directory, agent, session and environment
  of the forwarded parameters, and it was decided \<open>allow-once\<close>, which this call used up, or
  \<open>allow-always\<close>, or it ran out and the caller is entitled to approve.
\<close>

theorem approved_run_is_backed:
  assumes "sanitizeSystemRunParams lib nodeId (JObject p) client (Some m) now = (Forward (JObject out), mgr')"
    and "mapHas out ''approved''"
  shows "\<exists>runId snapshot b m'. normalizeNonEmptyString (jsonProp p ''runId'') = Some runId
    \<and> getSnapshot runId m = Some snapshot \<and> mgr' = Some m' \<and> now \<le> apExpiresAtMs snapshot
    \<and> trimmed nodeId \<noteq> None \<and> trimmed nodeId = trimmed (rqNodeId (apRequest snapshot))
    \<and> (if truthy (apDeviceId snapshot) then Option.bind client acDeviceId = apDeviceId snapshot
       else \<not> truthy (apConnId snapshot) \<or> Option.bind client acConnId = apConnId snapshot)
    \<and> rqSystemRunBinding (apRequest snapshot) = Some b \<and> runsAs lib out b
    \<and> ((apDecision snapshot = Some AllowOnce \<and> consumeAllowOnce runId m = (True, m'))
       \<or> (apDecision snapshot = Some AllowAlways \<and> m' = m)
       \<or> (timedOut snapshot \<and> clientHasApprovals client \<and> m' = m))"
  using assms(1)
proof (cases rule: sanitize_forward)
  case plain
  with assms(2) show ?thesis by (simp add: pick_get forwardedKeys_def)
next
  case (override runId m0 m' snapshot ctx)
  from override(8) obtain d where d: "approvedParams d (forwardPlan ctx (pickSystemRunParams p)) = JObject out"
    and dec: "(apDecision snapshot = Some AllowOnce \<and> consumeAllowOnce runId m = (True, m'))
       \<or> (apDecision snapshot = Some AllowAlways \<and> m' = m)
       \<or> (timedOut snapshot \<and> clientHasApprovals client \<and> m' = m)"
    by (rule enforce_forward) (use override(2) in auto)
  from override(7) obtain b where b: "rqSystemRunBinding (apRequest snapshot) = Some b"
    "bnArgv b = rtArgv ctx" "rtArgv ctx \<noteq> []" "bnCwd b = trimmed (rtCwd ctx)" "bnAgentId b = trimmed (rtAgentId ctx)"
    "bnSessionKey b = trimmed (rtSessionKey ctx)"
    "if truthy (bnEnvHash b) then fst (buildSystemRunApprovalEnvBinding lib (jsonProp p ''env'')) = bnEnvHash b
     else normalizeSystemRunEnvEntries lib (jsonProp p ''env'') = []"
    by (rule match_binding)
  have keys: "''command'' \<notin> controlKeys" "''cwd'' \<notin> controlKeys" "''agentId'' \<notin> controlKeys"
    "''sessionKey'' \<notin> controlKeys" "''env'' \<notin> controlKeys"
    by (simp_all add: controlKeys_def)
  note o = keys [THEN approvedParams_prop [OF d]]
  have run: "runsAs lib out b"
    using b context_params [OF override(6) b(3)] unfolding runsAs_def o by simp
  have bind: "now \<le> apExpiresAtMs snapshot" "trimmed nodeId \<noteq> None"
    "trimmed nodeId = trimmed (rqNodeId (apRequest snapshot))"
    "if truthy (apDeviceId snapshot) then Option.bind client acDeviceId = apDeviceId snapshot
       else \<not> truthy (apConnId snapshot) \<or> Option.bind client acConnId = apConnId snapshot"
    using override(5) by (auto simp: bindingError_def split: if_splits option.splits)
  show ?thesis
    using override(1,2,3,4) b(1) run bind dec by (intro exI conjI) (assumption | simp)+
qed

section \<open>One approval, one run\<close>

definition spent :: "string \<Rightarrow> 'p approval_manager \<Rightarrow> bool" where
  \<comment> \<open>the id is gone, or what is kept of it neither allows a run nor looks like a request that ran out\<close>
  "spent i m \<longleftrightarrow> (case getSnapshot i m of None \<Rightarrow> True
     | Some s \<Rightarrow> apResolvedAtMs s \<noteq> None \<and> apDecision s = None \<and> apResolvedBy s \<noteq> None)"

definition registersOther :: "string \<Rightarrow> 'p approval_event \<Rightarrow> bool" where
  "registersOther i e \<longleftrightarrow> (case e of ApRegister rec \<Rightarrow> apId rec \<noteq> i | _ \<Rightarrow> True)"

lemma snapshot_settle:
  assumes "managerInv m" "mapGet (pending m) j = Some r" "j \<noteq> i"
  shows "getSnapshot i (settleEntry j r d b now m) = getSnapshot i m"
  using managerInvD(2) [OF assms(1,2)] managerInvD(2) [OF assms(1), of i] assms(3)
  by (cases "mapGet (pending m) i") (auto simp: getSnapshot_def recordAt_settle)

lemma spent_unless_open:
  "spent i m \<Longrightarrow> mapGet (pending m) i = Some r \<Longrightarrow>
     apResolvedAtMs (recordAt m r) \<noteq> None \<and> apDecision (recordAt m r) = None"
  by (simp add: spent_def getSnapshot_def)

lemma spent_cong: "getSnapshot i m' = getSnapshot i m \<Longrightarrow> spent i m \<Longrightarrow> spent i m'"
  by (simp add: spent_def)

lemma snapshot_setEntry:
  assumes "mapGet (pending m) j = Some r" "r < length (amEntries m)" "j \<noteq> i"
    "\<And>r'. mapGet (pending m) i = Some r' \<Longrightarrow> r' \<noteq> r"
  shows "getSnapshot i (setEntry r e m) = getSnapshot i m"
  using assms by (cases "mapGet (pending m) i") (auto simp: getSnapshot_def recordAt_def entryAt_setEntry)

lemma spent_step:
  assumes m: "managerInv m" and s: "spent i m" and e: "registersOther i e"
  shows "spent i (applyApproval e m)"
proof (cases e)
  case (ApRegister rec)
  show ?thesis
  proof (cases "mapGet (pending m) (apId rec)")
    case None
    have "getSnapshot i (snd (registerApproval rec m)) = getSnapshot i m"
      using None ApRegister e managerInvD(2) [OF m, of i]
      by (cases "mapGet (pending m) i")
        (auto simp: registersOther_def getSnapshot_def registerApproval_def Let_def recordAt_def entryAt_def nth_append)
    with s show ?thesis by (simp add: ApRegister spent_cong)
  qed (use s in \<open>simp add: ApRegister registerApproval_def\<close>)
next
  case (ApResolve j d b now)
  show ?thesis
  proof (cases "fst (resolveApproval j d b now m)")
    case True
    then obtain r where r: "mapGet (pending m) j = Some r" "apResolvedAtMs (recordAt m r) = None"
      "snd (resolveApproval j d b now m) = settleEntry j r (Some d) b now m"
      by (auto simp: resolveApproval_def split: option.splits if_splits)
    moreover have "j \<noteq> i" using spent_unless_open [OF s, of r] r by auto
    ultimately show ?thesis using snapshot_settle [OF m, of j r i] s by (simp add: ApResolve spent_def)
  qed (use s in \<open>auto simp: ApResolve resolveApproval_def split: option.splits if_splits\<close>)
next
  case (ApExpire j b now)
  show ?thesis
  proof (cases "fst (expireApproval j b now m)")
    case True
    then obtain r where r: "mapGet (pending m) j = Some r" "apResolvedAtMs (recordAt m r) = None"
      "snd (expireApproval j b now m) = settleEntry j r None b now m"
      by (auto simp: expireApproval_def split: option.splits if_splits)
    moreover have "j \<noteq> i" using spent_unless_open [OF s, of r] r by auto
    ultimately show ?thesis using snapshot_settle [OF m, of j r i] s by (simp add: ApExpire spent_def)
  qed (use s in \<open>auto simp: ApExpire expireApproval_def split: option.splits if_splits\<close>)
next
  case (ApExpiryFires r now)
  show ?thesis
  proof (cases "r < length (amEntries m) \<and> peTimer (entryAt m r)")
    case True
    then have o: "apResolvedAtMs (recordAt m r) = None" "mapGet (pending m) (apId (recordAt m r)) = Some r"
      using managerInvD(3) [OF m, of r] by (auto simp: entryOk_def registeredAt_def split: if_splits)
    then have ne: "apId (recordAt m r) \<noteq> i" using spent_unless_open [OF s] by auto
    then have diff: "r' \<noteq> r" if "mapGet (pending m) i = Some r'" for r'
      using managerInvD(2) [OF m that] by auto
    let ?m = "setEntry r ((entryAt m r)\<lparr>peTimer := False\<rparr>) m"
    have "expiryFires r now m = settleEntry (apId (recordAt m r)) r None None now ?m"
      using True o by (simp add: expiryFires_def expireApproval_def recordAt_timer)
    then have "getSnapshot i (expiryFires r now m) = getSnapshot i m"
      using diff True by (cases "mapGet (pending m) i")
        (auto simp: getSnapshot_def recordAt_settle recordAt_timer)
    with s show ?thesis by (simp add: ApExpiryFires spent_cong)
  qed (use s in \<open>auto simp: ApExpiryFires expiryFires_def\<close>)
next
  case (ApGraceFires j r)
  have "getSnapshot i (graceFires j r m) = getSnapshot i m \<or> getSnapshot i (graceFires j r m) = None"
    by (auto simp: graceFires_def Let_def getSnapshot_def mapGet_delete recordAt_def entryAt_def)
  with s show ?thesis by (auto simp: ApGraceFires spent_def)
next
  case (ApConsume j)
  show ?thesis
  proof (cases "fst (consumeAllowOnce j m)")
    case True
    then obtain r where r: "mapGet (pending m) j = Some r" "apDecision (recordAt m r) = Some AllowOnce"
      "snd (consumeAllowOnce j m) = setEntry r ((entryAt m r)\<lparr>peRecord := (recordAt m r)\<lparr>apDecision := None\<rparr>\<rparr>) m"
      by (auto simp: consumeAllowOnce_def split: option.splits if_splits)
    moreover have "j \<noteq> i" using spent_unless_open [OF s, of r] r by auto
    ultimately show ?thesis
      using snapshot_setEntry [of m j r i] managerInvD(2) [OF m, of j r] managerInvD(2) [OF m, of i]
      by (intro spent_cong [OF _ s]) (auto simp: ApConsume)
  qed (use s in \<open>auto simp: ApConsume consumeAllowOnce_def split: option.splits if_splits\<close>)
qed

lemma spent_run:
  "managerInv m \<Longrightarrow> spent i m \<Longrightarrow> list_all (\<lambda>e. freshRecord e \<and> registersOther i e) es \<Longrightarrow>
   spent i (fold applyApproval es m)"
proof (induction es arbitrary: m)
  case (Cons e es)
  then have "managerInv (applyApproval e m)" by (auto intro: approvals.inv_event)
  with Cons spent_step [of m i e] show ?case by simp
qed simp

lemma spent_rejects:
  assumes "spent runId m" "getSnapshot runId m = Some snapshot"
    "enforceDecision approved requested client runId snapshot next m = (res, m')"
  shows "res = Reject (systemRunApprovalRequired runId)"
  using assms by (auto simp: spent_def enforceDecision_def timedOut_def)

text \<open>
  C2. A one-time approval runs once: after a run was forwarded on an \<open>allow-once\<close> decision that somebody
  signed, no later call with the same run id is forwarded as approved, by whatever client, with whatever
  parameters, after whatever timers, decisions and other registrations, unless the id is registered anew.
\<close>

theorem once_approval_not_reused:
  assumes reach: "list_all freshRecord es0" "m = fold applyApproval es0 initialManager"
    and first: "sanitizeSystemRunParams lib nodeId (JObject p) client (Some m) now = (Forward (JObject out), Some m1)"
      "mapHas out ''approved''" "normalizeNonEmptyString (jsonProp p ''runId'') = Some runId"
    and snap: "getSnapshot runId m = Some snapshot" "apDecision snapshot = Some AllowOnce" "apResolvedBy snapshot \<noteq> None"
    and later: "list_all (\<lambda>e. freshRecord e \<and> registersOther runId e) es"
    and second: "normalizeNonEmptyString (jsonProp q ''runId'') = Some runId"
      "sanitizeSystemRunParams lib' nodeId' (JObject q) client' (Some (fold applyApproval es m1)) now'
         = (Forward (JObject out'), mgr')"
  shows "\<not> mapHas out' ''approved''"
proof -
  have m: "managerInv m" using managerInv_run [OF reach(1)] reach(2) by simp
  from approved_run_is_backed [OF first(1,2)] snap first(3)
  have c: "consumeAllowOnce runId m = (True, m1)" by (auto simp: timedOut_def)
  then have m1: "m1 = applyApproval (ApConsume runId) m" by simp
  then have inv: "managerInv m1" using m approvals.inv_event [of m "ApConsume runId"] by simp
  from snap(1) obtain r where r: "mapGet (pending m) runId = Some r" "recordAt m r = snapshot"
    by (auto simp: getSnapshot_def)
  with managerInvD(2,3) [OF m] have len: "r < length (amEntries m)" and ok: "entryOk m r" by auto
  from ok snap r(2) have "apResolvedAtMs snapshot \<noteq> None" by (auto simp: entryOk_def split: if_splits)
  with c r len snap have "spent runId m1"
    by (auto simp: consumeAllowOnce_def spent_def getSnapshot_def recordAt_def entryAt_setEntry)
  then have s: "spent runId (fold applyApproval es m1)" by (rule spent_run [OF inv _ later])
  from second(2) show ?thesis
  proof (cases rule: sanitize_forward)
    case plain
    then show ?thesis by (simp add: pick_get forwardedKeys_def)
  next
    case (override rid m2 m' snap' ctx)
    with second(1) spent_rejects [of runId m2 snap'] s show ?thesis by fastforce
  qed
qed

section \<open>A run\<close>

definition demoLib :: lib where
  "demoLib = \<lparr>lbNumber = (\<lambda>n. ''0''), lbSha256 = (\<lambda>s. CHR ''h'' # s), lbCollate = (\<lambda>s. of_nat (length s)), lbPlatform = ''linux''\<rparr>"

definition demoPlan :: approval_plan where
  "demoPlan = \<lparr>plArgv = [''ls'', ''-l''], plCwd = Some ''/srv'', plCommandText = ''ls -l'', plCommandPreview = None,
     plAgentId = None, plSessionKey = Some ''main'',
     plMutableFileOperand = Some \<lparr>foArgvIndex = 1, foPath = ''/srv/a'', foSha256 = ''ff''\<rparr>\<rparr>"

definition demoEnv :: json where "demoEnv = JObject [('' LANG '', JString ''C''), (''1x'', JString ''no'')]"

definition demoRequest :: exec_request where
  "demoRequest = \<lparr>rqHost = Some ''node'', rqNodeId = Some '' n1'', rqSystemRunPlan = planJson demoPlan,
     rqSystemRunBinding = Some (fst (buildSystemRunApprovalBinding demoLib (stringsJson [''ls'', ''-l''])
       (JString ''/srv'') JUndefined (JString ''main'') demoEnv))\<rparr>"

definition demoHistory :: "string option \<Rightarrow> exec_request approval_event list" where
  "demoHistory by' = [ApRegister ((createApproval demoRequest 60000 (Some ''run-1'') ''u1'' 0)\<lparr>apDeviceId := Some ''phone''\<rparr>),
     ApResolve ''run-1'' AllowOnce by' 5]"

definition demoApproved :: "string option \<Rightarrow> exec_request approval_manager" where
  "demoApproved by' = fold applyApproval (demoHistory by') initialManager"

definition demoParams :: "(string, json) jsmap" where
  "demoParams = [(''command'', JArray [JString ''rm'', JString ''-rf'']), (''env'', demoEnv), (''runId'', JString ''run-1''),
     (''approved'', JBool True), (''approvalDecision'', JString ''allow-once''), (''extra'', JNull)]"

definition demoClient :: "approval_client option" where
  "demoClient = Some \<lparr>acConnId = Some ''c9'', acScopes = JArray [JString ''operator.approvals''], acDeviceId = Some ''phone''\<rparr>"

definition demoOut :: "(string, json) jsmap" where
  "demoOut = [(''command'', stringsJson [''ls'', ''-l'']), (''env'', demoEnv), (''runId'', JString ''run-1''),
     (''systemRunPlan'', planJson demoPlan), (''rawCommand'', JString ''ls -l''), (''cwd'', JString ''/srv''),
     (''sessionKey'', JString ''main''), (''approved'', JBool True), (''approvalDecision'', JString ''allow-once'')]"

lemma demo_first:
  "sanitizeSystemRunParams demoLib (Some ''n1'') (JObject demoParams) demoClient (Some (demoApproved (Some ''ops''))) 10
    = (Forward (JObject demoOut), Some (snd (consumeAllowOnce ''run-1'' (demoApproved (Some ''ops'')))))"
  by code_simp

lemma demoHistory_fresh: "list_all freshRecord (demoHistory by')"
  by (simp add: demoHistory_def createApproval_def)

lemma demo_plan_normal: "normalizeSystemRunApprovalPlan demoLib (planJson demoPlan) = Some demoPlan"
  by code_simp

lemma approval_plan_roundtrip_witness:
  "normalizeSystemRunApprovalPlan demoLib (JObject [(''argv'', JArray [JString ''ls'', JNull]), (''cwd'', JString ''  ''),
     (''rawCommand'', JString '' ls ''), (''mutableFileOperand'', JUndefined)]) =
     Some \<lparr>plArgv = [''ls'', ''null''], plCwd = None, plCommandText = ''ls'', plCommandPreview = None, plAgentId = None,
       plSessionKey = None, plMutableFileOperand = None\<rparr>
   \<and> normalizeSystemRunApprovalPlan demoLib (planJson \<lparr>plArgv = [''ls'', ''null''], plCwd = None, plCommandText = ''ls'',
       plCommandPreview = None, plAgentId = None, plSessionKey = None, plMutableFileOperand = None\<rparr>) =
     Some \<lparr>plArgv = [''ls'', ''null''], plCwd = None, plCommandText = ''ls'', plCommandPreview = None, plAgentId = None,
       plSessionKey = None, plMutableFileOperand = None\<rparr>"
  (is "?a = Some ?p \<and> _")
proof
  show "?a = Some ?p" by code_simp
  then show "normalizeSystemRunApprovalPlan demoLib (planJson ?p) = Some ?p" by (rule approval_plan_roundtrip)
qed

lemma demo_env_hash: "fst (buildSystemRunApprovalEnvBinding demoLib demoEnv) =
    fst (buildSystemRunApprovalEnvBinding demoLib (JObject [(''LANG'', JString ''C'')]))"
  by code_simp

lemma env_hash_binds_environment_witness:
  "normalizeSystemRunEnvEntries demoLib demoEnv = normalizeSystemRunEnvEntries demoLib (JObject [(''LANG'', JString ''C'')])
   \<and> normalizeSystemRunEnvEntries demoLib demoEnv = [(''LANG'', ''C'')]"
proof
  have "lbSha256 demoLib a = lbSha256 demoLib b \<longleftrightarrow> a = b" for a b by (simp add: demoLib_def)
  with env_hash_binds_environment [OF demo_env_hash refl refl]
  show "normalizeSystemRunEnvEntries demoLib demoEnv = normalizeSystemRunEnvEntries demoLib (JObject [(''LANG'', JString ''C'')])"
    by blast
  show "normalizeSystemRunEnvEntries demoLib demoEnv = [(''LANG'', ''C'')]" by code_simp
qed

lemma sanitize_forwards_only_known_fields_witness:
  "{k. mapHas demoOut k} \<subseteq> set forwardedKeys \<union> controlKeys \<and> mapHas demoParams ''extra'' \<and> \<not> mapHas demoOut ''extra''"
proof (intro conjI)
  show "{k. mapHas demoOut k} \<subseteq> set forwardedKeys \<union> controlKeys"
    using sanitize_forwards_only_known_fields [OF demo_first] by blast
  show "mapHas demoParams ''extra''" "\<not> mapHas demoOut ''extra''" by (code_simp)+
qed

lemma approved_run_is_backed_witness:
  "\<exists>runId snapshot b m'. normalizeNonEmptyString (jsonProp demoParams ''runId'') = Some runId
    \<and> getSnapshot runId (demoApproved (Some ''ops'')) = Some snapshot
    \<and> Some (snd (consumeAllowOnce ''run-1'' (demoApproved (Some ''ops'')))) = Some m' \<and> 10 \<le> apExpiresAtMs snapshot
    \<and> trimmed (Some ''n1'') = trimmed (rqNodeId (apRequest snapshot))
    \<and> rqSystemRunBinding (apRequest snapshot) = Some b \<and> runsAs demoLib demoOut b"
proof -
  have "mapHas demoOut ''approved''" by code_simp
  from approved_run_is_backed [OF demo_first this] show ?thesis by blast
qed

lemma once_approval_not_reused_witness: "\<not> mapHas [(''runId'', JString '' run-1 '')] ''approved''"
proof (rule once_approval_not_reused [OF demoHistory_fresh demoApproved_def demo_first, where runId = "''run-1''"
    and es = "[ApResolve ''run-1'' AllowOnce None 20, ApGraceFires ''run-2'' 0, ApConsume ''run-1'']"
    and q = "[(''runId'', JString '' run-1 ''), (''notice'', JNull)]" and lib' = demoLib and nodeId' = None and client' = None
    and now' = 30 and snapshot = "the (getSnapshot ''run-1'' (demoApproved (Some ''ops'')))"])
  show "mapHas demoOut ''approved''" by code_simp
  show "normalizeNonEmptyString (jsonProp demoParams ''runId'') = Some ''run-1''" by code_simp
  show "getSnapshot ''run-1'' (demoApproved (Some ''ops'')) = Some (the (getSnapshot ''run-1'' (demoApproved (Some ''ops''))))"
    by code_simp
  show "apDecision (the (getSnapshot ''run-1'' (demoApproved (Some ''ops'')))) = Some AllowOnce" by code_simp
  show "apResolvedBy (the (getSnapshot ''run-1'' (demoApproved (Some ''ops'')))) \<noteq> None" by code_simp
  show "list_all (\<lambda>e. freshRecord e \<and> registersOther ''run-1'' e)
      [ApResolve ''run-1'' AllowOnce None 20, ApGraceFires ''run-2'' 0, ApConsume ''run-1'' :: exec_request approval_event]"
    by (simp add: registersOther_def)
  show "normalizeNonEmptyString (jsonProp [(''runId'', JString '' run-1 ''), (''notice'', JNull)] ''runId'') = Some ''run-1''"
    by code_simp
  show "sanitizeSystemRunParams demoLib None (JObject [(''runId'', JString '' run-1 ''), (''notice'', JNull)]) None
      (Some (fold applyApproval [ApResolve ''run-1'' AllowOnce None 20, ApGraceFires ''run-2'' 0, ApConsume ''run-1'']
         (snd (consumeAllowOnce ''run-1'' (demoApproved (Some ''ops'')))))) 30
      = (Forward (JObject [(''runId'', JString '' run-1 '')]),
         Some (fold applyApproval [ApResolve ''run-1'' AllowOnce None 20, ApGraceFires ''run-2'' 0, ApConsume ''run-1'']
         (snd (consumeAllowOnce ''run-1'' (demoApproved (Some ''ops''))))))"
    by code_simp
qed

text \<open>
  The signature matters: if an \<open>allow-once\<close> decision was recorded without a resolver (the record's
  \<open>resolvedBy\<close> is then \<open>null\<close>), the consumed record looks exactly like a request that ran out, and a second
  call with the same run id is forwarded as approved again during the grace period.
\<close>

theorem consumed_approval_replayed:
  "(case sanitizeSystemRunParams demoLib (Some ''n1'') (JObject demoParams) demoClient (Some (demoApproved None)) 10 of
      (r1, m1) \<Rightarrow> r1 = Forward (JObject demoOut)
        \<and> (case sanitizeSystemRunParams demoLib (Some ''n1'') (JObject demoParams) demoClient m1 20 of
             (r2, m2) \<Rightarrow> r2 = Forward (JObject demoOut)))"
  by code_simp

section \<open>From the request to the run\<close>

definition requestRecord :: "lib \<Rightarrow> request_context \<Rightarrow> string option \<Rightarrow> json \<Rightarrow> exec_request" where
  \<comment> \<open>the fields the gate reads of the request that \<open>exec.approval.request\<close> makes for host \<open>node\<close>\<close>
  "requestRecord lib rx nodeId env =
     \<lparr>rqHost = Some ''node'', rqNodeId = nodeId,
      rqSystemRunPlan = (case rxPlan rx of None \<Rightarrow> JNull | Some p \<Rightarrow> planJson p),
      rqSystemRunBinding = Some (fst (buildSystemRunApprovalBinding lib
         (case rxCommandArgv rx of None \<Rightarrow> JUndefined | Some argv \<Rightarrow> stringsJson argv)
         (optionJson (rxCwd rx)) (optionJson (rxAgentId rx)) (optionJson (rxSessionKey rx)) env))\<rparr>"

lemma trimmed_orElse: "trimmed x = x \<Longrightarrow> trimmed y = y \<Longrightarrow> trimmed (orElse x y) = orElse x y"
  by (cases x) simp_all

lemma normal_preview: "trimmed (normalizeCommandPreview v a) = normalizeCommandPreview v a"
  using normal_Some [of v] by (auto simp: normalizeCommandPreview_def trimmed_def split: option.splits)

lemma requestContext_plan:
  assumes rx: "rx = resolveSystemRunApprovalRequestContext lib host command commandArgv plan cwd agentId sessionKey"
    and pl: "rxPlan rx = Some p"
  shows "normalizeSystemRunApprovalPlan lib (planJson p) = Some p"
    "rxCommandArgv rx = Some (plArgv p)" "rxCwd rx = orElse (plCwd p) (normalizeNonEmptyString cwd)"
    "rxAgentId rx = orElse (plAgentId p) (normalizeNonEmptyString agentId)"
    "rxSessionKey rx = orElse (plSessionKey p) (normalizeNonEmptyString sessionKey)"
    "trimmed (plCwd p) = plCwd p" "trimmed (plAgentId p) = plAgentId p" "trimmed (plSessionKey p) = plSessionKey p"
    "plArgv p \<noteq> []"
proof -
  from pl obtain p0 where p0: "normalizeSystemRunApprovalPlan lib plan = Some p0"
    and p: "p = p0\<lparr>plCommandPreview := rxCommandPreview rx\<rparr>"
    by (auto simp: rx resolveSystemRunApprovalRequestContext_def Let_def split: if_splits)
  have pv: "trimmed (rxCommandPreview rx) = rxCommandPreview rx"
    using p0 by (auto simp: rx resolveSystemRunApprovalRequestContext_def Let_def normal_preview)
  note f = normalPlan_fields [OF p0]
  show "normalizeSystemRunApprovalPlan lib (planJson p) = Some p"
    by (rule planJson_normal) (use f pv in \<open>simp_all add: p\<close>)
  show "trimmed (plCwd p) = plCwd p" "trimmed (plAgentId p) = plAgentId p" "trimmed (plSessionKey p) = plSessionKey p"
    "plArgv p \<noteq> []"
    using f by (simp_all add: p)
  show "rxCommandArgv rx = Some (plArgv p)" "rxCwd rx = orElse (plCwd p) (normalizeNonEmptyString cwd)"
    "rxAgentId rx = orElse (plAgentId p) (normalizeNonEmptyString agentId)"
    "rxSessionKey rx = orElse (plSessionKey p) (normalizeNonEmptyString sessionKey)"
    using pl by (auto simp: rx resolveSystemRunApprovalRequestContext_def Let_def split: if_splits)
qed

lemma env_self_match:
  assumes "\<And>s. lbSha256 lib s \<noteq> []"
  shows "matchSystemRunApprovalEnvHash (fst (buildSystemRunApprovalEnvBinding lib env))
    (fst (buildSystemRunApprovalEnvBinding lib env)) (snd (buildSystemRunApprovalEnvBinding lib env)) = None"
  using assms
  by (auto simp: matchSystemRunApprovalEnvHash_def buildSystemRunApprovalEnvBinding_def hashSystemRunEnvEntries_def Let_def)

text \<open>
  An approval fits the run it was asked for, except in one case: the run of a plan, unmodified, with
  the environment of the request, matches the binding made at request time if and only if directory,
  agent and session of the request came from the plan itself; a value the request supplied beside a plan
  that has none is bound, but the run is judged by the plan alone, so that approval can never be used.
\<close>

theorem approval_fits_its_run:
  assumes sha: "\<And>s. lbSha256 lib s \<noteq> []"
    and rx: "rx = resolveSystemRunApprovalRequestContext lib host command commandArgv plan cwd agentId sessionKey"
      "rxPlan rx = Some p"
    and ctx: "resolveSystemRunApprovalRuntimeContext lib (rqSystemRunPlan (requestRecord lib rx nodeId env))
       command' rawCommand' cwd' agentId' sessionKey' = Inr ctx"
  shows "evaluateSystemRunApprovalMatch lib (rtArgv ctx) (requestRecord lib rx nodeId env) (rtCwd ctx) (rtAgentId ctx)
       (rtSessionKey ctx) env = None
     \<longleftrightarrow> rxCwd rx = plCwd p \<and> rxAgentId rx = plAgentId p \<and> rxSessionKey rx = plSessionKey p"
proof -
  note c = requestContext_plan [OF rx]
  have ctx': "rtArgv ctx = plArgv p" "rtCwd ctx = plCwd p" "rtAgentId ctx = plAgentId p" "rtSessionKey ctx = plSessionKey p"
    using ctx c(1) rx(2) by (auto simp: requestRecord_def resolveSystemRunApprovalRuntimeContext_def)
  have norm: "trimmed (rxCwd rx) = rxCwd rx" "trimmed (rxAgentId rx) = rxAgentId rx"
    "trimmed (rxSessionKey rx) = rxSessionKey rx"
    using c by (simp_all add: trimmed_orElse)
  have "argvMatches (plArgv p) (plArgv p)" using c(9) by (simp add: argvMatches_iff)
  moreover note env_self_match [OF sha, of env]
  ultimately show ?thesis
    using c norm rx(2)
    by (auto simp: evaluateSystemRunApprovalMatch_def requestRecord_def buildSystemRunApprovalBinding_def
        matchSystemRunApprovalBinding_def requestMismatch_def ctx' split: prod.splits)
qed

lemma approval_fits_its_run_witness:
  "resolveSystemRunApprovalRuntimeContext demoLib (planJson demoPlan) JNull JNull JNull JNull JNull =
     Inr \<lparr>rtPlan = Some demoPlan, rtArgv = [''ls'', ''-l''], rtCwd = Some ''/srv'', rtAgentId = None,
       rtSessionKey = Some ''main'', rtCommandText = ''ls -l''\<rparr>
   \<and> evaluateSystemRunApprovalMatch demoLib [''ls'', ''-l'']
      (requestRecord demoLib (resolveSystemRunApprovalRequestContext demoLib (JString ''node'') JNull JNull (planJson demoPlan)
          (JString ''/tmp'') (JString ''bot'') JNull) (Some ''n1'') demoEnv)
      (Some ''/srv'') None (Some ''main'') demoEnv \<noteq> None"
  (is "?ctx = Inr ?c \<and> evaluateSystemRunApprovalMatch demoLib _ (requestRecord demoLib ?rx _ demoEnv) _ _ _ _ \<noteq> None")
proof
  show ctx: "?ctx = Inr ?c" by code_simp
  have plan: "rxPlan ?rx = Some demoPlan" by code_simp
  then have "rqSystemRunPlan (requestRecord demoLib ?rx (Some ''n1'') demoEnv) = planJson demoPlan"
    by (simp add: requestRecord_def)
  moreover have "rxAgentId ?rx \<noteq> plAgentId demoPlan" by code_simp
  moreover have "lbSha256 demoLib s \<noteq> []" for s by (simp add: demoLib_def)
  ultimately show "evaluateSystemRunApprovalMatch demoLib [''ls'', ''-l''] (requestRecord demoLib ?rx (Some ''n1'') demoEnv)
      (Some ''/srv'') None (Some ''main'') demoEnv \<noteq> None"
    using approval_fits_its_run [OF _ refl plan, of "Some ''n1''" demoEnv JNull JNull JNull JNull JNull ?c] ctx by simp
qed

lemma demo_fits:
  "evaluateSystemRunApprovalMatch demoLib [''ls'', ''-l'']
      (requestRecord demoLib (resolveSystemRunApprovalRequestContext demoLib (JString ''node'') JNull JNull (planJson demoPlan)
          (JString ''/tmp'') JNull JNull) (Some ''n1'') demoEnv)
      (Some ''/srv'') None (Some ''main'') demoEnv = None"
  by code_simp

section \<open>The timeout fallback\<close>

text \<open>
  Expiry timers do not fire early, and the only calls of \<open>resolve\<close> and \<open>expire\<close> besides that timer
  name who decided (\<open>server-methods/exec-approval.ts\<close>: the client, or \<open>no-approval-route\<close>).
\<close>

fun timelyEvent :: "'p approval_event \<Rightarrow> 'p approval_manager \<Rightarrow> bool" where
  "timelyEvent (ApExpiryFires r now) m \<longleftrightarrow> (if r < length (amEntries m) then apExpiresAtMs (recordAt m r) \<le> now else True)"
| "timelyEvent (ApResolve i d b now) m \<longleftrightarrow> b \<noteq> None"
| "timelyEvent (ApExpire i b now) m \<longleftrightarrow> b \<noteq> None"
| "timelyEvent _ m \<longleftrightarrow> True"

fun timelyRun :: "'p approval_event list \<Rightarrow> 'p approval_manager \<Rightarrow> bool" where
  "timelyRun [] m \<longleftrightarrow> True"
| "timelyRun (e # es) m \<longleftrightarrow> timelyEvent e m \<and> timelyRun es (applyApproval e m)"

definition lateRecord :: "'p approval_record \<Rightarrow> bool" where
  "lateRecord rec \<longleftrightarrow> (case apResolvedAtMs rec of None \<Rightarrow> True
     | Some t \<Rightarrow> apResolvedBy rec \<noteq> None \<or> apExpiresAtMs rec \<le> t)"

definition lateInv :: "'p approval_manager \<Rightarrow> bool" where
  "lateInv m \<longleftrightarrow> (\<forall>r < length (amEntries m). lateRecord (recordAt m r))"

lemma lateInv_settle:
  assumes "lateInv m" "r < length (amEntries m)" "b \<noteq> None \<or> apExpiresAtMs (recordAt m r) \<le> now"
  shows "lateInv (settleEntry i r d b now m)"
proof -
  have "length (amEntries (settleEntry i r d b now m)) = length (amEntries m)"
    by (simp add: settleEntry_def Let_def)
  with assms show ?thesis by (auto simp: lateInv_def lateRecord_def recordAt_settle)
qed

lemma lateInv_step:
  assumes "managerInv m" "freshRecord e" "timelyEvent e m" "lateInv m"
  shows "lateInv (applyApproval e m)"
proof (cases e)
  case (ApRegister rec)
  with assms show ?thesis
    by (auto simp: registerApproval_def Let_def lateInv_def recordAt_def entryAt_def nth_append lateRecord_def
        less_Suc_eq split: option.splits)
next
  case (ApResolve i d b now)
  with assms managerInvD(2) [OF assms(1), of i] show ?thesis
    by (auto simp: resolveApproval_def intro!: lateInv_settle split: option.splits)
next
  case (ApExpire i b now)
  with assms managerInvD(2) [OF assms(1), of i] show ?thesis
    by (auto simp: expireApproval_def intro!: lateInv_settle split: option.splits)
next
  case (ApExpiryFires r now)
  let ?m = "setEntry r ((entryAt m r)\<lparr>peTimer := False\<rparr>) m"
  have late: "lateInv ?m" using assms(4) by (simp add: lateInv_def recordAt_timer)
  show ?thesis
  proof (cases "r < length (amEntries m) \<and> mapGet (pending m) (apId (recordAt m r)) = Some r")
    case True
    with assms(3,4) late show ?thesis
      by (auto simp: ApExpiryFires expiryFires_def expireApproval_def recordAt_timer intro!: lateInv_settle)
  next
    case False
    have "\<not> (r < length (amEntries m) \<and> peTimer (entryAt m r))"
      using False managerInvD(3) [OF assms(1), of r] by (auto simp: entryOk_def registeredAt_def split: if_splits)
    with assms(4) show ?thesis by (auto simp: ApExpiryFires expiryFires_def)
  qed
next
  case (ApGraceFires i r)
  with assms(4) show ?thesis by (auto simp: graceFires_def Let_def lateInv_def recordAt_def entryAt_def)
next
  case (ApConsume i)
  have "recordAt (setEntry r ((entryAt m r)\<lparr>peRecord := (recordAt m r)\<lparr>apDecision := None\<rparr>\<rparr>) m) k
      = (if k = r then (recordAt m r)\<lparr>apDecision := None\<rparr> else recordAt m k)" if "r < length (amEntries m)" for r k
    using that by (simp add: recordAt_def entryAt_setEntry)
  with assms(4) managerInvD(2) [OF assms(1), of i] show ?thesis
    by (auto simp: ApConsume consumeAllowOnce_def lateInv_def lateRecord_def split: option.splits)
qed

lemma lateInv_run:
  "managerInv m \<Longrightarrow> lateInv m \<Longrightarrow> list_all freshRecord es \<Longrightarrow> timelyRun es m \<Longrightarrow> lateInv (fold applyApproval es m)"
proof (induction es arbitrary: m)
  case (Cons e es)
  then have "managerInv (applyApproval e m)" by (auto intro: approvals.inv_event)
  with Cons lateInv_step [of m e] show ?case by simp
qed simp

text \<open>
  The timeout fallback has no room: a request that ran out is forwarded as approved, by a client that
  may approve, only in the very millisecond in which it expires, because the gate refuses an expired
  approval before it asks whether the request ran out.
\<close>

theorem timeout_fallback_only_at_deadline:
  assumes hist: "list_all freshRecord es" "timelyRun es initialManager" "m = fold applyApproval es initialManager"
    and run: "sanitizeSystemRunParams lib nodeId (JObject p) client (Some m) now = (Forward (JObject out), mgr')"
      "mapHas out ''approved''" "normalizeNonEmptyString (jsonProp p ''runId'') = Some runId"
    and snap: "getSnapshot runId m = Some snapshot" "apDecision snapshot = None"
    and clock: "\<And>t. apResolvedAtMs snapshot = Some t \<Longrightarrow> t \<le> now"
  shows "now = apExpiresAtMs snapshot"
proof -
  have m: "managerInv m" using managerInv_run [OF hist(1)] hist(3) by simp
  have "lateInv m"
    using lateInv_run [OF managerInv_initial _ hist(1,2)] hist(3) by (simp add: lateInv_def initialManager_def)
  moreover from snap(1) obtain r where "mapGet (pending m) runId = Some r" "recordAt m r = snapshot"
    by (auto simp: getSnapshot_def)
  ultimately have late: "lateRecord snapshot" using managerInvD(2) [OF m] by (auto simp: lateInv_def)
  from approved_run_is_backed [OF run(1,2)] run(3) snap
  have "timedOut snapshot" "now \<le> apExpiresAtMs snapshot" by auto
  with late clock show ?thesis by (fastforce simp: timedOut_def lateRecord_def split: option.splits)
qed

definition demoExpired :: "exec_request approval_event list" where
  "demoExpired = [hd (demoHistory None), ApExpiryFires 0 60000]"

lemma timeout_fallback_only_at_deadline_witness:
  "60000 = apExpiresAtMs (the (getSnapshot ''run-1'' (fold applyApproval demoExpired initialManager)))
   \<and> (case sanitizeSystemRunParams demoLib (Some ''n1'') (JObject demoParams) demoClient
          (Some (fold applyApproval demoExpired initialManager)) 60001 of
        (r, m) \<Rightarrow> r = Reject (guardError ''APPROVAL_EXPIRED'' ''approval expired'' (runDetails ''run-1'')))"
proof
  show "60000 = apExpiresAtMs (the (getSnapshot ''run-1'' (fold applyApproval demoExpired initialManager)))"
  proof (rule timeout_fallback_only_at_deadline [OF _ _ refl, where es = demoExpired and now = 60000 and lib = demoLib
      and p = demoParams and out = demoOut and runId = "''run-1''" and nodeId = "Some ''n1''" and client = demoClient
      and mgr' = "Some (fold applyApproval demoExpired initialManager)"])
    show "list_all freshRecord demoExpired" by code_simp
    show "timelyRun demoExpired initialManager" by code_simp
    show "sanitizeSystemRunParams demoLib (Some ''n1'') (JObject demoParams) demoClient
        (Some (fold applyApproval demoExpired initialManager)) 60000
        = (Forward (JObject demoOut), Some (fold applyApproval demoExpired initialManager))"
      by code_simp
    show "mapHas demoOut ''approved''" by code_simp
    show "normalizeNonEmptyString (jsonProp demoParams ''runId'') = Some ''run-1''" by code_simp
    show "getSnapshot ''run-1'' (fold applyApproval demoExpired initialManager)
        = Some (the (getSnapshot ''run-1'' (fold applyApproval demoExpired initialManager)))" by code_simp
    show "apDecision (the (getSnapshot ''run-1'' (fold applyApproval demoExpired initialManager))) = None" by code_simp
    have "apResolvedAtMs (the (getSnapshot ''run-1'' (fold applyApproval demoExpired initialManager))) = Some 60000"
      by code_simp
    then show "t \<le> 60000"
      if "apResolvedAtMs (the (getSnapshot ''run-1'' (fold applyApproval demoExpired initialManager))) = Some t" for t
      using that by simp
  qed
qed code_simp

end
