(* ===== verification/Text16.thy ===== *)
theory Text16
  imports Prelude "HOL-Library.Word"
begin

text \<open>
  JavaScript text at its width, 16-bit code units, for the parts whose behaviour depends on characters
  beyond Latin-1 or on the length of such text; and the values that \<open>JSON.parse\<close> returns. What the code
  takes from the runtime and does not compute itself is a field of the record \<open>runtime\<close>: JSON text,
  the text of a number, case mapping, parsing and printing of dates, localised numbers.
\<close>

type_synonym text16 = "16 word list"

definition u :: "string \<Rightarrow> text16" where
  \<comment> \<open>a literal of Latin-1 characters\<close>
  "u s = map of_char s"

lemma u_simps: "u [] = []" "u (c # s) = of_char c # u s"
  by (simp_all add: u_def)

lemma of_char16_inj: "(of_char c :: 16 word) = of_char d \<longleftrightarrow> c = d"
proof
  have small: "(of_char x :: nat) < 2 ^ LENGTH(16)" for x
  proof -
    have "(of_char x :: nat) = of_char x mod 256" by (metis char_of_char of_char_of)
    then have "(of_char x :: nat) < 256" by (metis mod_less_divisor zero_less_numeral)
    then show ?thesis by (rule order_less_trans) simp
  qed
  assume "(of_char c :: 16 word) = of_char d"
  then have "(word_of_nat (of_char c) :: 16 word) = word_of_nat (of_char d)" by (simp only: of_nat_of_char)
  then have "(of_char c :: nat) = of_char d"
    by (metis small word_nat_cases of_nat_eq_iff take_bit_nat_eq_self word_of_nat_eq_iff)
  then show "c = d" by simp
qed simp

lemma u_eq [simp]: "u s = u t \<longleftrightarrow> s = t"
  by (simp add: u_def inj_map_eq_map inj_def of_char16_inj)

lemma u_empty [simp]: "u s = [] \<longleftrightarrow> s = []"
  by (simp add: u_def)

definition whitespace16 :: "16 word \<Rightarrow> bool" where
  \<comment> \<open>what \<open>trim\<close> removes and \<open>\s\<close> matches\<close>
  "whitespace16 c \<longleftrightarrow> 9 \<le> c \<and> c \<le> 13 \<or> c = 32 \<or> c = 160 \<or> c = 0x1680 \<or> 0x2000 \<le> c \<and> c \<le> 0x200A
     \<or> c = 0x2028 \<or> c = 0x2029 \<or> c = 0x202F \<or> c = 0x205F \<or> c = 0x3000 \<or> c = 0xFEFF"

definition trim16 :: "text16 \<Rightarrow> text16" where
  "trim16 s = rev (dropWhile whitespace16 (rev (dropWhile whitespace16 s)))"

fun includes16 :: "text16 \<Rightarrow> text16 \<Rightarrow> bool" where
  \<comment> \<open>\<open>s.includes(p)\<close>\<close>
  "includes16 [] p \<longleftrightarrow> p = []"
| "includes16 (c # s) p \<longleftrightarrow> take (length p) (c # s) = p \<or> includes16 s p"

datatype jsval =
    VNull
  | VBool bool
  | VNumber jsnum
  | VText text16
  | VArray "jsval list"
  | VObject "(text16 \<times> jsval) list"

fun getProp :: "jsval option \<Rightarrow> string \<Rightarrow> jsval option" where
  \<comment> \<open>\<open>v.key\<close> for a key that arrays, text, numbers and booleans do not have; \<open>None\<close> is \<open>undefined\<close>\<close>
  "getProp (Some (VObject obj)) key = mapGet obj (u key)"
| "getProp _ key = None"

fun isObject :: "jsval option \<Rightarrow> bool" where
  \<comment> \<open>\<open>v && typeof v === "object"\<close>\<close>
  "isObject (Some (VObject obj)) = True"
| "isObject (Some (VArray vs)) = True"
| "isObject _ = False"

fun textOf :: "jsval option \<Rightarrow> text16 option" where
  "textOf (Some (VText t)) = Some t"
| "textOf _ = None"

fun finiteOf :: "jsval option \<Rightarrow> rat option" where
  \<comment> \<open>\<open>typeof v === "number" && Number.isFinite(v)\<close>\<close>
  "finiteOf (Some (VNumber (JNum q))) = Some q"
| "finiteOf _ = None"

record runtime =
  rtParse :: "text16 \<Rightarrow> jsval option"
  rtStringify :: "jsval \<Rightarrow> text16"
  rtNumber :: "rat \<Rightarrow> text16"
  rtLower :: "text16 \<Rightarrow> text16"
  rtDateParse :: "text16 \<Rightarrow> rat option"
  rtIsoDate :: "rat \<Rightarrow> text16"
  rtLocaleNumber :: "int \<Rightarrow> text16"

lemma trim16_Nil [simp]: "trim16 [] = []"
  by (simp add: trim16_def)

lemma includes16_iff: "includes16 s p \<longleftrightarrow> (\<exists>a b. s = a @ p @ b)"
proof (induction s)
  case (Cons c s)
  have "take (length p) (c # s) = p \<longleftrightarrow> (\<exists>b. c # s = p @ b)"
    by (metis append_eq_conv_conj)
  moreover have "(\<exists>a b. c # s = a @ p @ b) \<longleftrightarrow> (\<exists>b. c # s = p @ b) \<or> (\<exists>a b. s = a @ p @ b)"
    by (metis append_Cons append_Nil list.inject neq_Nil_conv)
  ultimately show ?case using Cons by simp
qed auto

lemma includes16_append: "includes16 s p \<Longrightarrow> includes16 (a @ s @ b) p"
  by (auto simp: includes16_iff) (metis append.assoc)

end
