(* ===== verification/Compartment.thy ===== *)
theory Compartment
  imports Text16
begin

text \<open>
  The block splitter of the context pruner, \<open>src/extensions/context-pruner/src/compartment.ts\<close>, with the
  character counting of \<open>src/src/utils/cjk-chars.ts\<close>: pauses in a conversation, token estimates, measured
  usage, and the partition of a history into blocks under a token budget.

  Times and token counts are exact numbers. The role of a message is a literal; its content and tool-call
  id are values as they come, since the code reads them as \<open>unknown\<close>; a timestamp is a number, a text or
  missing.
\<close>

datatype stamp = StampNumber jsnum | StampText text16 | StampMissing

record message =
  msRole :: string
  msContent :: "jsval option"
  msTimestamp :: stamp
  msToolCallId :: "jsval option"

section \<open>Characters (\<open>cjk-chars.ts\<close>)\<close>

definition charsPerToken :: nat where
  "charsPerToken = 4"

definition highSurrogate :: "16 word \<Rightarrow> bool" where
  "highSurrogate c \<longleftrightarrow> 0xD800 \<le> c \<and> c \<le> 0xDBFF"

definition lowSurrogate :: "16 word \<Rightarrow> bool" where
  "lowSurrogate c \<longleftrightarrow> 0xDC00 \<le> c \<and> c \<le> 0xDFFF"

definition codePoint :: "16 word \<Rightarrow> 16 word \<Rightarrow> nat" where
  "codePoint h l = 0x10000 + (unat h - 0xD800) * 0x400 + (unat l - 0xDC00)"

definition nonLatinUnit :: "16 word \<Rightarrow> bool" where
  "nonLatinUnit c \<longleftrightarrow> 0x2E80 \<le> c \<and> c \<le> 0x9FFF \<or> 0xA000 \<le> c \<and> c \<le> 0xA4FF \<or> 0xAC00 \<le> c \<and> c \<le> 0xD7AF
     \<or> 0xF900 \<le> c \<and> c \<le> 0xFAFF"

definition nonLatinPair :: "16 word \<Rightarrow> 16 word \<Rightarrow> bool" where
  "nonLatinPair h l \<longleftrightarrow> 0x20000 \<le> codePoint h l \<and> codePoint h l \<le> 0x2FA1F"

fun nonLatinCount :: "text16 \<Rightarrow> nat" where
  \<comment> \<open>the matches of \<open>NON_LATIN_RE\<close>, which reads code points\<close>
  "nonLatinCount (h # l # s) =
     (if highSurrogate h \<and> lowSurrogate l
      then (if nonLatinPair h l then 1 else 0) + nonLatinCount s
      else (if nonLatinUnit h then 1 else 0) + nonLatinCount (l # s))"
| "nonLatinCount [c] = (if nonLatinUnit c then 1 else 0)"
| "nonLatinCount [] = 0"

fun cjkSurrogates :: "text16 \<Rightarrow> nat" where
  \<comment> \<open>the matches of \<open>CJK_SURROGATE_HIGH_RE\<close>, which reads code units\<close>
  "cjkSurrogates (h # l # s) =
     (if 0xD840 \<le> h \<and> h \<le> 0xD87E \<and> lowSurrogate l then 1 + cjkSurrogates s else cjkSurrogates (l # s))"
| "cjkSurrogates _ = 0"

definition countCodePoints :: "text16 \<Rightarrow> nat \<Rightarrow> nat" where
  "countCodePoints t nonLatin = (if nonLatin = 0 then length t else length t - cjkSurrogates t)"

definition estimateStringChars :: "text16 \<Rightarrow> nat" where
  "estimateStringChars t =
     (if t = [] then 0
      else (let n = nonLatinCount t in countCodePoints t n + n * (charsPerToken - 1)))"

definition estimateTokensFromChars :: "nat \<Rightarrow> nat" where
  \<comment> \<open>\<open>Math.ceil(Math.max(0, chars) / 4)\<close>\<close>
  "estimateTokensFromChars chars = (chars + charsPerToken - 1) div charsPerToken"

section \<open>Estimates\<close>

definition blockChars :: "jsval \<Rightarrow> nat" where
  "blockChars block =
     (case textOf (getProp (Some block) ''text'') of
        Some t \<Rightarrow> estimateStringChars t
      | None \<Rightarrow> (case textOf (getProp (Some block) ''data'') of Some d \<Rightarrow> estimateStringChars d * 2 | None \<Rightarrow> 0))"

definition estimateMessageChars :: "jsval option \<Rightarrow> nat" where
  "estimateMessageChars content =
     (case content of
        Some (VText t) \<Rightarrow> estimateStringChars t
      | Some (VArray blocks) \<Rightarrow> sum_list (map blockChars blocks)
      | _ \<Rightarrow> 0)"

definition estimateMessageTokens :: "message \<Rightarrow> nat" where
  "estimateMessageTokens m =
     (let chars = estimateMessageChars (msContent m) in if chars > 0 then estimateTokensFromChars chars else 1)"

fun numberOf :: "jsval option list \<Rightarrow> rat option" where
  \<comment> \<open>the first candidate that is a number decides, even if it is rejected\<close>
  "numberOf [] = None"
| "numberOf (v # vs) =
     (case v of
        Some (VNumber n) \<Rightarrow> (case n of JNum q \<Rightarrow> if q \<ge> 0 then Some q else None | _ \<Rightarrow> None)
      | _ \<Rightarrow> numberOf vs)"

definition usageProps :: "jsval \<Rightarrow> string list \<Rightarrow> rat option" where
  "usageProps usage keys = numberOf (map (getProp (Some usage)) keys)"

definition resolvePromptTokensFromUsage :: "jsval option \<Rightarrow> rat option" where
  "resolvePromptTokensFromUsage usage =
     (case usage of
        Some (VObject obj) \<Rightarrow>
          (let r = usageProps (VObject obj);
               input = r [''input'', ''inputTokens'', ''input_tokens'', ''promptTokens'', ''prompt_tokens''];
               cacheRead = r [''cacheRead'', ''cache_read'', ''cacheReadInputTokens'', ''cache_read_input_tokens'', ''cached_tokens''];
               cacheWrite = r [''cacheWrite'', ''cache_write'', ''cacheCreationInputTokens'', ''cache_creation_input_tokens''];
               total = r [''total'', ''totalTokens'', ''total_tokens''];
               prompt = coalesce input 0 + coalesce cacheRead 0 + coalesce cacheWrite 0
           in if prompt > 0 then Some prompt
              else (case total of Some t \<Rightarrow> if t > 0 then Some t else None | None \<Rightarrow> None))
      | _ \<Rightarrow> None)"

definition usageOf :: "jsval \<Rightarrow> jsval option" where
  "usageOf record =
     (case getProp (Some record) ''usage'' of
        Some VNull \<Rightarrow> (case getProp (Some record) ''message'' of Some (VObject m) \<Rightarrow> getProp (Some (VObject m)) ''usage'' | _ \<Rightarrow> None)
      | None \<Rightarrow> (case getProp (Some record) ''message'' of Some (VObject m) \<Rightarrow> getProp (Some (VObject m)) ''usage'' | _ \<Rightarrow> None)
      | Some v \<Rightarrow> Some v)"

definition resolveMeasuredPromptTokens :: "jsval list \<Rightarrow> rat option" where
  "resolveMeasuredPromptTokens messages =
     fold (\<lambda>m latest. case m of
             VObject obj \<Rightarrow> orElse (resolvePromptTokensFromUsage (usageOf m)) latest
           | _ \<Rightarrow> latest) messages None"

section \<open>Pauses\<close>

record partition_options =
  poMaxBlockTokens :: "jsnum option"
  poMinPauseThresholdMs :: "jsnum option"
  poPauseMultiplier :: "jsnum option"

record partition_settings =
  psMaxBlockTokens :: int
  psMinPauseThresholdMs :: int
  psPauseMultiplier :: rat

definition defaultMaxBlockTokens :: int where "defaultMaxBlockTokens = 500000"

definition defaultMinPauseThresholdMs :: int where "defaultMinPauseThresholdMs = 30 * 60 * 1000"

definition defaultPauseMultiplier :: rat where "defaultPauseMultiplier = 3"

definition positiveFinite :: "jsnum option \<Rightarrow> rat option" where
  "positiveFinite v = (case v of Some (JNum q) \<Rightarrow> if q > 0 then Some q else None | _ \<Rightarrow> None)"

definition resolvePartitionOptions :: "partition_options \<Rightarrow> partition_settings" where
  "resolvePartitionOptions options =
     \<lparr>psMaxBlockTokens = \<lfloor>coalesce (positiveFinite (poMaxBlockTokens options)) (of_int defaultMaxBlockTokens)\<rfloor>,
      psMinPauseThresholdMs = \<lfloor>coalesce (positiveFinite (poMinPauseThresholdMs options)) (of_int defaultMinPauseThresholdMs)\<rfloor>,
      psPauseMultiplier = coalesce (positiveFinite (poPauseMultiplier options)) defaultPauseMultiplier\<rparr>"

definition toEpochMs :: "runtime \<Rightarrow> stamp \<Rightarrow> rat option" where
  "toEpochMs rt timestamp =
     (case timestamp of
        StampNumber (JNum q) \<Rightarrow> Some q
      | StampText t \<Rightarrow> if trim16 t \<noteq> [] then rtDateParse rt t else None
      | _ \<Rightarrow> None)"

definition computeGapMs :: "runtime \<Rightarrow> message \<Rightarrow> message \<Rightarrow> rat option" where
  "computeGapMs rt left right =
     (case (toEpochMs rt (msTimestamp left), toEpochMs rt (msTimestamp right)) of
        (Some a, Some b) \<Rightarrow> if b - a \<ge> 0 then Some (b - a) else None
      | _ \<Rightarrow> None)"

fun intervalsFrom :: "rat option list \<Rightarrow> nat \<Rightarrow> rat option \<Rightarrow> (rat \<times> nat) list" where
  \<comment> \<open>the first pass: intervals with the index of the message before each; \<open>prevEpochMs\<close> is the last argument\<close>
  "intervalsFrom [] i prev = []"
| "intervalsFrom (e # es) i prev =
     (case e of
        None \<Rightarrow> intervalsFrom es (i + 1) None
      | Some epochMs \<Rightarrow>
          (case prev of
             Some p \<Rightarrow> if epochMs - p \<ge> 0 then [(epochMs - p, i - 1)] else []
           | None \<Rightarrow> []) @ intervalsFrom es (i + 1) (Some epochMs))"

definition detectTemporalPauses :: "runtime \<Rightarrow> message list \<Rightarrow> partition_options \<Rightarrow> nat list" where
  "detectTemporalPauses rt messages options =
     (let opts = resolvePartitionOptions options;
          intervals = intervalsFrom (map (\<lambda>m. toEpochMs rt (msTimestamp m)) messages) 0 None
      in if intervals = [] then []
         else (let mean = sum_list (map fst intervals) / of_nat (length intervals);
                   threshold = max (mean * psPauseMultiplier opts) (of_int (psMinPauseThresholdMs opts))
               in map snd (filter (\<lambda>(d, g). d \<ge> threshold) intervals)))"

section \<open>Blocks\<close>

record history_block =
  hbId :: text16
  hbStart :: nat
  hbEnd :: nat
  hbMessageCount :: nat
  hbStartTime :: stamp
  hbEndTime :: stamp
  hbTokenCount :: nat
  hbBoundaryPauseMs :: "rat option"

definition prefixSum :: "nat list \<Rightarrow> nat \<Rightarrow> nat" where
  "prefixSum es n = sum_list (take n es)"

definition closeBlock :: "runtime \<Rightarrow> message list \<Rightarrow> nat list \<Rightarrow> nat \<Rightarrow> nat \<Rightarrow> history_block list \<Rightarrow> history_block list" where
  "closeBlock rt messages estimates startIndex endIndex blocks =
     blocks @ [\<lparr>hbId = u ''block-'' @ u (showNat (length blocks + 1)), hbStart = startIndex, hbEnd = endIndex,
       hbMessageCount = endIndex - startIndex + 1,
       hbStartTime = msTimestamp (messages ! startIndex), hbEndTime = msTimestamp (messages ! endIndex),
       hbTokenCount = prefixSum estimates (endIndex + 1) - prefixSum estimates startIndex,
       hbBoundaryPauseMs = (if startIndex > 0
          then computeGapMs rt (messages ! (startIndex - 1)) (messages ! startIndex) else None)\<rparr>]"

record partition_state =
  ptStart :: nat
  ptRunning :: nat
  ptCursor :: nat
  ptBlocks :: "history_block list"

definition cutAt :: "nat list \<Rightarrow> nat list \<Rightarrow> int \<Rightarrow> nat \<Rightarrow> nat \<Rightarrow> nat \<Rightarrow> nat" where
  \<comment> \<open>the last pause of the block that leaves what follows within the budget, or the message before\<close>
  "cutAt estimates gaps budget start cursor i =
     (case find (\<lambda>g. int (prefixSum estimates (i + 1) - prefixSum estimates (g + 1)) \<le> budget)
             (takeWhile (\<lambda>g. g \<ge> start) (rev (take cursor gaps))) of
        Some g \<Rightarrow> g | None \<Rightarrow> i - 1)"

definition partitionStep ::
  "runtime \<Rightarrow> message list \<Rightarrow> nat list \<Rightarrow> nat list \<Rightarrow> int \<Rightarrow> nat \<Rightarrow> partition_state \<Rightarrow> partition_state" where
  "partitionStep rt messages estimates gaps budget i st =
     (let tokens = estimates ! i; start = ptStart st
      in if int tokens > budget then
           st\<lparr>ptBlocks := closeBlock rt messages estimates i i
                (if i > start then closeBlock rt messages estimates start (i - 1) (ptBlocks st) else ptBlocks st),
              ptStart := i + 1, ptRunning := 0\<rparr>
         else if i > start \<and> int (ptRunning st + tokens) > budget then
           (let cursor = ptCursor st + length (takeWhile (\<lambda>g. g < i) (drop (ptCursor st) gaps));
                cut = cutAt estimates gaps budget start cursor i
            in st\<lparr>ptBlocks := closeBlock rt messages estimates start cut (ptBlocks st), ptStart := cut + 1,
                  ptCursor := cursor, ptRunning := prefixSum estimates (i + 1) - prefixSum estimates (cut + 1)\<rparr>)
         else st\<lparr>ptRunning := ptRunning st + tokens\<rparr>)"

definition partitionHistoryBlocks :: "runtime \<Rightarrow> message list \<Rightarrow> partition_options \<Rightarrow> history_block list" where
  "partitionHistoryBlocks rt messages options =
     (if messages = [] then []
      else (let opts = resolvePartitionOptions options;
                estimates = map estimateMessageTokens messages;
                gaps = detectTemporalPauses rt messages options;
                st = fold (partitionStep rt messages estimates gaps (psMaxBlockTokens opts)) [0..<length messages]
                       \<lparr>ptStart = 0, ptRunning = 0, ptCursor = 0, ptBlocks = []\<rparr>
            in if ptStart st < length messages
               then closeBlock rt messages estimates (ptStart st) (length messages - 1) (ptBlocks st)
               else ptBlocks st))"

section \<open>The blocks cover the history within the budget\<close>

definition blockOk :: "nat list \<Rightarrow> int \<Rightarrow> history_block \<Rightarrow> bool" where
  "blockOk es budget b \<longleftrightarrow> hbStart b \<le> hbEnd b \<and> hbMessageCount b = hbEnd b - hbStart b + 1
     \<and> hbTokenCount b = sum_list (map (\<lambda>i. es ! i) [hbStart b..<Suc (hbEnd b)])
     \<and> (int (hbTokenCount b) \<le> budget \<or> hbStart b = hbEnd b)"

definition blocksCover :: "nat list \<Rightarrow> int \<Rightarrow> nat \<Rightarrow> history_block list \<Rightarrow> bool" where
  "blocksCover es budget n bs \<longleftrightarrow>
     concat (map (\<lambda>b. [hbStart b..<Suc (hbEnd b)]) bs) = [0..<n] \<and> list_all (blockOk es budget) bs"

lemma prefixSum_mono: "a \<le> b \<Longrightarrow> prefixSum es a \<le> prefixSum es b"
  unfolding prefixSum_def by (metis le_add1 le_add_diff_inverse sum_list_append take_add)

lemma prefixSum_diff:
  assumes "a \<le> b" "b \<le> length es"
  shows "prefixSum es b - prefixSum es a = sum_list (map (\<lambda>i. es ! i) [a..<b])"
proof -
  have "take b es = take a es @ map (\<lambda>i. es ! i) [a..<b]"
    using assms by (intro nth_equalityI) (auto simp: nth_append)
  then show ?thesis by (simp add: prefixSum_def)
qed

lemma prefixSum_Suc: "i < length es \<Longrightarrow> prefixSum es (Suc i) = prefixSum es i + es ! i"
  by (simp add: prefixSum_def take_Suc_conv_app_nth)

lemma closeBlock_cover:
  assumes "blocksCover es budget start bs" "start \<le> k" "k < length es"
    and "int (prefixSum es (Suc k) - prefixSum es start) \<le> budget \<or> start = k"
  shows "blocksCover es budget (Suc k) (closeBlock rt ms es start k bs)"
proof -
  have "[0..<Suc k] = [0..<start] @ [start..<Suc k]"
    using assms(2) by (metis le_Suc_eq le_add_diff_inverse upt_add_eq_append zero_le)
  moreover have "blockOk es budget (last (closeBlock rt ms es start k bs))"
    using assms prefixSum_diff [of start "Suc k" es] by (simp add: blockOk_def closeBlock_def)
  ultimately show ?thesis
    using assms(1) by (simp add: blocksCover_def closeBlock_def)
qed

definition partitionInv :: "nat list \<Rightarrow> nat list \<Rightarrow> int \<Rightarrow> nat \<Rightarrow> partition_state \<Rightarrow> bool" where
  "partitionInv es gaps budget i st \<longleftrightarrow> ptStart st \<le> i \<and> blocksCover es budget (ptStart st) (ptBlocks st)
     \<and> ptRunning st = prefixSum es i - prefixSum es (ptStart st) \<and> int (ptRunning st) \<le> budget
     \<and> (\<forall>g \<in> set (take (ptCursor st) gaps). g < i)"

lemma take_cursor:
  "take (c + length (takeWhile P (drop c gs))) gs = take c gs @ takeWhile P (drop c gs)"
  by (simp add: take_add flip: takeWhile_eq_take)

lemma cutAt_bounds:
  assumes "\<forall>g \<in> set (take cursor gaps). g < i" "start < i" "i < length es" "int (es ! i) \<le> budget"
  shows "start \<le> cutAt es gaps budget start cursor i \<and> cutAt es gaps budget start cursor i < i
    \<and> int (prefixSum es (Suc i) - prefixSum es (Suc (cutAt es gaps budget start cursor i))) \<le> budget"
proof (cases "find (\<lambda>g. int (prefixSum es (i + 1) - prefixSum es (g + 1)) \<le> budget)
             (takeWhile (\<lambda>g. g \<ge> start) (rev (take cursor gaps)))")
  case None
  then show ?thesis using assms by (simp add: cutAt_def prefixSum_Suc)
next
  case (Some g)
  then have "g \<in> set (takeWhile (\<lambda>g. g \<ge> start) (rev (take cursor gaps)))"
    and "int (prefixSum es (i + 1) - prefixSum es (g + 1)) \<le> budget"
    by (auto simp: find_Some_iff)
  moreover from this(1) have "g \<ge> start" "g \<in> set (take cursor gaps)"
    by (auto dest: set_takeWhileD)
  ultimately show ?thesis using Some assms(1) by (simp add: cutAt_def)
qed

lemma partitionStep_inv:
  assumes inv: "partitionInv es gaps budget i st" and i: "i < length es" and b: "0 \<le> budget"
  shows "partitionInv es gaps budget (Suc i) (partitionStep rt ms es gaps budget i st)"
proof -
  let ?s = "ptStart st"
  note v = inv [unfolded partitionInv_def]
  have run: "int (prefixSum es i - prefixSum es ?s) \<le> budget" using v by simp
  consider (big) "int (es ! i) > budget"
    | (cut) "int (es ! i) \<le> budget" "i > ?s" "int (ptRunning st + es ! i) > budget"
    | (keep) "int (es ! i) \<le> budget" "\<not> (i > ?s \<and> int (ptRunning st + es ! i) > budget)"
    by linarith
  then show ?thesis
  proof cases
    case big
    let ?bs = "if i > ?s then closeBlock rt ms es ?s (i - 1) (ptBlocks st) else ptBlocks st"
    have "blocksCover es budget i ?bs"
      using v run i closeBlock_cover [of es budget ?s "ptBlocks st" "i - 1" rt ms] by auto
    then have "blocksCover es budget (Suc i) (closeBlock rt ms es i i ?bs)"
      using i by (intro closeBlock_cover) auto
    with big v b show ?thesis by (auto simp: partitionInv_def partitionStep_def Let_def)
  next
    case cut
    let ?c = "ptCursor st + length (takeWhile (\<lambda>g. g < i) (drop (ptCursor st) gaps))"
    let ?cut = "cutAt es gaps budget ?s ?c i"
    have gaps: "\<forall>g \<in> set (take ?c gaps). g < i"
      using v by (auto simp: take_cursor dest: set_takeWhileD)
    note c = cutAt_bounds [OF gaps cut(2) i cut(1)]
    have "prefixSum es (Suc ?cut) \<le> prefixSum es i" using c by (intro prefixSum_mono) simp
    then have "blocksCover es budget (Suc ?cut) (closeBlock rt ms es ?s ?cut (ptBlocks st))"
      using v run i c by (intro closeBlock_cover) auto
    moreover have "partitionStep rt ms es gaps budget i st =
        st\<lparr>ptBlocks := closeBlock rt ms es ?s ?cut (ptBlocks st), ptStart := Suc ?cut, ptCursor := ?c,
           ptRunning := prefixSum es (Suc i) - prefixSum es (Suc ?cut)\<rparr>"
      using cut by (simp add: partitionStep_def Let_def)
    moreover have "\<forall>g \<in> set (take ?c gaps). g < Suc i" using gaps less_SucI by blast
    ultimately show ?thesis using c by (simp add: partitionInv_def)
  next
    case keep
    have "prefixSum es ?s \<le> prefixSum es i" using v by (intro prefixSum_mono) simp
    moreover have "int (ptRunning st + es ! i) \<le> budget"
      using keep v by (cases "i = ?s") auto
    ultimately show ?thesis
      using keep v i by (auto simp: partitionInv_def partitionStep_def Let_def prefixSum_Suc less_SucI)
  qed
qed

lemma partitionFold_inv:
  assumes "partitionInv es gaps budget 0 st" "n \<le> length es" "0 \<le> budget"
  shows "partitionInv es gaps budget n (fold (partitionStep rt ms es gaps budget) [0..<n] st)"
  using assms(2)
proof (induction n)
  case (Suc n)
  then show ?case using partitionStep_inv [of es gaps budget n _ rt ms] assms(3) by simp
qed (use assms in simp)

lemma budget_nonneg: "0 \<le> psMaxBlockTokens (resolvePartitionOptions options)"
  by (auto simp: resolvePartitionOptions_def positiveFinite_def defaultMaxBlockTokens_def coalesce_def
      split: option.splits jsnum.splits)

text \<open>
  C19. The blocks of a history are its chapters: put one after the other they are the messages from the
  first to the last, none missing and none twice; every block counts its own tokens, and it keeps within
  the budget unless it is a single message.
\<close>

theorem partition_covers_within_budget:
  "blocksCover (map estimateMessageTokens messages) (psMaxBlockTokens (resolvePartitionOptions options))
     (length messages) (partitionHistoryBlocks rt messages options)"
proof (cases "messages = []")
  case False
  let ?es = "map estimateMessageTokens messages" and ?b = "psMaxBlockTokens (resolvePartitionOptions options)"
  let ?st = "fold (partitionStep rt messages ?es (detectTemporalPauses rt messages options) ?b) [0..<length messages]
                       \<lparr>ptStart = 0, ptRunning = 0, ptCursor = 0, ptBlocks = []\<rparr>"
  have "partitionInv ?es (detectTemporalPauses rt messages options) ?b (length messages) ?st"
    by (rule partitionFold_inv) (auto simp: partitionInv_def blocksCover_def budget_nonneg)
  then have v: "ptStart ?st \<le> length messages" "blocksCover ?es ?b (ptStart ?st) (ptBlocks ?st)"
    "int (prefixSum ?es (length messages) - prefixSum ?es (ptStart ?st)) \<le> ?b"
    by (auto simp: partitionInv_def)
  then show ?thesis
    using False closeBlock_cover [OF v(2), of "length messages - 1" rt messages]
    by (auto simp: partitionHistoryBlocks_def Let_def)
qed (simp add: partitionHistoryBlocks_def blocksCover_def)

section \<open>Pauses lie inside the history\<close>

lemma intervalsFrom_gap:
  "(d, g) \<in> set (intervalsFrom es i prev) \<Longrightarrow> (prev \<noteq> None \<longrightarrow> 0 < i) \<Longrightarrow> 0 \<le> d \<and> i \<le> Suc g \<and> Suc g < i + length es"
proof (induction es i prev rule: intervalsFrom.induct)
  case (2 e es i prev)
  show ?case
  proof (cases e)
    case None
    with 2 show ?thesis by fastforce
  next
    case (Some x)
    from 2(3) consider (here) p where "prev = Some p" "d = x - p" "0 \<le> d" "g = i - 1"
      | (later) "(d, g) \<in> set (intervalsFrom es (i + 1) (Some x))"
      by (auto simp: Some split: option.splits if_splits)
    then show ?thesis using 2(2) [OF Some] 2(4) by cases auto
  qed
qed simp

lemma pause_inside: "g \<in> set (detectTemporalPauses rt messages options) \<Longrightarrow> Suc g < length messages"
  by (auto simp: detectTemporalPauses_def Let_def dest!: intervalsFrom_gap split: if_splits)

end
