(* ===== verification/Historian.thy ===== *)
theory Historian
  imports Compartment
begin

text \<open>
  The historian of the context pruner, \<open>src/extensions/context-pruner/src/historian.ts\<close>: summaries of
  blocks, the table of contents made of them, and the step that summarises further blocks. The function
  that writes a summary is an argument (a sub-agent in the program); \<open>None\<close> is its rejection.
\<close>

record block_summary =
  bsBlockId :: text16
  bsTitle :: text16
  bsSummary :: text16
  bsStartTime :: stamp
  bsEndTime :: stamp
  bsTokenCount :: "jsval option"

definition tableOfContentsHeader :: text16 where
  "tableOfContentsHeader = u ''## '' @ [0x904E, 0x53BB, 0x30ED, 0x30B0, 0x306E, 0x7AE0, 0x7ACB, 0x3066,
      0x76EE, 0x6B21, 0xFF08, 0x8981, 0x7D04, 0x30A2, 0x30FC, 0x30AB, 0x30A4, 0x30D6, 0xFF09]"

definition reversibilityNote :: text16 where
  "reversibilityNote = [0xFF08, 0x539F, 0x6587, 0x30ED, 0x30B0, 0x306F, 0x30BB, 0x30C3, 0x30B7, 0x30E7,
      0x30F3, 0x30D5, 0x30A1, 0x30A4, 0x30EB, 0x306B, 0x5B8C, 0x5168, 0x4FDD, 0x6301] @ u '': '' @ [0x3044,
      0x3064, 0x3067, 0x3082, 0x5FA9, 0x5143, 0x53EF, 0x80FD, 0xFF09]"

fun numberText :: "runtime \<Rightarrow> jsnum \<Rightarrow> text16" where
  \<comment> \<open>\<open>String(n)\<close>\<close>
  "numberText rt (JNum q) = rtNumber rt q"
| "numberText rt JPosInf = u ''Infinity''"
| "numberText rt JNegInf = u ''-Infinity''"
| "numberText rt JNaN = u ''NaN''"

definition formatDisplayTime :: "runtime \<Rightarrow> stamp \<Rightarrow> text16" where
  "formatDisplayTime rt timestamp =
     (case timestamp of
        StampNumber (JNum q) \<Rightarrow> rtIsoDate rt q
      | StampNumber n \<Rightarrow> numberText rt n
      | StampText t \<Rightarrow> t
      | StampMissing \<Rightarrow> u ''undefined'')"

fun less16 :: "text16 \<Rightarrow> text16 \<Rightarrow> bool" where
  \<comment> \<open>\<open>a < b\<close> of two texts: by code units\<close>
  "less16 [] bs \<longleftrightarrow> bs \<noteq> []"
| "less16 (a # as) [] \<longleftrightarrow> False"
| "less16 (a # as) (b # bs) \<longleftrightarrow> a < b \<or> a = b \<and> less16 as bs"

definition compareSummariesByStart :: "runtime \<Rightarrow> block_summary \<Rightarrow> block_summary \<Rightarrow> int" where
  "compareSummariesByStart rt a b =
     (let aMs = toEpochMs rt (bsStartTime a); bMs = toEpochMs rt (bsStartTime b);
          byId = (if less16 (bsBlockId a) (bsBlockId b) then - 1 else if less16 (bsBlockId b) (bsBlockId a) then 1 else 0)
      in case (aMs, bMs) of
           (Some x, Some y) \<Rightarrow> if x \<noteq> y then (if x < y then - 1 else 1) else byId
         | (None, Some _) \<Rightarrow> 1
         | (Some _, None) \<Rightarrow> - 1
         | (None, None) \<Rightarrow> byId)"

fun insertBy :: "('a \<Rightarrow> 'a \<Rightarrow> int) \<Rightarrow> 'a \<Rightarrow> 'a list \<Rightarrow> 'a list" where
  "insertBy cmp x [] = [x]"
| "insertBy cmp x (y # ys) = (if cmp x y \<le> 0 then x # y # ys else y # insertBy cmp x ys)"

definition sortBy :: "('a \<Rightarrow> 'a \<Rightarrow> int) \<Rightarrow> 'a list \<Rightarrow> 'a list" where
  \<comment> \<open>\<open>sort(cmp)\<close>, which is stable, for a comparison that is a total preorder\<close>
  "sortBy cmp xs = foldr (insertBy cmp) xs []"

definition summaryTokens :: "block_summary \<Rightarrow> int" where
  "summaryTokens s = (case finiteOf (bsTokenCount s) of Some q \<Rightarrow> max 0 \<lfloor>q\<rfloor> | None \<Rightarrow> 0)"

definition chapterLines :: "runtime \<Rightarrow> nat \<Rightarrow> block_summary \<Rightarrow> text16 list" where
  "chapterLines rt i s =
     [u ''### '' @ [0x7B2C] @ u (showNat (i + 1)) @ [0x7AE0] @ u '': '' @ bsTitle s @ [0xFF08] @ bsBlockId s @ [0xFF09],
      u ''- '' @ [0x671F,
      0x9593] @ u '': '' @ formatDisplayTime rt (bsStartTime s) @ u '' '' @ [0x2192] @ u '' '' @ formatDisplayTime rt (bsEndTime s),
      u ''- '' @ [0x898F,
      0x6A21] @ u '': '' @ [0x7D04] @ u '' '' @ rtLocaleNumber rt (summaryTokens s) @ u '' '' @ [0x30C8,
      0x30FC, 0x30AF, 0x30F3],
      u ''- '' @ [0x8981, 0x7D04] @ u '': '' @ bsSummary s,
      []]"

definition formatTableOfContents :: "runtime \<Rightarrow> block_summary list \<Rightarrow> text16" where
  "formatTableOfContents rt summaries =
     (if summaries = [] then joinWith [10] [tableOfContentsHeader, [], [0xFF08, 0x8981, 0x7D04, 0x6E08,
      0x307F, 0x306E, 0x7AE0, 0x306F, 0x307E, 0x3060, 0x3042, 0x308A, 0x307E, 0x305B, 0x3093, 0xFF09]]
      else (let ordered = sortBy (compareSummariesByStart rt) summaries
            in joinWith [10] ([tableOfContentsHeader, []]
                 @ concat (map (\<lambda>(i, s). chapterLines rt i s) (enumerate 0 ordered)) @ [reversibilityNote])))"

definition resolveBatchLimit :: "jsnum option \<Rightarrow> nat option" where
  "resolveBatchLimit v = (case v of Some (JNum q) \<Rightarrow> Some (nat (max 0 \<lfloor>q\<rfloor>)) | _ \<Rightarrow> None)"

definition pendingBlocks :: "history_block list \<Rightarrow> (text16, block_summary) jsmap \<Rightarrow> jsnum option \<Rightarrow> history_block list" where
  "pendingBlocks blocks existing maxBatches =
     (let pending = sort_key hbStart (filter (\<lambda>b. \<not> mapHas existing (hbId b)) blocks)
      in case resolveBatchLimit maxBatches of None \<Rightarrow> pending | Some limit \<Rightarrow> take limit pending)"

definition blockMessages :: "message list \<Rightarrow> history_block \<Rightarrow> message list" where
  "blockMessages messages b = take (hbEnd b + 1 - hbStart b) (drop (hbStart b) messages)"

definition summarizeBlock ::
  "(history_block \<Rightarrow> message list \<Rightarrow> block_summary option) \<Rightarrow> message list \<Rightarrow> history_block \<Rightarrow>
   (text16, block_summary) jsmap \<Rightarrow> (text16, block_summary) jsmap" where
  "summarizeBlock summarizeFn messages b cache =
     (case summarizeFn b (blockMessages messages b) of
        None \<Rightarrow> cache | Some s \<Rightarrow> mapSet (hbId b) (s\<lparr>bsBlockId := hbId b\<rparr>) cache)"

definition reconcileBlockSummaries ::
  "(history_block \<Rightarrow> message list \<Rightarrow> block_summary option) \<Rightarrow> history_block list \<Rightarrow> message list \<Rightarrow>
   (text16, block_summary) jsmap \<Rightarrow> jsnum option \<Rightarrow> (text16, block_summary) jsmap" where
  "reconcileBlockSummaries summarizeFn blocks messages existing maxBatches =
     fold (summarizeBlock summarizeFn messages) (pendingBlocks blocks existing maxBatches) existing"

section \<open>The summarising step\<close>

lemma summarizeBlock_other: "k \<noteq> hbId b \<Longrightarrow> mapGet (summarizeBlock f ms b cache) k = mapGet cache k"
  by (simp add: summarizeBlock_def split: option.splits)

lemma summarizeBlocks_other:
  "k \<notin> hbId ` set bs \<Longrightarrow> mapGet (fold (summarizeBlock f ms) bs cache) k = mapGet cache k"
  by (induction bs arbitrary: cache) (simp_all add: summarizeBlock_other)

lemma summarizeBlocks_get:
  "distinct (map hbId bs) \<Longrightarrow> b \<in> set bs \<Longrightarrow> mapGet (fold (summarizeBlock f ms) bs cache) (hbId b)
     = (case f b (blockMessages ms b) of None \<Rightarrow> mapGet cache (hbId b) | Some s \<Rightarrow> Some (s\<lparr>bsBlockId := hbId b\<rparr>))"
proof (induction bs arbitrary: cache)
  case (Cons c bs)
  show ?case
  proof (cases "b = c")
    case True
    with Cons.prems have "hbId c \<notin> hbId ` set bs" by auto
    then show ?thesis
      unfolding True by (simp add: summarizeBlocks_other) (simp add: summarizeBlock_def split: option.splits)
  next
    case False
    with Cons.prems have b: "b \<in> set bs" by simp
    then have "hbId b \<in> hbId ` set bs" by blast
    with Cons.prems have "hbId b \<noteq> hbId c" by auto
    with b Cons show ?thesis by (simp add: summarizeBlock_other split: option.splits)
  qed
qed simp

lemma pendingBlocks_pending: "b \<in> set (pendingBlocks blocks existing mx) \<Longrightarrow> b \<in> set blocks \<and> \<not> mapHas existing (hbId b)"
  by (auto simp: pendingBlocks_def Let_def split: option.splits dest: in_set_takeD)

lemma pendingBlocks_distinct:
  assumes "distinct (map hbId blocks)"
  shows "distinct (map hbId (pendingBlocks blocks existing mx))"
proof -
  have d: "distinct (map hbId (sort_key hbStart (filter P blocks)))" for P
    using assms by (simp add: distinct_map inj_on_def)
  then show ?thesis
    by (auto simp: pendingBlocks_def Let_def take_map [symmetric] split: option.splits)
qed

text \<open>
  Summarising never touches what is there: a summary in the cache stays as it is; a block asked for
  now has its summary afterwards under its own id if the writer delivered one and is left for the next
  call if it failed; no other entry appears; and the blocks asked for are the oldest ones still missing.
\<close>

theorem reconcile_only_adds:
  assumes "distinct (map hbId blocks)"
  shows "(case mapGet existing k of
      Some s \<Rightarrow> mapGet (reconcileBlockSummaries f blocks ms existing mx) k = Some s
    | None \<Rightarrow> mapGet (reconcileBlockSummaries f blocks ms existing mx) k =
        (case find (\<lambda>b. hbId b = k) (pendingBlocks blocks existing mx) of
           None \<Rightarrow> None
         | Some b \<Rightarrow> map_option (\<lambda>s. s\<lparr>bsBlockId := k\<rparr>) (f b (blockMessages ms b))))
    \<and> sorted (map hbStart (pendingBlocks blocks existing mx))"
proof
  let ?p = "pendingBlocks blocks existing mx"
  note d = pendingBlocks_distinct [OF assms, of existing mx]
  show "(case mapGet existing k of
      Some s \<Rightarrow> mapGet (reconcileBlockSummaries f blocks ms existing mx) k = Some s
    | None \<Rightarrow> mapGet (reconcileBlockSummaries f blocks ms existing mx) k =
        (case find (\<lambda>b. hbId b = k) ?p of
           None \<Rightarrow> None
         | Some b \<Rightarrow> map_option (\<lambda>s. s\<lparr>bsBlockId := k\<rparr>) (f b (blockMessages ms b))))"
  proof (cases "mapGet existing k")
    case (Some s)
    then have "k \<notin> hbId ` set ?p" using pendingBlocks_pending by fastforce
    with Some show ?thesis by (simp add: reconcileBlockSummaries_def summarizeBlocks_other)
  next
    case None
    show ?thesis
    proof (cases "find (\<lambda>b. hbId b = k) ?p")
      case none: None
      then have "k \<notin> hbId ` set ?p" by (auto simp: find_None_iff)
      with None none show ?thesis by (simp add: reconcileBlockSummaries_def summarizeBlocks_other)
    next
      case (Some b)
      then have "b \<in> set ?p" "hbId b = k" by (auto simp: find_Some_iff)
      with summarizeBlocks_get [OF d this(1), of f ms existing] None Some show ?thesis
        by (simp add: reconcileBlockSummaries_def split: option.splits)
    qed
  qed
  show "sorted (map hbStart ?p)"
    by (auto simp: pendingBlocks_def Let_def take_map [symmetric] intro: sorted_wrt_take split: option.splits)
qed

definition exampleBlock :: "nat \<Rightarrow> history_block" where
  "exampleBlock i = \<lparr>hbId = u ''block-'' @ u (showNat i), hbStart = i, hbEnd = i, hbMessageCount = 1, hbStartTime = StampMissing,
     hbEndTime = StampMissing, hbTokenCount = 1, hbBoundaryPauseMs = None\<rparr>"

definition exampleSummary :: "history_block \<Rightarrow> message list \<Rightarrow> block_summary option" where
  "exampleSummary b ms = Some \<lparr>bsBlockId = [], bsTitle = u ''T'', bsSummary = u ''S'', bsStartTime = hbStartTime b,
     bsEndTime = hbEndTime b, bsTokenCount = None\<rparr>"

theorem reconcile_only_adds_witness:
  "(case mapGet [] (u ''block-1'') of
      Some s \<Rightarrow> mapGet (reconcileBlockSummaries exampleSummary [exampleBlock 1, exampleBlock 0] [] [] (Some (JNum 1))) (u ''block-1'') = Some s
    | None \<Rightarrow> mapGet (reconcileBlockSummaries exampleSummary [exampleBlock 1, exampleBlock 0] [] [] (Some (JNum 1))) (u ''block-1'') =
        (case find (\<lambda>b. hbId b = u ''block-1'') (pendingBlocks [exampleBlock 1, exampleBlock 0] [] (Some (JNum 1))) of
           None \<Rightarrow> None
         | Some b \<Rightarrow> map_option (\<lambda>s. s\<lparr>bsBlockId := u ''block-1''\<rparr>) (exampleSummary b (blockMessages [] b))))
    \<and> sorted (map hbStart (pendingBlocks [exampleBlock 1, exampleBlock 0] [] (Some (JNum 1))))"
proof (rule reconcile_only_adds)
  show "distinct (map hbId [exampleBlock 1, exampleBlock 0])" by code_simp
qed

end
