(* ===== verification/Eviction.thy ===== *)
theory Eviction
  imports Historian
begin

text \<open>
  The eviction valve of the context pruner, \<open>src/extensions/context-pruner/src/eviction.ts\<close>: when a history
  outgrows the context, its oldest chapters are left out of the prompt, in favour of a table of contents and
  a notice, while the recent messages stay.
\<close>

section \<open>Settings\<close>

definition defaultEvictionThresholdTokens :: int where "defaultEvictionThresholdTokens = 950000"

definition defaultProtectedRecentTokens :: int where "defaultProtectedRecentTokens = 250000"

definition defaultEvictionBaseContextTokens :: int where "defaultEvictionBaseContextTokens = 1000000"

definition formatProtectedTokensLabel :: "runtime \<Rightarrow> jsnum \<Rightarrow> text16" where
  "formatProtectedTokensLabel rt tokens =
     (case jsFloor tokens of
        JNum q \<Rightarrow>
          (let floored = \<lfloor>q\<rfloor>
           in if floored \<le> 0 then numberText rt tokens
              else if floored mod 1000000 = 0 then u (showInt (floored div 1000000)) @ u ''M''
              else if floored mod 1000 = 0 then u (showInt (floored div 1000)) @ u ''K''
              else u (showInt floored))
      | _ \<Rightarrow> numberText rt tokens)"

definition formatEvictionNotice :: "runtime \<Rightarrow> jsnum \<Rightarrow> text16" where
  "formatEvictionNotice rt tokens = u ''['' @ [0x30B7, 0x30B9, 0x30C6, 0x30E0, 0x6CE8,
      0x8A18] @ u '': '' @ [0x30B3, 0x30F3, 0x30C6, 0x30AD, 0x30B9, 0x30C8, 0x4E0A, 0x9650, 0x63A5, 0x8FD1,
      0x306E, 0x305F, 0x3081, 0x3001, 0x76F4, 0x8FD1] @ formatProtectedTokensLabel rt tokens @ [0x4EE5,
      0x524D, 0x306E, 0x904E, 0x53BB, 0x30ED, 0x30B0, 0x306F, 0x88CF, 0x65B9, 0x8981, 0x7D04, 0x5B8C, 0x4E86,
      0x307E, 0x3067, 0x4E00, 0x6642, 0x9000, 0x907F, 0x4E2D] @ u '']''"

record eviction_options =
  eoEvictionThresholdTokens :: "jsnum option"
  eoProtectedRecentTokens :: "jsnum option"
  eoMinPauseThresholdMs :: "jsnum option"
  eoPauseMultiplier :: "jsnum option"
  eoNoticeText :: "text16 option"
  eoSummaries :: "block_summary list"
  eoSummaryMap :: "(text16, block_summary) jsmap"
  eoMeasuredTotalTokens :: "jsnum option"
  eoMeasuredUsage :: "jsval list option"

definition noEvictionOptions :: eviction_options where
  "noEvictionOptions = \<lparr>eoEvictionThresholdTokens = None, eoProtectedRecentTokens = None, eoMinPauseThresholdMs = None,
     eoPauseMultiplier = None, eoNoticeText = None, eoSummaries = [], eoSummaryMap = [], eoMeasuredTotalTokens = None,
     eoMeasuredUsage = None\<rparr>"

record compaction_config =
  ccEnabled :: "bool option"
  ccReserveTokens :: "jsnum option"
  ccKeepRecentTokens :: "jsnum option"

definition isCompactionDisabled :: "compaction_config option \<Rightarrow> bool" where
  "isCompactionDisabled compaction \<longleftrightarrow> Option.bind compaction ccEnabled = Some False"

definition collectSummaries :: "eviction_options \<Rightarrow> block_summary list" where
  "collectSummaries options =
     fold (\<lambda>s collected. if bsBlockId s \<in> bsBlockId ` set collected then collected else collected @ [s])
       (eoSummaries options @ mapValues (eoSummaryMap options)) []"

record eviction_settings =
  esThreshold :: int
  esProtected :: int
  esMinPause :: int
  esMultiplier :: rat
  esNotice :: text16
  esSummaries :: "block_summary list"
  esMeasuredTotal :: "jsnum option"
  esMeasuredUsage :: "jsval list option"

definition resolveEvictionOptions :: "runtime \<Rightarrow> eviction_options \<Rightarrow> eviction_settings" where
  "resolveEvictionOptions rt options =
     (let protect = \<lfloor>coalesce (positiveFinite (eoProtectedRecentTokens options)) (of_int defaultProtectedRecentTokens)\<rfloor>
      in \<lparr>esThreshold = \<lfloor>coalesce (positiveFinite (eoEvictionThresholdTokens options)) (of_int defaultEvictionThresholdTokens)\<rfloor>,
          esProtected = protect,
          esMinPause = \<lfloor>coalesce (positiveFinite (eoMinPauseThresholdMs options)) (of_int defaultMinPauseThresholdMs)\<rfloor>,
          esMultiplier = coalesce (positiveFinite (eoPauseMultiplier options)) defaultPauseMultiplier,
          esNotice = (case eoNoticeText options of
              Some t \<Rightarrow> if trim16 t \<noteq> [] then trim16 t else formatEvictionNotice rt (JNum (of_int protect))
            | None \<Rightarrow> formatEvictionNotice rt (JNum (of_int protect))),
          esSummaries = collectSummaries options,
          esMeasuredTotal = eoMeasuredTotalTokens options, esMeasuredUsage = eoMeasuredUsage options\<rparr>)"

definition isEvictionSafetyValveEnabled :: "string option \<Rightarrow> bool" where
  \<comment> \<open>of the variable \<open>DENNOU_SKIP_EVICTION_SAFETY_VALVE\<close>\<close>
  "isEvictionSafetyValveEnabled skip \<longleftrightarrow> skip \<noteq> Some ''1''"

definition baseTokens :: "jsnum \<Rightarrow> int option" where
  \<comment> \<open>\<open>Math.floor(base)\<close> where it is finite and positive\<close>
  "baseTokens base = (case base of JNum q \<Rightarrow> if \<lfloor>q\<rfloor> > 0 then Some \<lfloor>q\<rfloor> else None | _ \<Rightarrow> None)"

definition resolveScaledEvictionThresholdTokens :: "jsnum \<Rightarrow> int" where
  "resolveScaledEvictionThresholdTokens base =
     (case baseTokens base of None \<Rightarrow> defaultEvictionThresholdTokens
      | Some b \<Rightarrow> max 1 \<lfloor>of_int b * (95 / 100 :: rat)\<rfloor>)"

definition resolveScaledProtectedRecentTokens :: "jsnum \<Rightarrow> int" where
  "resolveScaledProtectedRecentTokens base =
     (case baseTokens base of None \<Rightarrow> defaultProtectedRecentTokens
      | Some b \<Rightarrow> if b \<ge> 1000000 then 128000 else if b \<ge> 500000 then 64000 else if b \<ge> 200000 then 16000
                  else max 8000 \<lfloor>of_int b * (8 / 100 :: rat)\<rfloor>)"

definition resolveEvictionOptionsFromCompaction :: "compaction_config option \<Rightarrow> jsnum \<Rightarrow> eviction_options" where
  "resolveEvictionOptionsFromCompaction compaction base =
     (let validBase = coalesce (baseTokens base) defaultEvictionBaseContextTokens;
          threshold = (case Option.bind compaction ccReserveTokens of
              Some (JNum r) \<Rightarrow> if r \<ge> 0 then max 1 (validBase - \<lfloor>r\<rfloor>)
                               else resolveScaledEvictionThresholdTokens (JNum (of_int validBase))
            | _ \<Rightarrow> resolveScaledEvictionThresholdTokens (JNum (of_int validBase)));
          protect = (case Option.bind compaction ccKeepRecentTokens of
              Some (JNum k) \<Rightarrow> if k > 0 then \<lfloor>k\<rfloor> else resolveScaledProtectedRecentTokens base
            | _ \<Rightarrow> resolveScaledProtectedRecentTokens base)
      in noEvictionOptions\<lparr>eoEvictionThresholdTokens := Some (JNum (of_int threshold)),
                           eoProtectedRecentTokens := Some (JNum (of_int protect))\<rparr>)"

section \<open>The valve\<close>

definition hasToolCall :: "jsval option \<Rightarrow> message \<Rightarrow> bool" where
  \<comment> \<open>an assistant message with a \<open>toolCall\<close> block of this id\<close>
  "hasToolCall callId m \<longleftrightarrow> msRole m = ''assistant'' \<and>
     (case msContent m of
        Some (VArray blocks) \<Rightarrow>
          list_ex (\<lambda>b. isObject (Some b) \<and> getProp (Some b) ''type'' = Some (VText (u ''toolCall''))
                       \<and> getProp (Some b) ''id'' = callId) blocks
      | _ \<Rightarrow> False)"

definition findToolCallParentIndex :: "message list \<Rightarrow> nat \<Rightarrow> nat option" where
  "findToolCallParentIndex messages i =
     (if i < length messages \<and> msRole (messages ! i) = ''toolResult''
      then find (\<lambda>j. hasToolCall (msToolCallId (messages ! i)) (messages ! j)) (rev [0..<i])
      else None)"

definition measuredTotal :: "eviction_settings \<Rightarrow> rat option" where
  "measuredTotal s =
     orElse (positiveFinite (esMeasuredTotal s)) (Option.bind (esMeasuredUsage s) resolveMeasuredPromptTokens)"

definition effectiveEstimates :: "rat option \<Rightarrow> nat list \<Rightarrow> rat list" where
  "effectiveEstimates measured estimates =
     (case measured of
        None \<Rightarrow> map of_nat estimates
      | Some m \<Rightarrow>
          (let total = of_nat (sum_list estimates); scale = (if total > 0 then m / total else 1);
               scaled = map (\<lambda>v. of_int \<lfloor>of_nat v * scale\<rfloor>) estimates
           in if scaled = [] then []
              else butlast scaled @ [last scaled + (m - sum_list scaled)]))"

fun protectedFrom :: "rat list \<Rightarrow> rat \<Rightarrow> nat \<Rightarrow> rat \<Rightarrow> nat" where
  \<comment> \<open>the loop that walks back until the tail holds the protected tokens: \<open>maxCutIndex\<close>, \<open>suffixTokens\<close>\<close>
  "protectedFrom es need 0 suffix = 0"
| "protectedFrom es need (Suc k) suffix =
     (if suffix < need then protectedFrom es need k (suffix + es ! k) else Suc k)"

definition minProtected :: "eviction_settings \<Rightarrow> int" where
  "minProtected s = max 1 (min (esProtected s) \<lfloor>of_int (esThreshold s) * (4 / 5 :: rat)\<rfloor>)"

definition maxCut :: "eviction_settings \<Rightarrow> rat list \<Rightarrow> nat" where
  \<comment> \<open>0 if nothing may be evicted\<close>
  "maxCut s es =
     (let m = protectedFrom es (of_int (minProtected s)) (length es) 0
      in if m = 0 then (if length es > 1 then max 1 (length es - 2) else 0) else m)"

definition chapterCuts :: "runtime \<Rightarrow> message list \<Rightarrow> eviction_settings \<Rightarrow> nat \<Rightarrow> nat list" where
  \<comment> \<open>\<open>orderedCandidates\<close>\<close>
  "chapterCuts rt messages s maxCutIndex =
     (let options = \<lparr>poMaxBlockTokens = None, poMinPauseThresholdMs = Some (JNum (of_int (esMinPause s))),
                     poPauseMultiplier = Some (JNum (esMultiplier s))\<rparr>
      in sort (remdups (filter (\<lambda>c. 0 < c \<and> c \<le> maxCutIndex)
           (map Suc (detectTemporalPauses rt messages options)
            @ map (\<lambda>b. Suc (hbEnd b)) (partitionHistoryBlocks rt messages options)))))"

definition chooseCut :: "rat list \<Rightarrow> nat list \<Rightarrow> nat \<Rightarrow> rat \<Rightarrow> nat" where
  "chooseCut es candidates maxCutIndex needed =
     (case find (\<lambda>c. sum_list (take c es) \<ge> needed) candidates of
        Some c \<Rightarrow> c
      | None \<Rightarrow> (case find (\<lambda>i. sum_list (take i es) \<ge> needed) [1..<Suc maxCutIndex] of
                   Some i \<Rightarrow> i | None \<Rightarrow> maxCutIndex))"

function pairedCut :: "message list \<Rightarrow> nat \<Rightarrow> nat" where
  \<comment> \<open>the loop that moves the boundary off a tool result\<close>
  "pairedCut messages c =
     (if c < length messages \<and> msRole (messages ! c) = ''toolResult''
      then (case findToolCallParentIndex messages c of None \<Rightarrow> pairedCut messages (c + 1) | Some p \<Rightarrow> p)
      else c)"
  by pat_completeness auto

termination
  by (relation "measure (\<lambda>(messages, c). length messages - c)") auto

declare pairedCut.simps [simp del]

record eviction_result =
  erMessages :: "message list"
  erEvicted :: bool
  erTotalTokens :: rat
  erEvictedMessageCount :: nat
  erEvictedTokens :: rat
  erProtectedTokens :: rat
  erAppliedSummaryCount :: nat

definition noEviction :: "message list \<Rightarrow> rat \<Rightarrow> eviction_result" where
  "noEviction messages tot = \<lparr>erMessages = messages, erEvicted = False, erTotalTokens = tot,
     erEvictedMessageCount = 0, erEvictedTokens = 0, erProtectedTokens = tot, erAppliedSummaryCount = 0\<rparr>"

definition userMessage :: "text16 \<Rightarrow> rat \<Rightarrow> message" where
  "userMessage t now = \<lparr>msRole = ''user'', msContent = Some (VText t), msTimestamp = StampNumber (JNum now), msToolCallId = None\<rparr>"

definition applicableSummaries :: "runtime \<Rightarrow> message list \<Rightarrow> eviction_settings \<Rightarrow> nat \<Rightarrow> block_summary list" where
  "applicableSummaries rt messages s c =
     (if c < length messages
      then (case toEpochMs rt (msTimestamp (messages ! c)) of
              None \<Rightarrow> []
            | Some boundary \<Rightarrow>
                filter (\<lambda>b. case toEpochMs rt (bsEndTime b) of None \<Rightarrow> False | Some e \<Rightarrow> e < boundary) (esSummaries s))
      else [])"

definition evictAt :: "runtime \<Rightarrow> rat \<Rightarrow> message list \<Rightarrow> eviction_settings \<Rightarrow> rat list \<Rightarrow> rat \<Rightarrow> nat \<Rightarrow> eviction_result" where
  "evictAt rt now messages s es tot c =
     (let protect = sum_list (drop c es); evicted = tot - protect;
          applicable = applicableSummaries rt messages s c;
          covered = of_int (sum_list (map summaryTokens applicable)) \<ge> evicted;
          front = (if applicable \<noteq> [] then [userMessage (formatTableOfContents rt applicable) now] else [])
            @ (if covered then [] else [userMessage (esNotice s) now])
      in \<lparr>erMessages = front @ drop c messages, erEvicted = True, erTotalTokens = tot, erEvictedMessageCount = c,
          erEvictedTokens = evicted, erProtectedTokens = protect, erAppliedSummaryCount = length applicable\<rparr>)"

definition evictionCut :: "runtime \<Rightarrow> message list \<Rightarrow> eviction_settings \<Rightarrow> rat list \<Rightarrow> rat \<Rightarrow> nat" where
  \<comment> \<open>0 if nothing is evicted\<close>
  "evictionCut rt messages s es tot =
     (if maxCut s es = 0 then 0
      else pairedCut messages (chooseCut es (chapterCuts rt messages s (maxCut s es)) (maxCut s es) (tot - of_int (esThreshold s))))"

definition applyPromptEvictionSafetyValve :: "runtime \<Rightarrow> rat \<Rightarrow> message list \<Rightarrow> eviction_options \<Rightarrow> eviction_result" where
  "applyPromptEvictionSafetyValve rt now messages options =
     (let s = resolveEvictionOptions rt options;
          estimates = map estimateMessageTokens messages;
          measured = measuredTotal s;
          es = effectiveEstimates measured estimates;
          total = coalesce measured (of_nat (sum_list estimates))
      in if total \<le> of_int (esThreshold s) then noEviction messages total
         else if messages = [] then noEviction messages total
         else if evictionCut rt messages s es total = 0 then noEviction messages total
         else evictAt rt now messages s es total (evictionCut rt messages s es total))"

section \<open>Where the cut falls\<close>

definition pairedAt :: "message list \<Rightarrow> nat \<Rightarrow> bool" where
  \<comment> \<open>the tool result at this place follows its own call with nothing but tool results between\<close>
  "pairedAt ms i \<longleftrightarrow> (case findToolCallParentIndex ms i of None \<Rightarrow> False
     | Some p \<Rightarrow> list_all (\<lambda>j. msRole (ms ! j) = ''toolResult'') [Suc p..<Suc i])"

definition wellPaired :: "message list \<Rightarrow> bool" where
  "wellPaired ms \<longleftrightarrow>
     list_all (\<lambda>i. if msRole (ms ! i) = ''toolResult'' then pairedAt ms i else True) [0..<length ms]"

lemma wellPairedD:
  assumes "wellPaired ms" "i < length ms" "msRole (ms ! i) = ''toolResult''"
  obtains p where "findToolCallParentIndex ms i = Some p" "\<And>j. p < j \<Longrightarrow> j \<le> i \<Longrightarrow> msRole (ms ! j) = ''toolResult''"
proof -
  from assms have "pairedAt ms i" by (fastforce simp: wellPaired_def list_all_iff)
  then obtain p where p: "findToolCallParentIndex ms i = Some p"
    and la: "\<forall>j \<in> set [Suc p..<Suc i]. msRole (ms ! j) = ''toolResult''"
    by (auto simp: pairedAt_def list_all_iff simp del: upt_Suc split: option.splits)
  show thesis by (rule that [OF p]) (use la in \<open>simp del: upt_Suc\<close>)
qed

lemma find_in: "find P xs = Some x \<Longrightarrow> x \<in> set xs \<and> P x"
  by (auto simp: find_Some_iff)

lemma parent_props:
  assumes "findToolCallParentIndex ms i = Some p"
  shows "p < i" "msRole (ms ! p) = ''assistant''" "hasToolCall (msToolCallId (ms ! i)) (ms ! p)"
  using assms by (auto simp: findToolCallParentIndex_def hasToolCall_def find_Some_iff rev_nth split: if_splits)

lemma pairedCut_paired:
  assumes "wellPaired ms"
  shows "pairedCut ms c \<le> c"
    "i < length ms \<Longrightarrow> pairedCut ms c \<le> i \<Longrightarrow> msRole (ms ! i) = ''toolResult'' \<Longrightarrow>
     \<exists>p \<ge> pairedCut ms c. p < i \<and> findToolCallParentIndex ms i = Some p"
    "pairedCut ms c < length ms \<Longrightarrow> msRole (ms ! pairedCut ms c) \<noteq> ''toolResult''"
    "pairedCut ms c \<noteq> c \<Longrightarrow> msRole (ms ! pairedCut ms c) = ''assistant''"
proof -
  consider (same) "pairedCut ms c = c" "c < length ms \<Longrightarrow> msRole (ms ! c) \<noteq> ''toolResult''"
    | (moved) "findToolCallParentIndex ms c = Some (pairedCut ms c)"
  proof (cases "c < length ms \<and> msRole (ms ! c) = ''toolResult''")
    case True
    with wellPairedD [OF assms] obtain p where p: "findToolCallParentIndex ms c = Some p" by metis
    with True have "pairedCut ms c = p" by (simp add: pairedCut.simps [of ms c])
    with p moved show thesis by simp
  next
    case False
    then have "pairedCut ms c = c" by (auto simp: pairedCut.simps [of ms c])
    with False same show thesis by blast
  qed
  note cs = this
  show "pairedCut ms c \<le> c"
    by (cases rule: cs) (use parent_props(1) in \<open>auto dest: less_imp_le\<close>)
  show no: "pairedCut ms c < length ms \<Longrightarrow> msRole (ms ! pairedCut ms c) \<noteq> ''toolResult''"
    by (cases rule: cs) (use parent_props(2) in \<open>fastforce+\<close>)
  show "pairedCut ms c \<noteq> c \<Longrightarrow> msRole (ms ! pairedCut ms c) = ''assistant''"
    by (cases rule: cs) (use parent_props(2) in \<open>auto\<close>)
  assume i: "i < length ms" "pairedCut ms c \<le> i" "msRole (ms ! i) = ''toolResult''"
  from wellPairedD [OF assms i(1,3)] obtain p where p: "findToolCallParentIndex ms i = Some p"
    "\<And>j. p < j \<Longrightarrow> j \<le> i \<Longrightarrow> msRole (ms ! j) = ''toolResult''" by blast
  moreover have "pairedCut ms c \<le> p"
    using p(2) [of "pairedCut ms c"] no i by (meson leI order_le_less_trans)
  ultimately show "\<exists>p \<ge> pairedCut ms c. p < i \<and> findToolCallParentIndex ms i = Some p"
    using parent_props(1) by blast
qed

lemma chooseCut_le:
  assumes "\<forall>c \<in> set cs. c \<le> m"
  shows "chooseCut es cs m need \<le> m"
proof -
  have "find P cs = Some c \<Longrightarrow> c \<le> m" "find P [1..<Suc m] = Some c \<Longrightarrow> c \<le> m" for P c
    using assms by (auto dest!: find_in simp del: upt_Suc)
  then show ?thesis by (auto simp: chooseCut_def simp del: upt_Suc split: option.splits)
qed

lemma chapterCuts_bound: "c \<in> set (chapterCuts rt ms s m) \<Longrightarrow> 0 < c \<and> c \<le> m"
  by (auto simp: chapterCuts_def Let_def)

lemma evictionCut_le:
  assumes "wellPaired ms"
  shows "evictionCut rt ms s es tot \<le> maxCut s es"
proof (cases "maxCut s es = 0")
  case False
  have "chooseCut es (chapterCuts rt ms s (maxCut s es)) (maxCut s es) (tot - of_int (esThreshold s)) \<le> maxCut s es"
    by (rule chooseCut_le) (use chapterCuts_bound in blast)
  with pairedCut_paired(1) [OF assms] show ?thesis by (auto simp: evictionCut_def intro: order_trans)
qed (simp add: evictionCut_def)

section \<open>The protected tail\<close>

lemma protectedFrom_le: "protectedFrom es need k suffix \<le> k"
  by (induction es need k suffix rule: protectedFrom.induct) auto

lemma protectedFrom_spec:
  "k \<le> length es \<Longrightarrow> suffix = sum_list (drop k es) \<Longrightarrow> 0 < protectedFrom es need k suffix \<or> need \<le> sum_list es \<Longrightarrow>
   need \<le> sum_list (drop (protectedFrom es need k suffix) es)"
proof (induction es need k suffix rule: protectedFrom.induct)
  case (2 es need k suffix)
  have "drop k es = es ! k # drop (Suc k) es" using 2(2) by (simp add: Cons_nth_drop_Suc)
  with 2 show ?case by (auto simp: add.commute)
qed simp

lemma adjust_last:
  fixes xs :: "rat list"
  assumes "xs \<noteq> []"
  shows "sum_list (butlast xs @ [last xs + (m - sum_list xs)]) = m"
    "\<forall>e \<in> set xs. 0 \<le> e \<Longrightarrow> sum_list xs \<le> m \<Longrightarrow> \<forall>e \<in> set (butlast xs @ [last xs + (m - sum_list xs)]). 0 \<le> e"
proof -
  have "sum_list xs = sum_list (butlast xs) + last xs"
    using assms by (metis add.right_neutral append_butlast_last_id sum_list.Cons sum_list.Nil sum_list_append)
  then show "sum_list (butlast xs @ [last xs + (m - sum_list xs)]) = m" by simp
  show "\<forall>e \<in> set xs. 0 \<le> e \<Longrightarrow> sum_list xs \<le> m \<Longrightarrow> \<forall>e \<in> set (butlast xs @ [last xs + (m - sum_list xs)]). 0 \<le> e"
    using last_in_set [OF assms] by (auto dest: in_set_butlastD)
qed

lemma effective_sum:
  "estimates \<noteq> [] \<Longrightarrow> sum_list (effectiveEstimates measured estimates)
     = coalesce measured (of_nat (sum_list estimates))"
proof (cases measured)
  case None
  then show ?thesis by (simp add: effectiveEstimates_def) (induction estimates; simp)
next
  case (Some m)
  assume "estimates \<noteq> []"
  then show ?thesis
    unfolding effectiveEstimates_def Some Let_def option.case coalesce_simps by (subst if_not_P, simp) (rule adjust_last, simp)
qed

lemma effective_nonneg:
  assumes "\<And>m. measured = Some m \<Longrightarrow> 0 \<le> m"
  shows "\<forall>e \<in> set (effectiveEstimates measured estimates). 0 \<le> e"
proof (cases measured)
  case None
  then show ?thesis by (auto simp: effectiveEstimates_def)
next
  case (Some m)
  let ?tot = "of_nat (sum_list estimates) :: rat"
  define sc where "sc = (if ?tot > 0 then m / ?tot else 1)"
  have m0: "0 \<le> m" using assms Some by simp
  have sc0: "0 \<le> sc" using m0 by (auto simp: sc_def)
  let ?scaled = "map (\<lambda>v. of_int \<lfloor>of_nat v * sc\<rfloor> :: rat) estimates"
  have nn: "\<forall>e \<in> set ?scaled. 0 \<le> e" using sc0 by auto
  have "sum_list ?scaled \<le> sum_list (map (\<lambda>v. of_nat v * sc) estimates)"
    by (rule sum_list_mono) simp
  also have "\<dots> = ?tot * sc" by (induction estimates) (simp_all add: distrib_right)
  also have "\<dots> \<le> m"
  proof -
    have "of_nat T * sc \<le> m" if "sc = (if of_nat T > (0::rat) then m / of_nat T else 1)" for T :: nat
      using m0 that by (cases "T = 0") simp_all
    from this [OF sc_def] show ?thesis .
  qed
  finally have le: "sum_list ?scaled \<le> m" .
  show ?thesis
  proof (cases "?scaled = []")
    case False
    from adjust_last(2) [OF this nn le] False show ?thesis
      unfolding effectiveEstimates_def Some Let_def option.case sc_def [symmetric] by (subst if_not_P)
  qed (simp add: effectiveEstimates_def Some)
qed

lemma sum_drop_mono:
  fixes es :: "rat list"
  assumes "\<forall>e \<in> set es. 0 \<le> e" "a \<le> b"
  shows "sum_list (drop b es) \<le> sum_list (drop a es)"
proof -
  have "drop a es = take (b - a) (drop a es) @ drop b es"
    using assms(2) by (metis append_take_drop_id drop_drop le_add_diff_inverse2)
  moreover have "0 \<le> sum_list (take (b - a) (drop a es))"
    using assms(1) by (intro sum_list_nonneg) (meson in_set_dropD in_set_takeD)
  ultimately show ?thesis by (metis add_increasing order_refl sum_list_append)
qed

lemma measured_pos: "measuredTotal s = Some m \<Longrightarrow> 0 < m"
proof -
  have usage: "resolvePromptTokensFromUsage v = Some q \<Longrightarrow> 0 < q" for v q
    by (auto simp: resolvePromptTokensFromUsage_def Let_def split: option.splits jsval.splits if_splits)
  have "(\<And>q. latest = Some q \<Longrightarrow> 0 < q) \<Longrightarrow> fold (\<lambda>m latest. case m of
             VObject obj \<Rightarrow> orElse (resolvePromptTokensFromUsage (usageOf m)) latest
           | _ \<Rightarrow> latest) vs latest = Some q \<Longrightarrow> 0 < q" for vs latest q
  proof (induction vs arbitrary: latest)
    case (Cons v vs)
    show ?case
      by (rule Cons.IH [OF _ Cons.prems(2) [simplified]])
        (use Cons.prems(1) usage in \<open>auto simp: orElse_def split: jsval.splits option.splits\<close>)
  qed simp
  then have "resolveMeasuredPromptTokens vs = Some q \<Longrightarrow> 0 < q" for vs q
    unfolding resolveMeasuredPromptTokens_def by blast
  then show "measuredTotal s = Some m \<Longrightarrow> 0 < m"
    by (auto simp: measuredTotal_def orElse_def positiveFinite_def split: option.splits jsnum.splits if_splits bind_splits)
qed

section \<open>What is left of a history\<close>

lemma valve_cases:
  fixes ms :: "message list"
  obtains (none) tot where "applyPromptEvictionSafetyValve rt now ms opts = noEviction ms tot"
  | (some) s es tot c where
    "applyPromptEvictionSafetyValve rt now ms opts = evictAt rt now ms s es tot c"
    "s = resolveEvictionOptions rt opts" "es = effectiveEstimates (measuredTotal s) (map estimateMessageTokens ms)"
    "tot = coalesce (measuredTotal s) (of_nat (sum_list (map estimateMessageTokens ms)))"
    "of_int (esThreshold s) < tot" "ms \<noteq> []" "c = evictionCut rt ms s es tot" "0 < c"
  by (fastforce simp: applyPromptEvictionSafetyValve_def Let_def not_le split: if_splits)

definition frontOf :: "runtime \<Rightarrow> rat \<Rightarrow> message list \<Rightarrow> eviction_settings \<Rightarrow> rat list \<Rightarrow> rat \<Rightarrow> nat \<Rightarrow> message list" where
  \<comment> \<open>the table of contents and the notice\<close>
  "frontOf rt now ms s es tot c =
     take (length (erMessages (evictAt rt now ms s es tot c)) - (length ms - c)) (erMessages (evictAt rt now ms s es tot c))"

lemma evictAt_messages:
  "erMessages (evictAt rt now ms s es tot c) = frontOf rt now ms s es tot c @ drop c ms"
  "length (frontOf rt now ms s es tot c) \<le> 2"
  "list_all (\<lambda>m. msRole m = ''user'') (frontOf rt now ms s es tot c)"
  by (simp_all add: frontOf_def evictAt_def Let_def userMessage_def)

lemma evictAt_counts:
  "erEvicted (evictAt rt now ms s es tot c)" "erEvictedMessageCount (evictAt rt now ms s es tot c) = c"
  "erTotalTokens (evictAt rt now ms s es tot c) = tot" "erProtectedTokens (evictAt rt now ms s es tot c) = sum_list (drop c es)"
  "erEvictedTokens (evictAt rt now ms s es tot c) = tot - sum_list (drop c es)"
  by (simp_all add: evictAt_def Let_def)

text \<open>
  The valve either returns the history as it is or leaves out a run of its oldest messages: what it
  returns is then the rest of the history in its order, after at most two messages of its own, the table of
  contents and the notice. It does so only above the threshold, and the tokens it reports as evicted and as
  protected add up to the total.
\<close>

theorem eviction_only_shortens_the_past:
  "let r = applyPromptEvictionSafetyValve rt now ms opts; c = erEvictedMessageCount r
   in erEvictedTokens r + erProtectedTokens r = erTotalTokens r
      \<and> (if erEvicted r
         then 0 < c \<and> of_int (esThreshold (resolveEvictionOptions rt opts)) < erTotalTokens r
              \<and> (\<exists>front. erMessages r = front @ drop c ms \<and> length front \<le> 2 \<and> list_all (\<lambda>m. msRole m = ''user'') front)
         else erMessages r = ms \<and> c = 0)"
proof (rule valve_cases [where rt = rt and now = now and ms = ms and opts = opts], goal_cases none some)
  case (none tot)
  then show ?thesis by (simp add: noEviction_def)
next
  case (some s es tot c)
  then show ?thesis using evictAt_messages [of rt now ms s es tot c] by (auto simp: Let_def evictAt_counts)
qed

section \<open>Tool results keep their calls\<close>

lemma findToolCallParent_iff:
  "findToolCallParentIndex ms i = Some p \<longleftrightarrow> i < length ms \<and> msRole (ms ! i) = ''toolResult'' \<and> p < i
     \<and> hasToolCall (msToolCallId (ms ! i)) (ms ! p)
     \<and> (\<forall>j. p < j \<longrightarrow> j < i \<longrightarrow> \<not> hasToolCall (msToolCallId (ms ! i)) (ms ! j))"
proof -
  have "find P (rev [0..<i]) = Some p \<longleftrightarrow> p < i \<and> P p \<and> (\<forall>j. p < j \<longrightarrow> j < i \<longrightarrow> \<not> P j)" for P
  proof (induction i)
    case (Suc i)
    show ?case
    proof (cases "P i")
      case True
      then show ?thesis by (auto simp: less_Suc_eq)
    next
      case False
      with Suc show ?thesis by (auto simp: less_Suc_eq)
    qed
  qed simp
  from this [of "\<lambda>j. hasToolCall (msToolCallId (ms ! i)) (ms ! j)"] show ?thesis
    by (auto simp: findToolCallParentIndex_def)
qed

lemma wellPaired_rest:
  assumes wp: "wellPaired ms" and front: "list_all (\<lambda>m. msRole m = ''user'') front"
    and kept: "\<And>i. i < length ms \<Longrightarrow> c \<le> i \<Longrightarrow> msRole (ms ! i) = ''toolResult'' \<Longrightarrow>
      \<exists>p \<ge> c. p < i \<and> findToolCallParentIndex ms i = Some p"
  shows "wellPaired (front @ drop c ms)"
proof -
  let ?n = "length front" and ?r = "front @ drop c ms"
  have nth: "?r ! (?n + (k - c)) = ms ! k" if "c \<le> k" "k < length ms" for k
    using that by (simp add: nth_append)
  have "pairedAt ?r i" if i: "i < length ?r" "msRole (?r ! i) = ''toolResult''" for i
  proof -
    have ni: "?n \<le> i"
      using i(2) front by (cases "i < ?n") (auto simp: nth_append list_all_length)
    define k where "k = c + (i - ?n)"
    have k: "c \<le> k" "k < length ms" "i = ?n + (k - c)" using i ni by (auto simp: k_def)
    with i nth have role: "msRole (ms ! k) = ''toolResult''" by metis
    from kept [OF k(2,1) role] obtain p where p: "c \<le> p" "p < k" "findToolCallParentIndex ms k = Some p" by blast
    from wellPairedD [OF wp k(2) role] p(3) have between: "\<And>j. p < j \<Longrightarrow> j \<le> k \<Longrightarrow> msRole (ms ! j) = ''toolResult''"
      by (metis option.inject)
    let ?p = "?n + (p - c)"
    have later: "?r ! j = ms ! (c + (j - ?n))" if "?p < j" "j \<le> i" for j
      using that nth [of "c + (j - ?n)"] k p by simp
    have "findToolCallParentIndex ?r i = Some ?p"
      unfolding findToolCallParent_iff
    proof (intro conjI allI impI)
      show "?p < i" using k p by simp
      show "hasToolCall (msToolCallId (?r ! i)) (?r ! ?p)"
        using p(3) nth [OF k(1,2)] nth [OF p(1)] k p(2) by (simp add: findToolCallParent_iff)
      show "\<not> hasToolCall (msToolCallId (?r ! i)) (?r ! j)" if j: "?p < j" "j < i" for j
        using between [of "c + (j - ?n)"] later [of j] j k p(1) by (auto simp: hasToolCall_def)
    qed (use i in simp_all)
    moreover have "list_all (\<lambda>j. msRole (?r ! j) = ''toolResult'') [Suc ?p..<Suc i]"
      using between later k p(1) by (auto simp: list_all_iff simp del: upt_Suc)
    ultimately show ?thesis by (simp add: pairedAt_def)
  qed
  then show ?thesis by (auto simp: wellPaired_def list_all_iff)
qed

text \<open>
  C9. Eviction never separates a tool result from its call: in a history whose tool results each follow the
  call they answer, with only other results between, every tool result that is left still does.
\<close>

theorem eviction_keeps_pairs:
  assumes "wellPaired ms"
  shows "wellPaired (erMessages (applyPromptEvictionSafetyValve rt now ms opts))"
proof (rule valve_cases [where rt = rt and now = now and ms = ms and opts = opts], goal_cases none some)
  case (none tot)
  then show ?thesis using assms by (simp add: noEviction_def)
next
  case (some s es tot c)
  have "\<exists>p \<ge> c. p < i \<and> findToolCallParentIndex ms i = Some p"
    if "i < length ms" "c \<le> i" "msRole (ms ! i) = ''toolResult''" for i
    using that some(7,8) pairedCut_paired(2) [OF assms] by (auto simp: evictionCut_def split: if_splits)
  then show ?thesis
    using wellPaired_rest [OF assms evictAt_messages(3)] by (simp add: some(1) evictAt_messages(1))
qed

section \<open>The protected floor\<close>

lemma find_sorted:
  "sorted cs \<Longrightarrow> c \<in> set cs \<Longrightarrow> P c \<Longrightarrow> \<exists>d. find P cs = Some d \<and> d \<le> (c :: nat) \<and> P d"
  by (induction cs) auto

lemma chooseCut_first:
  assumes "sorted cs" "c \<in> set cs" "need \<le> sum_list (take c es)"
  shows "chooseCut es cs m need \<le> c \<and> need \<le> sum_list (take (chooseCut es cs m need) es)"
  using find_sorted [of cs c "\<lambda>c. sum_list (take c es) \<ge> need"] assms by (auto simp: chooseCut_def)

lemma protectedFrom_pos:
  "0 < k \<Longrightarrow> k \<le> length es \<Longrightarrow> suffix = sum_list (drop k es) \<Longrightarrow> need \<le> sum_list (drop 1 es) \<Longrightarrow>
   0 < protectedFrom es need k suffix"
proof (induction es need k suffix rule: protectedFrom.induct)
  case (2 es need k suffix)
  have "drop k es = es ! k # drop (Suc k) es" using 2(3) by (simp add: Cons_nth_drop_Suc)
  with 2 show ?case by (cases k) (auto simp: add.commute)
qed simp

lemma maxCut_floor:
  assumes "of_int (minProtected s) \<le> sum_list (drop 1 es)"
  shows "of_int (minProtected s) \<le> sum_list (drop (maxCut s es) es)"
proof -
  have "drop 1 es \<noteq> []" using assms by (auto simp: minProtected_def)
  then have "0 < protectedFrom es (of_int (minProtected s)) (length es) 0"
    using protectedFrom_pos [of "length es" es 0 "of_int (minProtected s)"] assms by (cases es) auto
  with protectedFrom_spec [of "length es" es 0 "of_int (minProtected s)"] show ?thesis
    by (simp add: maxCut_def Let_def)
qed

lemma effective_values: "\<forall>e \<in> set (effectiveEstimates (measuredTotal s) estimates). 0 \<le> e"
  using measured_pos by (intro effective_nonneg) (fastforce dest: less_imp_le)

text \<open>
  C25. The recent messages are a floor: in a history whose tool results follow their calls, if the messages
  after the first hold the protected number of tokens, then so does what is left after an eviction. (The number is that of the settings, at most four
  fifths of the threshold.)
\<close>

theorem eviction_respects_floor:
  assumes "wellPaired ms" and "s = resolveEvictionOptions rt opts"
    and "of_int (minProtected s) \<le> sum_list (drop 1 (effectiveEstimates (measuredTotal s) (map estimateMessageTokens ms)))"
    and "erEvicted (applyPromptEvictionSafetyValve rt now ms opts)"
  shows "of_int (minProtected s) \<le> erProtectedTokens (applyPromptEvictionSafetyValve rt now ms opts)"
proof (rule valve_cases [where rt = rt and now = now and ms = ms and opts = opts], goal_cases none some)
  case (none tot)
  then show ?case using assms(4) by (simp add: noEviction_def)
next
  case (some s' es tot c)
  have "c \<le> maxCut s es" using some evictionCut_le [OF assms(1)] assms(2) by simp
  then have "sum_list (drop (maxCut s es) es) \<le> sum_list (drop c es)"
    using effective_values some(3) by (intro sum_drop_mono) simp_all
  with maxCut_floor [of s es] assms(2,3) some show ?case by (simp add: evictAt_counts)
qed

text \<open>
  Forgetting is gradual: no more of a history is left out than up to the first chapter end, within the
  protected floor, at which what is left out makes up for the excess over the threshold.
\<close>

theorem eviction_is_gradual:
  assumes "wellPaired ms" and "s = resolveEvictionOptions rt opts"
    and "es = effectiveEstimates (measuredTotal s) (map estimateMessageTokens ms)"
    and "k \<in> set (chapterCuts rt ms s (maxCut s es))"
    and "sum_list es - of_int (esThreshold s) \<le> sum_list (take k es)"
  shows "erEvictedMessageCount (applyPromptEvictionSafetyValve rt now ms opts) \<le> k"
proof (rule valve_cases [where rt = rt and now = now and ms = ms and opts = opts], goal_cases none some)
  case (none tot)
  then show ?case by (simp add: noEviction_def)
next
  case (some s' es' tot c)
  then have eq: "s' = s" "es' = es" "tot = sum_list es" using assms(2,3) by (simp_all add: effective_sum)
  let ?cs = "chapterCuts rt ms s (maxCut s es)"
  have "sorted ?cs" by (simp add: chapterCuts_def Let_def)
  from chooseCut_first [OF this assms(4,5)] pairedCut_paired(1) [OF assms(1)] have "c \<le> k"
    unfolding some(7) eq by (auto simp: evictionCut_def intro: order_trans)
  then show ?case by (simp add: some(1) evictAt_counts)
qed

section \<open>Examples\<close>

definition evRuntime :: runtime where
  "evRuntime = \<lparr>rtParse = (\<lambda>t. None), rtStringify = (\<lambda>v. []), rtNumber = (\<lambda>q. u (showInt \<lfloor>q\<rfloor>)), rtLower = id,
     rtDateParse = (\<lambda>t. None), rtIsoDate = (\<lambda>q. []), rtLocaleNumber = (\<lambda>i. u (showInt i))\<rparr>"

definition evOptions :: "rat \<Rightarrow> rat \<Rightarrow> eviction_options" where
  "evOptions threshold protect = noEvictionOptions\<lparr>eoEvictionThresholdTokens := Some (JNum threshold),
     eoProtectedRecentTokens := Some (JNum protect)\<rparr>"

definition evUser :: "nat \<Rightarrow> rat \<Rightarrow> message" where
  "evUser n t = \<lparr>msRole = ''user'', msContent = Some (VText (replicate n 0x61)), msTimestamp = StampNumber (JNum t),
     msToolCallId = None\<rparr>"

definition evCalls :: "string list \<Rightarrow> rat \<Rightarrow> message" where
  "evCalls ids t = \<lparr>msRole = ''assistant'', msContent = Some (VArray (map (\<lambda>i. VObject [(u ''type'', VText (u ''toolCall'')),
     (u ''id'', VText (u i))]) ids)), msTimestamp = StampNumber (JNum t), msToolCallId = None\<rparr>"

definition evResult :: "string \<Rightarrow> nat \<Rightarrow> rat \<Rightarrow> message" where
  "evResult i n t = \<lparr>msRole = ''toolResult'', msContent = Some (VText (replicate n 0x61)),
     msTimestamp = StampNumber (JNum t), msToolCallId = Some (VText (u i))\<rparr>"

definition evHistory :: "message list" where
  "evHistory = [evUser 40 0, evCalls [''c1''] 10000000, evResult ''c1'' 40 10000001, evUser 8 10000002, evUser 8 10000003]"

lemma evHistory_facts:
  "wellPaired evHistory"
  "erEvictedMessageCount (applyPromptEvictionSafetyValve evRuntime 0 evHistory (evOptions 20 10)) = 1"
  "erEvicted (applyPromptEvictionSafetyValve evRuntime 0 evHistory (evOptions 20 10))"
  by code_simp+

lemma evHistory_floor:
  "of_int (minProtected (resolveEvictionOptions evRuntime (evOptions 20 10)))
     \<le> sum_list (drop 1 (effectiveEstimates (measuredTotal (resolveEvictionOptions evRuntime (evOptions 20 10))) (map estimateMessageTokens evHistory)))"
  by code_simp

lemma evHistory_chapter:
  "1 \<in> set (chapterCuts evRuntime evHistory (resolveEvictionOptions evRuntime (evOptions 20 10))
       (maxCut (resolveEvictionOptions evRuntime (evOptions 20 10)) (effectiveEstimates None (map estimateMessageTokens evHistory))))"
  by code_simp

theorem eviction_keeps_pairs_witness:
  "wellPaired (erMessages (applyPromptEvictionSafetyValve evRuntime 0 evHistory (evOptions 20 10)))"
  by (rule eviction_keeps_pairs) (rule evHistory_facts)

theorem eviction_respects_floor_witness:
  "of_int (minProtected (resolveEvictionOptions evRuntime (evOptions 20 10)))
     \<le> erProtectedTokens (applyPromptEvictionSafetyValve evRuntime 0 evHistory (evOptions 20 10))"
  by (rule eviction_respects_floor) (simp_all only: evHistory_facts evHistory_floor)

theorem eviction_is_gradual_witness:
  "erEvictedMessageCount (applyPromptEvictionSafetyValve evRuntime 0 evHistory (evOptions 20 10)) \<le> 1"
proof (rule eviction_is_gradual [OF _ refl refl])
  have "measuredTotal (resolveEvictionOptions evRuntime (evOptions 20 10)) = None" by code_simp
  then show "1 \<in> set (chapterCuts evRuntime evHistory (resolveEvictionOptions evRuntime (evOptions 20 10))
       (maxCut (resolveEvictionOptions evRuntime (evOptions 20 10))
         (effectiveEstimates (measuredTotal (resolveEvictionOptions evRuntime (evOptions 20 10))) (map estimateMessageTokens evHistory))))"
    using evHistory_chapter by simp
qed (simp only: evHistory_facts, code_simp)

text \<open>
  Pairing can undo the whole eviction: with two results for one assistant message, the cut lands
  between them, goes back to that message, which is the first, and nothing is left out, though the history
  is over the threshold and leaving out all three would have kept the floor.
\<close>

theorem eviction_gives_up_on_parallel_calls:
  "let h = [evCalls [''c1'', ''c2''] 0, evResult ''c1'' 40 1, evResult ''c2'' 40 2, evUser 16 3];
       r = applyPromptEvictionSafetyValve evRuntime 0 h (evOptions 15 4)
   in wellPaired h \<and> erMessages r = h \<and> erTotalTokens r = 25
      \<and> minProtected (resolveEvictionOptions evRuntime (evOptions 15 4)) = 4
      \<and> sum_list (map estimateMessageTokens (drop 3 h)) = 4"
  by code_simp

text \<open>
  Results without a call break the floor: where the kept part would begin with them, they are left out
  one after the other, past the protected tail and up to the end of the history.
\<close>

theorem orphan_results_empty_the_prompt:
  "let h = [evUser 40 0, evResult ''c1'' 16 1, evResult ''c2'' 16 2];
       r = applyPromptEvictionSafetyValve evRuntime 0 h (evOptions 12 8)
   in minProtected (resolveEvictionOptions evRuntime (evOptions 12 8)) = 8
      \<and> erEvictedMessageCount r = 3 \<and> erProtectedTokens r = 0 \<and> map msRole (erMessages r) = [''user'']"
  by code_simp

end
