(* ===== verification/PruneEngine.thy ===== *)
theory PruneEngine
  imports Text16
begin

text \<open>
  The prune engine, \<open>src/src/dennou-soul/prune-engine.ts\<close>: old tool results in a transcript of JSON lines are
  replaced by a placeholder, line by line, except those of the last assistant turns and those that mention
  what is protected. \<open>JSON.parse\<close>, \<open>JSON.stringify\<close>, \<open>toLowerCase\<close> and the text of a number come from the
  runtime. A call that throws is \<open>None\<close>.
\<close>

section \<open>Settings (\<open>types.ts\<close>)\<close>

record prune_config =
  pcMinPrunableToolChars :: jsnum
  pcKeepLastAssistants :: jsnum
  pcPlaceholder :: "text16 option"
  pcDryRun :: bool

record prune_protection =
  ppKeywords :: "text16 list"
  ppWorkspacePaths :: "text16 list"

definition toolsPruneDefaults :: prune_config where
  "toolsPruneDefaults = \<lparr>pcMinPrunableToolChars = JNum 1200, pcKeepLastAssistants = JNum 3,
     pcPlaceholder = Some (u ''[tool output pruned by DennouAibou]''), pcDryRun = True\<rparr>"

definition pruneProtectionDefaults :: prune_protection where
  "pruneProtectionDefaults = \<lparr>ppKeywords = [u ''AGENTS.md'', u ''SOUL.md'', u ''DENNOU_RULES''], ppWorkspacePaths = []\<rparr>"

section \<open>Placeholders\<close>

definition placeholderMarkers :: "text16 list" where
  "placeholderMarkers = [u ''['' @ [0x51FA, 0x529B, 0x7701, 0x7565] @ u '':'', u ''[Old tool output'']"

definition toolResultSafetyCapChars :: nat where
  "toolResultSafetyCapChars = 50000"

definition isPruneEnabled :: "string option \<Rightarrow> bool" where
  \<comment> \<open>of the variable \<open>DENNOU_SKIP_PRUNE\<close>\<close>
  "isPruneEnabled skip \<longleftrightarrow> skip \<noteq> Some ''1''"

definition hasPlaceholderMarker :: "text16 \<Rightarrow> bool" where
  "hasPlaceholderMarker t \<longleftrightarrow> list_ex (includes16 t) placeholderMarkers"

definition mathRound :: "rat \<Rightarrow> int" where
  "mathRound x = \<lfloor>x + 1 / 2\<rfloor>"

fun scaleUnit :: "rat \<Rightarrow> string \<Rightarrow> string list \<Rightarrow> rat \<times> string" where
  "scaleUnit v unit [] = (v, unit)"
| "scaleUnit v unit (next_unit # units) = (if v \<ge> 1024 then scaleUnit (v / 1024) next_unit units else (v, unit))"

definition formatPrunableSizeLabel :: "runtime \<Rightarrow> jsnum \<Rightarrow> text16" where
  "formatPrunableSizeLabel rt chars =
     (case chars of
        JNum q \<Rightarrow>
          if q < 0 then u ''0B''
          else if q < 1024 then rtNumber rt q @ u ''B''
          else (case scaleUnit (q / 1024) ''KB'' [''MB'', ''GB''] of
                  (v, unit) \<Rightarrow> rtNumber rt (if v \<ge> 100 then of_int (mathRound v) else of_int (mathRound (v * 10)) / 10) @ u unit)
      | _ \<Rightarrow> u ''0B'')"

definition normalExit :: text16 where
  "normalExit = [0x6B63, 0x5E38, 0x7D42, 0x4E86]"

definition buildCanonicalPlaceholder :: "nat \<Rightarrow> text16 \<Rightarrow> text16 option \<Rightarrow> text16" where
  "buildCanonicalPlaceholder lineCount sizeLabel status =
     u ''['' @ [0x51FA, 0x529B, 0x7701, 0x7565] @ u '': '' @ u (showNat lineCount) @ [0x884C] @ u '' / ''
         @ sizeLabel @ u '' '' @ coalesce status normalExit @ u '']''"

section \<open>Attachment paths\<close>

definition pathClass :: "16 word \<Rightarrow> bool" where
  \<comment> \<open>\<open>[A-Za-z0-9_.-]\<close>\<close>
  "pathClass c \<longleftrightarrow> 65 \<le> c \<and> c \<le> 90 \<or> 97 \<le> c \<and> c \<le> 122 \<or> 48 \<le> c \<and> c \<le> 57 \<or> c = 95 \<or> c = 46 \<or> c = 45"

definition fileClass :: "16 word \<Rightarrow> bool" where
  \<comment> \<open>the class of the rest of the path: no whitespace, no quote, bracket, angle, bar, parenthesis, ideographic stop or comma\<close>
  "fileClass c \<longleftrightarrow> \<not> whitespace16 c \<and> c \<notin> {34, 39, 93, 60, 62, 124, 40, 41, 0x3002, 0x3001}"

definition inboundPrefix :: text16 where
  "inboundPrefix = u ''inbound_media/''"

definition matchInbound :: "text16 \<Rightarrow> text16 option" where
  \<comment> \<open>the pattern at the front of a text: the capture group\<close>
  "matchInbound s =
     (if take (length inboundPrefix) s = inboundPrefix
      then (let r = drop (length inboundPrefix) s; folder = takeWhile pathClass r; after = dropWhile pathClass r
            in if folder \<noteq> [] \<and> after \<noteq> [] \<and> hd after = 47 \<and> takeWhile fileClass (tl after) \<noteq> []
               then Some (folder @ [47] @ takeWhile fileClass (tl after)) else None)
      else None)"

fun firstInbound :: "text16 \<Rightarrow> text16 option" where
  "firstInbound [] = None"
| "firstInbound (c # s) = orElse (matchInbound (c # s)) (firstInbound s)"

definition slashes :: "text16 \<Rightarrow> text16" where
  "slashes t = map (\<lambda>c. if c = 92 then 47 else c) t"

definition extractInboundMediaRelPath :: "text16 \<Rightarrow> text16 option" where
  "extractInboundMediaRelPath t =
     (case firstInbound (slashes t) of
        None \<Rightarrow> None
      | Some g \<Rightarrow>
          (let rel = rev (dropWhile (\<lambda>c. c = 47 \<or> c = 46) (rev (inboundPrefix @ g)))
           in if length rel > length inboundPrefix then Some rel else None))"

definition approxKb :: "nat \<Rightarrow> int" where
  "approxKb chars = max 1 (mathRound (of_nat chars / 1024))"

definition buildImagePlaceholder :: "nat \<Rightarrow> text16 option \<Rightarrow> text16 option \<Rightarrow> text16" where
  "buildImagePlaceholder imageDataChars relPath status =
     u ''['' @ [0x51FA, 0x529B, 0x7701, 0x7565] @ u '': '' @ [0x753B, 0x50CF, 0x30C7, 0x30FC, 0x30BF]
         @ u '' ('' @ u (showInt (approxKb imageDataChars)) @ u ''KB)'' @
     (case relPath of
        Some p \<Rightarrow> if p \<noteq> [] then u '' / '' @ p @ u '' / '' else u '' ''
      | None \<Rightarrow> u '' '') @ coalesce status normalExit @ u '']''"

section \<open>Entries\<close>

record jsonl_entry =
  jeRaw :: text16
  jeParsed :: jsval

definition parseLine :: "runtime \<Rightarrow> text16 \<Rightarrow> jsonl_entry option" where
  "parseLine rt line =
     (if trim16 line = [] then None
      else (case rtParse rt (trim16 line) of None \<Rightarrow> None | Some v \<Rightarrow> Some \<lparr>jeRaw = line, jeParsed = v\<rparr>))"

definition messageOf :: "jsonl_entry \<Rightarrow> jsval option option" where
  \<comment> \<open>\<open>entry.parsed.message\<close> with the check that it is an object; on \<open>null\<close> the access throws\<close>
  "messageOf e =
     (if jeParsed e = VNull then None
      else (let m = getProp (Some (jeParsed e)) ''message'' in Some (if isObject m then m else None)))"

definition contentOf :: "jsval option \<Rightarrow> jsval list" where
  \<comment> \<open>the content blocks that are objects; none if the content is no array\<close>
  "contentOf m = (case getProp m ''content'' of Some (VArray items) \<Rightarrow> filter (\<lambda>i. isObject (Some i)) items | _ \<Rightarrow> [])"

definition isImage :: "jsval \<Rightarrow> bool" where
  "isImage b \<longleftrightarrow> getProp (Some b) ''type'' = Some (VText (u ''image''))"

definition imageChars :: "jsval option \<Rightarrow> nat" where
  "imageChars m = sum_list (map (\<lambda>b. if isImage b then (case textOf (getProp (Some b) ''data'') of Some d \<Rightarrow> length d | None \<Rightarrow> 0) else 0) (contentOf m))"

definition getToolResultImageDataChars :: "jsonl_entry \<Rightarrow> nat option" where
  "getToolResultImageDataChars e = map_option imageChars (messageOf e)"

definition textChars :: "jsval option \<Rightarrow> nat" where
  "textChars m = sum_list (map (\<lambda>b. case textOf (getProp (Some b) ''text'') of Some t \<Rightarrow> length t | None \<Rightarrow> 0) (contentOf m))"

definition getToolResultContentLength :: "jsonl_entry \<Rightarrow> nat option" where
  "getToolResultContentLength e = map_option (\<lambda>m. textChars m + imageChars m) (messageOf e)"

definition textContent :: "jsval option \<Rightarrow> text16" where
  "textContent m = joinWith [10] (concat (map (\<lambda>b. case textOf (getProp (Some b) ''text'') of Some t \<Rightarrow> [t] | None \<Rightarrow> []) (contentOf m)))"

definition getToolResultTextContent :: "jsonl_entry \<Rightarrow> text16 option" where
  "getToolResultTextContent e = map_option textContent (messageOf e)"

definition isToolResultEntry :: "jsonl_entry \<Rightarrow> bool option" where
  "isToolResultEntry e = map_option (\<lambda>m. getProp m ''role'' = Some (VText (u ''toolResult''))) (messageOf e)"

definition extractEntryInboundMediaRelPath :: "runtime \<Rightarrow> jsonl_entry \<Rightarrow> text16 option option" where
  "extractEntryInboundMediaRelPath rt e =
     map_option (\<lambda>m. orElse (extractInboundMediaRelPath (textContent m))
        (let details = getProp m ''details''
         in if isObject details then extractInboundMediaRelPath (rtStringify rt (the details)) else None)) (messageOf e)"

section \<open>Protection\<close>

definition normalizePathSeparators :: "runtime \<Rightarrow> text16 \<Rightarrow> text16" where
  "normalizePathSeparators rt s = rtLower rt (slashes s)"

fun unescapeJsonBackslashes :: "text16 \<Rightarrow> text16" where
  "unescapeJsonBackslashes (a # b # s) =
     (if a = 92 \<and> b = 92 then 92 # unescapeJsonBackslashes s else a # unescapeJsonBackslashes (b # s))"
| "unescapeJsonBackslashes s = s"

definition isProtectedByKeyword :: "runtime \<Rightarrow> jsonl_entry \<Rightarrow> prune_protection option \<Rightarrow> bool option" where
  "isProtectedByKeyword rt e protection =
     (case protection of
        None \<Rightarrow> Some False
      | Some p \<Rightarrow>
          if ppKeywords p = [] then Some False
          else map_option (\<lambda>t. list_ex (\<lambda>k. includes16 (rtLower rt t) (rtLower rt k)) (ppKeywords p)) (getToolResultTextContent e))"

definition isProtectedByWorkspacePath :: "runtime \<Rightarrow> jsonl_entry \<Rightarrow> prune_protection option \<Rightarrow> bool option" where
  "isProtectedByWorkspacePath rt e protection =
     (case protection of
        None \<Rightarrow> Some False
      | Some p \<Rightarrow>
          if ppWorkspacePaths p = [] then Some False
          else map_option (\<lambda>t.
                 (let txt = normalizePathSeparators rt t; raw = normalizePathSeparators rt (unescapeJsonBackslashes (jeRaw e))
                  in list_ex (\<lambda>w. includes16 txt (normalizePathSeparators rt w) \<or> includes16 raw (normalizePathSeparators rt w))
                       (ppWorkspacePaths p))) (getToolResultTextContent e))"

definition isAlreadyPlaceholderized :: "jsonl_entry \<Rightarrow> bool option" where
  "isAlreadyPlaceholderized e = map_option hasPlaceholderMarker (getToolResultTextContent e)"

section \<open>Pruning\<close>

definition placeholderContent :: "text16 \<Rightarrow> jsval" where
  "placeholderContent p = VArray [VObject [(u ''type'', VText (u ''text'')), (u ''text'', VText p)]]"

fun setMember :: "string \<Rightarrow> jsval \<Rightarrow> jsval \<Rightarrow> jsval" where
  \<comment> \<open>\<open>v.key = x\<close>: on an array, a member that \<open>JSON.stringify\<close> does not write\<close>
  "setMember key x (VObject obj) = VObject (mapSet (u key) x obj)"
| "setMember key x v = v"

definition withContent :: "text16 \<Rightarrow> jsval \<Rightarrow> jsval" where
  "withContent p v =
     (case getProp (Some v) ''message'' of
        Some m \<Rightarrow> if isObject (Some m) then setMember ''message'' (setMember ''content'' (placeholderContent p) m) v else v
      | None \<Rightarrow> v)"

definition pruneToolResultEntry :: "runtime \<Rightarrow> jsonl_entry \<Rightarrow> text16 \<Rightarrow> text16 option" where
  \<comment> \<open>\<open>None\<close> also where \<open>JSON.parse\<close> rejects what \<open>JSON.stringify\<close> wrote\<close>
  "pruneToolResultEntry rt e placeholder =
     Option.bind (isAlreadyPlaceholderized e) (\<lambda>already.
       if already then Some (jeRaw e)
       else map_option (\<lambda>cloned. rtStringify rt (withContent placeholder cloned)) (rtParse rt (rtStringify rt (jeParsed e))))"

definition isAssistant :: "jsval option \<Rightarrow> bool" where
  "isAssistant m \<longleftrightarrow> getProp m ''role'' = Some (VText (u ''assistant''))"

fun cutoffFrom :: "runtime \<Rightarrow> text16 list \<Rightarrow> jsnum \<Rightarrow> nat option option" where
  \<comment> \<open>the scan from the last line; the lines are given last first, \<open>remaining\<close> is the second argument\<close>
  "cutoffFrom rt [] remaining = Some None"
| "cutoffFrom rt (l # ls) remaining =
     (case parseLine rt l of
        None \<Rightarrow> cutoffFrom rt ls remaining
      | Some e \<Rightarrow>
          Option.bind (messageOf e) (\<lambda>m.
            if isAssistant m
            then (let r = (case remaining of JNum q \<Rightarrow> JNum (q - 1) | n \<Rightarrow> n)
                  in if r = JNum 0 then Some (Some (length ls)) else cutoffFrom rt ls r)
            else cutoffFrom rt ls remaining))"

definition findAssistantCutoffIndex :: "runtime \<Rightarrow> text16 list \<Rightarrow> jsnum \<Rightarrow> nat option option" where
  "findAssistantCutoffIndex rt lines keepLastAssistants =
     (if jsLess keepLastAssistants (JNum 0) \<or> keepLastAssistants = JNum 0 then Some (Some (length lines))
      else cutoffFrom rt (rev lines) keepLastAssistants)"

definition placeholderFor :: "runtime \<Rightarrow> prune_config \<Rightarrow> jsonl_entry \<Rightarrow> text16 option" where
  "placeholderFor rt config e =
     (let custom = (case pcPlaceholder config of Some p \<Rightarrow> trim16 p | None \<Rightarrow> [])
      in if custom \<noteq> [] then Some custom
         else Option.bind (getToolResultImageDataChars e) (\<lambda>image.
           if image > 0
           then map_option (\<lambda>relPath. buildImagePlaceholder image relPath None) (extractEntryInboundMediaRelPath rt e)
           else map_option (\<lambda>t. buildCanonicalPlaceholder (max 1 (length (splitOn 10 t)))
                  (formatPrunableSizeLabel rt (JNum (of_nat (length t)))) None) (getToolResultTextContent e)))"

definition pruneLine ::
  "runtime \<Rightarrow> prune_config \<Rightarrow> prune_protection option \<Rightarrow> nat option \<Rightarrow> nat \<Rightarrow> text16 \<Rightarrow> (text16 \<times> nat) option" where
  \<comment> \<open>the body of the loop: the line that is pushed and what is added to the count\<close>
  "pruneLine rt config protection cutoff i line =
     (case parseLine rt line of
        None \<Rightarrow> Some (line, 0)
      | Some e \<Rightarrow>
          Option.bind (isToolResultEntry e) (\<lambda>toolResult. if \<not> toolResult then Some (line, 0) else
          Option.bind (isAlreadyPlaceholderized e) (\<lambda>already. if already then Some (line, 0) else
          Option.bind (isProtectedByKeyword rt e protection) (\<lambda>keyword. if keyword then Some (line, 0) else
          Option.bind (isProtectedByWorkspacePath rt e protection) (\<lambda>workspace. if workspace then Some (line, 0) else
          if (case cutoff of None \<Rightarrow> True | Some k \<Rightarrow> i \<ge> k) then Some (line, 0) else
          Option.bind (getToolResultContentLength e) (\<lambda>n.
          if jsLess (JNum (of_nat n)) (pcMinPrunableToolChars config) then Some (line, 0)
          else if pcDryRun config then Some (line, 1)
          else Option.bind (placeholderFor rt config e) (\<lambda>p.
            map_option (\<lambda>pruned. (pruned, 1)) (pruneToolResultEntry rt e p))))))))"

fun pruneFrom ::
  "runtime \<Rightarrow> prune_config \<Rightarrow> prune_protection option \<Rightarrow> nat option \<Rightarrow> nat \<Rightarrow> text16 list \<Rightarrow> (text16 list \<times> nat) option" where
  "pruneFrom rt config protection cutoff i [] = Some ([], 0)"
| "pruneFrom rt config protection cutoff i (l # ls) =
     Option.bind (pruneLine rt config protection cutoff i l) (\<lambda>(l', n).
       map_option (\<lambda>(ls', k). (l' # ls', n + k)) (pruneFrom rt config protection cutoff (i + 1) ls))"

definition pruneToolOutputLines ::
  "runtime \<Rightarrow> string option \<Rightarrow> text16 list \<Rightarrow> prune_config \<Rightarrow> prune_protection option \<Rightarrow> (text16 list \<times> nat) option" where
  "pruneToolOutputLines rt skip lines config protection =
     (if \<not> isPruneEnabled skip then Some (lines, 0)
      else Option.bind (findAssistantCutoffIndex rt lines (pcKeepLastAssistants config)) (\<lambda>cutoff.
        pruneFrom rt config protection cutoff 0 lines))"

section \<open>Which lines are pruned\<close>

definition prunable :: "runtime \<Rightarrow> prune_config \<Rightarrow> prune_protection option \<Rightarrow> nat option \<Rightarrow> nat \<Rightarrow> text16 \<Rightarrow> bool" where
  "prunable rt config protection cutoff i line =
     (case parseLine rt line of
        None \<Rightarrow> False
      | Some e \<Rightarrow> isToolResultEntry e = Some True \<and> isAlreadyPlaceholderized e = Some False
          \<and> isProtectedByKeyword rt e protection = Some False \<and> isProtectedByWorkspacePath rt e protection = Some False
          \<and> (case cutoff of None \<Rightarrow> False | Some k \<Rightarrow> i < k)
          \<and> (case getToolResultContentLength e of None \<Rightarrow> False
             | Some n \<Rightarrow> \<not> jsLess (JNum (of_nat n)) (pcMinPrunableToolChars config)))"

definition rewritten :: "runtime \<Rightarrow> prune_config \<Rightarrow> text16 \<Rightarrow> text16 option" where
  \<comment> \<open>a line with its content replaced\<close>
  "rewritten rt config line =
     Option.bind (parseLine rt line) (\<lambda>e. Option.bind (placeholderFor rt config e) (\<lambda>p.
       map_option (\<lambda>v. rtStringify rt (withContent p v)) (rtParse rt (rtStringify rt (jeParsed e)))))"

lemma pruneLine_cases:
  assumes "pruneLine rt config protection cutoff i line = Some (line', n)"
  shows "(if prunable rt config protection cutoff i line
          then n = 1 \<and> (if pcDryRun config then line' = line else rewritten rt config line = Some line')
          else n = 0 \<and> line' = line)"
  using assms
  by (auto simp: pruneLine_def prunable_def rewritten_def pruneToolResultEntry_def not_le
      split: option.splits if_splits bind_splits)

lemma pruneFrom_all:
  "pruneFrom rt config protection cutoff i ls = Some (out, n) \<longleftrightarrow>
     length out = length ls
     \<and> (\<forall>j < length ls. \<exists>m. pruneLine rt config protection cutoff (i + j) (ls ! j) = Some (out ! j, m))
     \<and> n = length (filter (\<lambda>(j, l). prunable rt config protection cutoff j l) (enumerate i ls))"
proof (induction ls arbitrary: i out n)
  case (Cons l ls)
  show ?case
  proof (cases "pruneLine rt config protection cutoff i l")
    case None
    then show ?thesis by (auto simp: All_less_Suc2)
  next
    case (Some r)
    obtain l' m where r: "r = (l', m)" by (cases r)
    from pruneLine_cases [OF Some [unfolded r]] have m: "m = (if prunable rt config protection cutoff i l then 1 else 0)"
      by (simp split: if_splits)
    show ?thesis
      using Cons.IH [of "Suc i" "tl out" "n - m"] Some r m
      by (cases out) (auto simp: All_less_Suc2)
  qed
qed auto

lemma pruneFrom_SomeD:
  assumes "pruneFrom rt config protection cutoff 0 ls = Some (out, n)" "j < length ls"
  shows "if prunable rt config protection cutoff j (ls ! j)
    then (if pcDryRun config then out ! j = ls ! j else rewritten rt config (ls ! j) = Some (out ! j))
    else out ! j = ls ! j"
proof -
  from assms obtain m where "pruneLine rt config protection cutoff j (ls ! j) = Some (out ! j, m)"
    by (auto simp: pruneFrom_all)
  from pruneLine_cases [OF this] show ?thesis by (auto split: if_splits)
qed

section \<open>The last assistant turns\<close>

definition turnOf :: "runtime \<Rightarrow> text16 \<Rightarrow> bool option option" where
  "turnOf rt l = map_option (\<lambda>e. map_option isAssistant (messageOf e)) (parseLine rt l)"

definition assistantLine :: "runtime \<Rightarrow> text16 \<Rightarrow> bool" where
  "assistantLine rt l \<longleftrightarrow> turnOf rt l = Some (Some True)"

lemma cutoffFrom_cong: "map (turnOf rt) ls = map (turnOf rt) ls' \<Longrightarrow> cutoffFrom rt ls r = cutoffFrom rt ls' r"
proof (induction ls arbitrary: ls' r)
  case (Cons l ls)
  then obtain l' ks where ls': "ls' = l' # ks" "turnOf rt l = turnOf rt l'" "map (turnOf rt) ls = map (turnOf rt) ks"
    by (cases ls') auto
  then have len: "length ls = length ks" by (metis length_map)
  show ?case
    using Cons.IH [OF ls'(3)] ls'(2) len
    by (auto simp: ls'(1) turnOf_def Let_def split: option.splits bind_splits)
qed simp

lemma cutoffFrom_count:
  "cutoffFrom rt ls (JNum q) = Some (Some k) \<Longrightarrow>
     k < length ls \<and> of_nat (length (filter (assistantLine rt) (take (length ls - k) ls))) = q"
proof (induction ls arbitrary: q)
  case (Cons l ls)
  have "assistantLine rt l \<longleftrightarrow> (case parseLine rt l of None \<Rightarrow> False | Some e \<Rightarrow> (case messageOf e of None \<Rightarrow> False | Some m \<Rightarrow> isAssistant m))"
    by (simp add: assistantLine_def turnOf_def split: option.splits)
  then show ?case
    using Cons.IH [of q] Cons.IH [of "q - 1"] Cons.prems
    by (auto simp: Suc_diff_le Let_def less_Suc_eq split: option.splits bind_splits if_splits)
qed simp

lemma cutoff_count:
  assumes "findAssistantCutoffIndex rt lines keep = Some (Some k)" "jsLess (JNum 0) keep"
  shows "k < length lines \<and> keep = JNum (of_nat (length (filter (assistantLine rt) (drop k lines))))"
proof -
  have inf: "cutoffFrom rt ls JPosInf \<noteq> Some (Some k)" for ls
    by (induction ls) (auto split: option.splits bind_splits)
  from assms have c: "cutoffFrom rt (rev lines) keep = Some (Some k)"
    by (cases keep) (auto simp: findAssistantCutoffIndex_def)
  with inf assms(2) obtain q where q: "keep = JNum q" by (cases keep) auto
  note v = cutoffFrom_count [OF c [unfolded q]]
  then have "take (length lines - k) (rev lines) = rev (drop k lines)" by (simp add: take_rev)
  with v show ?thesis by (auto simp: q rev_filter [symmetric])
qed

lemma prune_shape:
  assumes "pruneToolOutputLines rt skip lines config protection = Some (out, n)"
  obtains (off) "out = lines" "n = 0" "\<not> isPruneEnabled skip"
  | (on) cutoff where "isPruneEnabled skip" "findAssistantCutoffIndex rt lines (pcKeepLastAssistants config) = Some cutoff"
      "pruneFrom rt config protection cutoff 0 lines = Some (out, n)"
  using assms by (auto simp: pruneToolOutputLines_def split: if_splits bind_splits)

text \<open>
  C13. Pruning changes nothing but old results: every line keeps its place, and one that changed is a tool
  result that was no placeholder, mentions no protected keyword or workspace path, is at least as long as
  the threshold and has at least \<open>keepLastAssistants\<close> assistant messages after it; nothing changes in a
  dry run or under the switch \<open>DENNOU_SKIP_PRUNE\<close>.
\<close>

theorem pruning_spares_recent_turns:
  assumes "pruneToolOutputLines rt skip lines config protection = Some (out, n)" and "i < length lines"
    and "out ! i \<noteq> lines ! i"
  shows "length out = length lines \<and> \<not> pcDryRun config \<and> isPruneEnabled skip
    \<and> (\<exists>e m. parseLine rt (lines ! i) = Some e \<and> messageOf e = Some m
         \<and> getProp m ''role'' = Some (VText (u ''toolResult'')) \<and> \<not> hasPlaceholderMarker (textContent m)
         \<and> isProtectedByKeyword rt e protection = Some False \<and> isProtectedByWorkspacePath rt e protection = Some False
         \<and> \<not> jsLess (JNum (of_nat (textChars m + imageChars m))) (pcMinPrunableToolChars config))
    \<and> \<not> jsLess (JNum (of_nat (length (filter (assistantLine rt) (drop (Suc i) lines))))) (pcKeepLastAssistants config)"
proof (rule prune_shape [OF assms(1)], goal_cases off on)
  case off
  with assms(3) show ?case by simp
next
  case (on cutoff)
  from pruneFrom_SomeD [OF on(3) assms(2)] assms(3)
  have p: "prunable rt config protection cutoff i (lines ! i)" "\<not> pcDryRun config" by (auto split: if_splits)
  then obtain k where k: "cutoff = Some k" "i < k"
    by (auto simp: prunable_def split: option.splits)
  have few: "\<not> jsLess (JNum (of_nat (length (filter (assistantLine rt) (drop (Suc i) lines))))) (pcKeepLastAssistants config)"
  proof (cases "jsLess (JNum 0) (pcKeepLastAssistants config)")
    case True
    from cutoff_count [OF on(2) [unfolded k(1)] True]
    have keep: "pcKeepLastAssistants config = JNum (of_nat (length (filter (assistantLine rt) (drop k lines))))" by blast
    have "drop (Suc i) lines = take (k - Suc i) (drop (Suc i) lines) @ drop k lines"
      using k(2) by (metis Suc_leI append_take_drop_id drop_drop le_add_diff_inverse2)
    then have "length (filter (assistantLine rt) (drop k lines)) \<le> length (filter (assistantLine rt) (drop (Suc i) lines))"
      by (metis filter_append le_add2 length_append)
    then show ?thesis by (simp add: keep)
  next
    case False
    then show ?thesis by (cases "pcKeepLastAssistants config") auto
  qed
  have "length out = length lines" using on(3) by (simp add: pruneFrom_all)
  moreover have "\<exists>e m. parseLine rt (lines ! i) = Some e \<and> messageOf e = Some m
         \<and> getProp m ''role'' = Some (VText (u ''toolResult'')) \<and> \<not> hasPlaceholderMarker (textContent m)
         \<and> isProtectedByKeyword rt e protection = Some False \<and> isProtectedByWorkspacePath rt e protection = Some False
         \<and> \<not> jsLess (JNum (of_nat (textChars m + imageChars m))) (pcMinPrunableToolChars config)"
    using p(1) by (auto simp: prunable_def isToolResultEntry_def isAlreadyPlaceholderized_def getToolResultTextContent_def
        getToolResultContentLength_def split: option.splits)
  ultimately show ?case using p(2) on(1) few by blast
qed

lemma rewritten_dry: "rewritten rt (config\<lparr>pcDryRun := d\<rparr>) = rewritten rt config"
  by (simp add: fun_eq_iff rewritten_def placeholderFor_def)

lemma prunable_dry: "prunable rt (config\<lparr>pcDryRun := d\<rparr>) = prunable rt config"
  by (simp add: fun_eq_iff prunable_def cong: option.case_cong)

lemma protection_total:
  assumes "messageOf e = Some m"
  obtains kw ws where "isProtectedByKeyword rt e pr = Some kw" "isProtectedByWorkspacePath rt e pr = Some ws"
proof -
  have "isProtectedByKeyword rt e pr \<noteq> None" "isProtectedByWorkspacePath rt e pr \<noteq> None"
    using assms by (auto simp: isProtectedByKeyword_def isProtectedByWorkspacePath_def getToolResultTextContent_def split: option.split)
  with that show thesis by blast
qed

lemmas entry_simps = isToolResultEntry_def isAlreadyPlaceholderized_def getToolResultTextContent_def
  getToolResultContentLength_def getToolResultImageDataChars_def

lemma pruneLine_dry:
  assumes "pruneLine rt config protection cutoff i line = Some r"
  shows "pruneLine rt (config\<lparr>pcDryRun := True\<rparr>) protection cutoff i line
    = Some (line, if prunable rt config protection cutoff i line then 1 else 0)"
proof (cases "parseLine rt line")
  case (Some e)
  then obtain m where m: "messageOf e = Some m" using assms by (cases "messageOf e") (simp_all add: pruneLine_def isToolResultEntry_def)
  obtain kw ws where k: "isProtectedByKeyword rt e protection = Some kw" "isProtectedByWorkspacePath rt e protection = Some ws"
    using protection_total [OF m] by blast
  show ?thesis
    by (simp add: pruneLine_def prunable_def entry_simps Some m k not_le split: option.split)
qed (use assms in \<open>simp add: pruneLine_def prunable_def\<close>)

text \<open>
  A dry run foretells the run: it leaves the transcript alone and reports the number of lines that the
  run rewrites.
\<close>

theorem dry_run_counts_the_real_run:
  assumes "pruneToolOutputLines rt skip lines config protection = Some (out, n)"
  shows "pruneToolOutputLines rt skip lines (config\<lparr>pcDryRun := True\<rparr>) protection = Some (lines, n)"
proof (rule prune_shape [OF assms], goal_cases off on)
  case (on cutoff)
  have "pruneFrom rt (config\<lparr>pcDryRun := True\<rparr>) protection cutoff 0 lines = Some (lines, n)"
    using on(3) pruneLine_dry by (fastforce simp: pruneFrom_all prunable_dry)
  with on show ?case by (simp add: pruneToolOutputLines_def)
qed (simp add: pruneToolOutputLines_def)

section \<open>What a rewritten line keeps\<close>

definition jsonKept :: "runtime \<Rightarrow> prune_config \<Rightarrow> text16 \<Rightarrow> bool" where
  \<comment> \<open>\<open>JSON\<close> keeps the value of this line when it writes it and reads it, also with its placeholder; an object
     that is written begins and ends with a bracket and has no line break\<close>
  "jsonKept rt config line \<longleftrightarrow>
     (case parseLine rt line of None \<Rightarrow> True
      | Some e \<Rightarrow> rtParse rt (rtStringify rt (jeParsed e)) = Some (jeParsed e)
          \<and> (case placeholderFor rt config e of None \<Rightarrow> True
             | Some p \<Rightarrow> (let w = withContent p (jeParsed e)
                 in rtParse rt (rtStringify rt w) = Some w \<and> trim16 (rtStringify rt w) = rtStringify rt w \<and> rtStringify rt w \<noteq> []
                 \<and> 10 \<notin> set (rtStringify rt w))))"

lemma mapSet_set: "mapSet k v (mapSet k w m) = mapSet k v m"
  by (induction m) auto

lemma getProp_obj: "getProp v key = Some x \<Longrightarrow> \<exists>obj. v = Some (VObject obj) \<and> mapGet obj (u key) = Some x"
  by (cases "(v, key)" rule: getProp.cases) simp_all

text \<open>A tool result and its rewritten form.\<close>

lemma toolResult_shape:
  assumes "messageOf e = Some m" "getProp m ''role'' = Some (VText (u ''toolResult''))"
  obtains obj mobj where "jeParsed e = VObject obj" "mapGet obj (u ''message'') = Some (VObject mobj)" "m = Some (VObject mobj)"
    "mapGet mobj (u ''role'') = Some (VText (u ''toolResult''))"
proof -
  from getProp_obj [OF assms(2)] obtain mobj where m: "m = Some (VObject mobj)" "mapGet mobj (u ''role'') = Some (VText (u ''toolResult''))"
    by blast
  with assms(1) have "getProp (Some (jeParsed e)) ''message'' = Some (VObject mobj)"
    by (auto simp: messageOf_def Let_def split: if_splits)
  from getProp_obj [OF this] m show thesis by (auto intro: that)
qed

lemma withContent_shape:
  assumes "mapGet obj (u ''message'') = Some (VObject mobj)"
  shows "withContent p (VObject obj) =
    VObject (mapSet (u ''message'') (VObject (mapSet (u ''content'') (placeholderContent p) mobj)) obj)"
  using assms by (simp add: withContent_def)

lemma textContent_placeholder:
  "textContent (Some (VObject (mapSet (u ''content'') (placeholderContent p) mobj))) = p"
  by (simp add: textContent_def contentOf_def placeholderContent_def)

lemma placeholder_marked:
  assumes "placeholderFor rt config e = Some p"
  shows "p = trim16 (coalesce (pcPlaceholder config) []) \<and> p \<noteq> [] \<or> hasPlaceholderMarker p \<and> trim16 (coalesce (pcPlaceholder config) []) = []"
proof -
  have c: "hasPlaceholderMarker (buildCanonicalPlaceholder n l s)" for n l s
    by (simp add: hasPlaceholderMarker_def placeholderMarkers_def buildCanonicalPlaceholder_def u_simps)
  have i: "hasPlaceholderMarker (buildImagePlaceholder n l s)" for n l s
    by (simp add: hasPlaceholderMarker_def placeholderMarkers_def buildImagePlaceholder_def u_simps)
  show ?thesis
    using assms c i by (auto simp: placeholderFor_def Let_def split: option.splits if_splits bind_splits)
qed

lemma parseLine_Some: "parseLine rt l = Some e \<Longrightarrow> rtParse rt (trim16 l) = Some (jeParsed e) \<and> jeRaw e = l"
  by (auto simp: parseLine_def split: if_splits option.splits)

lemma rewritten_shape:
  assumes "prunable rt config protection cutoff i line" "jsonKept rt config line" "rewritten rt config line = Some line'"
  obtains e obj mobj p where "parseLine rt line = Some e" "jeParsed e = VObject obj" "mapGet obj (u ''message'') = Some (VObject mobj)"
    "mapGet mobj (u ''role'') = Some (VText (u ''toolResult''))" "placeholderFor rt config e = Some p"
    "parseLine rt line' = Some \<lparr>jeRaw = line', jeParsed = VObject (mapSet (u ''message'')
        (VObject (mapSet (u ''content'') (placeholderContent p) mobj)) obj)\<rparr>"
    "line' = rtStringify rt (withContent p (jeParsed e))"
proof -
  from assms(1) obtain e where e: "parseLine rt line = Some e" "isToolResultEntry e = Some True"
    by (auto simp: prunable_def split: option.splits)
  then obtain m where m: "messageOf e = Some m" "getProp m ''role'' = Some (VText (u ''toolResult''))"
    by (auto simp: isToolResultEntry_def)
  from toolResult_shape [OF m] obtain obj mobj where o: "jeParsed e = VObject obj" "mapGet obj (u ''message'') = Some (VObject mobj)"
    "mapGet mobj (u ''role'') = Some (VText (u ''toolResult''))" by blast
  from assms(3) e obtain p where p: "placeholderFor rt config e = Some p"
    by (auto simp: rewritten_def split: bind_splits)
  let ?w = "withContent p (jeParsed e)"
  from assms(2) e p have k: "rtParse rt (rtStringify rt (jeParsed e)) = Some (jeParsed e)" "rtParse rt (rtStringify rt ?w) = Some ?w"
    "trim16 (rtStringify rt ?w) = rtStringify rt ?w" "rtStringify rt ?w \<noteq> []" "10 \<notin> set (rtStringify rt ?w)"
    by (auto simp: jsonKept_def Let_def)
  with assms(3) e p have l: "line' = rtStringify rt ?w" by (simp add: rewritten_def)
  have "parseLine rt line' = Some \<lparr>jeRaw = line', jeParsed = ?w\<rparr>" using k l by (simp add: parseLine_def)
  with that [OF e(1) o p _ l] show thesis by (simp add: o(1) withContent_shape [OF o(2)])
qed

lemma rewritten_plain:
  assumes "jsonKept rt config line" "rewritten rt config line = Some line'"
  shows "line' \<noteq> [] \<and> 10 \<notin> set line'"
  using assms by (auto simp: rewritten_def jsonKept_def Let_def split: bind_splits)

text \<open>
  A rewritten line keeps its links: it is the same record with the same message, the \<open>content\<close> of the
  message apart, which is one text block with the placeholder; so ids, parent, tool call, tool name and
  error flag stay.
\<close>

theorem pruned_line_keeps_links:
  assumes "pruneToolOutputLines rt skip lines config protection = Some (out, n)" and "i < length lines"
    and "out ! i \<noteq> lines ! i" and "jsonKept rt config (lines ! i)"
  shows "\<exists>obj mobj p. rtParse rt (trim16 (lines ! i)) = Some (VObject obj) \<and> mapGet obj (u ''message'') = Some (VObject mobj)
    \<and> rtParse rt (trim16 (out ! i)) =
        Some (VObject (mapSet (u ''message'') (VObject (mapSet (u ''content'') (placeholderContent p) mobj)) obj))"
proof (rule prune_shape [OF assms(1)], goal_cases off on)
  case off
  with assms(3) show ?case by simp
next
  case (on cutoff)
  from pruneFrom_SomeD [OF on(3) assms(2)] assms(3)
  have "prunable rt config protection cutoff i (lines ! i)" "rewritten rt config (lines ! i) = Some (out ! i)"
    by (auto split: if_splits)
  from rewritten_shape [OF this(1) assms(4) this(2)] obtain e obj mobj p where
    e: "parseLine rt (lines ! i) = Some e" "jeParsed e = VObject obj" "mapGet obj (u ''message'') = Some (VObject mobj)"
    and l: "parseLine rt (out ! i) = Some \<lparr>jeRaw = out ! i, jeParsed = VObject (mapSet (u ''message'')
        (VObject (mapSet (u ''content'') (placeholderContent p) mobj)) obj)\<rparr>" by metis
  from parseLine_Some [OF e(1)] parseLine_Some [OF l] e(2,3) show ?case by auto
qed

section \<open>Pruning again\<close>

lemma messageOf_object:
  assumes "jeParsed e = VObject obj" "mapGet obj (u ''message'') = Some (VObject mobj)"
  shows "messageOf e = Some (Some (VObject mobj))"
  using assms by (simp add: messageOf_def Let_def)

lemma turnOf_rewritten:
  assumes "prunable rt config protection cutoff i line" "jsonKept rt config line" "rewritten rt config line = Some line'"
  shows "turnOf rt line' = turnOf rt line"
proof -
  from rewritten_shape [OF assms] obtain e obj mobj p where e: "parseLine rt line = Some e" "jeParsed e = VObject obj"
      "mapGet obj (u ''message'') = Some (VObject mobj)"
    and l: "parseLine rt line' = Some \<lparr>jeRaw = line', jeParsed = VObject (mapSet (u ''message'')
        (VObject (mapSet (u ''content'') (placeholderContent p) mobj)) obj)\<rparr>" by metis
  have "messageOf \<lparr>jeRaw = line', jeParsed = VObject (mapSet (u ''message'')
        (VObject (mapSet (u ''content'') (placeholderContent p) mobj)) obj)\<rparr>
      = Some (Some (VObject (mapSet (u ''content'') (placeholderContent p) mobj)))"
    by (rule messageOf_object, simp, simp)
  then show ?thesis
    by (simp add: turnOf_def isAssistant_def e(1) l messageOf_object [OF e(2,3)])
qed

lemma pruneLine_again:
  assumes pr: "prunable rt config protection cutoff i line" "jsonKept rt config line" "rewritten rt config line = Some line'"
    and dry: "\<not> pcDryRun config"
  shows "\<exists>m. pruneLine rt config protection cutoff i line' = Some (line', m)"
    "hasPlaceholderMarker (trim16 (coalesce (pcPlaceholder config) [])) \<or> trim16 (coalesce (pcPlaceholder config) []) = [] \<Longrightarrow>
     \<not> prunable rt config protection cutoff i line'"
proof -
  from rewritten_shape [OF pr] obtain e obj mobj p where e: "parseLine rt line = Some e" "jeParsed e = VObject obj"
    "mapGet obj (u ''message'') = Some (VObject mobj)" "mapGet mobj (u ''role'') = Some (VText (u ''toolResult''))"
    and p: "placeholderFor rt config e = Some p"
    and l: "parseLine rt line' = Some \<lparr>jeRaw = line', jeParsed = VObject (mapSet (u ''message'')
        (VObject (mapSet (u ''content'') (placeholderContent p) mobj)) obj)\<rparr>"
    and line': "line' = rtStringify rt (withContent p (jeParsed e))" by blast
  let ?c = "trim16 (coalesce (pcPlaceholder config) [])"
  let ?m = "VObject (mapSet (u ''content'') (placeholderContent p) mobj)"
  let ?w = "VObject (mapSet (u ''message'') ?m obj)"
  let ?e = "\<lparr>jeRaw = line', jeParsed = ?w\<rparr>"
  have m: "messageOf ?e = Some (Some ?m)" by (rule messageOf_object, simp, simp)
  note evals = m textContent_placeholder
  obtain kw ws where k: "isProtectedByKeyword rt ?e protection = Some kw" "isProtectedByWorkspacePath rt ?e protection = Some ws"
    by (rule protection_total [OF m])
  have tool: "isToolResultEntry ?e = Some True" using e(4) by (simp add: isToolResultEntry_def m)
  have already: "isAlreadyPlaceholderized ?e = Some (hasPlaceholderMarker p)"
    by (simp add: isAlreadyPlaceholderized_def getToolResultTextContent_def m textContent_placeholder)
  have w: "withContent p (jeParsed e) = ?w" by (simp add: e(2) withContent_shape [OF e(3)])
  have ww: "withContent p ?w = ?w" by (simp add: withContent_shape [OF mapGet_set_same] mapSet_set)
  have kept: "rtParse rt (rtStringify rt ?w) = Some ?w" using pr(2) e(1) p by (simp add: jsonKept_def w Let_def)
  have l2: "rtStringify rt ?w = line'" using line' w by simp
  have again: "pruneToolResultEntry rt ?e p = Some line'"
    using kept by (simp add: pruneToolResultEntry_def already ww l2)
  have custom: "placeholderFor rt config ?e = Some p" if "\<not> hasPlaceholderMarker p"
    using placeholder_marked [OF p] that by (auto simp: placeholderFor_def Let_def coalesce_def split: option.splits)
  show "\<exists>m. pruneLine rt config protection cutoff i line' = Some (line', m)"
    by (cases "hasPlaceholderMarker p")
      (simp_all add: pruneLine_def l tool already k custom again getToolResultContentLength_def m dry)
  assume "hasPlaceholderMarker ?c \<or> ?c = []"
  with placeholder_marked [OF p] have "hasPlaceholderMarker p" by auto
  then show "\<not> prunable rt config protection cutoff i line'"
    by (simp add: prunable_def l already)
qed

lemma prune_again:
  assumes "pruneToolOutputLines rt skip lines config protection = Some (out, n)"
    and "list_all (jsonKept rt config) lines"
  shows "\<exists>k. pruneToolOutputLines rt skip out config protection = Some (out, k)
    \<and> (\<not> pcDryRun config \<and> (hasPlaceholderMarker (trim16 (coalesce (pcPlaceholder config) []))
                               \<or> trim16 (coalesce (pcPlaceholder config) []) = []) \<longrightarrow> k = 0)"
proof (rule prune_shape [OF assms(1)], goal_cases off on)
  case off
  then show ?case by (simp add: pruneToolOutputLines_def)
next
  case (on cutoff)
  let ?p = "prunable rt config protection cutoff" and ?k = "length (filter (\<lambda>(j, l). prunable rt config protection cutoff j l) (enumerate 0 out))"
  from on(3) have len: "length out = length lines" by (simp add: pruneFrom_all)
  have kept: "jsonKept rt config (lines ! j)" if "j < length lines" for j
    using assms(2) that by (simp add: list_all_length)
  have cases_j: "(\<not> ?p j (lines ! j) \<and> out ! j = lines ! j) \<or> (?p j (lines ! j) \<and> pcDryRun config \<and> out ! j = lines ! j)
      \<or> (?p j (lines ! j) \<and> \<not> pcDryRun config \<and> rewritten rt config (lines ! j) = Some (out ! j))" if "j < length lines" for j
    using pruneFrom_SomeD [OF on(3) that] by (simp split: if_splits)
  have "map (turnOf rt) out = map (turnOf rt) lines"
  proof (rule nth_equalityI)
    fix j assume "j < length (map (turnOf rt) out)"
    then have j: "j < length lines" by (simp add: len)
    from cases_j [OF j] turnOf_rewritten [OF _ kept [OF j]] show "map (turnOf rt) out ! j = map (turnOf rt) lines ! j"
      using j by (auto simp: len)
  qed (simp add: len)
  then have cut: "findAssistantCutoffIndex rt out (pcKeepLastAssistants config) = Some cutoff"
    using on(2) cutoffFrom_cong [of rt "rev out" "rev lines"] by (auto simp: findAssistantCutoffIndex_def len rev_map [symmetric] split: if_splits)
  have lines: "\<exists>m. pruneLine rt config protection cutoff j (out ! j) = Some (out ! j, m)" if j: "j < length out" for j
  proof -
    have "\<exists>m. pruneLine rt config protection cutoff j (lines ! j) = Some (out ! j, m)"
      using on(3) j by (auto simp: pruneFrom_all len)
    then show ?thesis
      using cases_j [of j] pruneLine_again(1) [OF _ kept [of j]] j by (auto simp: len)
  qed
  then have again: "pruneFrom rt config protection cutoff 0 out = Some (out, ?k)" by (simp add: pruneFrom_all)
  have "?k = 0" if "\<not> pcDryRun config" "hasPlaceholderMarker (trim16 (coalesce (pcPlaceholder config) []))
                               \<or> trim16 (coalesce (pcPlaceholder config) []) = []"
  proof -
    have "\<not> ?p j (out ! j)" if "j < length out" for j
      using cases_j [of j] pruneLine_again(2) [OF _ kept [of j]] \<open>\<not> pcDryRun config\<close> that(1) 
        \<open>hasPlaceholderMarker _ \<or> _\<close> by (auto simp: len)
    then show ?thesis by (auto simp: filter_empty_conv in_set_enumerate_eq)
  qed
  with again cut on(1) show ?case by (simp add: pruneToolOutputLines_def)
qed

text \<open>
  C18. Pruning again changes nothing: a transcript that has been pruned comes out of a second run with the
  same settings as it went in; and the second run reports nothing to do, unless the configured placeholder is
  one that the engine does not recognise as its own.
\<close>

theorem pruning_again_changes_nothing:
  assumes "pruneToolOutputLines rt skip lines config protection = Some (out, n)"
    and "list_all (jsonKept rt config) lines"
  shows "\<exists>k. pruneToolOutputLines rt skip out config protection = Some (out, k)
    \<and> (\<not> pcDryRun config \<and> (hasPlaceholderMarker (trim16 (coalesce (pcPlaceholder config) []))
                               \<or> trim16 (coalesce (pcPlaceholder config) []) = []) \<longrightarrow> k = 0)"
  by (rule prune_again [OF assms])

section \<open>When pruning throws\<close>

definition nullLine :: "runtime \<Rightarrow> text16 \<Rightarrow> bool" where
  "nullLine rt line \<longleftrightarrow> map_option jeParsed (parseLine rt line) = Some VNull"

lemma messageOf_None: "messageOf e = None \<longleftrightarrow> jeParsed e = VNull"
  by (simp add: messageOf_def Let_def)

lemma cutoffFrom_None: "cutoffFrom rt ls r = None \<Longrightarrow> list_ex (nullLine rt) ls"
proof (induction ls arbitrary: r)
  case (Cons l ls)
  then show ?case
    by (cases "parseLine rt l") (auto simp: nullLine_def messageOf_None Let_def split: bind_splits if_splits)
qed simp

lemma pruneLine_None:
  assumes "jsonKept rt config line"
  shows "pruneLine rt config protection cutoff i line = None \<longleftrightarrow> nullLine rt line"
proof (cases "parseLine rt line")
  case (Some e)
  show ?thesis
  proof (cases "messageOf e")
    case None
    then show ?thesis using messageOf_None [of e] by (simp add: pruneLine_def nullLine_def Some isToolResultEntry_def)
  next
    case m: (Some m)
    obtain kw ws where k: "isProtectedByKeyword rt e protection = Some kw" "isProtectedByWorkspacePath rt e protection = Some ws"
      by (rule protection_total [OF m])
    have j: "rtParse rt (rtStringify rt (jeParsed e)) = Some (jeParsed e)" using assms Some by (simp add: jsonKept_def)
    have "placeholderFor rt config e \<noteq> None"
      by (auto simp: placeholderFor_def Let_def entry_simps m extractEntryInboundMediaRelPath_def)
    then obtain p where p: "placeholderFor rt config e = Some p" by blast
    have "jeParsed e \<noteq> VNull" using m messageOf_None [of e] by auto
    then show ?thesis
      by (simp add: pruneLine_def nullLine_def Some entry_simps m k p pruneToolResultEntry_def j)
  qed
qed (simp add: pruneLine_def nullLine_def)

lemma pruneFrom_None:
  "list_all (jsonKept rt config) ls \<Longrightarrow> pruneFrom rt config protection cutoff i ls = None \<longleftrightarrow> list_ex (nullLine rt) ls"
proof (induction ls arbitrary: i)
  case (Cons l ls)
  then show ?case
    using pruneLine_None [of rt config l protection cutoff i]
    by (cases "pruneLine rt config protection cutoff i l") auto
qed simp

text \<open>
  Pruning throws exactly when a line of the transcript is the value \<open>null\<close>: every other line, whatever
  it holds and whether it parses or not, is either kept or rewritten.
\<close>

theorem pruning_throws_only_on_null:
  assumes "list_all (jsonKept rt config) lines"
  shows "pruneToolOutputLines rt skip lines config protection = None \<longleftrightarrow> isPruneEnabled skip \<and> list_ex (nullLine rt) lines"
proof (cases "findAssistantCutoffIndex rt lines (pcKeepLastAssistants config)")
  case None
  then have "list_ex (nullLine rt) (rev lines)"
    using cutoffFrom_None by (fastforce simp: findAssistantCutoffIndex_def split: if_splits)
  with None show ?thesis by (simp add: pruneToolOutputLines_def)
qed (simp add: pruneToolOutputLines_def pruneFrom_None [OF assms])

section \<open>Examples\<close>

definition peResult :: jsval where
  "peResult = VObject [(u ''id'', VText (u ''2'')), (u ''message'', VObject [(u ''role'', VText (u ''toolResult'')),
     (u ''content'', VArray [VObject [(u ''type'', VText (u ''text'')), (u ''text'', VText (u ''out'' @ [10] @ u ''put''))]])])]"

definition peAssistant :: jsval where
  "peAssistant = VObject [(u ''message'', VObject [(u ''role'', VText (u ''assistant''))])]"

definition peCanonical :: text16 where
  "peCanonical = buildCanonicalPlaceholder 2 (u ''7B'') None"

definition peRuntime :: runtime where
  \<comment> \<open>the runtime on the transcript of one tool result and one reply, with stand-ins for their lines\<close>
  "peRuntime = \<lparr>rtParse = (\<lambda>t. if t = u ''r'' then Some peResult else if t = u ''a'' then Some peAssistant
       else if t = u ''p'' then Some (withContent peCanonical peResult)
       else if t = u ''q'' then Some (withContent (buildCanonicalPlaceholder 1 (u ''0B'') None) peAssistant)
       else if t = u ''null'' then Some VNull else None),
     rtStringify = (\<lambda>v. if v = peResult then u ''r'' else if v = peAssistant then u ''a''
       else if v = VNull then u ''null'' else if v = withContent peCanonical peResult then u ''p'' else u ''q''),
     rtNumber = (\<lambda>q. u (showInt \<lfloor>q\<rfloor>)), rtLower = id, rtDateParse = (\<lambda>t. None), rtIsoDate = (\<lambda>q. []),
     rtLocaleNumber = (\<lambda>i. u (showInt i))\<rparr>"

definition peConfig :: prune_config where
  "peConfig = \<lparr>pcMinPrunableToolChars = JNum 5, pcKeepLastAssistants = JNum 1, pcPlaceholder = Some [], pcDryRun = False\<rparr>"

definition peLines :: "text16 list" where
  "peLines = [u ''r'', u ''broken'', u ''a'', u ''r'']"

lemma pe_prune: "pruneToolOutputLines peRuntime None peLines peConfig None = Some ([u ''p'', u ''broken'', u ''a'', u ''r''], 1)"
  by code_simp

lemma pe_kept: "list_all (jsonKept peRuntime peConfig) (peLines @ [u ''null''])"
  by code_simp

lemma pe_null: "list_ex (nullLine peRuntime) (peLines @ [u ''null''])"
  by code_simp

lemma pe_first: "0 < length peLines" "[u ''p'', u ''broken'', u ''a'', u ''r''] ! 0 \<noteq> peLines ! 0"
    "list_all (jsonKept peRuntime peConfig) peLines" "jsonKept peRuntime peConfig (peLines ! 0)"
  using pe_kept by (simp_all add: peLines_def)

theorem pruning_spares_recent_turns_witness:
  "\<not> jsLess (JNum (of_nat (length (filter (assistantLine peRuntime) (drop (Suc 0) peLines))))) (pcKeepLastAssistants peConfig)"
  using pruning_spares_recent_turns [OF pe_prune pe_first(1,2)] by blast

theorem dry_run_counts_the_real_run_witness:
  "pruneToolOutputLines peRuntime None peLines (peConfig\<lparr>pcDryRun := True\<rparr>) None = Some (peLines, 1)"
  by (rule dry_run_counts_the_real_run [OF pe_prune])

theorem pruned_line_keeps_links_witness:
  "\<exists>obj mobj p. rtParse peRuntime (trim16 (peLines ! 0)) = Some (VObject obj) \<and> mapGet obj (u ''message'') = Some (VObject mobj)
    \<and> rtParse peRuntime (trim16 ([u ''p'', u ''broken'', u ''a'', u ''r''] ! 0)) =
        Some (VObject (mapSet (u ''message'') (VObject (mapSet (u ''content'') (placeholderContent p) mobj)) obj))"
  by (rule pruned_line_keeps_links [OF pe_prune pe_first(1,2,4)])

theorem pruning_again_changes_nothing_witness:
  "\<exists>k. pruneToolOutputLines peRuntime None [u ''p'', u ''broken'', u ''a'', u ''r''] peConfig None
     = Some ([u ''p'', u ''broken'', u ''a'', u ''r''], k) \<and> k = 0"
proof -
  have "trim16 (coalesce (pcPlaceholder peConfig) []) = []" "\<not> pcDryRun peConfig" by code_simp+
  with pruning_again_changes_nothing [OF pe_prune pe_first(3)] show ?thesis by blast
qed

theorem pruning_throws_only_on_null_witness:
  "pruneToolOutputLines peRuntime None (peLines @ [u ''null'']) peConfig None = None"
  by (simp only: pruning_throws_only_on_null [OF pe_kept] pe_null) (simp add: isPruneEnabled_def)

end
