(* ===== verification/SessionGatekeeper.thy ===== *)
theory SessionGatekeeper
  imports Text16
begin

text \<open>
  The session gatekeeper, \<open>src/src/agents/session-gatekeeper.ts\<close>: a write to a session file asks for leave
  first; the request must be complete, its actor and action known and its operation id fresh among the last
  4096, and the answer must have been logged. Whether the log takes a line is an argument of each request.
\<close>

datatype write_decision = Granted text16 | Denied string

record write_request =
  wrActor :: "jsval option"
  wrAction :: "jsval option"
  wrOp :: "jsval option"
  wrSessionId :: "jsval option"
  wrTargetLines :: "jsval option"
  wrReason :: "jsval option"

definition sessionWriteActors :: "text16 list" where
  "sessionWriteActors = map u [''attempt'', ''compact'', ''prune'', ''audio-stt'', ''repair'', ''gateway'', ''plugin'']"

definition maxSessionWriteOps :: nat where
  "maxSessionWriteOps = 4096"

definition sessionWriteActions :: "text16 list" where
  "sessionWriteActions = map u [''append'', ''prune'', ''rewrite'', ''repair'', ''compact'']"

definition vagueValues :: "text16 list" where
  "vagueValues = map u ['''', ''-'', ''?'', ''n/a'', ''na'', ''none'', ''null'', ''unknown'', ''todo'']"

definition normalizeRequiredValue :: "runtime \<Rightarrow> jsval option \<Rightarrow> text16 option" where
  "normalizeRequiredValue rt value =
     (case value of
        Some (VNumber (JNum q)) \<Rightarrow> if q > 0 then Some (rtNumber rt q) else None
      | Some (VText t) \<Rightarrow>
          if trim16 t \<noteq> [] \<and> rtLower rt (trim16 t) \<notin> set vagueValues then Some (trim16 t) else None
      | _ \<Rightarrow> None)"

definition logPreAuthorization ::
  "text16 option \<Rightarrow> text16 option \<Rightarrow> text16 option \<Rightarrow> text16 option \<Rightarrow> text16 option \<Rightarrow> text16 \<Rightarrow> string \<Rightarrow> text16" where
  \<comment> \<open>the line that is logged\<close>
  "logPreAuthorization actor action op sessionId targetLines reason result =
     (let say = (\<lambda>v. coalesce v (u ''unknown''))
      in u ''[session:preauth] actor='' @ say actor @ u '' action='' @ say action @ u '' op='' @ say op
         @ u '' targetLines='' @ say targetLines @ u '' sessionId='' @ say sessionId @ u '' result='' @ u result
         @ u '' reason='' @ reason)"

fun dropOldest :: "nat \<Rightarrow> 'a list \<Rightarrow> 'a list" where
  \<comment> \<open>the loop that forgets the oldest operations\<close>
  "dropOldest mx [] = []"
| "dropOldest mx (x # xs) = (if length (x # xs) > mx then dropOldest mx xs else x # xs)"

record gate_answer =
  gaDecision :: write_decision
  gaUsedOps :: "text16 list"
  gaLog :: text16

definition requestSessionWrite :: "runtime \<Rightarrow> bool \<Rightarrow> write_request \<Rightarrow> text16 list \<Rightarrow> gate_answer" where
  "requestSessionWrite rt logs request usedOps =
     (let actor = normalizeRequiredValue rt (wrActor request); action = normalizeRequiredValue rt (wrAction request);
          op = normalizeRequiredValue rt (wrOp request); sessionId = normalizeRequiredValue rt (wrSessionId request);
          targetLines = normalizeRequiredValue rt (wrTargetLines request); reason = normalizeRequiredValue rt (wrReason request);
          reject = (\<lambda>why ops. \<lparr>gaDecision = Denied why, gaUsedOps = ops,
             gaLog = logPreAuthorization actor action op sessionId targetLines (u why) ''rejected''\<rparr>)
      in if actor = None \<or> action = None \<or> op = None \<or> sessionId = None \<or> targetLines = None \<or> reason = None
         then reject ''missing-or-ambiguous-field'' usedOps
         else if the actor \<notin> set sessionWriteActors then reject ''unknown-actor'' usedOps
         else if the action \<notin> set sessionWriteActions then reject ''unknown-action'' usedOps
         else if the op \<in> set usedOps then reject ''op-reused'' (setDelete (the op) usedOps @ [the op])
         else \<lparr>gaDecision = (if logs then Granted (the op) else Denied ''preauth-log-unavailable''),
               gaUsedOps = dropOldest maxSessionWriteOps (usedOps @ [the op]),
               gaLog = logPreAuthorization actor action op sessionId targetLines (the reason) ''granted''\<rparr>)"

definition logSessionCheckin :: "text16 \<Rightarrow> text16 \<Rightarrow> text16 \<Rightarrow> text16 \<Rightarrow> text16 \<Rightarrow> text16 option \<Rightarrow> text16" where
  \<comment> \<open>the line that is logged; the caller never learns whether it was\<close>
  "logSessionCheckin actor action op lines sessionId detail =
     u ''[session:checkin] actor='' @ actor @ u '' action='' @ action @ u '' op='' @ op @ u '' lines='' @ lines
     @ u '' sessionId='' @ sessionId
     @ (case detail of Some d \<Rightarrow> if d \<noteq> [] then u '' detail='' @ d else [] | None \<Rightarrow> [])"

section \<open>A grant is complete, logged and fresh\<close>

definition completeRequest :: "runtime \<Rightarrow> write_request \<Rightarrow> bool" where
  "completeRequest rt r \<longleftrightarrow> list_all (\<lambda>f. normalizeRequiredValue rt (f r) \<noteq> None)
       [wrActor, wrAction, wrOp, wrSessionId, wrTargetLines, wrReason]
     \<and> the (normalizeRequiredValue rt (wrActor r)) \<in> set sessionWriteActors
     \<and> the (normalizeRequiredValue rt (wrAction r)) \<in> set sessionWriteActions"

text \<open>
  The gate is closed by default: leave is given exactly when every field of the request says something,
  actor and action are known, the operation id is not among those remembered, and the log took the line.
\<close>

theorem write_granted_iff:
  "gaDecision (requestSessionWrite rt logs r ops) = Granted op \<longleftrightarrow>
     completeRequest rt r \<and> normalizeRequiredValue rt (wrOp r) = Some op \<and> op \<notin> set ops \<and> logs"
  by (auto simp: requestSessionWrite_def completeRequest_def Let_def)

section \<open>An operation is granted once\<close>

lemma dropOldest_drop: "dropOldest mx xs = drop (length xs - mx) xs"
  by (induction xs) (auto simp: Suc_diff_le not_less)

definition recentIn :: "nat \<Rightarrow> 'a \<Rightarrow> 'a list \<Rightarrow> bool" where
  \<comment> \<open>the last \<open>n\<close> entries hold it\<close>
  "recentIn n x xs \<longleftrightarrow> (\<exists>ys zs. xs = ys @ x # zs \<and> length zs < n)"

lemma recentIn_in: "recentIn n x xs \<Longrightarrow> x \<in> set xs"
  by (auto simp: recentIn_def)

lemma recentIn_snoc: "recentIn n x xs \<Longrightarrow> recentIn (Suc n) x (xs @ [y])"
  unfolding recentIn_def by (metis append.assoc append_Cons length_append_singleton not_less_eq)

lemma recentIn_last: "recentIn (Suc n) x (xs @ [x])"
  unfolding recentIn_def by (metis length_0_conv zero_less_Suc)

lemma recentIn_mono: "recentIn n x xs \<Longrightarrow> n \<le> m \<Longrightarrow> recentIn m x xs"
  by (auto simp: recentIn_def intro: order_less_le_trans)

lemma recentIn_removeAll: "recentIn n x xs \<Longrightarrow> x \<noteq> y \<Longrightarrow> recentIn n x (removeAll y xs)"
proof -
  assume "recentIn n x xs" "x \<noteq> y"
  then obtain ys zs where "xs = ys @ x # zs" "length zs < n" by (auto simp: recentIn_def)
  with \<open>x \<noteq> y\<close> have "removeAll y xs = removeAll y ys @ x # removeAll y zs" "length (removeAll y zs) < n"
    by (auto intro: order_le_less_trans [OF length_removeAll_less_eq])
  then show ?thesis by (auto simp: recentIn_def)
qed

lemma recentIn_dropOldest: "recentIn n x xs \<Longrightarrow> n \<le> mx \<Longrightarrow> recentIn n x (dropOldest mx xs)"
proof -
  assume "recentIn n x xs" "n \<le> mx"
  then obtain ys zs where xs: "xs = ys @ x # zs" "length zs < n" by (auto simp: recentIn_def)
  with \<open>n \<le> mx\<close> have "length xs - mx \<le> length ys" by simp
  then have "dropOldest mx xs = drop (length xs - mx) ys @ x # zs" by (simp add: dropOldest_drop xs(1))
  with xs(2) show ?thesis by (auto simp: recentIn_def)
qed

lemma request_remembers:
  assumes "recentIn n op ops" "n < maxSessionWriteOps"
  shows "recentIn (Suc n) op (gaUsedOps (requestSessionWrite rt logs r ops))"
proof -
  have "recentIn (Suc n) op ops" using recentIn_mono [OF assms(1)] by simp
  moreover have "recentIn (Suc n) op (removeAll k ops @ [k])" for k
    using recentIn_snoc [OF recentIn_removeAll [OF assms(1)]] recentIn_last by (cases "op = k") simp_all
  moreover have "recentIn (Suc n) op (dropOldest maxSessionWriteOps (ops @ [k]))" for k
    using recentIn_dropOldest [OF recentIn_snoc [OF assms(1)]] assms(2) by simp
  ultimately show ?thesis by (auto simp: requestSessionWrite_def Let_def)
qed

lemma requests_remember:
  "recentIn n op ops \<Longrightarrow> n + length rs \<le> maxSessionWriteOps \<Longrightarrow>
     recentIn (n + length rs) op (fold (\<lambda>(logs, r) ops. gaUsedOps (requestSessionWrite rt logs r ops)) rs ops)"
proof (induction rs arbitrary: n ops)
  case (Cons r rs)
  obtain logs q where r: "r = (logs, q)" by (cases r)
  from Cons.IH [OF request_remembers [OF Cons.prems(1)], of rt logs q] Cons.prems(2) show ?case by (simp add: r)
qed simp

text \<open>
  C15. Leave is given once: after an operation id has been granted it is refused, whatever is asked with it,
  through fewer than 4096 further requests of any kind.
\<close>

theorem operation_granted_once:
  assumes "gaDecision (requestSessionWrite rt logs r ops) = Granted op"
    and "length rs < maxSessionWriteOps"
  shows "gaDecision (requestSessionWrite rt logs' r'
      (fold (\<lambda>(logs, r) ops. gaUsedOps (requestSessionWrite rt logs r ops)) rs
         (gaUsedOps (requestSessionWrite rt logs r ops)))) \<noteq> Granted op"
proof -
  from assms(1) have "gaUsedOps (requestSessionWrite rt logs r ops) = dropOldest maxSessionWriteOps (ops @ [op])"
    by (auto simp: requestSessionWrite_def Let_def split: if_splits)
  moreover have "recentIn 1 op (ops @ [op])" by (auto simp: recentIn_def)
  ultimately have "recentIn 1 op (gaUsedOps (requestSessionWrite rt logs r ops))"
    using recentIn_dropOldest [of 1 op "ops @ [op]" maxSessionWriteOps] by (simp add: maxSessionWriteOps_def)
  moreover have "1 + length rs \<le> maxSessionWriteOps" using assms(2) by simp
  ultimately have "op \<in> set (fold (\<lambda>(logs, r) ops. gaUsedOps (requestSessionWrite rt logs r ops)) rs
         (gaUsedOps (requestSessionWrite rt logs r ops)))"
    by (rule recentIn_in [OF requests_remember])
  then show ?thesis by (simp add: write_granted_iff)
qed

section \<open>Example\<close>

definition gkRequest :: "string \<Rightarrow> write_request" where
  "gkRequest op = \<lparr>wrActor = Some (VText (u ''prune'')), wrAction = Some (VText (u ''prune'')), wrOp = Some (VText (u op)),
     wrSessionId = Some (VText (u ''s1'')), wrTargetLines = Some (VText (u ''1-9'')), wrReason = Some (VText (u ''idle''))\<rparr>"

definition gkRuntime :: runtime where
  "gkRuntime = \<lparr>rtParse = (\<lambda>t. None), rtStringify = (\<lambda>v. []), rtNumber = (\<lambda>q. u (showInt \<lfloor>q\<rfloor>)), rtLower = id,
     rtDateParse = (\<lambda>t. None), rtIsoDate = (\<lambda>q. []), rtLocaleNumber = (\<lambda>i. u (showInt i))\<rparr>"

theorem operation_granted_once_witness:
  "gaDecision (requestSessionWrite gkRuntime True (gkRequest '' a '')
      (fold (\<lambda>(logs, r) ops. gaUsedOps (requestSessionWrite gkRuntime logs r ops)) [(True, gkRequest ''b'')]
         (gaUsedOps (requestSessionWrite gkRuntime True (gkRequest ''a'') [])))) \<noteq> Granted (u ''a'')"
proof (rule operation_granted_once)
  show "gaDecision (requestSessionWrite gkRuntime True (gkRequest ''a'') []) = Granted (u ''a'')" by code_simp
qed (simp add: maxSessionWriteOps_def)

end
