(* ===== verification/SessionPrune.thy ===== *)
theory SessionPrune
  imports PruneEngine SessionGatekeeper
begin

text \<open>
  Pruning of session files, \<open>src/src/dennou-soul/prune-active-session.ts\<close> and \<open>prune-closed-sessions.ts\<close>.
  A file is its text and its modification time, or is missing. While an active file is pruned, other
  processes act between the calls to the file system: the argument \<open>others\<close> says what they do to the file
  before each of them. Whether the log, the temporary file and the rename succeed are arguments as well;
  an exception is the result \<open>None\<close>.
\<close>

type_synonym file_state = "(text16 \<times> rat) option"

record session_prune_config =
  scEnabled :: bool
  scTools :: prune_config

fun popEmpty :: "text16 list \<Rightarrow> text16 list" where
  \<comment> \<open>on the reversed lines: the loop that drops trailing empty ones\<close>
  "popEmpty ([] # ls) = popEmpty ls"
| "popEmpty ls = ls"

definition fileLines :: "text16 \<Rightarrow> text16 list" where
  "fileLines content = rev (popEmpty (rev (splitOn 10 content)))"

definition fileText :: "text16 list \<Rightarrow> text16" where
  "fileText lines = joinWith [10] lines @ [10]"

definition sessionIdOf :: "runtime \<Rightarrow> text16 list \<Rightarrow> text16" where
  "sessionIdOf rt lines =
     (case find (\<lambda>e. Option.bind e (\<lambda>v. getProp (Some v) ''type'') = Some (VText (u ''session'')))
             (map (\<lambda>l. map_option jeParsed (parseLine rt l)) lines) of
        None \<Rightarrow> []
      | Some e \<Rightarrow> (case textOf (getProp e ''id'') of Some t \<Rightarrow> trim16 t | None \<Rightarrow> []))"

text \<open>What the call meets: the kill switch, and for each file name whether the log takes a line, whether writing and
  renaming succeed, for each file name the time and the random token, and the time of the new file.\<close>

record prune_env =
  peSkip :: "string option"
  peLogs :: "text16 \<Rightarrow> bool"
  peWrites :: bool
  peRenames :: bool
  peNow :: "text16 \<Rightarrow> text16"
  peToken :: "text16 \<Rightarrow> text16"
  peStamp :: rat

definition pruneRequest :: "runtime \<Rightarrow> prune_env \<Rightarrow> text16 \<Rightarrow> text16 list \<Rightarrow> nat \<Rightarrow> write_request" where
  "pruneRequest rt env base lines prunedCount =
     \<lparr>wrActor = Some (VText (u ''prune'')), wrAction = Some (VText (u ''prune'')),
      wrOp = Some (VText (u ''prune-'' @ base @ u ''-'' @ peNow env base @ u ''-'' @ u (showNat prunedCount) @ u ''-'' @ peToken env base)),
      wrSessionId = Some (VText (sessionIdOf rt lines)),
      wrTargetLines = Some (VText (u ''1-'' @ u (showNat (length lines)))),
      wrReason = Some (VText (u ''prune oversized tool results in '' @ base))\<rparr>"

section \<open>An active session\<close>

record prune_outcome =
  poFile :: file_state
  poTmp :: "text16 option"
  poUsedOps :: "text16 list"
  poResult :: "int option"
  poSteps :: nat \<comment> \<open>how many steps of the others were made before the call returned\<close>

definition pruneActiveSessionFile ::
  "runtime \<Rightarrow> prune_env \<Rightarrow> (nat \<Rightarrow> file_state \<Rightarrow> file_state) \<Rightarrow> session_prune_config \<Rightarrow> prune_protection option \<Rightarrow>
   text16 \<Rightarrow> text16 list \<Rightarrow> file_state \<Rightarrow> text16 option \<Rightarrow> prune_outcome" where
  "pruneActiveSessionFile rt env others config protection base used file tmp =
     (let ret = (\<lambda>n f r. \<lparr>poFile = f, poTmp = tmp, poUsedOps = used, poResult = r, poSteps = n\<rparr>)
      in if \<not> scEnabled config then ret 0 file (Some 0)
         else (let f0 = others 0 file in if f0 = None then ret 1 f0 (Some 0)
         else (let f1 = others 1 f0 in case f1 of None \<Rightarrow> ret 2 f1 (Some 0)
         | Some (c1, mtimeBefore) \<Rightarrow>
           (let f2 = others 2 f1 in case f2 of None \<Rightarrow> ret 3 f2 None
            | Some (content, m2) \<Rightarrow>
              (let lines = fileLines content in
               case pruneToolOutputLines rt (peSkip env) lines (scTools config) protection of
                 None \<Rightarrow> ret 3 f2 None
               | Some (resultLines, prunedCount) \<Rightarrow>
                 if prunedCount = 0 then ret 3 f2 (Some 0)
                 else if pcDryRun (scTools config) then ret 3 f2 (Some (int prunedCount))
                 else (let f3 = others 3 f2 in
                   if map_option snd f3 \<noteq> Some mtimeBefore then ret 4 f3 (Some (- 1))
                   else (let answer = requestSessionWrite rt (peLogs env base) (pruneRequest rt env base lines prunedCount) used;
                             ret' = (\<lambda>n f r. \<lparr>poFile = f, poTmp = None, poUsedOps = gaUsedOps answer, poResult = r, poSteps = n\<rparr>)
                     in case gaDecision answer of
                          Denied why \<Rightarrow> (ret 4 f3 (Some (- 1)))\<lparr>poUsedOps := gaUsedOps answer\<rparr>
                        | Granted op \<Rightarrow>
                          (let f4 = others 4 f3 in
                           if \<not> peWrites env then ret' 5 f4 (Some (- 1))
                           else (let f5 = others 5 f4 in
                             if map_option snd f5 \<noteq> Some mtimeBefore then ret' 6 f5 (Some (- 1))
                             else (let f6 = others 6 f5 in
                               if \<not> peRenames env then ret' 7 f6 (Some (- 1))
                               else ret' 7 (Some (fileText resultLines, peStamp env)) (Some (int prunedCount))))))))))))"

definition pruneActiveSessionById ::
  "runtime \<Rightarrow> prune_env \<Rightarrow> (nat \<Rightarrow> file_state \<Rightarrow> file_state) \<Rightarrow> session_prune_config \<Rightarrow> prune_protection option \<Rightarrow>
   text16 \<Rightarrow> text16 list \<Rightarrow> file_state \<Rightarrow> text16 option \<Rightarrow> prune_outcome" where
  \<comment> \<open>of the file of that session\<close>
  "pruneActiveSessionById rt env others config protection sessionId used file tmp =
     (if \<not> scEnabled config \<or> file = None then \<lparr>poFile = file, poTmp = tmp, poUsedOps = used, poResult = Some 0, poSteps = 0\<rparr>
      else pruneActiveSessionFile rt env others config protection (sessionId @ u ''.jsonl'') used file tmp)"

section \<open>Closed sessions\<close>

definition isClosedName :: "text16 \<Rightarrow> bool" where
  "isClosedName name \<longleftrightarrow> includes16 name (u ''.jsonl.deleted.'') \<or> includes16 name (u ''.jsonl.reset.'')"

definition pruneClosedSessionFile ::
  "runtime \<Rightarrow> prune_env \<Rightarrow> prune_config \<Rightarrow> prune_protection option \<Rightarrow> text16 \<Rightarrow> text16 list \<Rightarrow> text16 option \<Rightarrow>
   text16 option \<times> text16 list \<times> int option" where
  \<comment> \<open>the file afterwards, the operations used and the result\<close>
  "pruneClosedSessionFile rt env config protection base used file =
     (if \<not> isClosedName base then (file, used, Some 0)
      else case file of None \<Rightarrow> (file, used, Some 0)
      | Some content \<Rightarrow>
        (let lines = fileLines content in
         case pruneToolOutputLines rt (peSkip env) lines config protection of
           None \<Rightarrow> (file, used, None)
         | Some (resultLines, prunedCount) \<Rightarrow>
           if \<not> pcDryRun config \<and> prunedCount > 0 then
             (let answer = requestSessionWrite rt (peLogs env base) (pruneRequest rt env base lines prunedCount) used
              in case gaDecision answer of
                   Denied why \<Rightarrow> (file, gaUsedOps answer, Some (- 1))
                 | Granted op \<Rightarrow> (Some (fileText resultLines), gaUsedOps answer, Some (int prunedCount)))
           else (file, used, Some (int prunedCount))))"

datatype dir_entry = FileEntry text16 | OtherEntry

fun pruneDirectory ::
  "runtime \<Rightarrow> prune_env \<Rightarrow> prune_config \<Rightarrow> prune_protection option \<Rightarrow> (text16 \<times> dir_entry) list \<Rightarrow> text16 list \<Rightarrow> int \<Rightarrow>
   (text16 \<times> dir_entry) list \<times> text16 list \<times> int option" where
  \<comment> \<open>the loop over the entries; \<open>totalPruned\<close> is the last argument\<close>
  "pruneDirectory rt env config protection [] used soFar = ([], used, Some soFar)"
| "pruneDirectory rt env config protection ((name, e) # rest) used soFar =
     (case e of
        FileEntry content \<Rightarrow>
          if isClosedName name then
            (case pruneClosedSessionFile rt env config protection name used (Some content) of
               (file, used', result) \<Rightarrow>
                 (let entry = (name, case file of Some c \<Rightarrow> FileEntry c | None \<Rightarrow> FileEntry content) in
                  case result of
                    None \<Rightarrow> (entry # rest, used', None)
                  | Some n \<Rightarrow>
                      if n < 0 then (entry # rest, used', Some (- 1))
                      else (case pruneDirectory rt env config protection rest used' (soFar + n) of
                              (rest', used'', r) \<Rightarrow> (entry # rest', used'', r))))
          else (case pruneDirectory rt env config protection rest used soFar of (rest', used', r) \<Rightarrow> ((name, e) # rest', used', r))
      | OtherEntry \<Rightarrow>
          (case pruneDirectory rt env config protection rest used soFar of (rest', used', r) \<Rightarrow> ((name, e) # rest', used', r)))"

definition pruneAllClosedSessions ::
  "runtime \<Rightarrow> prune_env \<Rightarrow> prune_config \<Rightarrow> prune_protection option \<Rightarrow> (text16 \<times> dir_entry) list option \<Rightarrow> text16 list \<Rightarrow>
   (text16 \<times> dir_entry) list option \<times> text16 list \<times> int option" where
  \<comment> \<open>of a sessions directory, which may be missing\<close>
  "pruneAllClosedSessions rt env config protection dir used =
     (case dir of
        None \<Rightarrow> (None, used, Some 0)
      | Some entries \<Rightarrow> (case pruneDirectory rt env config protection entries used 0 of (es, used', r) \<Rightarrow> (Some es, used', r)))"

fun pruneAgents ::
  "runtime \<Rightarrow> prune_env \<Rightarrow> prune_config \<Rightarrow> prune_protection option \<Rightarrow> (text16 \<times> (text16 \<times> dir_entry) list option) list \<Rightarrow>
   text16 list \<Rightarrow> int \<Rightarrow> (text16 \<times> (text16 \<times> dir_entry) list option) list \<times> text16 list \<times> int option" where
  \<comment> \<open>the loop over the agents; each has its sessions directory or none\<close>
  "pruneAgents rt env config protection [] used soFar = ([], used, Some soFar)"
| "pruneAgents rt env config protection ((agent, dir) # rest) used soFar =
     (case dir of
        None \<Rightarrow> (case pruneAgents rt env config protection rest used soFar of (rest', used', r) \<Rightarrow> ((agent, dir) # rest', used', r))
      | Some entries \<Rightarrow>
          (case pruneAllClosedSessions rt env config protection (Some entries) used of
             (dir', used', result) \<Rightarrow>
               (case result of
                  None \<Rightarrow> ((agent, dir') # rest, used', None)
                | Some n \<Rightarrow>
                    if n < 0 then ((agent, dir') # rest, used', Some (- 1))
                    else (case pruneAgents rt env config protection rest used' (soFar + n) of
                            (rest', used'', r) \<Rightarrow> ((agent, dir') # rest', used'', r)))))"

definition pruneAllAgentsClosedSessions ::
  "runtime \<Rightarrow> prune_env \<Rightarrow> prune_config \<Rightarrow> prune_protection option \<Rightarrow> (text16 \<times> (text16 \<times> dir_entry) list option) list option \<Rightarrow>
   text16 list \<Rightarrow> (text16 \<times> (text16 \<times> dir_entry) list option) list option \<times> text16 list \<times> int option" where
  "pruneAllAgentsClosedSessions rt env config protection agents used =
     (case agents of
        None \<Rightarrow> (None, used, Some 0)
      | Some ds \<Rightarrow> (case pruneAgents rt env config protection ds used 0 of (ds', used', r) \<Rightarrow> (Some ds', used', r)))"

section \<open>Writers are not overrun\<close>

fun othersBefore :: "(nat \<Rightarrow> file_state \<Rightarrow> file_state) \<Rightarrow> nat \<Rightarrow> file_state \<Rightarrow> file_state" where
  \<comment> \<open>the file after the first \<open>n\<close> steps of the others, if only they act\<close>
  "othersBefore others 0 file = file"
| "othersBefore others (Suc n) file = others n (othersBefore others n file)"

lemma others_numeral:
  "othersBefore others 1 f = others 0 f" "othersBefore others 2 f = others 1 (others 0 f)"
  "othersBefore others 3 f = others 2 (others 1 (others 0 f))"
  "othersBefore others 4 f = others 3 (others 2 (others 1 (others 0 f)))"
  "othersBefore others 5 f = others 4 (others 3 (others 2 (others 1 (others 0 f))))"
  "othersBefore others 6 f = others 5 (others 4 (others 3 (others 2 (others 1 (others 0 f)))))"
  "othersBefore others 7 f = others 6 (others 5 (others 4 (others 3 (others 2 (others 1 (others 0 f))))))"
  "othersBefore others (Suc 0) f = others 0 f"
  by (simp_all add: eval_nat_numeral)

lemma pruneActive_cases:
  assumes "r = pruneActiveSessionFile rt env others config protection base used file tmp"
  shows "poFile r = othersBefore others (poSteps r) file
        \<and> (poResult r = None \<or> poResult r = Some 0 \<or> poResult r = Some (- 1) \<or> pcDryRun (scTools config))
    \<or> (\<exists>c1 m1 c2 m2 c3 c5 resultLines n.
      othersBefore others 2 file = Some (c1, m1) \<and> othersBefore others 3 file = Some (c2, m2)
      \<and> othersBefore others 4 file = Some (c3, m1) \<and> othersBefore others 6 file = Some (c5, m1)
      \<and> pruneToolOutputLines rt (peSkip env) (fileLines c2) (scTools config) protection = Some (resultLines, n) \<and> 0 < n
      \<and> \<not> pcDryRun (scTools config) \<and> poFile r = Some (fileText resultLines, peStamp env) \<and> poResult r = Some (int n) \<and> poTmp r = None)"
    (is "?kept \<or> ?written")
proof (cases "scEnabled config \<and> others 0 file \<noteq> None")
  case False
  then have "poResult r = Some 0" "poFile r = othersBefore others (poSteps r) file"
    by (cases "others 0 file"; auto simp: assms pruneActiveSessionFile_def Let_def others_numeral)+
  then show ?thesis by blast
next
  case start: True
  let ?f1 = "others 1 (others 0 file)"
  let ?f2 = "others 2 ?f1" let ?f3 = "others 3 ?f2" let ?f4 = "others 4 ?f3" let ?f5 = "others 5 ?f4"
  show ?thesis
  proof (cases "?f1 = None \<or> ?f2 = None")
    case True
    then have "poResult r = Some 0 \<or> poResult r = None" "poFile r = othersBefore others (poSteps r) file"
      using start by (auto simp: assms pruneActiveSessionFile_def Let_def others_numeral split: option.split)
    then show ?thesis by blast
  next
    case False
    then obtain c1 m1 c2 m2 where f: "?f1 = Some (c1, m1)" "?f2 = Some (c2, m2)" by auto
    show ?thesis
    proof (cases "pruneToolOutputLines rt (peSkip env) (fileLines c2) (scTools config) protection")
      case None
      then have "poResult r = None" "poFile r = othersBefore others (poSteps r) file"
        using start f by (simp_all add: assms pruneActiveSessionFile_def Let_def others_numeral)
      then show ?thesis by blast
    next
      case (Some ln)
      obtain resultLines n where p: "pruneToolOutputLines rt (peSkip env) (fileLines c2) (scTools config) protection = Some (resultLines, n)"
        using Some by (cases ln) simp
      show ?thesis
      proof (cases "n = 0 \<or> pcDryRun (scTools config)")
        case True
        then have "poResult r = Some 0 \<or> pcDryRun (scTools config)" "poFile r = othersBefore others (poSteps r) file"
          using start f p by (auto simp: assms pruneActiveSessionFile_def Let_def others_numeral)
        then show ?thesis by blast
      next
        case go: False
        let ?a = "requestSessionWrite rt (peLogs env base) (pruneRequest rt env base (fileLines c2) n) used"
        show ?thesis
        proof (cases "map_option snd (others 3 (Some (c2, m2))) = Some m1 \<and> (\<exists>op. gaDecision ?a = Granted op)")
          case False
          then have "poResult r = Some (- 1)" "poFile r = othersBefore others (poSteps r) file"
            using start f p go by (auto simp: assms pruneActiveSessionFile_def Let_def others_numeral split: write_decision.split)
          then show ?thesis by blast
        next
          case True
          then obtain op where g: "gaDecision ?a = Granted op" "map_option snd (others 3 (Some (c2, m2))) = Some m1" by blast
          show ?thesis
          proof (cases "peWrites env \<and> map_option snd (others 5 (others 4 (others 3 (Some (c2, m2))))) = Some m1 \<and> peRenames env")
            case False
            then have "poResult r = Some (- 1)"
              "poFile r = othersBefore others (poSteps r) file"
              using start f p go g by (auto simp: assms pruneActiveSessionFile_def Let_def others_numeral)
            then show ?thesis by blast
          next
            case True
            then have "poFile r = Some (fileText resultLines, peStamp env)" "poResult r = Some (int n)" "poTmp r = None"
              using start f p go g by (auto simp: assms pruneActiveSessionFile_def Let_def others_numeral)
            with True g f p go have ?written by (auto simp: others_numeral)
            then show ?thesis by blast
          qed
        qed
      qed
    qed
  qed
qed

text \<open>
  C10. Pruning an active session overruns nobody who wrote before its last check: if whoever writes to the
  file after its first look leaves another modification time than the one it saw, then a file that was
  replaced is, as a whole, the pruned form of the text that was in it then and at the last check, and every
  other outcome leaves the file just as the others had made it when the call returned.
\<close>

theorem prune_overruns_no_earlier_write:
  assumes "r = pruneActiveSessionFile rt env others config protection base used file tmp"
    and "othersBefore others 2 file = Some (c, m)"
    and "\<forall>k > 1. \<forall>f. others k f = f \<or> map_option snd (others k f) \<noteq> Some m"
  shows "poFile r = othersBefore others (poSteps r) file
      \<and> (poResult r = None \<or> poResult r = Some 0 \<or> poResult r = Some (- 1) \<or> pcDryRun (scTools config))
    \<or> othersBefore others 6 file = Some (c, m)
      \<and> (\<exists>resultLines n. pruneToolOutputLines rt (peSkip env) (fileLines c) (scTools config) protection = Some (resultLines, n)
           \<and> 0 < n \<and> poFile r = Some (fileText resultLines, peStamp env) \<and> poResult r = Some (int n))"
proof -
  consider (kept) "poFile r = othersBefore others (poSteps r) file
      \<and> (poResult r = None \<or> poResult r = Some 0 \<or> poResult r = Some (- 1) \<or> pcDryRun (scTools config))"
    | (written) c1 m1 c2 m2 c3 c5 resultLines n where
      "othersBefore others 2 file = Some (c1, m1)" "othersBefore others 3 file = Some (c2, m2)"
      "othersBefore others 4 file = Some (c3, m1)" "othersBefore others 6 file = Some (c5, m1)"
      "pruneToolOutputLines rt (peSkip env) (fileLines c2) (scTools config) protection = Some (resultLines, n)" "0 < n"
      "poFile r = Some (fileText resultLines, peStamp env)" "poResult r = Some (int n)"
    using pruneActive_cases [OF assms(1)] by blast
  then show ?thesis
  proof cases
    case written
    have m1: "m1 = m" using written(1) assms(2) by simp
    have same: "f = Some (x, m)" if "others k f = Some (x, m)" "1 < k" for k f x
      using assms(3) that by (metis option.simps(9) snd_conv)
    have f3: "othersBefore others 4 file = others 3 (othersBefore others 3 file)"
      "othersBefore others 3 file = others 2 (Some (c, m))"
      "othersBefore others 6 file = others 5 (others 4 (othersBefore others 4 file))"
      using assms(2) by (simp_all add: others_numeral)
    from same [of 3 "othersBefore others 3 file" c3] f3(1) written(3) m1 have two: "othersBefore others 3 file = Some (c3, m)" by simp
    from same [of 2 "Some (c, m)" c3] f3(2) two have c3: "c3 = c" by simp
    from same [of 5 "others 4 (othersBefore others 4 file)" c5] f3(3) written(4) m1
    have "others 4 (Some (c, m)) = Some (c5, m)" using written(3) c3 by simp
    from same [of 4, OF this] have "c5 = c" by simp
    with written c3 two m1 show ?thesis by auto
  qed blast
qed

section \<open>Examples\<close>

definition spHeader :: jsval where
  "spHeader = VObject [(u ''type'', VText (u ''session'')), (u ''id'', VText (u ''s1''))]"

definition spRuntime :: runtime where
  "spRuntime = peRuntime\<lparr>rtParse := (\<lambda>t. if t = u ''s'' then Some spHeader else rtParse peRuntime t),
     rtStringify := (\<lambda>v. if v = spHeader then u ''s'' else rtStringify peRuntime v)\<rparr>"

definition spEnv :: prune_env where
  "spEnv = \<lparr>peSkip = None, peLogs = (\<lambda>n. True), peWrites = True, peRenames = True, peNow = (\<lambda>n. u ''0''),
     peToken = (\<lambda>n. u ''ab''), peStamp = 9\<rparr>"

definition spConfig :: session_prune_config where
  "spConfig = \<lparr>scEnabled = True, scTools = peConfig\<rparr>"

definition spFile :: "string \<Rightarrow> text16" where
  "spFile kinds = fileText (map (\<lambda>c. u [c]) kinds)"

lemma sp_alone: "pruneActiveSessionFile spRuntime spEnv (\<lambda>k f. f) spConfig None (u ''a.jsonl'') [] (Some (spFile ''sra'', 1)) None
    = \<lparr>poFile = Some (spFile ''spa'', 9), poTmp = None, poUsedOps = [u ''prune-a.jsonl-0-1-ab''], poResult = Some 1, poSteps = 7\<rparr>"
  by code_simp

definition spAppend :: "nat \<Rightarrow> nat \<Rightarrow> file_state \<Rightarrow> file_state" where
  \<comment> \<open>another process appends a line in step \<open>n\<close>\<close>
  "spAppend n k f = (if k = n then map_option (\<lambda>(c, m). (c @ u ''a'' @ [10], 2)) f else f)"

lemma sp_appended: "pruneActiveSessionFile spRuntime spEnv (spAppend 4) spConfig None (u ''a.jsonl'') [] (Some (spFile ''sra'', 1)) None
    = \<lparr>poFile = Some (spFile ''sraa'', 2), poTmp = None, poUsedOps = [u ''prune-a.jsonl-0-1-ab''], poResult = Some (- 1), poSteps = 6\<rparr>"
  by code_simp

theorem prune_overruns_no_earlier_write_witness:
  "let r = pruneActiveSessionFile spRuntime spEnv (spAppend 4) spConfig None (u ''a.jsonl'') [] (Some (spFile ''sra'', 1)) None
   in poResult r = Some (- 1) \<and> (poFile r = othersBefore (spAppend 4) (poSteps r) (Some (spFile ''sra'', 1))
      \<and> (poResult r = None \<or> poResult r = Some 0 \<or> poResult r = Some (- 1) \<or> pcDryRun (scTools spConfig))
    \<or> othersBefore (spAppend 4) 6 (Some (spFile ''sra'', 1)) = Some (spFile ''sra'', 1)
      \<and> (\<exists>resultLines n. pruneToolOutputLines spRuntime (peSkip spEnv) (fileLines (spFile ''sra'')) (scTools spConfig) None = Some (resultLines, n)
           \<and> 0 < n \<and> poFile r = Some (fileText resultLines, peStamp spEnv) \<and> poResult r = Some (int n)))"
  unfolding Let_def
proof (rule conjI, goal_cases)
  case 2
  show ?case
    by (rule prune_overruns_no_earlier_write [OF refl]) (auto simp: others_numeral spAppend_def)
qed (simp add: sp_appended)

text \<open>
  Between the last check and the rename the guard is blind: a line that another process appends there is
  gone afterwards, and the call reports success.
\<close>

theorem append_before_rename_is_lost:
  "let r = pruneActiveSessionFile spRuntime spEnv (spAppend 6) spConfig None (u ''a.jsonl'') [] (Some (spFile ''sra'', 1)) None
   in othersBefore (spAppend 6) 7 (Some (spFile ''sra'', 1)) = Some (spFile ''sraa'', 2)
      \<and> poFile r = Some (spFile ''spa'', 9) \<and> poResult r = Some 1"
  by code_simp

section \<open>Files and lines\<close>

lemma splitOn_plain: "d \<notin> set s \<Longrightarrow> splitOn d s = [s]"
  by (induction s) auto

lemma splitOn_snoc: "splitOn d (s @ d # t) = splitOn d s @ splitOn d t"
  by (induction s) (auto split: list.split)

lemma splitOn_joinWith: "ls \<noteq> [] \<Longrightarrow> \<forall>l \<in> set ls. d \<notin> set l \<Longrightarrow> splitOn d (joinWith [d] ls) = ls"
proof (induction ls rule: induct_list012)
  case (3 s t ss)
  then show ?case using splitOn_snoc [of d s "joinWith [d] (t # ss)"] by (simp add: splitOn_plain)
qed (simp_all add: splitOn_plain)

lemma splitOn_no: "l \<in> set (splitOn d s) \<Longrightarrow> d \<notin> set l"
  by (induction d s arbitrary: l rule: splitOn.induct) (auto split: list.splits if_splits)

lemma popEmpty_props: "set (popEmpty ls) \<subseteq> set ls" "popEmpty ls = [] \<or> hd (popEmpty ls) \<noteq> []"
  by (induction ls rule: popEmpty.induct) auto

lemma popEmpty_id: "ls = [] \<or> hd ls \<noteq> [] \<Longrightarrow> popEmpty ls = ls"
  by (cases ls rule: popEmpty.cases) auto

lemma fileLines_props: "\<forall>l \<in> set (fileLines t). 10 \<notin> set l" "fileLines t = [] \<or> last (fileLines t) \<noteq> []"
  using popEmpty_props [of "rev (splitOn 10 t)"] splitOn_no [of _ 10 t]
  by (auto simp: fileLines_def last_rev)

lemma fileLines_fileText:
  assumes "ls \<noteq> []" "\<forall>l \<in> set ls. 10 \<notin> set l" "last ls \<noteq> []"
  shows "fileLines (fileText ls) = ls"
proof -
  have "splitOn 10 (fileText ls) = ls @ [[]]"
    using splitOn_snoc [of 10 "joinWith [10] ls" "[]"] splitOn_joinWith [of ls 10] assms by (simp add: fileText_def)
  with assms show ?thesis by (simp add: fileLines_def popEmpty_id hd_rev)
qed

lemma pruned_lines_plain:
  assumes "pruneToolOutputLines rt skip lines config protection = Some (out, n)" "list_all (jsonKept rt config) lines"
    and "\<forall>l \<in> set lines. 10 \<notin> set l" "lines = [] \<or> last lines \<noteq> []"
  shows "length out = length lines \<and> (\<forall>l \<in> set out. 10 \<notin> set l) \<and> (out = [] \<or> last out \<noteq> [])"
proof -
  have len: "length out = length lines" using assms(1) by (auto elim!: prune_shape simp: pruneFrom_all)
  have line: "out ! j = lines ! j \<or> (out ! j \<noteq> [] \<and> 10 \<notin> set (out ! j))" if "j < length lines" for j
  proof (rule prune_shape [OF assms(1)], goal_cases off on)
    case (on cutoff)
    from pruneFrom_SomeD [OF on(3) that] assms(2) that rewritten_plain [of rt config "lines ! j" "out ! j"]
    show ?case by (auto simp: list_all_length split: if_splits)
  qed simp
  have "10 \<notin> set l" if "l \<in> set out" for l
    using that line assms(3) by (metis in_set_conv_nth len)
  moreover have "out = [] \<or> last out \<noteq> []"
    using line [of "length lines - 1"] assms(4) len by (cases "lines = []") (auto simp: last_conv_nth)
  ultimately show ?thesis using len by simp
qed

text \<open>
  A session file that has been pruned stays as it is: reading the written text gives the lines that were
  written, as many as before, and pruning it again, with a placeholder that the engine knows, asks for no
  write.
\<close>

theorem pruned_file_is_settled:
  assumes "pruneToolOutputLines rt skip (fileLines content) config protection = Some (out, n)"
    and "list_all (jsonKept rt config) (fileLines content)" and "fileLines content \<noteq> []" and "\<not> pcDryRun config"
    and "hasPlaceholderMarker (trim16 (coalesce (pcPlaceholder config) [])) \<or> trim16 (coalesce (pcPlaceholder config) []) = []"
  shows "fileLines (fileText out) = out \<and> length out = length (fileLines content)
    \<and> pruneToolOutputLines rt skip (fileLines (fileText out)) config protection = Some (out, 0)"
proof -
  note p = pruned_lines_plain [OF assms(1,2) fileLines_props]
  with assms(3) have f: "fileLines (fileText out) = out" by (intro fileLines_fileText) auto
  from prune_again [OF assms(1,2)] assms(4,5) f p show ?thesis by auto
qed

section \<open>Directories\<close>

fun closedKept :: "text16 \<times> dir_entry \<Rightarrow> text16 \<times> dir_entry \<Rightarrow> bool" where
  \<comment> \<open>the entry keeps its name and kind, and all of itself unless its name is that of a closed session\<close>
  "closedKept (n, FileEntry c) (n', FileEntry c') \<longleftrightarrow> n = n' \<and> (c = c' \<or> isClosedName n)"
| "closedKept (n, OtherEntry) (n', OtherEntry) \<longleftrightarrow> n = n'"
| "closedKept _ _ \<longleftrightarrow> False"

lemma closedKept_refl: "closedKept e e"
  by (cases "(e, e)" rule: closedKept.cases) auto

lemma pruneClosed_some: "pruneClosedSessionFile rt env config protection name used (Some c) = (fl, used', r) \<Longrightarrow>
    (\<exists>c'. fl = Some c' \<and> (c = c' \<or> isClosedName name))"
  by (auto simp: pruneClosedSessionFile_def Let_def split: option.splits if_splits write_decision.splits)

text \<open>
  Pruning a sessions directory touches closed sessions only: every entry keeps its place, name and
  kind, and a file whose name is not that of a deleted or reset session keeps its text.
\<close>

theorem closed_prune_spares_active:
  "list_all2 closedKept entries (fst (pruneDirectory rt env config protection entries used tot))"
proof (induction rt env config protection entries used tot rule: pruneDirectory.induct)
  case (2 rt env config protection name e rest used tot)
  show ?case
  proof (cases e)
    case OtherEntry
    then show ?thesis using 2 by (simp add: case_prod_unfold)
  next
    case (FileEntry c)
    show ?thesis
    proof (cases "isClosedName name")
      case False
      then show ?thesis using 2 FileEntry by (simp add: case_prod_unfold)
    next
      case True
      obtain fl used' r where r: "pruneClosedSessionFile rt env config protection name used (Some c) = (fl, used', r)"
        by (cases "pruneClosedSessionFile rt env config protection name used (Some c)")
      from pruneClosed_some [OF r] obtain c' where c': "fl = Some c'" by blast
      have rest: "list_all2 closedKept rest rest" by (simp add: list_all2_refl closedKept_refl)
      show ?thesis
      proof (cases "\<exists>n. r = Some n \<and> \<not> n < 0")
        case ok: True
        then obtain n where n: "r = Some n" "\<not> n < 0" by blast
        have "list_all2 closedKept rest (fst (pruneDirectory rt env config protection rest used' (tot + n)))"
          by (rule 2(1) [OF FileEntry True r [symmetric] refl refl n])
        then show ?thesis by (simp add: FileEntry True r c' n case_prod_unfold)
      next
        case False
        then show ?thesis using rest True by (auto simp: FileEntry r c' Let_def split: option.split)
      qed
    qed
  qed
qed simp

section \<open>Examples\<close>

theorem pruned_file_is_settled_witness:
  "fileLines (fileText [u ''s'', u ''p'', u ''a'']) = [u ''s'', u ''p'', u ''a''] \<and> length [u ''s'', u ''p'', u ''a''] = length (fileLines (spFile ''sra''))
    \<and> pruneToolOutputLines spRuntime None (fileLines (fileText [u ''s'', u ''p'', u ''a''])) peConfig None = Some ([u ''s'', u ''p'', u ''a''], 0)"
  by (rule pruned_file_is_settled) (code_simp+)

definition spHeaderless :: "text16 \<times> dir_entry" where
  "spHeaderless = (u ''a.jsonl.reset.'', FileEntry (spFile ''ra''))"

definition spDue :: "text16 \<times> dir_entry" where
  "spDue = (u ''b.jsonl.reset.'', FileEntry (spFile ''sra''))"

lemma sp_sweep: "pruneDirectory spRuntime spEnv peConfig None [spHeaderless, spDue] [] 0 = ([spHeaderless, spDue], [], Some (- 1))"
  by code_simp

lemma sp_due: "pruneDirectory spRuntime spEnv peConfig None [spDue] [] 0
    = ([(u ''b.jsonl.reset.'', FileEntry (spFile ''spa''))], [u ''prune-b.jsonl.reset.-0-1-ab''], Some 1)"
  by code_simp

text \<open>
  A closed session without a header blocks the rest: the gate refuses a write that names no session, the
  sweep of the directory ends there, and a file after it that is due is not pruned, at this sweep or the
  next.
\<close>

theorem headerless_session_blocks_sweep:
  "pruneDirectory spRuntime spEnv peConfig None [spHeaderless, spDue] [] 0 = ([spHeaderless, spDue], [], Some (- 1))
   \<and> snd (snd (pruneDirectory spRuntime spEnv peConfig None [spDue] [] 0)) = Some 1"
  by (simp add: sp_sweep sp_due)

end
