(* ===== verification/IdleWatch.thy ===== *)
theory IdleWatch
  imports Text16
begin

text \<open>
  Two timers of \<open>src/src/dennou-soul\<close>: the idle prune watcher (\<open>idle-prune-watcher.ts\<close>), which prunes a
  session once it has been silent for a while, and the liveness watchdog (\<open>liveness-watchdog.ts\<close>), which
  restarts the gateway when its own ticks come late or the log of the day is stale.
\<close>

section \<open>The idle prune watcher\<close>

datatype session_state = Idle | Processing | Waiting

record idle_timer =
  itId :: nat
  itKey :: text16
  itSessionId :: "text16 option"
  itDue :: rat

record idle_watcher =
  iwIdleTimers :: "(text16, nat \<times> text16 option) jsmap"
  iwPending :: "idle_timer list"
  iwNextId :: nat
  iwListening :: bool

record idle_config =
  icEnabled :: bool
  icIdleDelayMinutes :: rat

record state_event =
  seNow :: rat
  seConfig :: idle_config
  seProtected :: bool
  seState :: session_state
  seSessionKey :: "text16 option"
  seSessionId :: "text16 option"

definition said :: "text16 option \<Rightarrow> bool" where
  \<comment> \<open>there and not empty\<close>
  "said v \<longleftrightarrow> v \<noteq> None \<and> v \<noteq> Some []"

definition extractAgentId :: "text16 \<Rightarrow> text16 option" where
  "extractAgentId sessionKey =
     (case splitOn 58 sessionKey of a # b # rest \<Rightarrow> if a = u ''agent'' then Some b else None | _ \<Rightarrow> None)"

definition startIdlePruneWatcher :: "idle_config \<Rightarrow> idle_watcher" where
  "startIdlePruneWatcher config =
     \<lparr>iwIdleTimers = [], iwPending = [], iwNextId = 0, iwListening = icEnabled config\<rparr>"

definition clearTimer :: "nat \<Rightarrow> idle_watcher \<Rightarrow> idle_watcher" where
  "clearTimer i w = w\<lparr>iwPending := filter (\<lambda>t. itId t \<noteq> i) (iwPending w)\<rparr>"

definition armTimer :: "state_event \<Rightarrow> text16 \<Rightarrow> idle_watcher \<Rightarrow> idle_watcher" where
  "armTimer evt key w =
     w\<lparr>iwPending := iwPending w @ [\<lparr>itId = iwNextId w, itKey = key, itSessionId = seSessionId evt,
         itDue = seNow evt + icIdleDelayMinutes (seConfig evt) * 60000\<rparr>],
       iwNextId := Suc (iwNextId w), iwIdleTimers := mapSet key (iwNextId w, seSessionId evt) (iwIdleTimers w)\<rparr>"

definition handleIdleEvent :: "state_event \<Rightarrow> idle_watcher \<Rightarrow> idle_watcher" where
  "handleIdleEvent evt w =
     (if \<not> said (seSessionKey evt) \<or> seProtected evt \<or> seState evt \<noteq> Idle \<or> \<not> icEnabled (seConfig evt) then w
      else (let key = the (seSessionKey evt) in
        case mapGet (iwIdleTimers w) key of
          None \<Rightarrow> armTimer evt key w
        | Some (i, sid) \<Rightarrow>
            if \<not> said (seSessionId evt) \<and> said sid then w else armTimer evt key (clearTimer i w)))"

definition onDiagnosticEvent :: "state_event \<Rightarrow> idle_watcher \<Rightarrow> idle_watcher" where
  "onDiagnosticEvent evt w =
     (if \<not> iwListening w then w
      else if seState evt = Idle then handleIdleEvent evt w
      else (case seSessionKey evt of
              None \<Rightarrow> w
            | Some key \<Rightarrow>
                if key = [] then w
                else (case mapGet (iwIdleTimers w) key of
                        None \<Rightarrow> w
                      | Some (i, _) \<Rightarrow> (clearTimer i w)\<lparr>iwIdleTimers := mapDelete key (iwIdleTimers w)\<rparr>)))"

definition fireTimer :: "nat \<Rightarrow> rat \<Rightarrow> idle_watcher \<Rightarrow> idle_watcher \<times> (text16 \<times> text16) option" where
  \<comment> \<open>the runtime fires a timer that is due; the result names the agent and session whose file is pruned\<close>
  "fireTimer i now w =
     (case find (\<lambda>t. itId t = i \<and> itDue t \<le> now) (iwPending w) of
        None \<Rightarrow> (w, None)
      | Some t \<Rightarrow>
          ((clearTimer (itId t) w)\<lparr>iwIdleTimers := mapDelete (itKey t) (iwIdleTimers w)\<rparr>,
           (case extractAgentId (itKey t) of
              Some agent \<Rightarrow> if agent \<noteq> [] \<and> said (itSessionId t) then Some (agent, the (itSessionId t)) else None
            | None \<Rightarrow> None)))"

definition stopIdlePruneWatcher :: "idle_watcher \<Rightarrow> idle_watcher" where
  "stopIdlePruneWatcher w =
     w\<lparr>iwListening := False, iwPending := filter (\<lambda>t. itId t \<notin> fst ` set (mapValues (iwIdleTimers w))) (iwPending w),
       iwIdleTimers := []\<rparr>"

section \<open>Silence before pruning\<close>

datatype watch_step = Event state_event | Fire nat rat | Stop

fun watchStep :: "watch_step \<Rightarrow> idle_watcher \<Rightarrow> idle_watcher" where
  "watchStep (Event e) w = onDiagnosticEvent e w"
| "watchStep (Fire i now) w = fst (fireTimer i now w)"
| "watchStep Stop w = stopIdlePruneWatcher w"

definition timersInv :: "idle_watcher \<Rightarrow> bool" where
  \<comment> \<open>the timers that run are the ones in the map, one for a key\<close>
  "timersInv w \<longleftrightarrow> wfMap (iwIdleTimers w) \<and> distinct (map itId (iwPending w))
     \<and> (\<forall>t \<in> set (iwPending w). mapGet (iwIdleTimers w) (itKey t) = Some (itId t, itSessionId t) \<and> itId t < iwNextId w)
     \<and> (\<forall>k i sid. mapGet (iwIdleTimers w) k = Some (i, sid) \<longrightarrow> (\<exists>t \<in> set (iwPending w). itId t = i \<and> itKey t = k))"

lemma timersInvD:
  assumes "timersInv w"
  shows "wfMap (iwIdleTimers w)" "distinct (map itId (iwPending w))"
    "\<And>t. t \<in> set (iwPending w) \<Longrightarrow> mapGet (iwIdleTimers w) (itKey t) = Some (itId t, itSessionId t)"
    "\<And>t. t \<in> set (iwPending w) \<Longrightarrow> itId t < iwNextId w"
    "\<And>k i sid. mapGet (iwIdleTimers w) k = Some (i, sid) \<Longrightarrow> \<exists>t \<in> set (iwPending w). itId t = i \<and> itKey t = k"
  using assms by (auto simp: timersInv_def)

lemma same_timer:
  assumes "timersInv w" "t \<in> set (iwPending w)" "t' \<in> set (iwPending w)" "itId t = itId t'"
  shows "t = t'"
  using timersInvD(2) [OF assms(1)] assms(2-4) by (auto simp: distinct_map inj_on_def)

lemma same_key:
  assumes "timersInv w" "t \<in> set (iwPending w)" "t' \<in> set (iwPending w)"
  shows "itKey t = itKey t' \<longleftrightarrow> itId t = itId t'"
  using timersInvD(3) [OF assms(1,2)] timersInvD(3) [OF assms(1,3)] same_timer [OF assms] by auto

lemma drop_key_inv:
  assumes "timersInv w" "mapGet (iwIdleTimers w) k = Some (i, sid)"
  shows "timersInv ((clearTimer i w)\<lparr>iwIdleTimers := mapDelete k (iwIdleTimers w)\<rparr>)"
    "\<And>t. t \<in> set (iwPending (clearTimer i w)) \<Longrightarrow> itKey t \<noteq> k"
proof -
  from timersInvD(5) [OF assms] obtain t0 where t0: "t0 \<in> set (iwPending w)" "itId t0 = i" "itKey t0 = k" by blast
  have key: "itKey t = k \<longleftrightarrow> itId t = i" if "t \<in> set (iwPending w)" for t
    using same_key [OF assms(1) that t0(1)] t0 by simp
  then show "\<And>t. t \<in> set (iwPending (clearTimer i w)) \<Longrightarrow> itKey t \<noteq> k" by (auto simp: clearTimer_def)
  have "\<exists>t \<in> set (filter (\<lambda>t. itId t \<noteq> i) (iwPending w)). itId t = j \<and> itKey t = k'"
    if "mapGet (mapDelete k (iwIdleTimers w)) k' = Some (j, s)" for k' j s
    using that timersInvD(5) [OF assms(1), of k' j s] key by (fastforce simp: mapGet_delete split: if_splits)
  then show "timersInv ((clearTimer i w)\<lparr>iwIdleTimers := mapDelete k (iwIdleTimers w)\<rparr>)"
    using timersInvD(1-4) [OF assms(1)] key
    by (auto simp: timersInv_def clearTimer_def mapGet_delete distinct_map_filter)
qed

lemma add_timer_inv:
  assumes "timersInv w" "\<And>t. t \<in> set (iwPending w) \<Longrightarrow> itKey t \<noteq> k"
  shows "timersInv (w\<lparr>iwPending := iwPending w @ [\<lparr>itId = iwNextId w, itKey = k, itSessionId = sid, itDue = due\<rparr>],
                       iwNextId := Suc (iwNextId w), iwIdleTimers := mapSet k (iwNextId w, sid) (iwIdleTimers w)\<rparr>)"
  using timersInvD [OF assms(1)] assms(2)
  by (fastforce simp: timersInv_def mapGet_set less_Suc_eq split: if_splits)

lemma find_timer: "find P ts = Some t \<Longrightarrow> t \<in> set ts \<and> P t"
  by (auto simp: find_Some_iff)

definition awake :: "idle_watcher \<Rightarrow> bool" where
  "awake w \<longleftrightarrow> timersInv w \<and> (iwListening w \<or> iwPending w = []) \<and> (\<forall>t \<in> set (iwPending w). itKey t \<noteq> [])"

text \<open>One step: what runs afterwards ran before, untouched by the step, or is the timer of this idle event.\<close>

definition activity :: "text16 \<Rightarrow> watch_step \<Rightarrow> bool" where
  "activity key x \<longleftrightarrow> (case x of Event e \<Rightarrow> seState e \<noteq> Idle \<and> seSessionKey e = Some key | Fire i now \<Rightarrow> False | Stop \<Rightarrow> True)"

definition armedBy :: "idle_timer \<Rightarrow> watch_step \<Rightarrow> bool" where
  "armedBy t x \<longleftrightarrow> (case x of
       Event e \<Rightarrow> seState e = Idle \<and> \<not> seProtected e \<and> icEnabled (seConfig e) \<and> seSessionKey e = Some (itKey t)
         \<and> seSessionId e = itSessionId t \<and> itDue t = seNow e + icIdleDelayMinutes (seConfig e) * 60000
     | _ \<Rightarrow> False)"

lemma clear_keeps_rest:
  assumes "timersInv w" "mapGet (iwIdleTimers w) k = None"
  shows "t \<in> set (iwPending w) \<Longrightarrow> itKey t \<noteq> k"
  using timersInvD(3) [OF assms(1)] assms(2) by force

lemma timersInv_cong:
  assumes "timersInv w" "wfMap m" "\<And>k. mapGet m k = mapGet (iwIdleTimers w) k"
  shows "timersInv (w\<lparr>iwIdleTimers := m\<rparr>)"
  using assms by (simp add: timersInv_def)

lemma rearm_inv:
  assumes "timersInv w" "mapGet (iwIdleTimers w) k = Some (i, old)" "w1 = clearTimer i w"
  shows "timersInv (w1\<lparr>iwPending := iwPending w1 @ [\<lparr>itId = iwNextId w1, itKey = k, itSessionId = sid, itDue = due\<rparr>],
                       iwNextId := Suc (iwNextId w1), iwIdleTimers := mapSet k (iwNextId w1, sid) (iwIdleTimers w1)\<rparr>)"
proof -
  let ?d = "w1\<lparr>iwIdleTimers := mapDelete k (iwIdleTimers w)\<rparr>"
  have w1: "iwIdleTimers w1 = iwIdleTimers w" by (simp add: assms(3) clearTimer_def)
  note d = drop_key_inv [OF assms(1,2), folded assms(3)]
  have "timersInv (?d\<lparr>iwPending := iwPending ?d @ [\<lparr>itId = iwNextId ?d, itKey = k, itSessionId = sid, itDue = due\<rparr>],
                       iwNextId := Suc (iwNextId ?d), iwIdleTimers := mapSet k (iwNextId ?d, sid) (iwIdleTimers ?d)\<rparr>)"
    by (rule add_timer_inv [OF d(1)]) (use d(2) in simp)
  from timersInv_cong [OF this, of "mapSet k (iwNextId w1, sid) (iwIdleTimers w1)"] timersInvD(1) [OF assms(1)] show ?thesis
    by (simp add: w1 mapGet_set mapGet_delete)
qed

lemma idle_ok:
  assumes "awake w" "iwListening w" "seState e = Idle"
  shows "awake (handleIdleEvent e w) \<and> (\<forall>t \<in> set (iwPending (handleIdleEvent e w)). armedBy t (Event e) \<or> t \<in> set (iwPending w))"
proof -
  have inv: "timersInv w" and keys: "\<forall>t \<in> set (iwPending w). itKey t \<noteq> []" using assms by (auto simp: awake_def)
  let ?key = "the (seSessionKey e)"
  let ?arm = "armTimer e ?key"
  consider (same) "handleIdleEvent e w = w"
    | (arm) w1 where "handleIdleEvent e w = ?arm w1" "said (seSessionKey e)" "\<not> seProtected e" "icEnabled (seConfig e)"
        "mapGet (iwIdleTimers w) ?key = None \<and> w1 = w \<or> (\<exists>i sid. mapGet (iwIdleTimers w) ?key = Some (i, sid) \<and> w1 = clearTimer i w)"
  proof (cases "handleIdleEvent e w = w")
    case False
    have "handleIdleEvent e w = w" if "\<not> (said (seSessionKey e) \<and> \<not> seProtected e \<and> icEnabled (seConfig e))"
      using that by (auto simp: handleIdleEvent_def)
    with False have g: "said (seSessionKey e)" "\<not> seProtected e" "icEnabled (seConfig e)" by blast+
    show thesis
    proof (cases "mapGet (iwIdleTimers w) ?key")
      case None
      with g assms(3) have "handleIdleEvent e w = ?arm w" by (simp add: handleIdleEvent_def)
      from arm [OF this g] None show thesis by blast
    next
      case (Some v)
      obtain i sid where v: "v = (i, sid)" by (cases v)
      with Some False g assms(3) have "handleIdleEvent e w = ?arm (clearTimer i w)"
        by (auto simp: handleIdleEvent_def split: if_splits)
      from arm [OF this g] Some v show thesis by blast
    qed
  qed (rule same)
  then show ?thesis
  proof cases
    case same
    then show ?thesis using assms(1) by simp
  next
    case (arm w1)
    have "timersInv (?arm w1)"
      using arm(5) add_timer_inv [OF inv] clear_keeps_rest [OF inv] rearm_inv [OF inv] by (auto simp: armTimer_def)
    moreover have "set (iwPending w1) \<subseteq> set (iwPending w)" "iwListening w1 = iwListening w"
      using arm(5) by (auto simp: clearTimer_def)
    moreover have "seSessionKey e = Some ?key" "?key \<noteq> []" using arm(2) by (auto simp: said_def)
    ultimately show ?thesis
      using arm(1,3,4) assms(2,3) keys by (auto simp: awake_def armedBy_def armTimer_def)
  qed
qed

lemma watchStep_ok:
  assumes "awake w"
  shows "awake (watchStep x w) \<and> (\<forall>t \<in> set (iwPending (watchStep x w)).
    armedBy t x \<or> t \<in> set (iwPending w) \<and> \<not> activity (itKey t) x)"
proof -
  have inv: "timersInv w" and keys: "\<forall>t \<in> set (iwPending w). itKey t \<noteq> []" using assms by (auto simp: awake_def)
  have sub: "t \<in> set (iwPending (clearTimer i w)) \<Longrightarrow> t \<in> set (iwPending w)" "iwListening (clearTimer i w) = iwListening w" for i t
    by (auto simp: clearTimer_def)
  show ?thesis
  proof (cases x)
    case (Event e)
    consider (off) "\<not> iwListening w" | (idle) "iwListening w" "seState e = Idle"
      | (none) "iwListening w" "seState e \<noteq> Idle" "onDiagnosticEvent e w = w" "\<And>k. seSessionKey e = Some k \<Longrightarrow> k = [] \<or> mapGet (iwIdleTimers w) k = None"
      | (drop) k i sid where "iwListening w" "seState e \<noteq> Idle" "seSessionKey e = Some k" "mapGet (iwIdleTimers w) k = Some (i, sid)"
          "onDiagnosticEvent e w = (clearTimer i w)\<lparr>iwIdleTimers := mapDelete k (iwIdleTimers w)\<rparr>"
    proof (cases "iwListening w \<and> seState e \<noteq> Idle \<and> (\<exists>k. seSessionKey e = Some k \<and> k \<noteq> [] \<and> mapGet (iwIdleTimers w) k \<noteq> None)")
      case True
      then obtain k i sid where k: "iwListening w" "seState e \<noteq> Idle" "seSessionKey e = Some k" "k \<noteq> []"
        "mapGet (iwIdleTimers w) k = Some (i, sid)" by auto
      then have "onDiagnosticEvent e w = (clearTimer i w)\<lparr>iwIdleTimers := mapDelete k (iwIdleTimers w)\<rparr>"
        by (simp add: onDiagnosticEvent_def)
      from drop [OF k(1-3,5) this] show thesis .
    next
      case False
      have "onDiagnosticEvent e w = w" if "iwListening w" "seState e \<noteq> Idle"
        using False that by (auto simp: onDiagnosticEvent_def split: option.split)
      with False off idle none show thesis by blast
    qed
    then show ?thesis
    proof cases
      case off
      then show ?thesis using assms by (auto simp: Event onDiagnosticEvent_def awake_def)
    next
      case idle
      from idle_ok [OF assms idle] idle show ?thesis by (auto simp: Event onDiagnosticEvent_def activity_def)
    next
      case none
      then show ?thesis using assms keys clear_keeps_rest [OF inv] by (auto simp: Event activity_def)
    next
      case (drop k i sid)
      from drop_key_inv [OF inv drop(4)] drop sub keys assms show ?thesis
        by (auto simp: Event activity_def awake_def)
    qed
  next
    case (Fire i now)
    show ?thesis
    proof (cases "find (\<lambda>t. itId t = i \<and> itDue t \<le> now) (iwPending w)")
      case None
      then show ?thesis using assms by (simp add: Fire fireTimer_def activity_def)
    next
      case (Some t)
      then have t: "t \<in> set (iwPending w)" using find_timer by fastforce
      from drop_key_inv [OF inv timersInvD(3) [OF inv t]] sub keys assms Some show ?thesis
        by (auto simp: Fire fireTimer_def activity_def awake_def)
    qed
  next
    case Stop
    have "itId t \<in> fst ` set (mapValues (iwIdleTimers w))" if "t \<in> set (iwPending w)" for t
      using mapGet_SomeD [OF timersInvD(3) [OF inv that]] by force
    then have "iwPending (stopIdlePruneWatcher w) = []" by (auto simp: stopIdlePruneWatcher_def filter_empty_conv)
    moreover have "iwIdleTimers (stopIdlePruneWatcher w) = []" by (simp add: stopIdlePruneWatcher_def)
    ultimately show ?thesis by (simp add: Stop awake_def timersInv_def)
  qed
qed

lemma watch_trace:
  "awake (fold watchStep steps (startIdlePruneWatcher config))
   \<and> (\<forall>t \<in> set (iwPending (fold watchStep steps (startIdlePruneWatcher config))).
        \<exists>pre x mid. steps = pre @ x # mid \<and> armedBy t x \<and> list_all (\<lambda>y. \<not> activity (itKey t) y) mid)"
proof (induction steps rule: rev_induct)
  case Nil
  show ?case by (simp add: startIdlePruneWatcher_def awake_def timersInv_def)
next
  case (snoc x steps)
  let ?w = "fold watchStep steps (startIdlePruneWatcher config)"
  from snoc have "awake ?w" by blast
  note ok = watchStep_ok [OF this, of x]
  have "\<exists>pre y mid. steps @ [x] = pre @ y # mid \<and> armedBy t y \<and> list_all (\<lambda>y. \<not> activity (itKey t) y) mid"
    if t: "t \<in> set (iwPending (watchStep x ?w))" for t
  proof (cases "armedBy t x")
    case True
    then show ?thesis by (intro exI [of _ steps] exI [of _ x] exI [of _ "[]"]) simp
  next
    case False
    with ok t have old: "t \<in> set (iwPending ?w)" "\<not> activity (itKey t) x" by auto
    with snoc obtain pre y mid where s: "steps = pre @ y # mid" "armedBy t y" "list_all (\<lambda>y. \<not> activity (itKey t) y) mid" by blast
    then show ?thesis using old(2) by (intro exI [of _ pre] exI [of _ y] exI [of _ "mid @ [x]"]) simp
  qed
  with ok show ?case by simp
qed

text \<open>
  C17. Only a silent session is pruned: when the watcher prunes the file of a session, an idle event of that
  session, not protected, with this session id, came at least the configured delay before, and since then
  there has been no event of its activity and the watcher has not been stopped.
\<close>

theorem idle_prune_needs_silence:
  assumes "fireTimer i now (fold watchStep steps (startIdlePruneWatcher config)) = (w', Some (agent, sid))"
  shows "\<exists>pre e mid key. steps = pre @ Event e # mid \<and> seState e = Idle \<and> \<not> seProtected e \<and> seSessionKey e = Some key
    \<and> extractAgentId key = Some agent \<and> seSessionId e = Some sid \<and> sid \<noteq> []
    \<and> seNow e + icIdleDelayMinutes (seConfig e) * 60000 \<le> now \<and> list_all (\<lambda>y. \<not> activity key y) mid"
proof -
  let ?w = "fold watchStep steps (startIdlePruneWatcher config)"
  from assms obtain t where f: "find (\<lambda>t. itId t = i \<and> itDue t \<le> now) (iwPending ?w) = Some t"
    and r: "extractAgentId (itKey t) = Some agent" "itSessionId t = Some sid" "sid \<noteq> []"
    by (auto simp: fireTimer_def said_def split: option.splits if_splits)
  from find_timer [OF f] watch_trace [of steps config] obtain pre x mid where
    s: "steps = pre @ x # mid" "armedBy t x" "list_all (\<lambda>y. \<not> activity (itKey t) y) mid" and due: "itDue t \<le> now" by blast
  from s(2) obtain e where e: "x = Event e" "seState e = Idle" "\<not> seProtected e" "seSessionKey e = Some (itKey t)"
    "seSessionId e = itSessionId t" "itDue t = seNow e + icIdleDelayMinutes (seConfig e) * 60000"
    by (cases x) (auto simp: armedBy_def)
  with s r due show ?thesis by auto
qed

definition iwEvent :: "rat \<Rightarrow> session_state \<Rightarrow> state_event" where
  "iwEvent now st = \<lparr>seNow = now, seConfig = \<lparr>icEnabled = True, icIdleDelayMinutes = 30\<rparr>, seProtected = False, seState = st,
     seSessionKey = Some (u ''agent:main:w''), seSessionId = Some (u ''s1'')\<rparr>"

theorem idle_prune_needs_silence_witness:
  "\<exists>pre e mid key. [Event (iwEvent 0 Idle), Event (iwEvent 5 Processing), Event (iwEvent 9 Idle)] = pre @ Event e # mid
    \<and> seState e = Idle \<and> \<not> seProtected e \<and> seSessionKey e = Some key
    \<and> extractAgentId key = Some (u ''main'') \<and> seSessionId e = Some (u ''s1'') \<and> (u ''s1'') \<noteq> []
    \<and> seNow e + icIdleDelayMinutes (seConfig e) * 60000 \<le> 1800009 \<and> list_all (\<lambda>y. \<not> activity key y) mid"
proof (rule idle_prune_needs_silence)
  show "fireTimer 1 1800009 (fold watchStep [Event (iwEvent 0 Idle), Event (iwEvent 5 Processing), Event (iwEvent 9 Idle)]
      (startIdlePruneWatcher \<lparr>icEnabled = True, icIdleDelayMinutes = 30\<rparr>))
    = (\<lparr>iwIdleTimers = [], iwPending = [], iwNextId = 2, iwListening = True\<rparr>, Some (u ''main'', u ''s1''))"
    by code_simp
qed

section \<open>The liveness watchdog\<close>

definition checkIntervalMs :: int where "checkIntervalMs = 5 * 60 * 1000"

definition warnSkipFactor :: int where "warnSkipFactor = 2"

definition criticalSkipFactor :: int where "criticalSkipFactor = 5"

definition logStaleThresholdMs :: rat where "logStaleThresholdMs = 30 * 60 * 1000"

record watchdog =
  wdRunning :: bool
  wdInterval :: bool
  wdLastTick :: int
  wdTickCount :: nat

datatype watchdog_output = WarnDelay int | RestartStalled int | RestartStale jsnum | Marker nat jsnum int

definition getLogFileAgeMs :: "rat \<Rightarrow> rat option \<Rightarrow> jsnum" where
  \<comment> \<open>of the time of the log file of the day, \<open>None\<close> if there is none or it cannot be read\<close>
  "getLogFileAgeMs now mtime = (case mtime of Some t \<Rightarrow> JNum (now - t) | None \<Rightarrow> JPosInf)"

definition watchdogTick :: "int \<Rightarrow> rat \<Rightarrow> rat option \<Rightarrow> watchdog \<Rightarrow> watchdog \<times> watchdog_output list" where
  \<comment> \<open>\<open>hr\<close>: the monotonic clock in nanoseconds\<close>
  "watchdogTick hr now mtime w =
     (let w1 = w\<lparr>wdTickCount := Suc (wdTickCount w)\<rparr>;
          elapsedMs = (if wdLastTick w \<noteq> 0 then (hr - wdLastTick w) div 1000000 else 0);
          warn = (if wdLastTick w \<noteq> 0 \<and> elapsedMs \<ge> warnSkipFactor * checkIntervalMs then [WarnDelay elapsedMs] else []);
          w2 = w1\<lparr>wdLastTick := hr\<rparr>;
          logAgeMs = (if wdTickCount w1 = 1 then JNum 0 else getLogFileAgeMs now mtime)
      in if wdLastTick w \<noteq> 0 \<and> elapsedMs \<ge> criticalSkipFactor * checkIntervalMs then (w1, [RestartStalled elapsedMs])
         else if jsLess (JNum logStaleThresholdMs) logAgeMs then (w2, warn @ [RestartStale logAgeMs])
         else (w2, warn @ [Marker (wdTickCount w2) logAgeMs elapsedMs]))"

definition startLivenessWatchdog :: "int \<Rightarrow> rat \<Rightarrow> rat option \<Rightarrow> watchdog \<Rightarrow> watchdog \<times> watchdog_output list" where
  "startLivenessWatchdog hr now mtime w =
     (if wdRunning w then (w, [])
      else (case watchdogTick hr now mtime (w\<lparr>wdRunning := True, wdLastTick := 0, wdTickCount := 0\<rparr>) of
              (w1, out) \<Rightarrow> (w1\<lparr>wdInterval := True\<rparr>, out)))"

definition stopLivenessWatchdog :: "watchdog \<Rightarrow> watchdog" where
  "stopLivenessWatchdog w = w\<lparr>wdRunning := False, wdInterval := False\<rparr>"

definition restarts :: "watchdog_output list \<Rightarrow> bool" where
  "restarts out \<longleftrightarrow> list_ex (\<lambda>x. case x of RestartStalled t \<Rightarrow> True | RestartStale t \<Rightarrow> True | _ \<Rightarrow> False) out"

text \<open>
  The watchdog restarts the gateway exactly when its tick is at least 25 minutes late or, after the
  first tick, the log of the day is more than 30 minutes old or missing.
\<close>

theorem watchdog_restarts_iff:
  "restarts (snd (watchdogTick hr now mtime w)) \<longleftrightarrow>
     wdLastTick w \<noteq> 0 \<and> 1500000 \<le> (hr - wdLastTick w) div 1000000
     \<or> 0 < wdTickCount w \<and> (case mtime of None \<Rightarrow> True | Some t \<Rightarrow> 1800000 < now - t)"
  by (auto simp: restarts_def watchdogTick_def getLogFileAgeMs_def Let_def checkIntervalMs_def criticalSkipFactor_def
      logStaleThresholdMs_def split: option.splits)

fun watchdogTicks :: "(int \<times> rat \<times> rat option) list \<Rightarrow> watchdog \<Rightarrow> watchdog_output list list" where
  "watchdogTicks [] w = []"
| "watchdogTicks ((hr, now, mtime) # ticks) w =
     (case watchdogTick hr now mtime w of (w', out) \<Rightarrow> out # watchdogTicks ticks w')"

text \<open>
  A stall is never forgotten: the tick that finds it leaves the time of the last tick as it was, so if the
  restart fails every later tick restarts again, however punctual the ticks have become.
\<close>

theorem stall_is_never_forgotten:
  assumes "wdLastTick w \<noteq> 0" and "list_all (\<lambda>(hr, now, mtime). wdLastTick w + 1500000000000 \<le> hr) ticks"
  shows "list_all restarts (watchdogTicks ticks w)"
  using assms
proof (induction ticks w rule: watchdogTicks.induct)
  case (2 hr now mtime ticks w)
  have late: "criticalSkipFactor * checkIntervalMs \<le> (hr - wdLastTick w) div 1000000"
  proof -
    have "1500000 * 1000000 \<le> hr - wdLastTick w" using 2(3) by simp
    from zdiv_mono1 [OF this, of 1000000] have "1500000 \<le> (hr - wdLastTick w) div 1000000" by simp
    then show ?thesis by (simp add: checkIntervalMs_def criticalSkipFactor_def)
  qed
  then have "watchdogTick hr now mtime w
    = (w\<lparr>wdTickCount := Suc (wdTickCount w)\<rparr>, [RestartStalled ((hr - wdLastTick w) div 1000000)])"
    using 2(2) by (simp add: watchdogTick_def Let_def)
  with 2(1) [OF this [symmetric]] 2(2,3) show ?case by (simp add: restarts_def)
qed simp

theorem stall_is_never_forgotten_witness:
  "list_all restarts (watchdogTicks [(1600000000001, 0, Some 0), (1900000000001, 300000, Some 300000)]
     \<lparr>wdRunning = True, wdInterval = True, wdLastTick = 1, wdTickCount = 1\<rparr>)"
  by (rule stall_is_never_forgotten) simp_all

end
