(* ===== verification/ContextPruner.thy ===== *)
theory ContextPruner
  imports PruneEngine
begin

text \<open>
  The write path of the context pruner, \<open>src/extensions/context-pruner/src/pruner.ts\<close> and the hooks of
  \<open>index.ts\<close>: a tool result is shortened or replaced by a placeholder as it is stored. A message is the object
  it is; its content is a list of blocks, as its type says.
\<close>

section \<open>Configuration\<close>

record stt_config =
  sttModel :: text16
  sttDelayMinutes :: rat

record pruner_config =
  prEnabled :: bool
  prStt :: stt_config
  prKeepLastAssistants :: int
  prMinPrunableToolChars :: int
  prDefaultPreserve :: bool
  prPlaceholder :: "text16 option"
  prProtectedContentKeywords :: "text16 list option"

definition contextPrunerDefaultKeywords :: "text16 list" where
  "contextPrunerDefaultKeywords = [u ''AGENTS.md'', u ''SOUL.md'', u ''DENNOU_RULES'']"

definition basePrunerConfig :: pruner_config where
  "basePrunerConfig = \<lparr>prEnabled = True, prStt = \<lparr>sttModel = u ''whisper-large-v3-turbo'', sttDelayMinutes = 30\<rparr>,
     prKeepLastAssistants = 3, prMinPrunableToolChars = 1200, prDefaultPreserve = False, prPlaceholder = None,
     prProtectedContentKeywords = None\<rparr>"

fun boolOf :: "jsval option \<Rightarrow> bool option" where
  "boolOf (Some (VBool b)) = Some b"
| "boolOf _ = None"

definition trimmedText :: "jsval option \<Rightarrow> text16 option" where
  \<comment> \<open>\<open>typeof v === "string" && v.trim() ? v.trim() : undefined\<close>\<close>
  "trimmedText v = (case textOf v of Some t \<Rightarrow> if trim16 t \<noteq> [] then Some (trim16 t) else None | None \<Rightarrow> None)"

definition resolveContextPrunerConfig :: "jsval option \<Rightarrow> pruner_config" where
  "resolveContextPrunerConfig raw =
     (if \<not> isObject raw then basePrunerConfig
      else (let stt = (case getProp raw ''stt'' of Some (VObject obj) \<Rightarrow> Some (VObject obj) | _ \<Rightarrow> None);
                count = (\<lambda>key d. case finiteOf (getProp raw key) of Some q \<Rightarrow> max 0 \<lfloor>q\<rfloor> | None \<Rightarrow> d)
            in \<lparr>prEnabled = coalesce (boolOf (getProp raw ''enabled'')) (prEnabled basePrunerConfig),
                prStt = \<lparr>sttModel = coalesce (trimmedText (getProp stt ''model'')) (sttModel (prStt basePrunerConfig)),
                         sttDelayMinutes = (case finiteOf (getProp stt ''delayMinutes'') of
                            Some q \<Rightarrow> max 0 q | None \<Rightarrow> sttDelayMinutes (prStt basePrunerConfig))\<rparr>,
                prKeepLastAssistants = count ''keepLastAssistants'' (prKeepLastAssistants basePrunerConfig),
                prMinPrunableToolChars = count ''minPrunableToolChars'' (prMinPrunableToolChars basePrunerConfig),
                prDefaultPreserve = coalesce (boolOf (getProp raw ''defaultPreserve'')) (prDefaultPreserve basePrunerConfig),
                prPlaceholder = trimmedText (getProp raw ''placeholder''),
                prProtectedContentKeywords = (case getProp raw ''protectedContentKeywords'' of
                   Some (VArray ks) \<Rightarrow> Some (concat (map (\<lambda>k. case textOf (Some k) of Some t \<Rightarrow> [t] | None \<Rightarrow> []) ks))
                 | _ \<Rightarrow> None)\<rparr>))"

section \<open>Tool results\<close>

definition isToolResultMessage :: "jsval \<Rightarrow> bool" where
  "isToolResultMessage m \<longleftrightarrow> getProp (Some m) ''role'' = Some (VText (u ''toolResult''))"

definition blocksOf :: "jsval \<Rightarrow> jsval list" where
  "blocksOf m = (case getProp (Some m) ''content'' of Some (VArray bs) \<Rightarrow> bs | _ \<Rightarrow> [])"

definition typedText :: "string \<Rightarrow> string \<Rightarrow> jsval \<Rightarrow> text16 option" where
  \<comment> \<open>a member of the block that is text, if the block has this type\<close>
  "typedText kind key b =
     (if getProp (Some b) ''type'' = Some (VText (u kind)) then textOf (getProp (Some b) key) else None)"

definition charsOf :: "text16 option \<Rightarrow> nat" where
  "charsOf t = (case t of Some s \<Rightarrow> length s | None \<Rightarrow> 0)"

definition getToolResultTextChars :: "jsval \<Rightarrow> nat" where
  "getToolResultTextChars m =
     sum_list (map (\<lambda>b. charsOf (typedText ''text'' ''text'' b) + charsOf (typedText ''image'' ''data'' b)) (blocksOf m))"

definition messageImageDataChars :: "jsval \<Rightarrow> nat" where
  "messageImageDataChars m = sum_list (map (\<lambda>b. charsOf (typedText ''image'' ''data'' b)) (blocksOf m))"

definition getToolResultText :: "jsval \<Rightarrow> text16" where
  "getToolResultText m =
     joinWith [10] (concat (map (\<lambda>b. case typedText ''text'' ''text'' b of Some t \<Rightarrow> [t] | None \<Rightarrow> []) (blocksOf m)))"

definition hasPlaceholderMarkerInMessage :: "jsval \<Rightarrow> bool" where
  "hasPlaceholderMarkerInMessage m \<longleftrightarrow> hasPlaceholderMarker (getToolResultText m)"

definition safetyCapHeadChars :: nat where "safetyCapHeadChars = 25000"

definition safetyCapTailChars :: nat where "safetyCapTailChars = 25000"

definition safetyCapMarker :: text16 where
  "safetyCapMarker = [10, 10] @ u ''[Tool result truncated: exceeds 50,000 chars safety cap]'' @ [10, 10]"

definition applyToolResultSafetyCap :: "jsval \<Rightarrow> jsval" where
  "applyToolResultSafetyCap m =
     (let t = getToolResultText m
      in if length t \<le> toolResultSafetyCapChars then m
         else setMember ''content'' (placeholderContent
                (take safetyCapHeadChars t @ safetyCapMarker @ drop (length t - safetyCapTailChars) t)) m)"

definition isProtectedByKeywordInMessage :: "runtime \<Rightarrow> jsval \<Rightarrow> text16 list \<Rightarrow> bool" where
  "isProtectedByKeywordInMessage rt m keywords \<longleftrightarrow>
     keywords \<noteq> [] \<and> list_ex (\<lambda>k. includes16 (rtLower rt (getToolResultText m)) (rtLower rt k)) keywords"

definition extractMessageInboundMediaRelPath :: "runtime \<Rightarrow> jsval \<Rightarrow> text16 option" where
  "extractMessageInboundMediaRelPath rt m =
     orElse (extractInboundMediaRelPath (getToolResultText m))
       (let details = getProp (Some m) ''details''
        in if isObject details then extractInboundMediaRelPath (rtStringify rt (the details)) else None)"

definition resultPlaceholder :: "runtime \<Rightarrow> jsval \<Rightarrow> text16" where
  "resultPlaceholder rt m =
     (let relPath = extractMessageInboundMediaRelPath rt m; image = messageImageDataChars m; t = getToolResultText m;
          lineCount = max 1 (length (splitOn 10 t)); sizeLabel = formatPrunableSizeLabel rt (JNum (of_nat (length t)));
          location = (case relPath of Some p \<Rightarrow> u '' / '' @ p @ u '' /'' | None \<Rightarrow> [])
      in if image > 0
         then (if t \<noteq> []
               then u ''['' @ [0x51FA, 0x529B, 0x7701, 0x7565] @ u '': '' @ [0x753B, 0x50CF, 0x30C7,
                   0x30FC, 0x30BF] @ u '' ('' @ u (showInt (approxKb image)) @ u ''KB) / '' @ [0x30C6,
                   0x30AD, 0x30B9, 0x30C8] @ u '' '' @ u (showNat lineCount) @ [0x884C] @ u '' / ''
                    @ sizeLabel @ location @ u '' '' @ normalExit @ u '']''
               else u ''['' @ [0x51FA, 0x529B, 0x7701, 0x7565] @ u '': '' @ [0x753B, 0x50CF, 0x30C7,
                   0x30FC, 0x30BF] @ u '' ('' @ u (showInt (approxKb image)) @ u ''KB)'' @ location
                   @ u '' '' @ normalExit @ u '']'')
         else buildCanonicalPlaceholder lineCount sizeLabel None)"

definition buildMessagePlaceholder :: "runtime \<Rightarrow> jsval \<Rightarrow> text16 option \<Rightarrow> text16" where
  "buildMessagePlaceholder rt m customPlaceholder =
     (let c = trim16 (coalesce customPlaceholder []) in if c \<noteq> [] then c else resultPlaceholder rt m)"

section \<open>The decision\<close>

record prune_decision =
  pdMessage :: jsval
  pdPlaceholderized :: bool
  pdCapped :: bool

definition isErrorResult :: "jsval \<Rightarrow> bool" where
  \<comment> \<open>\<open>message.isError\<close>, a boolean or missing\<close>
  "isErrorResult m \<longleftrightarrow> getProp (Some m) ''isError'' = Some (VBool True)"

definition transformToolResultForPersistence ::
  "runtime \<Rightarrow> jsval \<Rightarrow> pruner_config \<Rightarrow> nat \<Rightarrow> bool \<Rightarrow> prune_decision" where
  "transformToolResultForPersistence rt m config assistantTurnCount preserve =
     (let noop = \<lparr>pdMessage = m, pdPlaceholderized = False, pdCapped = False\<rparr>;
          originalText = getToolResultText m;
          capped = length originalText > toolResultSafetyCapChars;
          next_message = (if capped then applyToolResultSafetyCap m else m);
          keep = \<lparr>pdMessage = next_message, pdPlaceholderized = False, pdCapped = capped\<rparr>
      in if \<not> prEnabled config then noop
         else if \<not> isToolResultMessage m then noop
         else if hasPlaceholderMarkerInMessage m then noop
         else if isErrorResult m then noop
         else if originalText = [] \<and> getToolResultTextChars m = 0 then noop
         else if preserve \<or> prDefaultPreserve config then keep
         else if int (getToolResultTextChars next_message) < prMinPrunableToolChars config then keep
         else if isProtectedByKeywordInMessage rt next_message
                   (coalesce (prProtectedContentKeywords config) contextPrunerDefaultKeywords) then keep
         else if prKeepLastAssistants config > 0 \<and> int assistantTurnCount \<le> prKeepLastAssistants config then keep
         else \<lparr>pdMessage = setMember ''content'' (placeholderContent (buildMessagePlaceholder rt m (prPlaceholder config))) next_message,
               pdPlaceholderized = True, pdCapped = capped\<rparr>)"

section \<open>The hooks (\<open>index.ts\<close>)\<close>

type_synonym turn_counts = "(text16, nat) jsmap"

definition maxTrackedSessions :: nat where "maxTrackedSessions = 512"

definition bumpSessionCounter :: "text16 \<Rightarrow> turn_counts \<Rightarrow> turn_counts" where
  "bumpSessionCounter key counts = mapSet key (coalesce (mapGet counts key) 0 + 1) counts"

definition enforceSessionCounterBound :: "turn_counts \<Rightarrow> turn_counts" where
  "enforceSessionCounterBound counts = (if length counts > maxTrackedSessions then [] else counts)"

definition keyed :: "text16 option \<Rightarrow> (text16 \<Rightarrow> turn_counts \<Rightarrow> turn_counts) \<Rightarrow> turn_counts \<Rightarrow> turn_counts" where
  \<comment> \<open>\<open>if (key) f(key)\<close>\<close>
  "keyed key f counts = (case key of Some k \<Rightarrow> if k \<noteq> [] then f k counts else counts | None \<Rightarrow> counts)"

definition sessionCounterKey :: "text16 option \<Rightarrow> text16 option \<Rightarrow> text16 option" where
  "sessionCounterKey sessionKey agentId = orElse sessionKey agentId"

definition onSessionStart :: "text16 option \<Rightarrow> text16 option \<Rightarrow> turn_counts \<Rightarrow> turn_counts" where
  "onSessionStart sessionKey sessionId counts =
     enforceSessionCounterBound (keyed (orElse sessionKey sessionId) (\<lambda>k. mapSet k 0) counts)"

definition onSessionEnd :: "text16 option \<Rightarrow> text16 option \<Rightarrow> turn_counts \<Rightarrow> turn_counts" where
  "onSessionEnd sessionKey sessionId counts = keyed (orElse sessionKey sessionId) mapDelete counts"

definition onBeforeMessageWrite :: "jsval \<Rightarrow> text16 option \<Rightarrow> text16 option \<Rightarrow> turn_counts \<Rightarrow> turn_counts" where
  "onBeforeMessageWrite m sessionKey agentId counts =
     (if getProp (Some m) ''role'' = Some (VText (u ''assistant''))
      then keyed (sessionCounterKey sessionKey agentId) bumpSessionCounter counts else counts)"

definition onToolResultPersist ::
  "runtime \<Rightarrow> pruner_config \<Rightarrow> jsval \<Rightarrow> text16 option \<Rightarrow> text16 option \<Rightarrow> bool \<Rightarrow> turn_counts \<Rightarrow> jsval" where
  \<comment> \<open>the message that is stored; \<open>preserve\<close> is that of the event, else of the context\<close>
  "onToolResultPersist rt config m sessionKey agentId preserve counts =
     (if \<not> prEnabled config then m
      else (let key = sessionCounterKey sessionKey agentId;
                n = (case key of Some k \<Rightarrow> if k \<noteq> [] then coalesce (mapGet counts k) 0 else 0 | None \<Rightarrow> 0)
            in pdMessage (transformToolResultForPersistence rt m config n preserve)))"

section \<open>What a stored result keeps\<close>

lemma getProp_setMember:
  "getProp (Some (setMember key x (VObject obj))) k = (if k = key then Some x else getProp (Some (VObject obj)) k)"
  by (simp add: mapGet_set)

lemma toolResult_object: "isToolResultMessage m \<Longrightarrow> \<exists>obj. m = VObject obj"
  by (cases m) (simp_all add: isToolResultMessage_def)

lemma text_placeholder: "getToolResultText (setMember ''content'' (placeholderContent p) (VObject obj)) = p"
  by (simp add: getToolResultText_def blocksOf_def placeholderContent_def typedText_def)

lemma chars_placeholder: "getToolResultTextChars (setMember ''content'' (placeholderContent p) (VObject obj)) = length p"
  by (simp add: getToolResultTextChars_def blocksOf_def placeholderContent_def typedText_def charsOf_def)

lemma setMember_twice: "setMember key x (setMember key y m) = setMember key x m"
  by (cases m) (simp_all add: mapSet_set)

lemma cap_cases:
  assumes "isToolResultMessage m"
  shows "applyToolResultSafetyCap m = m \<or> (\<exists>p. applyToolResultSafetyCap m = setMember ''content'' (placeholderContent p) m)"
  by (simp add: applyToolResultSafetyCap_def Let_def) blast

lemma cap_text:
  assumes "isToolResultMessage m" "length (getToolResultText m) > toolResultSafetyCapChars"
  shows "getToolResultText (applyToolResultSafetyCap m) =
    take safetyCapHeadChars (getToolResultText m) @ safetyCapMarker
      @ drop (length (getToolResultText m) - safetyCapTailChars) (getToolResultText m)"
  using toolResult_object [OF assms(1)] assms(2) text_placeholder
  by (auto simp: applyToolResultSafetyCap_def Let_def simp del: setMember.simps)

lemma cap_facts:
  assumes "isToolResultMessage m"
  shows "length (getToolResultText (applyToolResultSafetyCap m)) =
      (if length (getToolResultText m) \<le> 50000 then length (getToolResultText m) else 50000 + length safetyCapMarker)
    \<and> applyToolResultSafetyCap (applyToolResultSafetyCap m) = applyToolResultSafetyCap m"
proof (cases "length (getToolResultText m) \<le> toolResultSafetyCapChars")
  case True
  then have "applyToolResultSafetyCap m = m" by (simp add: applyToolResultSafetyCap_def)
  with True show ?thesis by (simp add: toolResultSafetyCapChars_def)
next
  case False
  define t where "t = getToolResultText m"
  define h where "h = take safetyCapHeadChars t"
  define e where "e = drop (length t - safetyCapTailChars) t"
  let ?m = "setMember ''content'' (placeholderContent (h @ safetyCapMarker @ e)) m"
  have len: "length h = 25000" "length e = 25000"
    using False by (simp_all add: t_def h_def e_def toolResultSafetyCapChars_def safetyCapHeadChars_def safetyCapTailChars_def)
  have m: "applyToolResultSafetyCap m = ?m" using False by (simp add: applyToolResultSafetyCap_def Let_def t_def h_def e_def)
  have ct: "getToolResultText ?m = h @ safetyCapMarker @ e"
    using cap_text [OF assms] False m by (simp add: t_def h_def e_def)
  have "take safetyCapHeadChars (h @ safetyCapMarker @ e) = h"
    "drop (length (h @ safetyCapMarker @ e) - safetyCapTailChars) (h @ safetyCapMarker @ e) = e"
    using len by (simp_all add: safetyCapHeadChars_def safetyCapTailChars_def)
  then have "applyToolResultSafetyCap ?m = ?m"
    unfolding applyToolResultSafetyCap_def [of ?m] ct Let_def by (simp add: setMember_twice)
  with m ct len False show ?thesis by (simp add: toolResultSafetyCapChars_def)
qed

lemmas cap_again = cap_facts [THEN conjunct2]

text \<open>
  The safety cap keeps the first and the last 25,000 characters of a longer text with a note between
  them, whatever the text, and leaves a shorter one alone; so its result is 50,000 characters and the note
  long, above the cap, and capping it again gives it back.
\<close>

theorem safety_cap_keeps_both_ends:
  assumes "isToolResultMessage m"
  shows "length (getToolResultText (applyToolResultSafetyCap m)) =
      (if length (getToolResultText m) \<le> 50000 then length (getToolResultText m) else 50000 + length safetyCapMarker)
    \<and> applyToolResultSafetyCap (applyToolResultSafetyCap m) = applyToolResultSafetyCap m"
  by (rule cap_facts [OF assms])

text \<open>The decision, outcome by outcome.\<close>

definition duePruning :: "runtime \<Rightarrow> jsval \<Rightarrow> pruner_config \<Rightarrow> nat \<Rightarrow> bool \<Rightarrow> bool" where
  "duePruning rt m config n preserve \<longleftrightarrow> prEnabled config \<and> isToolResultMessage m \<and> \<not> hasPlaceholderMarkerInMessage m
     \<and> \<not> isErrorResult m \<and> \<not> (getToolResultText m = [] \<and> getToolResultTextChars m = 0) \<and> \<not> preserve \<and> \<not> prDefaultPreserve config
     \<and> prMinPrunableToolChars config \<le> int (getToolResultTextChars (applyToolResultSafetyCap m))
     \<and> \<not> isProtectedByKeywordInMessage rt (applyToolResultSafetyCap m)
            (coalesce (prProtectedContentKeywords config) contextPrunerDefaultKeywords)
     \<and> (prKeepLastAssistants config \<le> 0 \<or> prKeepLastAssistants config < int n)"

lemma cap_short: "length (getToolResultText m) \<le> toolResultSafetyCapChars \<Longrightarrow> applyToolResultSafetyCap m = m"
  by (simp add: applyToolResultSafetyCap_def)

lemma transform_eq:
  "pdMessage (transformToolResultForPersistence rt m config n preserve) =
     (if duePruning rt m config n preserve
      then setMember ''content'' (placeholderContent (buildMessagePlaceholder rt m (prPlaceholder config))) m
      else if prEnabled config \<and> isToolResultMessage m \<and> \<not> hasPlaceholderMarkerInMessage m \<and> \<not> isErrorResult m
        \<and> getToolResultText m \<noteq> [] then applyToolResultSafetyCap m else m)"
proof -
  have next_eq: "(if toolResultSafetyCapChars < length (getToolResultText m) then applyToolResultSafetyCap m else m)
      = applyToolResultSafetyCap m"
    using cap_short [of m] by auto
  have set_eq: "setMember ''content'' (placeholderContent p) (applyToolResultSafetyCap m) = setMember ''content'' (placeholderContent p) m" for p
    by (simp add: applyToolResultSafetyCap_def Let_def setMember_twice)
  have empty: "getToolResultText m = [] \<Longrightarrow> applyToolResultSafetyCap m = m" by (simp add: cap_short)
  show ?thesis
    unfolding transformToolResultForPersistence_def Let_def next_eq set_eq duePruning_def
    using empty by (auto simp: not_less not_le)
qed

lemma placeholderized_iff:
  "pdPlaceholderized (transformToolResultForPersistence rt m config n preserve) \<longleftrightarrow> duePruning rt m config n preserve"
proof -
  have next_eq: "(if toolResultSafetyCapChars < length (getToolResultText m) then applyToolResultSafetyCap m else m)
      = applyToolResultSafetyCap m"
    using cap_short [of m] by auto
  show ?thesis
    unfolding transformToolResultForPersistence_def Let_def next_eq duePruning_def by (auto simp: not_less not_le)
qed

text \<open>
  Storing a result touches its content only: role, tool call, tool name, error flag and details stay;
  and a result that reports an error, asks to be preserved or is a placeholder already never becomes a
  placeholder, nor does anything else than a tool result.
\<close>

theorem stored_result_keeps_members:
  "(key \<noteq> ''content'' \<longrightarrow>
      getProp (Some (pdMessage (transformToolResultForPersistence rt m config n preserve))) key = getProp (Some m) key)
   \<and> (pdPlaceholderized (transformToolResultForPersistence rt m config n preserve) \<longrightarrow>
        isToolResultMessage m \<and> \<not> isErrorResult m \<and> \<not> preserve \<and> \<not> hasPlaceholderMarkerInMessage m)"
proof -
  have "getProp (Some (setMember ''content'' x m)) key = getProp (Some m) key" if "key \<noteq> ''content''" for x
    using that by (cases m) (simp_all add: mapGet_set)
  then show ?thesis
    by (auto simp: transform_eq placeholderized_iff duePruning_def applyToolResultSafetyCap_def Let_def simp del: getProp.simps setMember.simps)
qed

lemma result_placeholder_marked: "hasPlaceholderMarker (resultPlaceholder rt m)"
  by (auto simp: resultPlaceholder_def Let_def hasPlaceholderMarker_def placeholderMarkers_def buildCanonicalPlaceholder_def u_simps)

lemma transform_again:
  assumes "length (trim16 (coalesce (prPlaceholder config) [])) \<le> toolResultSafetyCapChars"
  shows "pdMessage (transformToolResultForPersistence rt
       (pdMessage (transformToolResultForPersistence rt m config n preserve)) config n preserve)
     = pdMessage (transformToolResultForPersistence rt m config n preserve)"
proof (cases "isToolResultMessage m")
  case False
  then show ?thesis by (simp add: transform_eq duePruning_def)
next
  case True
  show ?thesis
  proof (cases "duePruning rt m config n preserve")
    case due: True
    let ?p = "buildMessagePlaceholder rt m (prPlaceholder config)"
    let ?m = "setMember ''content'' (placeholderContent ?p) m"
    have r: "pdMessage (transformToolResultForPersistence rt m config n preserve) = ?m" using due by (simp add: transform_eq)
    obtain obj where obj: "m = VObject obj" using toolResult_object [OF True] by blast
    have t: "getToolResultText ?m = ?p" unfolding obj by (rule text_placeholder)
    show ?thesis
    proof (cases "hasPlaceholderMarker ?p")
      case True
      then show ?thesis unfolding r by (simp add: transform_eq duePruning_def hasPlaceholderMarkerInMessage_def t)
    next
      case False
      have custom: "?p = trim16 (coalesce (prPlaceholder config) [])" "trim16 (coalesce (prPlaceholder config) []) \<noteq> []"
        using False result_placeholder_marked [of rt m] by (auto simp: buildMessagePlaceholder_def Let_def split: if_splits)
      have "applyToolResultSafetyCap ?m = ?m" using assms t custom(1) by (intro cap_short) simp
      moreover have "buildMessagePlaceholder rt ?m (prPlaceholder config) = ?p"
        using custom by (simp add: buildMessagePlaceholder_def Let_def)
      ultimately show ?thesis unfolding r by (simp add: transform_eq setMember_twice)
    qed
  next
    case False
    let ?r = "pdMessage (transformToolResultForPersistence rt m config n preserve)"
    show ?thesis
    proof (cases "?r = m")
      case False2: False
      then have r: "?r = applyToolResultSafetyCap m" using False by (simp add: transform_eq split: if_splits)
      have again: "applyToolResultSafetyCap ?r = ?r" unfolding r using cap_again [OF True] .
      have err: "isErrorResult ?r = isErrorResult m"
        unfolding r by (cases m) (auto simp: applyToolResultSafetyCap_def Let_def isErrorResult_def mapGet_set)
      have role: "isToolResultMessage ?r = isToolResultMessage m"
        unfolding r by (cases m) (auto simp: applyToolResultSafetyCap_def Let_def isToolResultMessage_def mapGet_set)
      from False2 False have g: "prEnabled config" "\<not> hasPlaceholderMarkerInMessage m" "\<not> isErrorResult m" "getToolResultText m \<noteq> []"
        by (auto simp: transform_eq split: if_splits)
      have "\<not> duePruning rt ?r config n preserve"
        using False g True by (auto simp: duePruning_def again r [symmetric])
      then show ?thesis by (simp add: transform_eq [of rt ?r] again)
    qed simp
  qed
qed

text \<open>
  Storing a stored result again changes nothing, as long as a configured placeholder keeps below the
  safety cap itself.
\<close>

theorem storing_again_changes_nothing:
  assumes "length (trim16 (coalesce (prPlaceholder config) [])) \<le> 50000"
  shows "pdMessage (transformToolResultForPersistence rt
       (pdMessage (transformToolResultForPersistence rt m config n preserve)) config n preserve)
     = pdMessage (transformToolResultForPersistence rt m config n preserve)"
  by (rule transform_again) (use assms in \<open>simp add: toolResultSafetyCapChars_def\<close>)

section \<open>The fence of the first turns\<close>

datatype hook_event =
    SessionStart "text16 option" "text16 option"
  | SessionEnd "text16 option" "text16 option"
  | MessageWrite jsval "text16 option" "text16 option"

fun applyHook :: "hook_event \<Rightarrow> turn_counts \<Rightarrow> turn_counts" where
  "applyHook (SessionStart sessionKey sessionId) counts = onSessionStart sessionKey sessionId counts"
| "applyHook (SessionEnd sessionKey sessionId) counts = onSessionEnd sessionKey sessionId counts"
| "applyHook (MessageWrite m sessionKey agentId) counts = onBeforeMessageWrite m sessionKey agentId counts"

fun assistantTurn :: "text16 \<Rightarrow> hook_event \<Rightarrow> bool" where
  "assistantTurn k (MessageWrite m sessionKey agentId) \<longleftrightarrow>
     getProp (Some m) ''role'' = Some (VText (u ''assistant'')) \<and> sessionCounterKey sessionKey agentId = Some k"
| "assistantTurn k _ \<longleftrightarrow> False"

definition turnsOf :: "text16 \<Rightarrow> turn_counts \<Rightarrow> nat" where
  "turnsOf k counts = coalesce (mapGet counts k) 0"

lemma applyHook_turns:
  "turnsOf k (applyHook e counts) \<le> turnsOf k counts + (if assistantTurn k e then 1 else 0)"
  by (cases e) (auto simp: turnsOf_def onSessionStart_def onSessionEnd_def onBeforeMessageWrite_def keyed_def
      enforceSessionCounterBound_def bumpSessionCounter_def mapGet_set mapGet_delete split: option.split)

lemma hooks_turns: "turnsOf k (fold applyHook es counts) \<le> turnsOf k counts + length (filter (assistantTurn k) es)"
proof (induction es arbitrary: counts)
  case (Cons e es)
  from Cons [of "applyHook e counts"] applyHook_turns [of k e counts] show ?case by (simp split: if_splits)
qed simp

text \<open>
  The first turns of a session are fenced: until more than \<open>keepLastAssistants\<close> assistant messages of a
  session have been written since it started, whatever else happens, a result of that session within the
  safety cap is stored as it is.
\<close>

theorem first_turns_stored_raw:
  assumes "length (filter (assistantTurn k) es) \<le> nat (prKeepLastAssistants config)" and "k \<noteq> []"
    and "0 < prKeepLastAssistants config" and "length (getToolResultText m) \<le> 50000"
  shows "onToolResultPersist rt config m (Some k) agentId preserve
     (fold applyHook es (onSessionStart (Some k) sessionId counts)) = m"
proof -
  let ?c = "fold applyHook es (onSessionStart (Some k) sessionId counts)"
  have "turnsOf k (onSessionStart (Some k) sessionId counts) = 0"
    using assms(2) by (simp add: turnsOf_def onSessionStart_def keyed_def enforceSessionCounterBound_def)
  with hooks_turns [of k es "onSessionStart (Some k) sessionId counts"] assms(1,3)
  have "int (turnsOf k ?c) \<le> prKeepLastAssistants config" by linarith
  then have "\<not> duePruning rt m config (turnsOf k ?c) preserve" using assms(3) by (simp add: duePruning_def)
  moreover have "applyToolResultSafetyCap m = m" using assms(4) by (intro cap_short) (simp add: toolResultSafetyCapChars_def)
  ultimately show ?thesis
    using assms(2) by (simp add: onToolResultPersist_def sessionCounterKey_def transform_eq turnsOf_def)
qed

section \<open>Examples\<close>

definition cpLower :: "text16 \<Rightarrow> text16" where
  "cpLower = map (\<lambda>c. if 65 \<le> c \<and> c \<le> 90 then c + 32 else c)"

definition cpRuntime :: runtime where
  "cpRuntime = \<lparr>rtParse = (\<lambda>t. None), rtStringify = (\<lambda>v. []), rtNumber = (\<lambda>q. u (showInt \<lfloor>q\<rfloor>)), rtLower = cpLower,
     rtDateParse = (\<lambda>t. None), rtIsoDate = (\<lambda>q. []), rtLocaleNumber = (\<lambda>i. u (showInt i))\<rparr>"

definition cpResult :: "text16 \<Rightarrow> jsval" where
  "cpResult t = VObject [(u ''role'', VText (u ''toolResult'')),
     (u ''content'', VArray [VObject [(u ''type'', VText (u ''text'')), (u ''text'', VText t)]])]"

lemma cpResult_simps [simp]: "getToolResultText (cpResult t) = t" "isToolResultMessage (cpResult t)" "\<not> isErrorResult (cpResult t)"
  by (simp_all add: cpResult_def getToolResultText_def blocksOf_def typedText_def isToolResultMessage_def isErrorResult_def)

theorem safety_cap_keeps_both_ends_witness:
  "length (getToolResultText (applyToolResultSafetyCap (cpResult (u ''ok'')))) =
      (if length (getToolResultText (cpResult (u ''ok''))) \<le> 50000 then length (getToolResultText (cpResult (u ''ok''))) else 50000 + length safetyCapMarker)
    \<and> applyToolResultSafetyCap (applyToolResultSafetyCap (cpResult (u ''ok''))) = applyToolResultSafetyCap (cpResult (u ''ok''))"
  by (rule safety_cap_keeps_both_ends) simp

theorem storing_again_changes_nothing_witness:
  "pdMessage (transformToolResultForPersistence cpRuntime
       (pdMessage (transformToolResultForPersistence cpRuntime (cpResult (u ''ok'')) basePrunerConfig 9 False)) basePrunerConfig 9 False)
     = pdMessage (transformToolResultForPersistence cpRuntime (cpResult (u ''ok'')) basePrunerConfig 9 False)"
  by (rule storing_again_changes_nothing) (simp add: basePrunerConfig_def)

theorem first_turns_stored_raw_witness:
  "onToolResultPersist cpRuntime basePrunerConfig (cpResult (u ''ok'')) (Some (u ''s'')) None False
     (fold applyHook [SessionStart (Some (u ''t'')) None, MessageWrite (VObject [(u ''role'', VText (u ''assistant''))]) (Some (u ''s'')) None]
        (onSessionStart (Some (u ''s'')) None [])) = cpResult (u ''ok'')"
  by (rule first_turns_stored_raw) (simp_all add: basePrunerConfig_def u_def)

definition buriedKeyword :: jsval where
  "buriedKeyword = cpResult (replicate 25000 97 @ u ''AGENTS.md'' @ replicate 25000 97)"

lemma not_included: "c \<in> set p \<Longrightarrow> c \<notin> set s \<Longrightarrow> \<not> includes16 s p"
  by (auto simp: includes16_iff)

text \<open>
  A protected keyword in the middle of a long result does not protect it: the keywords are looked for in
  the capped text, so a result that names \<open>AGENTS.md\<close> between its first and last 25,000 characters becomes a
  placeholder under the default settings.
\<close>

theorem keyword_in_cut_part_is_lost:
  "includes16 (cpLower (getToolResultText buriedKeyword)) (cpLower (u ''AGENTS.md''))
   \<and> u ''AGENTS.md'' \<in> set (coalesce (prProtectedContentKeywords basePrunerConfig) contextPrunerDefaultKeywords)
   \<and> pdPlaceholderized (transformToolResultForPersistence cpRuntime buriedKeyword basePrunerConfig 4 False)"
proof -
  let ?t = "replicate 25000 97 @ u ''AGENTS.md'' @ replicate 25000 97 :: text16"
  let ?c = "replicate 25000 97 @ safetyCapMarker @ replicate 25000 97 :: text16"
  have len: "length (u s) = length s" for s by (simp add: u_def)
  have cap: "getToolResultText (applyToolResultSafetyCap buriedKeyword) = ?c"
    using cap_text [of buriedKeyword]
    by (simp add: buriedKeyword_def len toolResultSafetyCapChars_def safetyCapHeadChars_def safetyCapTailChars_def)
  obtain obj where obj: "buriedKeyword = VObject obj" by (simp add: buriedKeyword_def cpResult_def)
  have "applyToolResultSafetyCap buriedKeyword = setMember ''content'' (placeholderContent ?c) buriedKeyword"
    by (simp add: applyToolResultSafetyCap_def Let_def buriedKeyword_def len toolResultSafetyCapChars_def safetyCapHeadChars_def
        safetyCapTailChars_def)
  then have chars: "getToolResultTextChars (applyToolResultSafetyCap buriedKeyword) = length ?c"
    unfolding obj by (simp only: chars_placeholder)
  have t: "getToolResultText buriedKeyword = ?t" by (simp add: buriedKeyword_def)
  have "91 \<notin> set ?t" by (simp add: u_simps)
  then have marker: "\<not> hasPlaceholderMarkerInMessage buriedKeyword"
    unfolding hasPlaceholderMarkerInMessage_def hasPlaceholderMarker_def placeholderMarkers_def t
    using not_included [of 91 _ ?t] by (simp add: u_simps)
  have "46 \<notin> set (cpLower ?c)" "95 \<notin> set (cpLower ?c)" by (simp_all add: cpLower_def safetyCapMarker_def u_simps)
  from not_included [OF _ this(1)] not_included [OF _ this(2)]
  have keyword: "\<not> isProtectedByKeywordInMessage cpRuntime (applyToolResultSafetyCap buriedKeyword) contextPrunerDefaultKeywords"
    unfolding isProtectedByKeywordInMessage_def cap contextPrunerDefaultKeywords_def
    by (simp add: cpRuntime_def) (simp add: cpLower_def u_simps)
  have tool: "isToolResultMessage buriedKeyword" "\<not> isErrorResult buriedKeyword" by (simp_all add: buriedKeyword_def)
  have "duePruning cpRuntime buriedKeyword basePrunerConfig 4 False"
    unfolding duePruning_def using marker tool t keyword by (simp add: basePrunerConfig_def chars)
  moreover have "includes16 (cpLower ?t) (cpLower (u ''AGENTS.md''))"
    unfolding includes16_iff cpLower_def map_append by blast
  ultimately show ?thesis by (simp add: placeholderized_iff t basePrunerConfig_def contextPrunerDefaultKeywords_def)
qed

end
