(* ===== verification/CommandResolution.thy ===== *)
theory CommandResolution
  imports WrapperResolution
begin

text \<open>
  From an argument vector to the file that will run and to the entry of the allowlist that covers it, on a
  POSIX host: \<open>src/src/infra/home-dir.ts\<close>, \<open>executable-path.ts\<close>, \<open>exec-command-resolution.ts\<close> and
  \<open>exec-allowlist-pattern.ts\<close>.

  What the process sees of its host is the record \<open>exec_host\<close>: its working directory and environment, the home
  directory the system reports, which paths are executable files (\<open>fs.statSync\<close>, \<open>fs.accessSync\<close>) and where
  links lead (\<open>fs.realpathSync\<close>). \<open>path.resolve\<close>, \<open>path.join\<close> and \<open>path.basename\<close> of Node are written out for
  POSIX paths. The branches for \<open>process.platform === "win32"\<close> are not modelled, nor are the argument patterns
  of allowlist entries, which only Windows targets use.
\<close>

section \<open>Paths of Node\<close>

definition sep :: char where
  "sep = CHR ''/''"

definition isAbsolute :: "string \<Rightarrow> bool" where
  "isAbsolute p \<longleftrightarrow> startsWith p ''/''"

fun normalizeParts :: "bool \<Rightarrow> string list \<Rightarrow> string list \<Rightarrow> string list" where
  \<comment> \<open>the components of a path, \<open>kept\<close> in reverse order; above the root \<open>..\<close> is dropped\<close>
  "normalizeParts allowAboveRoot kept [] = rev kept"
| "normalizeParts allowAboveRoot kept (p # ps) =
     (if p = [] \<or> p = ''.'' then normalizeParts allowAboveRoot kept ps
      else if p = ''..'' then
        (if kept \<noteq> [] \<and> hd kept \<noteq> ''..'' then normalizeParts allowAboveRoot (tl kept) ps
         else if allowAboveRoot then normalizeParts allowAboveRoot (p # kept) ps
         else normalizeParts allowAboveRoot kept ps)
      else normalizeParts allowAboveRoot (p # kept) ps)"

definition pathResolve :: "string \<Rightarrow> string list \<Rightarrow> string" where
  \<comment> \<open>\<open>path.resolve(...paths)\<close> with the working directory \<open>cwd\<close>\<close>
  "pathResolve cwd paths =
     ''/'' @ joinWith ''/'' (normalizeParts False []
       (concat (map (splitOn sep) (foldl (\<lambda>acc p. if isAbsolute p then [p] else acc @ [p]) [cwd] paths))))"

definition pathJoin :: "string \<Rightarrow> string \<Rightarrow> string" where
  \<comment> \<open>\<open>path.join(entry, name)\<close> of two non-empty strings\<close>
  "pathJoin entry name =
     (let joined = entry @ ''/'' @ name; absolute = isAbsolute joined; trailing = endsWith joined ''/'';
          body = joinWith ''/'' (normalizeParts (\<not> absolute) [] (splitOn sep joined))
      in if body = [] then (if absolute then ''/'' else if trailing then ''./'' else ''.'')
         else (if absolute then ''/'' else []) @ body @ (if trailing then ''/'' else []))"

section \<open>The home directory (\<open>home-dir.ts\<close>)\<close>

type_synonym process_env = "(string, string) jsmap"

record exec_host =
  ehCwd :: string
  ehEnv :: process_env
  ehHomedir :: "string option"
  ehIsFile :: "string \<Rightarrow> bool"
  ehRealpath :: "string \<Rightarrow> string option"

definition normalizeHome :: "string option \<Rightarrow> string option" where
  "normalizeHome v =
     (case v of None \<Rightarrow> None
      | Some s \<Rightarrow> let t = trim s in if t = [] \<or> t = ''undefined'' \<or> t = ''null'' then None else Some t)"

definition resolveRawOsHomeDir :: "process_env \<Rightarrow> string option \<Rightarrow> string option" where
  "resolveRawOsHomeDir env homedir =
     orElse (normalizeHome (mapGet env ''HOME''))
       (orElse (normalizeHome (mapGet env ''USERPROFILE'')) (normalizeHome homedir))"

definition tildeAlone :: "string \<Rightarrow> bool" where
  \<comment> \<open>\<open>/^~(?=$|[\\/])/\<close>\<close>
  "tildeAlone s \<longleftrightarrow> startsWith s ''~'' \<and> (length s = 1 \<or> s ! 1 = sep \<or> s ! 1 = CHR 0x5C)"

fun replacementText :: "string \<Rightarrow> string \<Rightarrow> string" where
  \<comment> \<open>what \<open>String.replace\<close> makes of the dollar patterns in the text put for a leading \<open>~\<close>\<close>
  "replacementText after [] = []"
| "replacementText after [c] = [c]"
| "replacementText after (c # d # r) =
     (if c = CHR ''$'' \<and> d = CHR ''$'' then CHR ''$'' # replacementText after r
      else if c = CHR ''$'' \<and> d = CHR ''&'' then CHR ''~'' # replacementText after r
      else if c = CHR ''$'' \<and> d = CHR 0x60 then replacementText after r
      else if c = CHR ''$'' \<and> d = CHR 0x27 then after @ replacementText after r
      else c # replacementText after (d # r))"

definition replaceTilde :: "string \<Rightarrow> string \<Rightarrow> string" where
  "replaceTilde s home = (if tildeAlone s then replacementText (tl s) home @ tl s else s)"

definition resolveRawHomeDir :: "process_env \<Rightarrow> string option \<Rightarrow> string option" where
  "resolveRawHomeDir env homedir =
     (case orElse (normalizeHome (mapGet env ''DENNOU_HOME'')) (normalizeHome (mapGet env ''OPENCLAW_HOME'')) of
        Some explicitHome \<Rightarrow>
          (if tildeAlone explicitHome then
             (case resolveRawOsHomeDir env homedir of
                Some fallbackHome \<Rightarrow> Some (replaceTilde explicitHome fallbackHome)
              | None \<Rightarrow> None)
           else Some explicitHome)
      | None \<Rightarrow> resolveRawOsHomeDir env homedir)"

definition resolveEffectiveHomeDir :: "exec_host \<Rightarrow> process_env \<Rightarrow> string option" where
  "resolveEffectiveHomeDir h env =
     (case resolveRawHomeDir env (ehHomedir h) of
        None \<Rightarrow> None
      | Some raw \<Rightarrow> if raw = [] then None else Some (pathResolve (ehCwd h) [raw]))"

definition expandHomePrefix :: "exec_host \<Rightarrow> process_env option \<Rightarrow> string \<Rightarrow> string" where
  "expandHomePrefix h env input =
     (if \<not> startsWith input ''~'' then input
      else (case resolveEffectiveHomeDir h (coalesce env (ehEnv h)) of
              None \<Rightarrow> input
            | Some home \<Rightarrow> replaceTilde input home))"

section \<open>Executables (\<open>executable-path.ts\<close>)\<close>

definition hasPathSeparator :: "string \<Rightarrow> bool" where
  "hasPathSeparator p \<longleftrightarrow> sep \<in> set p \<or> CHR 0x5C \<in> set p"

definition cwdBase :: "exec_host \<Rightarrow> string option \<Rightarrow> string" where
  \<comment> \<open>\<open>cwd && cwd.trim() ? cwd.trim() : process.cwd()\<close>\<close>
  "cwdBase h cwd = coalesce (trimmed cwd) (ehCwd h)"

definition resolveExecutablePathCandidate ::
  "exec_host \<Rightarrow> string option \<Rightarrow> process_env option \<Rightarrow> bool \<Rightarrow> string \<Rightarrow> string option" where
  "resolveExecutablePathCandidate h cwd env requirePathSeparator rawExecutable =
     (let expanded = (if startsWith rawExecutable ''~'' then expandHomePrefix h env rawExecutable else rawExecutable);
          separator = hasPathSeparator expanded
      in if requirePathSeparator \<and> \<not> separator then None
         else if \<not> separator then Some expanded
         else if isAbsolute expanded then Some expanded
         else Some (pathResolve (ehCwd h) [cwdBase h cwd, expanded]))"

fun resolveExecutableFromPathEnv :: "exec_host \<Rightarrow> string \<Rightarrow> string list \<Rightarrow> string option" where
  \<comment> \<open>the loop over the entries of \<open>PATH\<close>; the one extension tried is the empty one\<close>
  "resolveExecutableFromPathEnv h executable [] = None"
| "resolveExecutableFromPathEnv h executable (entry # entries) =
     (let candidate = pathJoin entry executable
      in if ehIsFile h candidate then Some candidate else resolveExecutableFromPathEnv h executable entries)"

definition envPathOf :: "exec_host \<Rightarrow> process_env option \<Rightarrow> string" where
  "envPathOf h env =
     (let own = coalesce env []
      in coalesce (orElse (mapGet own ''PATH'') (orElse (mapGet own ''Path'')
           (orElse (mapGet (ehEnv h) ''PATH'') (mapGet (ehEnv h) ''Path'')))) [])"

definition resolveExecutablePath :: "exec_host \<Rightarrow> string option \<Rightarrow> process_env option \<Rightarrow> string \<Rightarrow> string option" where
  "resolveExecutablePath h cwd env rawExecutable =
     (case resolveExecutablePathCandidate h cwd env False rawExecutable of
        None \<Rightarrow> None
      | Some candidate \<Rightarrow>
          if candidate = [] then None
          else if hasPathSeparator candidate then (if ehIsFile h candidate then Some candidate else None)
          else resolveExecutableFromPathEnv h candidate
                 (filter (\<lambda>entry. entry \<noteq> []) (splitOn (CHR '':'') (envPathOf h env))))"

section \<open>Resolution of a command (\<open>exec-command-resolution.ts\<close>)\<close>

record executable_resolution =
  erRawExecutable :: string
  erResolvedPath :: "string option"
  erResolvedRealPath :: "string option"
  erExecutableName :: string

record command_resolution =
  crExecution :: executable_resolution
  crPolicy :: executable_resolution
  crEffectiveArgv :: "string list"
  crWrapperChain :: "string list"
  crPolicyBlocked :: bool
  crBlockedWrapper :: "string option"

definition parseFirstToken :: "string \<Rightarrow> string option" where
  "parseFirstToken command =
     (let t = trim command
      in case t of [] \<Rightarrow> None
         | first # r \<Rightarrow>
             if first = CHR 0x22 \<or> first = CHR 0x27 then
               (let token = takeWhile (\<lambda>c. c \<noteq> first) r
                in if first \<in> set r \<and> token \<noteq> [] then Some token else Some r)
             else Some (takeWhile (\<lambda>c. \<not> jsWhitespace c) t))"

definition tryResolveRealpath :: "exec_host \<Rightarrow> string option \<Rightarrow> string option" where
  "tryResolveRealpath h filePath = (if truthy filePath then ehRealpath h (the filePath) else None)"

definition buildExecutableResolution ::
  "exec_host \<Rightarrow> string option \<Rightarrow> process_env option \<Rightarrow> string \<Rightarrow> executable_resolution" where
  "buildExecutableResolution h cwd env rawExecutable =
     (let resolvedPath = resolveExecutablePath h cwd env rawExecutable
      in \<lparr>erRawExecutable = rawExecutable, erResolvedPath = resolvedPath,
          erResolvedRealPath = tryResolveRealpath h resolvedPath,
          erExecutableName = (case resolvedPath of None \<Rightarrow> rawExecutable
             | Some p \<Rightarrow> if p = [] then rawExecutable else posixBasename p)\<rparr>)"

definition buildCommandResolution ::
  "exec_host \<Rightarrow> string option \<Rightarrow> process_env option \<Rightarrow> string \<Rightarrow> string option \<Rightarrow> string list \<Rightarrow> string list \<Rightarrow> bool \<Rightarrow>
   string option \<Rightarrow> command_resolution" where
  "buildCommandResolution h cwd env rawExecutable policyRawExecutable effectiveArgv wrapperChain policyBlocked blockedWrapper =
     (let execution = buildExecutableResolution h cwd env rawExecutable
      in \<lparr>crExecution = execution,
          crPolicy = (if truthy policyRawExecutable then buildExecutableResolution h cwd env (the policyRawExecutable)
                      else execution),
          crEffectiveArgv = effectiveArgv, crWrapperChain = wrapperChain, crPolicyBlocked = policyBlocked,
          crBlockedWrapper = blockedWrapper\<rparr>)"

definition resolveCommandResolution ::
  "exec_host \<Rightarrow> string option \<Rightarrow> process_env option \<Rightarrow> string \<Rightarrow> command_resolution option" where
  "resolveCommandResolution h cwd env command =
     (case parseFirstToken command of
        None \<Rightarrow> None
      | Some rawExecutable \<Rightarrow>
          if rawExecutable = [] then None
          else Some (buildCommandResolution h cwd env rawExecutable None [rawExecutable] [] False None))"

definition resolveCommandResolutionFromArgv ::
  "exec_host \<Rightarrow> string \<Rightarrow> string option \<Rightarrow> process_env option \<Rightarrow> string list \<Rightarrow> command_resolution option" where
  \<comment> \<open>\<open>host\<close> is \<open>process.platform\<close>, on which the wrappers depend\<close>
  "resolveCommandResolutionFromArgv h host cwd env argv =
     (let plan = resolveExecWrapperTrustPlan host argv maxDispatchWrapperDepth;
          trimmedHead = (\<lambda>a. case a of [] \<Rightarrow> None | x # _ \<Rightarrow> Some (trim x));
          rawExecutable = trimmedHead (epArgv plan)
      in if truthy rawExecutable then
           Some (buildCommandResolution h cwd env (the rawExecutable) (trimmedHead (epPolicyArgv plan))
                   (epArgv plan) (epWrapperChain plan) (epPolicyBlocked plan) (epBlockedWrapper plan))
         else None)"

definition candidatePathOf :: "exec_host \<Rightarrow> string option \<Rightarrow> executable_resolution option \<Rightarrow> string option" where
  "candidatePathOf h cwd resolution =
     (case resolution of
        None \<Rightarrow> None
      | Some r \<Rightarrow>
          if truthy (erResolvedPath r) then erResolvedPath r
          else (let raw = trim (erRawExecutable r)
                in if raw = [] then None else resolveExecutablePathCandidate h cwd None True raw))"

definition resolveExecutionTargetResolution :: "command_resolution option \<Rightarrow> executable_resolution option" where
  "resolveExecutionTargetResolution resolution = map_option crExecution resolution"

definition resolvePolicyTargetResolution :: "command_resolution option \<Rightarrow> executable_resolution option" where
  "resolvePolicyTargetResolution resolution = map_option crPolicy resolution"

definition resolveExecutionTargetCandidatePath :: "exec_host \<Rightarrow> string option \<Rightarrow> command_resolution option \<Rightarrow> string option" where
  "resolveExecutionTargetCandidatePath h cwd resolution = candidatePathOf h cwd (map_option crExecution resolution)"

definition resolvePolicyTargetCandidatePath :: "exec_host \<Rightarrow> string option \<Rightarrow> command_resolution option \<Rightarrow> string option" where
  "resolvePolicyTargetCandidatePath h cwd resolution = candidatePathOf h cwd (map_option crPolicy resolution)"

definition resolveApprovalAuditCandidatePath :: "exec_host \<Rightarrow> string option \<Rightarrow> command_resolution option \<Rightarrow> string option" where
  "resolveApprovalAuditCandidatePath h cwd resolution = resolvePolicyTargetCandidatePath h cwd resolution"

section \<open>Patterns of allowlist entries (\<open>exec-allowlist-pattern.ts\<close>)\<close>

definition isLineEnd :: "char \<Rightarrow> bool" where
  \<comment> \<open>what \<open>.\<close> of a regular expression leaves out, among the 8-bit characters\<close>
  "isLineEnd c \<longleftrightarrow> c = CHR 0x0A \<or> c = CHR 0x0D"

fun globMatch :: "string \<Rightarrow> string \<Rightarrow> bool" where
  \<comment> \<open>\<open>compileGlobRegex(pattern).test(target)\<close>: two stars are \<open>.*\<close>, one is \<open>[^/]*\<close>, a question mark \<open>[^/]\<close>, every
      other character stands for itself\<close>
  "globMatch [] t = (t = [])"
| "globMatch (p # ps) t =
     (if p = CHR ''*'' then
        (case ps of
           q # ps' \<Rightarrow>
             if q = CHR ''*'' then
               globMatch ps' t \<or> (case t of [] \<Rightarrow> False | c # r \<Rightarrow> \<not> isLineEnd c \<and> globMatch (p # ps) r)
             else globMatch ps t \<or> (case t of [] \<Rightarrow> False | c # r \<Rightarrow> c \<noteq> sep \<and> globMatch (p # ps) r)
         | [] \<Rightarrow> globMatch ps t \<or> (case t of [] \<Rightarrow> False | c # r \<Rightarrow> c \<noteq> sep \<and> globMatch (p # ps) r))
      else (case t of
              [] \<Rightarrow> False
            | c # r \<Rightarrow> (if p = CHR ''?'' then c \<noteq> sep else c = p) \<and> globMatch ps r))"

fun normalizeMatchTarget :: "string \<Rightarrow> string" where
  \<comment> \<open>\<open>value.replace(/\\\\/g, "/")\<close>: two backslashes become a slash\<close>
  "normalizeMatchTarget (c # d # r) =
     (if c = CHR 0x5C \<and> d = CHR 0x5C then sep # normalizeMatchTarget r else c # normalizeMatchTarget (d # r))"
| "normalizeMatchTarget r = r"

definition matchesExecAllowlistPattern :: "exec_host \<Rightarrow> string \<Rightarrow> string \<Rightarrow> bool" where
  "matchesExecAllowlistPattern h pattern target =
     (let p = trim pattern
      in if p = [] then False
         else globMatch (normalizeMatchTarget (if startsWith p ''~'' then expandHomePrefix h None p else p))
                (normalizeMatchTarget target))"

section \<open>The allowlist (\<open>matchAllowlist\<close>)\<close>

record allowlist_entry =
  alId :: "string option"
  alPattern :: string
  alSource :: "string option"
  alCommandText :: "string option"
  alArgPattern :: "string option"
  alLastUsedAt :: "int option"
  alLastUsedCommand :: "string option"
  alLastResolvedPath :: "string option"

definition pathPattern :: "string \<Rightarrow> bool" where
  "pathPattern p \<longleftrightarrow> sep \<in> set p \<or> CHR 0x5C \<in> set p \<or> CHR ''~'' \<in> set p"

definition matchAllowlist :: "exec_host \<Rightarrow> allowlist_entry list \<Rightarrow> executable_resolution option \<Rightarrow> allowlist_entry option" where
  "matchAllowlist h entries resolution =
     (let bareWild = find (\<lambda>e. trim (alPattern e) = ''*'' \<and> \<not> truthy (alArgPattern e)) entries
      in case resolution of
           None \<Rightarrow> None
         | Some r \<Rightarrow>
             if bareWild \<noteq> None then bareWild
             else if \<not> truthy (erResolvedPath r) then None
             else find (\<lambda>e. let p = trim (alPattern e)
                            in p \<noteq> [] \<and> pathPattern p \<and> matchesExecAllowlistPattern h p (the (erResolvedPath r))) entries)"

section \<open>Argument tokens (\<open>parseExecArgvToken\<close>)\<close>

datatype exec_argv_token =
    EmptyToken
  | Terminator
  | StdinToken
  | Positional string
  | LongOption string "string option"
  | ShortCluster string "string list"

definition parseExecArgvToken :: "string \<Rightarrow> exec_argv_token" where
  "parseExecArgvToken raw =
     (if raw = [] then EmptyToken
      else if raw = ''--'' then Terminator
      else if raw = ''-'' then StdinToken
      else if \<not> startsWith raw ''-'' then Positional raw
      else if startsWith raw ''--'' then
        (if CHR ''='' \<in> set raw then
           LongOption (takeWhile (\<lambda>c. c \<noteq> CHR ''='') raw) (Some (tl (dropWhile (\<lambda>c. c \<noteq> CHR ''='') raw)))
         else LongOption raw None)
      else ShortCluster (tl raw) (map (\<lambda>c. [CHR ''-'', c]) (tl raw)))"

end
