(* ===== verification/ShellAnalysis.thy ===== *)
theory ShellAnalysis
  imports CommandResolution
begin

text \<open>
  What a shell command is made of: \<open>src/src/utils/shell-argv.ts\<close> and
  \<open>src/src/infra/exec-approvals-analysis.ts\<close> for targets other than Windows.

  A command is cut at \<open>&&\<close>, \<open>||\<close> and \<open>;\<close> into parts, a part at \<open>|\<close> into segments, a segment into the words of
  its argument vector; the same cuts serve to build the command that is run instead of the one that was asked
  for. The scanners are loops over the characters with flags; here they take the text that is left and, where
  the source looks back one position, the character before it. A loop that returns early gives \<open>Inl\<close> of the
  reason.
\<close>

section \<open>Characters\<close>

abbreviation backslash :: char where "backslash \<equiv> CHR 0x5C"
abbreviation singleQuote :: char where "singleQuote \<equiv> CHR 0x27"
abbreviation doubleQuote :: char where "doubleQuote \<equiv> CHR 0x22"
abbreviation backtick :: char where "backtick \<equiv> CHR 0x60"
abbreviation newline :: char where "newline \<equiv> CHR 0x0A"
abbreviation carriage :: char where "carriage \<equiv> CHR 0x0D"

section \<open>The words of a segment (\<open>splitShellArgs\<close>)\<close>

definition argQuoteEscape :: "char \<Rightarrow> bool" where
  \<comment> \<open>\<open>DOUBLE_QUOTE_ESCAPES\<close> of \<open>shell-argv.ts\<close>\<close>
  "argQuoteEscape c \<longleftrightarrow> c \<in> {backslash, doubleQuote, CHR ''$'', backtick, newline, carriage}"

definition pushToken :: "string \<Rightarrow> string list \<Rightarrow> string list" where
  "pushToken buf tokens = (if buf \<noteq> [] then tokens @ [buf] else tokens)"

fun argsLoop :: "bool \<Rightarrow> bool \<Rightarrow> bool \<Rightarrow> string \<Rightarrow> string list \<Rightarrow> string \<Rightarrow> string list option" where
  "argsLoop escaped inSingle inDouble buf tokens [] =
     (if escaped \<or> inSingle \<or> inDouble then None else Some (pushToken buf tokens))"
| "argsLoop escaped inSingle inDouble buf tokens (ch # rest) =
     (if escaped then argsLoop False inSingle inDouble (buf @ [ch]) tokens rest
      else if \<not> inSingle \<and> \<not> inDouble \<and> ch = backslash then argsLoop True inSingle inDouble buf tokens rest
      else if inSingle then
        (if ch = singleQuote then argsLoop escaped False inDouble buf tokens rest
         else argsLoop escaped inSingle inDouble (buf @ [ch]) tokens rest)
      else if inDouble then
        (case rest of
           n # rest' \<Rightarrow>
             if ch = backslash \<and> argQuoteEscape n then argsLoop escaped inSingle inDouble (buf @ [n]) tokens rest'
             else if ch = doubleQuote then argsLoop escaped inSingle False buf tokens rest
             else argsLoop escaped inSingle inDouble (buf @ [ch]) tokens rest
         | [] \<Rightarrow>
             if ch = doubleQuote then argsLoop escaped inSingle False buf tokens rest
             else argsLoop escaped inSingle inDouble (buf @ [ch]) tokens rest)
      else if ch = singleQuote then argsLoop escaped True inDouble buf tokens rest
      else if ch = doubleQuote then argsLoop escaped inSingle True buf tokens rest
      else if ch = CHR ''#'' \<and> buf = [] then Some (pushToken buf tokens)
      else if jsWhitespace ch then argsLoop escaped inSingle inDouble [] (pushToken buf tokens) rest
      else argsLoop escaped inSingle inDouble (buf @ [ch]) tokens rest)"

definition splitShellArgs :: "string \<Rightarrow> string list option" where
  "splitShellArgs raw = argsLoop False False False [] [] raw"

section \<open>The segments of a pipeline (\<open>splitShellPipeline\<close>)\<close>

definition quoteEscape :: "char \<Rightarrow> bool" where
  \<comment> \<open>\<open>DOUBLE_QUOTE_ESCAPES\<close> of \<open>exec-approvals-analysis.ts\<close>\<close>
  "quoteEscape c \<longleftrightarrow> c \<in> {backslash, doubleQuote, CHR ''$'', backtick}"

definition isEscapedLineContinuation :: "char option \<Rightarrow> bool" where
  "isEscapedLineContinuation n \<longleftrightarrow> n = Some newline \<or> n = Some carriage"

definition isShellCommentStart :: "char \<Rightarrow> char option \<Rightarrow> bool" where
  \<comment> \<open>the character at the index and the one before it, if any\<close>
  "isShellCommentStart ch prev \<longleftrightarrow> ch = CHR ''#'' \<and> (case prev of None \<Rightarrow> True | Some p \<Rightarrow> jsWhitespace p)"

definition disallowedPipelineToken :: "char \<Rightarrow> bool" where
  "disallowedPipelineToken c \<longleftrightarrow> c \<in> {CHR ''>'', CHR ''<'', backtick, newline, carriage, CHR ''('', CHR '')''}"

record heredoc_spec =
  hdDelimiter :: string
  hdStripTabs :: bool
  hdQuoted :: bool

fun quotedDelimiter :: "char \<Rightarrow> string \<Rightarrow> string \<Rightarrow> (string \<times> string) option" where
  \<comment> \<open>the delimiter and the text after its closing quote\<close>
  "quotedDelimiter quote delimiter [] = None"
| "quotedDelimiter quote delimiter (ch # rest) =
     (if ch = newline \<or> ch = carriage then None
      else (case rest of
              n # rest' \<Rightarrow>
                if quote = doubleQuote \<and> ch = backslash then quotedDelimiter quote (delimiter @ [n]) rest'
                else if ch = quote then Some (delimiter, rest)
                else quotedDelimiter quote (delimiter @ [ch]) rest
            | [] \<Rightarrow> if ch = quote then Some (delimiter, rest) else quotedDelimiter quote (delimiter @ [ch]) rest))"

definition delimiterEnd :: "char \<Rightarrow> bool" where
  "delimiterEnd c \<longleftrightarrow> jsWhitespace c \<or> c \<in> {CHR ''|'', CHR ''&'', CHR '';'', CHR ''<'', CHR ''>''}"

definition parseHeredocDelimiter :: "string \<Rightarrow> (string \<times> bool \<times> string) option" where
  \<comment> \<open>delimiter, \<open>quoted\<close> and the text from \<open>end\<close> on\<close>
  "parseHeredocDelimiter source =
     (let s = dropWhile (\<lambda>c. c = CHR '' '' \<or> c = CHR 0x09) source
      in case s of [] \<Rightarrow> None
         | first # rest \<Rightarrow>
             if first = singleQuote \<or> first = doubleQuote then
               (case quotedDelimiter first [] rest of
                  None \<Rightarrow> None | Some (delimiter, after) \<Rightarrow> Some (delimiter, True, after))
             else (let delimiter = takeWhile (\<lambda>c. \<not> delimiterEnd c) s
                   in if delimiter = [] then None
                      else Some (delimiter, False, dropWhile (\<lambda>c. \<not> delimiterEnd c) s)))"

fun expansionInLine :: "bool \<Rightarrow> string \<Rightarrow> bool" where
  \<comment> \<open>\<open>hasUnquotedHeredocExpansionToken\<close>; the flag says that an odd number of backslashes comes before\<close>
  "expansionInLine escaped [] = False"
| "expansionInLine escaped (ch # rest) =
     ((ch = backtick \<and> \<not> escaped) \<or>
      (ch = CHR ''$'' \<and> \<not> escaped \<and> (case rest of [] \<Rightarrow> False | n # _ \<Rightarrow> n = CHR ''('' \<or> n = CHR ''{'')) \<or>
      expansionInLine (ch = backslash \<and> \<not> escaped) rest)"

record pipe_state =
  ppSegments :: "string list"
  ppBuf :: string
  ppSingle :: bool
  ppDouble :: bool
  ppEscaped :: bool
  ppEmpty :: bool
  ppPending :: "heredoc_spec list"
  ppBody :: bool
  ppLine :: string

definition emptyPipe :: pipe_state where
  "emptyPipe = \<lparr>ppSegments = [], ppBuf = [], ppSingle = False, ppDouble = False, ppEscaped = False, ppEmpty = False,
     ppPending = [], ppBody = False, ppLine = []\<rparr>"

definition pushPart :: "pipe_state \<Rightarrow> pipe_state" where
  "pushPart st =
     st\<lparr>ppSegments := (if trim (ppBuf st) \<noteq> [] then ppSegments st @ [trim (ppBuf st)] else ppSegments st), ppBuf := []\<rparr>"

definition addText :: "string \<Rightarrow> pipe_state \<Rightarrow> pipe_state" where
  \<comment> \<open>\<open>buf += text; emptySegment = false\<close>\<close>
  "addText s st = st\<lparr>ppBuf := ppBuf st @ s, ppEmpty := False\<rparr>"

definition heredocLineOf :: "heredoc_spec \<Rightarrow> string \<Rightarrow> string" where
  "heredocLineOf spec line = (if hdStripTabs spec then dropWhile (\<lambda>c. c = CHR 0x09) line else line)"

definition heredocLineEnd :: "pipe_state \<Rightarrow> string + pipe_state" where
  "heredocLineEnd st =
     (let st1 = (case ppPending st of
                   [] \<Rightarrow> Inr st
                 | current # others \<Rightarrow>
                     if heredocLineOf current (ppLine st) = hdDelimiter current then Inr (st\<lparr>ppPending := others\<rparr>)
                     else if \<not> hdQuoted current \<and> expansionInLine False (ppLine st) then
                       Inl ''command substitution in unquoted heredoc''
                     else Inr st)
      in case st1 of Inl reason \<Rightarrow> Inl reason
         | Inr s \<Rightarrow> Inr (s\<lparr>ppLine := [], ppBody := (if ppPending s = [] then False else ppBody s)\<rparr>))"

definition nextOf :: "string \<Rightarrow> char option" where
  "nextOf rest = (case rest of [] \<Rightarrow> None | n # _ \<Rightarrow> Some n)"

definition unsupportedToken :: "string \<Rightarrow> string" where
  "unsupportedToken t = ''unsupported shell token: '' @ t"

lemma quotedDelimiter_shorter: "quotedDelimiter q d s = Some (d', r) \<Longrightarrow> length r < length s"
  by (induction q d s rule: quotedDelimiter.induct) (auto split: if_splits list.splits)

lemma parseHeredocDelimiter_shorter: "parseHeredocDelimiter s = Some (d, q, r) \<Longrightarrow> length r < length s"
proof -
  assume a: "parseHeredocDelimiter s = Some (d, q, r)"
  define t where "t = dropWhile (\<lambda>c. c = CHR '' '' \<or> c = CHR 0x09) s"
  have len: "length t \<le> length s" by (simp add: t_def length_dropWhile_le)
  show "length r < length s"
  proof (cases t)
    case Nil
    then show ?thesis using a unfolding parseHeredocDelimiter_def Let_def t_def[symmetric] by simp
  next
    case (Cons f u)
    have "length r < length t"
    proof (cases "f = singleQuote \<or> f = doubleQuote")
      case True
      then show ?thesis using a Cons quotedDelimiter_shorter
        by (fastforce simp: parseHeredocDelimiter_def t_def[symmetric] split: option.splits)
    next
      case False
      then have r: "r = dropWhile (\<lambda>c. \<not> delimiterEnd c) t" and "takeWhile (\<lambda>c. \<not> delimiterEnd c) t \<noteq> []"
        using a Cons by (auto simp: parseHeredocDelimiter_def t_def[symmetric] Let_def split: if_splits)
      then show ?thesis
        by (metis length_append length_greater_0_conv less_add_same_cancel2 takeWhile_dropWhile_id)
    qed
    then show ?thesis using len by simp
  qed
qed


function pipeLoop :: "pipe_state \<Rightarrow> char option \<Rightarrow> string \<Rightarrow> string + pipe_state" where
  "pipeLoop st prev [] = Inr st"
| "pipeLoop st prev (ch # rest) =
     (if ppBody st then
        (if ch = newline \<or> ch = carriage then
           (case heredocLineEnd st of
              Inl reason \<Rightarrow> Inl reason
            | Inr st' \<Rightarrow>
                if ch = carriage \<and> nextOf rest = Some newline then pipeLoop st' (Some newline) (tl rest)
                else pipeLoop st' (Some ch) rest)
         else pipeLoop (st\<lparr>ppLine := ppLine st @ [ch]\<rparr>) (Some ch) rest)
      else if ppEscaped st then pipeLoop (addText [ch] (st\<lparr>ppEscaped := False\<rparr>)) (Some ch) rest
      else if \<not> ppSingle st \<and> \<not> ppDouble st \<and> ch = backslash then
        pipeLoop (addText [ch] (st\<lparr>ppEscaped := True\<rparr>)) (Some ch) rest
      else if ppSingle st then
        pipeLoop (addText [ch] (st\<lparr>ppSingle := ch \<noteq> singleQuote\<rparr>)) (Some ch) rest
      else if ppDouble st then
        (if ch = backslash \<and> isEscapedLineContinuation (nextOf rest) then Inl (unsupportedToken ''newline'')
         else if ch = backslash \<and> rest \<noteq> [] \<and> quoteEscape (hd rest) then
           pipeLoop (addText [ch, hd rest] st) (Some (hd rest)) (tl rest)
         else if ch = CHR ''$'' \<and> nextOf rest = Some (CHR ''('') then Inl (unsupportedToken ''$()'')
         else if ch = backtick then Inl (unsupportedToken [backtick])
         else if ch = newline \<or> ch = carriage then Inl (unsupportedToken ''newline'')
         else pipeLoop (addText [ch] (st\<lparr>ppDouble := ch \<noteq> doubleQuote\<rparr>)) (Some ch) rest)
      else if ch = singleQuote then pipeLoop (addText [ch] (st\<lparr>ppSingle := True\<rparr>)) (Some ch) rest
      else if ch = doubleQuote then pipeLoop (addText [ch] (st\<lparr>ppDouble := True\<rparr>)) (Some ch) rest
      else if isShellCommentStart ch prev then Inr st
      else if (ch = newline \<or> ch = carriage) \<and> ppPending st \<noteq> [] then
        (let st' = st\<lparr>ppBody := True, ppLine := []\<rparr>
         in if ch = carriage \<and> nextOf rest = Some newline then pipeLoop st' (Some newline) (tl rest)
            else pipeLoop st' (Some ch) rest)
      else if ch = CHR ''|'' \<and> nextOf rest = Some (CHR ''|'') then Inl (unsupportedToken ''||'')
      else if ch = CHR ''|'' \<and> nextOf rest = Some (CHR ''&'') then Inl (unsupportedToken ''|&'')
      else if ch = CHR ''|'' then pipeLoop (pushPart (st\<lparr>ppEmpty := True\<rparr>)) (Some ch) rest
      else if ch = CHR ''&'' \<or> ch = CHR '';'' then Inl (unsupportedToken [ch])
      else if ch = CHR ''<'' \<and> nextOf rest = Some (CHR ''<'') then
        (let after = tl rest; stripTabs = (nextOf after = Some (CHR ''-''));
             scan = (if stripTabs then tl after else after);
             st' = addText (''<<'' @ (if stripTabs then ''-'' else [])) st
         in case parseHeredocDelimiter scan of
              None \<Rightarrow> pipeLoop st' (Some ch) after
            | Some (delimiter, quoted, left) \<Rightarrow>
                (let consumed = take (length scan - length left) scan
                 in pipeLoop (st'\<lparr>ppBuf := ppBuf st' @ consumed,
                       ppPending := ppPending st' @ [\<lparr>hdDelimiter = delimiter, hdStripTabs = stripTabs, hdQuoted = quoted\<rparr>]\<rparr>)
                      (Some (last consumed)) left))
      else if disallowedPipelineToken ch then Inl (unsupportedToken [ch])
      else if ch = CHR ''$'' \<and> nextOf rest = Some (CHR ''('') then Inl (unsupportedToken ''$()'')
      else pipeLoop (addText [ch] st) (Some ch) rest)"
  by pat_completeness auto
termination
  by (relation "measure (\<lambda>(st, prev, s). length s)")
     (auto simp: nextOf_def dest!: parseHeredocDelimiter_shorter split: list.splits if_splits)

definition pipeEnd :: "pipe_state \<Rightarrow> string + string list" where
  \<comment> \<open>what comes after the loop of \<open>splitShellPipeline\<close>\<close>
  "pipeEnd st =
     (let st1 = (case ppPending st of
                   [] \<Rightarrow> st
                 | current # others \<Rightarrow>
                     if ppBody st \<and> heredocLineOf current (ppLine st) = hdDelimiter current then
                       st\<lparr>ppPending := others, ppBody := (if others = [] then False else ppBody st)\<rparr>
                     else st);
          st2 = pushPart st1
      in if ppPending st1 \<noteq> [] \<or> ppBody st1 then Inl ''unterminated heredoc''
         else if ppEscaped st1 \<or> ppSingle st1 \<or> ppDouble st1 then Inl ''unterminated shell quote/escape''
         else if ppEmpty st2 \<or> ppSegments st2 = [] then
           Inl (if ppSegments st2 = [] then ''empty command'' else ''empty pipeline segment'')
         else Inr (ppSegments st2))"

definition splitShellPipeline :: "string \<Rightarrow> string + string list" where
  "splitShellPipeline command =
     (case pipeLoop emptyPipe None command of Inl reason \<Rightarrow> Inl reason | Inr st \<Rightarrow> pipeEnd st)"

section \<open>The parts of a chain (\<open>splitCommandChainWithOperators\<close>)\<close>

type_synonym chain_part = "string \<times> string option"

record chain_state =
  ccParts :: "chain_part list"
  ccBuf :: string
  ccSingle :: bool
  ccDouble :: bool
  ccEscaped :: bool
  ccFound :: bool
  ccInvalid :: bool

definition emptyChain :: chain_state where
  "emptyChain = \<lparr>ccParts = [], ccBuf = [], ccSingle = False, ccDouble = False, ccEscaped = False, ccFound = False,
     ccInvalid = False\<rparr>"

definition chainText :: "string \<Rightarrow> chain_state \<Rightarrow> chain_state" where
  "chainText s st = st\<lparr>ccBuf := ccBuf st @ s\<rparr>"

definition pushChain :: "string \<Rightarrow> chain_state \<Rightarrow> chain_state" where
  \<comment> \<open>\<open>pushPart(op)\<close>, then \<open>foundChain = true\<close>\<close>
  "pushChain op st =
     (let t = trim (ccBuf st)
      in if t = [] then st\<lparr>ccBuf := [], ccInvalid := True, ccFound := True\<rparr>
         else st\<lparr>ccBuf := [], ccParts := ccParts st @ [(t, Some op)], ccFound := True\<rparr>)"

function chainLoop :: "chain_state \<Rightarrow> char option \<Rightarrow> string \<Rightarrow> chain_state" where
  "chainLoop st prev [] = st"
| "chainLoop st prev (ch # rest) =
     (if ccEscaped st then chainLoop (chainText [ch] (st\<lparr>ccEscaped := False\<rparr>)) (Some ch) rest
      else if \<not> ccSingle st \<and> \<not> ccDouble st \<and> ch = backslash then
        chainLoop (chainText [ch] (st\<lparr>ccEscaped := True\<rparr>)) (Some ch) rest
      else if ccSingle st then
        chainLoop (chainText [ch] (st\<lparr>ccSingle := ch \<noteq> singleQuote\<rparr>)) (Some ch) rest
      else if ccDouble st then
        (if ch = backslash \<and> isEscapedLineContinuation (nextOf rest) then st\<lparr>ccInvalid := True\<rparr>
         else if ch = backslash \<and> rest \<noteq> [] \<and> quoteEscape (hd rest) then
           chainLoop (chainText [ch, hd rest] st) (Some (hd rest)) (tl rest)
         else chainLoop (chainText [ch] (st\<lparr>ccDouble := ch \<noteq> doubleQuote\<rparr>)) (Some ch) rest)
      else if ch = singleQuote then chainLoop (chainText [ch] (st\<lparr>ccSingle := True\<rparr>)) (Some ch) rest
      else if ch = doubleQuote then chainLoop (chainText [ch] (st\<lparr>ccDouble := True\<rparr>)) (Some ch) rest
      else if isShellCommentStart ch prev then st
      else if ch = CHR ''&'' \<and> nextOf rest = Some (CHR ''&'') then
        chainLoop (pushChain ''&&'' st) (Some (CHR ''&'')) (tl rest)
      else if ch = CHR ''|'' \<and> nextOf rest = Some (CHR ''|'') then
        chainLoop (pushChain ''||'' st) (Some (CHR ''|'')) (tl rest)
      else if ch = CHR '';'' then chainLoop (pushChain '';'' st) (Some ch) rest
      else chainLoop (chainText [ch] st) (Some ch) rest)"
  by pat_completeness auto
termination
  by (relation "measure (\<lambda>(st, prev, s). length s)") (auto simp: nextOf_def split: list.splits)

definition splitCommandChainWithOperators :: "string \<Rightarrow> chain_part list option" where
  "splitCommandChainWithOperators command =
     (let st = chainLoop emptyChain None command; t = trim (ccBuf st)
      in if \<not> ccFound st \<or> t = [] \<or> ccInvalid st then None else Some (ccParts st @ [(t, None)]))"

definition splitCommandChain :: "string \<Rightarrow> string list option" where
  "splitCommandChain command = map_option (map fst) (splitCommandChainWithOperators command)"

section \<open>Analysis (\<open>analyzeShellCommand\<close>, \<open>analyzeArgvCommand\<close>)\<close>

record exec_segment =
  sgRaw :: string
  sgArgv :: "string list"
  sgResolution :: "command_resolution option"

record exec_analysis =
  anSegments :: "exec_segment list"
  anChains :: "exec_segment list list option"

type_synonym resolver = "string list \<Rightarrow> command_resolution option"
  \<comment> \<open>\<open>resolveCommandResolutionFromArgv\<close> at the host, directory and environment of the call\<close>

fun parseSegmentsFromParts :: "resolver \<Rightarrow> string list \<Rightarrow> exec_segment list option" where
  "parseSegmentsFromParts resolve [] = Some []"
| "parseSegmentsFromParts resolve (raw # parts) =
     (case splitShellArgs raw of
        None \<Rightarrow> None
      | Some argv \<Rightarrow>
          if argv = [] then None
          else map_option (\<lambda>segs. \<lparr>sgRaw = raw, sgArgv = argv, sgResolution = resolve argv\<rparr> # segs)
                 (parseSegmentsFromParts resolve parts))"

definition analyzePipeline :: "resolver \<Rightarrow> string \<Rightarrow> string + exec_segment list" where
  \<comment> \<open>\<open>splitShellPipeline\<close> and \<open>parseSegmentsFromParts\<close> on one part\<close>
  "analyzePipeline resolve part =
     (case splitShellPipeline part of
        Inl reason \<Rightarrow> Inl reason
      | Inr raws \<Rightarrow> (case parseSegmentsFromParts resolve raws of
                       None \<Rightarrow> Inl ''unable to parse shell segment'' | Some segs \<Rightarrow> Inr segs))"

fun analyzeParts :: "resolver \<Rightarrow> string list \<Rightarrow> string + exec_segment list list" where
  "analyzeParts resolve [] = Inr []"
| "analyzeParts resolve (part # parts) =
     (case analyzePipeline resolve part of
        Inl reason \<Rightarrow> Inl reason
      | Inr segs \<Rightarrow> (case analyzeParts resolve parts of Inl reason \<Rightarrow> Inl reason | Inr groups \<Rightarrow> Inr (segs # groups)))"

definition analyzeShellCommand :: "resolver \<Rightarrow> string \<Rightarrow> string + exec_analysis" where
  "analyzeShellCommand resolve command =
     (case splitCommandChain command of
        Some parts \<Rightarrow>
          (case analyzeParts resolve parts of
             Inl reason \<Rightarrow> Inl reason
           | Inr groups \<Rightarrow> Inr \<lparr>anSegments = concat groups, anChains = Some groups\<rparr>)
      | None \<Rightarrow>
          (case analyzePipeline resolve command of
             Inl reason \<Rightarrow> Inl reason
           | Inr segs \<Rightarrow> Inr \<lparr>anSegments = segs, anChains = None\<rparr>))"

definition analyzeArgvCommand :: "resolver \<Rightarrow> string list \<Rightarrow> string + exec_analysis" where
  "analyzeArgvCommand resolve argv0 =
     (let argv = filter (\<lambda>entry. trim entry \<noteq> []) argv0
      in if argv = [] then Inl ''empty argv''
         else Inr \<lparr>anSegments = [\<lparr>sgRaw = joinWith '' '' argv, sgArgv = argv, sgResolution = resolve argv\<rparr>], anChains = None\<rparr>)"

section \<open>The command that is run instead (\<open>rebuildShellCommandFromSource\<close>)\<close>

definition escapeSingle :: string where
  \<comment> \<open>\<open>'"'"'\<close>\<close>
  "escapeSingle = [singleQuote, doubleQuote, singleQuote, doubleQuote, singleQuote]"

definition shellEscapeSingleArg :: "string \<Rightarrow> string" where
  "shellEscapeSingleArg v =
     [singleQuote] @ concat (map (\<lambda>c. if c = singleQuote then escapeSingle else [c]) v) @ [singleQuote]"

definition renderQuotedArgv :: "string list \<Rightarrow> string" where
  "renderQuotedArgv argv = joinWith '' '' (map shellEscapeSingleArg argv)"

type_synonym renderer = "string \<Rightarrow> nat \<Rightarrow> string + string"

fun renderSegments :: "renderer \<Rightarrow> nat \<Rightarrow> string list \<Rightarrow> string + string list" where
  \<comment> \<open>the loop over the segments of one part; \<open>n\<close> is \<open>segmentCount\<close>\<close>
  "renderSegments render n [] = Inr []"
| "renderSegments render n (raw # raws) =
     (case render raw n of
        Inl reason \<Rightarrow> Inl reason
      | Inr r \<Rightarrow> (case renderSegments render (Suc n) raws of Inl reason \<Rightarrow> Inl reason | Inr rs \<Rightarrow> Inr (r # rs)))"

fun rebuildParts :: "renderer \<Rightarrow> nat \<Rightarrow> string \<Rightarrow> chain_part list \<Rightarrow> string + (string \<times> nat)" where
  "rebuildParts render n out [] = Inr (out, n)"
| "rebuildParts render n out ((part, op) # parts) =
     (case splitShellPipeline part of
        Inl reason \<Rightarrow> Inl reason
      | Inr raws \<Rightarrow>
          (case renderSegments render n raws of
             Inl reason \<Rightarrow> Inl reason
           | Inr rendered \<Rightarrow>
               rebuildParts render (n + length rendered)
                 (out @ joinWith '' | '' rendered @ (case op of None \<Rightarrow> [] | Some operator \<Rightarrow> '' '' @ operator @ '' '')) parts))"

definition rebuildShellCommandFromSource :: "renderer \<Rightarrow> string \<Rightarrow> string + (string \<times> nat)" where
  "rebuildShellCommandFromSource render command =
     (let source = trim command
      in if source = [] then Inl ''empty command''
         else rebuildParts render 0 [] (coalesce (splitCommandChainWithOperators source) [(source, None)]))"

definition finalizeRebuiltShellCommand :: "string + (string \<times> nat) \<Rightarrow> nat option \<Rightarrow> string + string" where
  "finalizeRebuiltShellCommand rebuilt expectedSegmentCount =
     (case rebuilt of
        Inl reason \<Rightarrow> Inl reason
      | Inr (out, n) \<Rightarrow>
          if expectedSegmentCount \<noteq> None \<and> expectedSegmentCount \<noteq> Some n then Inl ''segment count mismatch'' else Inr out)"

definition safeSegment :: renderer where
  "safeSegment raw n =
     (let argv = coalesce (splitShellArgs raw) []
      in if argv = [] then Inl ''unable to parse shell segment'' else Inr (renderQuotedArgv argv))"

definition buildSafeShellCommand :: "string \<Rightarrow> string + string" where
  "buildSafeShellCommand command = finalizeRebuiltShellCommand (rebuildShellCommandFromSource safeSegment command) None"

definition resolvePlannedSegmentArgv :: "exec_segment \<Rightarrow> string list option" where
  "resolvePlannedSegmentArgv segment =
     (let res = sgResolution segment;
          baseArgv = (case res of None \<Rightarrow> sgArgv segment
             | Some r \<Rightarrow> if crEffectiveArgv r \<noteq> [] then crEffectiveArgv r else sgArgv segment);
          resolvedExecutable = (case res of None \<Rightarrow> []
             | Some r \<Rightarrow> coalesce (orElse (map_option trim (erResolvedRealPath (crExecution r)))
                           (map_option trim (erResolvedPath (crExecution r)))) [])
      in if (case res of None \<Rightarrow> False | Some r \<Rightarrow> crPolicyBlocked r) then None
         else if baseArgv = [] then None
         else Some (if resolvedExecutable \<noteq> [] then baseArgv[0 := resolvedExecutable] else baseArgv))"

datatype satisfied_by = ByAllowlist | BySafeBins | BySkills | BySkillPrelude

definition safeBinsSegment :: "exec_segment list \<Rightarrow> satisfied_by option list \<Rightarrow> renderer" where
  "safeBinsSegment segments satisfied raw n =
     (if n \<ge> length segments \<or> n \<ge> length satisfied then Inl ''segment mapping failed''
      else if satisfied ! n \<noteq> Some BySafeBins then Inr (trim raw)
      else (case resolvePlannedSegmentArgv (segments ! n) of
              None \<Rightarrow> Inl ''segment execution plan unavailable''
            | Some argv \<Rightarrow> if renderQuotedArgv argv = [] then Inl ''segment execution plan unavailable''
                            else Inr (renderQuotedArgv argv)))"

definition buildSafeBinsShellCommand ::
  "exec_segment list \<Rightarrow> satisfied_by option list \<Rightarrow> string \<Rightarrow> string + string" where
  "buildSafeBinsShellCommand segments satisfied command =
     (if length segments \<noteq> length satisfied then Inl ''segment metadata mismatch''
      else finalizeRebuiltShellCommand (rebuildShellCommandFromSource (safeBinsSegment segments satisfied) command)
             (Some (length segments)))"

definition enforcedSegment :: "exec_segment list \<Rightarrow> renderer" where
  "enforcedSegment segments raw n =
     (if n \<ge> length segments then Inl ''segment mapping failed''
      else (case resolvePlannedSegmentArgv (segments ! n) of
              None \<Rightarrow> Inl ''segment execution plan unavailable''
            | Some argv \<Rightarrow> if renderQuotedArgv argv = [] then Inl ''unsafe windows token in argv''
                            else Inr (renderQuotedArgv argv)))"

definition buildEnforcedShellCommand :: "exec_segment list \<Rightarrow> string \<Rightarrow> string + string" where
  "buildEnforcedShellCommand segments command =
     finalizeRebuiltShellCommand (rebuildShellCommandFromSource (enforcedSegment segments) command) (Some (length segments))"

end
