(* ===== verification/ShellReading.thy ===== *)
theory ShellReading
  imports ShellAnalysis
begin

text \<open>
  What the commands of \<open>ShellAnalysis\<close> mean to a shell: a reference reading of a command by the quoting rules of
  POSIX, the proof that a command rebuilt from argument vectors is read as these and nothing else (the locale
  \<open>quoting_renderer\<close>, which the safe and the enforced command interpret), that rebuilding it again changes nothing,
  and where the analysis and a shell part ways.
\<close>

section \<open>How a shell reads a command\<close>

text \<open>
  The reference: the tokens of a command by the quoting rules of the POSIX shell (XCU 2.2 and 2.3), without
  here-documents. A word is a list of characters, each with a flag that it is literal, that is quoted; an
  unquoted character of a word may still be expanded.
\<close>

datatype sh_token = Word "(char \<times> bool) list" | Op string

datatype sh_mode = Plain | InSingle | InDouble

definition emit :: "(char \<times> bool) list option \<Rightarrow> sh_token list \<Rightarrow> sh_token list" where
  "emit w toks = (case w of None \<Rightarrow> toks | Some cs \<Rightarrow> Word cs # toks)"

definition extend :: "(char \<times> bool) list option \<Rightarrow> (char \<times> bool) list \<Rightarrow> (char \<times> bool) list option" where
  "extend w cs = Some (coalesce w [] @ cs)"

function shLex :: "sh_mode \<Rightarrow> (char \<times> bool) list option \<Rightarrow> string \<Rightarrow> sh_token list option" where
  "shLex Plain w [] = Some (emit w [])"
| "shLex InSingle w [] = None"
| "shLex InDouble w [] = None"
| "shLex InSingle w (c # r) =
     (if c = singleQuote then shLex Plain w r else shLex InSingle (extend w [(c, True)]) r)"
| "shLex InDouble w (c # r) =
     (if c = doubleQuote then shLex Plain w r
      else if c = backslash then
        (case r of
           [] \<Rightarrow> None
         | d # r' \<Rightarrow>
             if d = newline then shLex InDouble w r'
             else if quoteEscape d then shLex InDouble (extend w [(d, True)]) r'
             else shLex InDouble (extend w [(c, True)]) r)
      else shLex InDouble (extend w [(c, c \<noteq> CHR ''$'' \<and> c \<noteq> backtick)]) r)"
| "shLex Plain w (c # r) =
     (if c = backslash then
        (case r of
           [] \<Rightarrow> None
         | d # r' \<Rightarrow> if d = newline then shLex Plain w r' else shLex Plain (extend w [(d, True)]) r')
      else if c = singleQuote then shLex InSingle (extend w []) r
      else if c = doubleQuote then shLex InDouble (extend w []) r
      else if c = CHR '' '' \<or> c = CHR 0x09 then map_option (emit w) (shLex Plain None r)
      else if c = CHR ''#'' \<and> w = None then shLex Plain None (dropWhile (\<lambda>d. d \<noteq> newline) r)
      else if c \<in> {CHR ''|'', CHR ''&'', CHR '';'', CHR ''<'', CHR ''>''} \<and> nextOf r = Some c then
        map_option (\<lambda>ts. emit w (Op [c, c] # ts)) (shLex Plain None (tl r))
      else if c \<in> {CHR ''|'', CHR ''&'', CHR '';'', CHR ''<'', CHR ''>'', CHR ''('', CHR '')'', newline} then
        map_option (\<lambda>ts. emit w (Op [c] # ts)) (shLex Plain None r)
      else shLex Plain (extend w [(c, False)]) r)"
  by pat_completeness auto
termination
  by (relation "measure (\<lambda>(m, w, s). length s)") (simp_all add: le_imp_less_Suc length_dropWhile_le)

definition literalWord :: "string \<Rightarrow> sh_token" where
  "literalWord v = Word (map (\<lambda>c. (c, True)) v)"

type_synonym argv_group = "string list list \<times> string option"
  \<comment> \<open>the argument vectors of one part, and the operator after it\<close>

definition partTokens :: "string list list \<Rightarrow> sh_token list" where
  "partTokens argvs = joinWith [Op ''|''] (map (map literalWord) argvs)"

definition chainTokens :: "argv_group list \<Rightarrow> sh_token list" where
  "chainTokens gs = concat (map (\<lambda>(argvs, op). partTokens argvs @ (case op of None \<Rightarrow> [] | Some operator \<Rightarrow> [Op operator])) gs)"

definition partText :: "string list list \<Rightarrow> string" where
  "partText argvs = joinWith '' | '' (map renderQuotedArgv argvs)"

definition chainTextOf :: "argv_group list \<Rightarrow> string" where
  "chainTextOf gs = concat (map (\<lambda>(argvs, op). partText argvs @ (case op of None \<Rightarrow> [] | Some operator \<Rightarrow> '' '' @ operator @ '' '')) gs)"

lemma emit_simps [simp]: "emit None toks = toks" "emit (Some cs) toks = Word cs # toks"
  by (simp_all add: emit_def)

lemma emit_fun [simp]: "emit None = id" "emit (Some cs) = (#) (Word cs)"
  by (simp_all add: fun_eq_iff)

lemma extend_simps [simp]: "extend None cs = Some cs" "extend (Some ds) cs = Some (ds @ cs)"
  by (simp_all add: extend_def)

lemma shLex_quoted:
  "shLex InSingle (Some cs) (concat (map (\<lambda>c. if c = singleQuote then escapeSingle else [c]) v) @ singleQuote # rest) =
   shLex Plain (Some (cs @ map (\<lambda>c. (c, True)) v)) rest"
  by (induction v arbitrary: cs) (auto simp: escapeSingle_def)

lemma shLex_escaped:
  "shLex Plain w (shellEscapeSingleArg v @ rest) = shLex Plain (extend w (map (\<lambda>c. (c, True)) v)) rest"
  by (cases w) (simp_all add: shellEscapeSingleArg_def shLex_quoted)

definition ended :: "string \<Rightarrow> bool" where
  \<comment> \<open>text before which a word is complete\<close>
  "ended rest \<longleftrightarrow> rest = [] \<or> hd rest = CHR '' ''"

lemma shLex_word_end:
  assumes "ended rest"
  shows "shLex Plain (Some cs) rest = map_option (Cons (Word cs)) (shLex Plain None rest)"
  using assms by (cases rest) (auto simp: ended_def option.map_comp comp_def)

lemma ended_blank [simp]: "ended (CHR '' '' # r)" "ended []"
  by (simp_all add: ended_def)

lemma shLex_argv:
  assumes "argv \<noteq> []" "ended rest"
  shows "shLex Plain None (renderQuotedArgv argv @ rest) = map_option (append (map literalWord argv)) (shLex Plain None rest)"
  using assms(1)
proof (induction argv)
  case (Cons a as)
  show ?case
  proof (cases as)
    case Nil
    then show ?thesis using assms(2)
      by (simp add: renderQuotedArgv_def shLex_escaped shLex_word_end literalWord_def)
  next
    case (Cons b bs)
    then have "renderQuotedArgv (a # as) @ rest = shellEscapeSingleArg a @ CHR '' '' # (renderQuotedArgv as @ rest)"
      by (simp add: renderQuotedArgv_def)
    then show ?thesis using Cons.IH Cons
      by (simp add: shLex_escaped shLex_word_end literalWord_def option.map_comp comp_def)
  qed
qed simp


lemma shLex_pipe:
  "shLex Plain None ('' | '' @ rest) = map_option (Cons (Op ''|'')) (shLex Plain None rest)"
  by (simp add: nextOf_def option.map_id)

lemma shLex_part:
  assumes "argvs \<noteq> []" "\<And>argv. argv \<in> set argvs \<Longrightarrow> argv \<noteq> []" "ended rest"
  shows "shLex Plain None (partText argvs @ rest) = map_option (append (partTokens argvs)) (shLex Plain None rest)"
  using assms(1,2)
proof (induction argvs)
  case (Cons a as)
  show ?case
  proof (cases as)
    case Nil
    then show ?thesis using assms(3) Cons.prems by (simp add: partText_def partTokens_def shLex_argv)
  next
    case (Cons b bs)
    then have t: "partText (a # as) @ rest = renderQuotedArgv a @ '' | '' @ (partText as @ rest)"
      by (simp add: partText_def)
    have a: "a \<noteq> []" using Cons.prems by simp
    have "ended ('' | '' @ (partText as @ rest))" by simp
    then show ?thesis
      unfolding t using Cons.IH Cons.prems Cons
      by (subst shLex_argv [OF a], simp, cases "shLex Plain None rest")
        (simp_all only: shLex_pipe, simp_all add: partTokens_def)
  qed
qed simp

definition chainOperator :: "string option \<Rightarrow> bool" where
  "chainOperator op \<longleftrightarrow> op = None \<or> op = Some ''&&'' \<or> op = Some ''||'' \<or> op = Some '';''"

lemma shLex_operator:
  assumes "chainOperator (Some operator)"
  shows "shLex Plain None ('' '' @ operator @ '' '' @ rest) = map_option (Cons (Op operator)) (shLex Plain None rest)"
  using assms by (auto simp: chainOperator_def nextOf_def option.map_comp comp_def)

fun lastAlone :: "argv_group list \<Rightarrow> bool" where
  \<comment> \<open>every part but the last has an operator after it\<close>
  "lastAlone [] = True"
| "lastAlone [g] = True"
| "lastAlone ((argvs, op) # g # gs) = (op \<noteq> None \<and> lastAlone (g # gs))"

definition groupOk :: "argv_group \<Rightarrow> bool" where
  "groupOk g \<longleftrightarrow> fst g \<noteq> [] \<and> [] \<notin> set (fst g) \<and> chainOperator (snd g)"

lemma shLex_chain:
  assumes "list_all groupOk gs" "lastAlone gs"
  shows "shLex Plain None (chainTextOf gs) = Some (chainTokens gs)"
  using assms
proof (induction gs)
  case Nil
  then show ?case by (simp add: chainTextOf_def chainTokens_def)
next
  case (Cons g gs)
  obtain argvs op where g: "g = (argvs, op)" by force
  have ok: "argvs \<noteq> []" "\<And>argv. argv \<in> set argvs \<Longrightarrow> argv \<noteq> []" "chainOperator op" using Cons.prems g
    by (auto simp: groupOk_def)
  have alone: "lastAlone gs" using Cons.prems g by (cases gs) auto
  have rec: "shLex Plain None (chainTextOf gs) = Some (chainTokens gs)" using Cons alone by simp
  show ?case
  proof (cases op)
    case None
    then have "gs = []" using Cons.prems g by (cases gs) auto
    then show ?thesis using g None ok shLex_part[OF ok(1,2), of "[]"]
      by (simp add: chainTextOf_def chainTokens_def)
  next
    case (Some operator)
    then have t: "chainTextOf (g # gs) = partText argvs @ ('' '' @ operator @ '' '' @ chainTextOf gs)"
      "chainTokens (g # gs) = partTokens argvs @ Op operator # chainTokens gs"
      using g by (simp_all add: chainTextOf_def chainTokens_def)
    have "ended ('' '' @ operator @ '' '' @ chainTextOf gs)" by simp
    then show ?thesis
      unfolding t using shLex_part[OF ok(1,2)] shLex_operator[of operator "chainTextOf gs"] ok(3) Some rec by simp
  qed
qed

section \<open>The operators of a chain\<close>

declare chainLoop.simps(2) [simp del] pipeLoop.simps(2) [simp del]

lemma chainText_simps [simp]:
  "ccParts (chainText s st) = ccParts st" "ccInvalid (chainText s st) = ccInvalid st" "ccFound (chainText s st) = ccFound st"
  "ccBuf (chainText s st) = ccBuf st @ s" "ccEscaped (chainText s st) = ccEscaped st"
  "ccSingle (chainText s st) = ccSingle st" "ccDouble (chainText s st) = ccDouble st"
  by (simp_all add: chainText_def)

definition partsOk :: "chain_state \<Rightarrow> bool" where
  "partsOk st \<longleftrightarrow> (\<forall>p \<in> set (ccParts st). fst p \<noteq> [] \<and> snd p \<noteq> None \<and> chainOperator (snd p))"

lemma partsOk_push: "partsOk st \<Longrightarrow> op \<in> {''&&'', ''||'', '';''} \<Longrightarrow> partsOk (pushChain op st)"
  by (auto simp: partsOk_def pushChain_def Let_def chainOperator_def)

lemma if_intro: "\<lbrakk>c \<Longrightarrow> P a; \<not> c \<Longrightarrow> P b\<rbrakk> \<Longrightarrow> P (if c then a else b)"
  by simp

lemma chainLoop_inv:
  assumes "P st" and keep: "\<And>u t. P u \<Longrightarrow> P (chainText t u)" "\<And>u b. P u \<Longrightarrow> P (u\<lparr>ccEscaped := b\<rparr>)"
    "\<And>u b. P u \<Longrightarrow> P (u\<lparr>ccSingle := b\<rparr>)" "\<And>u b. P u \<Longrightarrow> P (u\<lparr>ccDouble := b\<rparr>)" "\<And>u. P u \<Longrightarrow> P (u\<lparr>ccInvalid := True\<rparr>)"
    "\<And>u operator. P u \<Longrightarrow> operator \<in> {''&&'', ''||'', '';''} \<Longrightarrow> P (pushChain operator u)"
  shows "P (chainLoop st prev s)"
  using assms(1)
proof (induction s arbitrary: st prev rule: length_induct)
  case (1 s)
  show ?case
  proof (cases s)
    case Nil
    then show ?thesis using 1 by simp
  next
    case (Cons ch rest)
    have IH: "P (chainLoop u p r)" if "P u" "length r < length s" for u p r
      using 1 that by blast
    have here: "P st" by (rule "1.prems")
    show ?thesis
      unfolding Cons chainLoop.simps
      by (intro if_intro [where P = P] IH keep here) (simp_all add: Cons)
  qed
qed

lemma chainLoop_parts: "partsOk st \<Longrightarrow> partsOk (chainLoop st prev s)"
  by (rule chainLoop_inv [where P = partsOk], assumption) (simp_all add: partsOk_push, simp_all add: partsOk_def)

lemma lastAlone_append:
  "\<lbrakk>\<forall>p \<in> set ps. snd p \<noteq> None\<rbrakk> \<Longrightarrow> lastAlone (ps @ [g])"
  by (induction ps rule: lastAlone.induct) auto

lemma splitCommandChain_parts:
  assumes "splitCommandChainWithOperators s = Some parts"
  shows "\<forall>p \<in> set parts. chainOperator (snd p) \<and> fst p \<noteq> []" "\<exists>ps g. parts = ps @ [g] \<and> (\<forall>p \<in> set ps. snd p \<noteq> None)"
proof -
  define st where "st = chainLoop emptyChain None s"
  have ok: "partsOk st" unfolding st_def by (rule chainLoop_parts) (simp add: emptyChain_def partsOk_def)
  have parts: "parts = ccParts st @ [(trim (ccBuf st), None)]" "trim (ccBuf st) \<noteq> []" using assms
    by (auto simp: splitCommandChainWithOperators_def st_def Let_def split: if_splits)
  show "\<forall>p \<in> set parts. chainOperator (snd p) \<and> fst p \<noteq> []"
    using ok parts by (auto simp: partsOk_def chainOperator_def)
  show "\<exists>ps g. parts = ps @ [g] \<and> (\<forall>p \<in> set ps. snd p \<noteq> None)"
    using ok parts by (auto simp: partsOk_def)
qed

definition chainPartsOf :: "string \<Rightarrow> chain_part list" where
  \<comment> \<open>\<open>chainParts\<close> of \<open>rebuildShellCommandFromSource\<close>\<close>
  "chainPartsOf command = coalesce (splitCommandChainWithOperators (trim command)) [(trim command, None)]"

definition segmentTexts :: "chain_part list \<Rightarrow> string list" where
  "segmentTexts parts = concat (map (\<lambda>p. case splitShellPipeline (fst p) of Inl reason \<Rightarrow> [] | Inr raws \<Rightarrow> raws) parts)"

lemma chainPartsOf_ok:
  "\<forall>p \<in> set (chainPartsOf command). chainOperator (snd p)" "lastAlone (map (\<lambda>p. (f p, snd p)) (chainPartsOf command))"
proof -
  show "\<forall>p \<in> set (chainPartsOf command). chainOperator (snd p)"
    using splitCommandChain_parts(1)[of "trim command"]
    by (cases "splitCommandChainWithOperators (trim command)") (auto simp: chainPartsOf_def chainOperator_def)
  show "lastAlone (map (\<lambda>p. (f p, snd p)) (chainPartsOf command))"
  proof (cases "splitCommandChainWithOperators (trim command)")
    case (Some parts)
    then obtain ps g where "parts = ps @ [g]" "\<forall>p \<in> set ps. snd p \<noteq> None" using splitCommandChain_parts(2) by blast
    then show ?thesis using Some by (simp add: chainPartsOf_def lastAlone_append)
  qed (simp add: chainPartsOf_def)
qed

lemma splitShellPipeline_nonempty: "splitShellPipeline c = Inr raws \<Longrightarrow> raws \<noteq> []"
  by (auto simp: splitShellPipeline_def pipeEnd_def Let_def split: sum.splits if_splits)

section \<open>Rebuilding from argument vectors\<close>

text \<open>The contract of a renderer that quotes: what it gives for a segment is one planned argument vector in quotes.\<close>

locale quoting_renderer =
  fixes render :: renderer and planned :: "string \<Rightarrow> nat \<Rightarrow> string list option"
  assumes rendered: "render raw n = Inr r \<Longrightarrow> \<exists>argv. planned raw n = Some argv \<and> argv \<noteq> [] \<and> r = renderQuotedArgv argv"
begin

lemma renderSegments_quoted:
  assumes "renderSegments render n raws = Inr rs"
  shows "\<exists>argvs. map2 planned raws [n..<n + length raws] = map Some argvs \<and> [] \<notin> set argvs \<and> rs = map renderQuotedArgv argvs"
  using assms
proof (induction raws arbitrary: n rs)
  case (Cons raw raws)
  obtain r rest where r: "render raw n = Inr r" "renderSegments render (Suc n) raws = Inr rest" "rs = r # rest"
    using Cons.prems by (auto split: sum.splits)
  obtain argv where a: "planned raw n = Some argv" "argv \<noteq> []" "r = renderQuotedArgv argv" using rendered[OF r(1)] by blast
  obtain argvs where as: "map2 planned raws [Suc n..<Suc n + length raws] = map Some argvs" "[] \<notin> set argvs"
    "rest = map renderQuotedArgv argvs" using Cons.IH[OF r(2)] by blast
  have "map2 planned (raw # raws) [n..<n + length (raw # raws)] = map Some (argv # argvs)"
    using a as by (simp add: upt_conv_Cons del: upt_Suc)
  then show ?case using a as r by (intro exI[of _ "argv # argvs"]) auto
qed simp

lemma rebuildParts_quoted:
  assumes "rebuildParts render n out parts = Inr (c, m)"
  shows "\<exists>gs. c = out @ chainTextOf gs \<and> map snd gs = map snd parts \<and> m = n + length (segmentTexts parts) \<and>
    map2 planned (segmentTexts parts) [n..<m] = map Some (concat (map fst gs)) \<and> (\<forall>g \<in> set gs. fst g \<noteq> [] \<and> [] \<notin> set (fst g))"
  using assms
proof (induction parts arbitrary: n out)
  case Nil
  then show ?case by (intro exI[of _ "[]"]) (auto simp: chainTextOf_def segmentTexts_def)
next
  case (Cons p parts)
  obtain part operator where p: "p = (part, operator)" by force
  define joined where "joined = (\<lambda>rs. joinWith '' | '' rs @ (case operator of None \<Rightarrow> [] | Some o' \<Rightarrow> '' '' @ o' @ '' ''))"
  obtain raws rs where r: "splitShellPipeline part = Inr raws" "renderSegments render n raws = Inr rs"
    and rest: "rebuildParts render (n + length rs) (out @ joined rs) parts = Inr (c, m)"
    using Cons.prems p by (auto simp: joined_def split: sum.splits)
  obtain argvs where a: "map2 planned raws [n..<n + length raws] = map Some argvs" "[] \<notin> set argvs"
    "rs = map renderQuotedArgv argvs" using renderSegments_quoted[OF r(2)] by blast
  have len: "length argvs = length raws" using arg_cong[OF a(1), of length] by simp
  obtain gs where gs: "c = (out @ joined rs) @ chainTextOf gs" "map snd gs = map snd parts"
    "m = n + length rs + length (segmentTexts parts)"
    "map2 planned (segmentTexts parts) [n + length rs..<m] = map Some (concat (map fst gs))"
    "\<forall>g \<in> set gs. fst g \<noteq> [] \<and> [] \<notin> set (fst g)" using Cons.IH[OF rest] by blast
  have texts: "segmentTexts (p # parts) = raws @ segmentTexts parts" using r p by (simp add: segmentTexts_def)
  have lenrs: "length rs = length raws" using a(3) len by simp
  have "[n..<m] = [n..<n + length raws] @ [n + length raws..<m]"
    using gs(3) lenrs by (metis add.assoc upt_add_eq_append le_add1)
  then have "map2 planned (segmentTexts (p # parts)) [n..<m] = map Some (argvs @ concat (map fst gs))"
    using a(1) gs(4) lenrs by (simp add: texts)
  moreover have "argvs \<noteq> []" using len splitShellPipeline_nonempty[OF r(1)] by auto
  moreover have "joined rs = partText argvs @ (case operator of None \<Rightarrow> [] | Some o' \<Rightarrow> '' '' @ o' @ '' '')"
    by (simp add: joined_def a(3) partText_def)
  ultimately show ?case using gs a(2) p lenrs texts
    by (intro exI[of _ "(argvs, operator) # gs"]) (auto simp: chainTextOf_def)
qed

theorem rebuild_quoted:
  assumes "rebuildShellCommandFromSource render command = Inr (c, m)"
  shows "\<exists>gs. c = chainTextOf gs \<and> shLex Plain None c = Some (chainTokens gs) \<and> map snd gs = map snd (chainPartsOf command) \<and>
    m = length (segmentTexts (chainPartsOf command)) \<and> list_all groupOk gs \<and> lastAlone gs \<and>
    map2 planned (segmentTexts (chainPartsOf command)) [0..<m] = map Some (concat (map fst gs))"
proof -
  have "rebuildParts render 0 [] (chainPartsOf command) = Inr (c, m)" using assms
    by (simp add: rebuildShellCommandFromSource_def chainPartsOf_def Let_def split: if_splits)
  from rebuildParts_quoted[OF this] obtain gs where gs: "c = chainTextOf gs" "map snd gs = map snd (chainPartsOf command)"
    "m = length (segmentTexts (chainPartsOf command))"
    "map2 planned (segmentTexts (chainPartsOf command)) [0..<m] = map Some (concat (map fst gs))"
    "\<forall>g \<in> set gs. fst g \<noteq> [] \<and> [] \<notin> set (fst g)" by auto
  have "\<forall>g \<in> set gs. chainOperator (snd g)"
    using chainPartsOf_ok(1) gs(2) by (metis (no_types, lifting) image_iff set_map)
  then have ok: "list_all groupOk gs" using gs(5) by (simp add: list_all_iff groupOk_def)
  have "lastAlone gs"
  proof -
    have "lastAlone (map (\<lambda>g. ([], snd g)) gs) = lastAlone gs" for gs :: "argv_group list"
      by (induction gs rule: lastAlone.induct) auto
    moreover have "map (\<lambda>g. ([], snd g)) gs = map (\<lambda>p. ([], snd p)) (chainPartsOf command)"
      using arg_cong[OF gs(2), of "map (Pair [])"] by (simp add: comp_def)
    ultimately show ?thesis using chainPartsOf_ok(2)[of "\<lambda>p. []" command] by metis
  qed
  then show ?thesis using gs ok shLex_chain by blast
qed

end

lemma resolvePlanned_nonempty: "resolvePlannedSegmentArgv s = Some argv \<Longrightarrow> argv \<noteq> []"
  by (auto simp: resolvePlannedSegmentArgv_def Let_def split: if_splits option.splits)

definition enforcedPlan :: "exec_segment list \<Rightarrow> string \<Rightarrow> nat \<Rightarrow> string list option" where
  "enforcedPlan segments raw n = (if n < length segments then resolvePlannedSegmentArgv (segments ! n) else None)"

interpretation enforced: quoting_renderer "enforcedSegment segments" "enforcedPlan segments" for segments
  by unfold_locales (auto simp: enforcedSegment_def enforcedPlan_def resolvePlanned_nonempty split: if_splits option.splits)

interpretation safe: quoting_renderer safeSegment "\<lambda>raw n. splitShellArgs raw"
  by unfold_locales (auto simp: safeSegment_def Let_def coalesce_def split: if_splits option.splits)

lemma finalize_Inr:
  "finalizeRebuiltShellCommand r e = Inr c \<longleftrightarrow> (\<exists>m. r = Inr (c, m) \<and> (e = None \<or> e = Some m))"
  by (auto simp: finalizeRebuiltShellCommand_def split: sum.splits if_splits)

text \<open>
  C3. The enforced command, read by a shell, is the argument vectors that were planned for the segments, every
  character of them literal, joined by pipes and by the operators of the chain that was asked for: nothing in it
  is expanded, redirected or run besides.
\<close>

theorem enforced_command_runs_the_plan:
  assumes "buildEnforcedShellCommand segments command = Inr c"
  shows "\<exists>gs. shLex Plain None c = Some (chainTokens gs) \<and> map snd gs = map snd (chainPartsOf command) \<and>
    map Some (concat (map fst gs)) = map resolvePlannedSegmentArgv segments"
proof -
  obtain m where m: "rebuildShellCommandFromSource (enforcedSegment segments) command = Inr (c, m)" "m = length segments"
    using assms by (auto simp: buildEnforcedShellCommand_def finalize_Inr)
  obtain gs where gs: "shLex Plain None c = Some (chainTokens gs)" "map snd gs = map snd (chainPartsOf command)"
    "m = length (segmentTexts (chainPartsOf command))"
    "map2 (enforcedPlan segments) (segmentTexts (chainPartsOf command)) [0..<m] = map Some (concat (map fst gs))"
    using enforced.rebuild_quoted[OF m(1)] by blast
  have "map2 (enforcedPlan segments) ts [0..<length segments] = map resolvePlannedSegmentArgv segments"
    if "length ts = length segments" for ts
    using that by (intro nth_equalityI) (auto simp: enforcedPlan_def)
  then show ?thesis using gs m by metis
qed

definition exampleSegments :: "exec_segment list" where
  "exampleSegments = [\<lparr>sgRaw = ''ls a*'', sgArgv = [''ls'', ''a*''], sgResolution = None\<rparr>,
     \<lparr>sgRaw = ''wc'', sgArgv = [''wc''], sgResolution = None\<rparr>]"

lemma exampleEnforced: "buildEnforcedShellCommand exampleSegments ''ls a* | wc'' = Inr (chainTextOf [([[''ls'', ''a*''], [''wc'']], None)])"
  by code_simp

theorem enforced_command_runs_the_plan_witness:
  "\<exists>gs c. buildEnforcedShellCommand exampleSegments ''ls a* | wc'' = Inr c \<and> shLex Plain None c = Some (chainTokens gs) \<and>
     concat (map fst gs) = [[''ls'', ''a*''], [''wc'']]"
proof -
  have plan: "map resolvePlannedSegmentArgv exampleSegments = map Some [[''ls'', ''a*''], [''wc'']]" by code_simp
  obtain gs where gs: "shLex Plain None (chainTextOf [([[''ls'', ''a*''], [''wc'']], None)]) = Some (chainTokens gs)"
    "map Some (concat (map fst gs)) = map resolvePlannedSegmentArgv exampleSegments"
    using enforced_command_runs_the_plan[OF exampleEnforced] by blast
  have "concat (map fst gs) = [[''ls'', ''a*''], [''wc'']]" using gs(2) unfolding plan by (simp only: inj_map_eq_map[OF inj_Some])
  then show ?thesis using gs(1) exampleEnforced by blast
qed

section \<open>The rebuilt command is a fixed point\<close>

lemma trim_kept:
  assumes "s \<noteq> []" "\<not> jsWhitespace (hd s)" "\<not> jsWhitespace (last s)" "list_all jsWhitespace u" "list_all jsWhitespace v"
  shows "trim (u @ s @ v) = s"
proof -
  have "dropWhile jsWhitespace (u @ s @ v) = s @ v" using assms
    by (cases s) (auto simp: list_all_iff dropWhile_append)
  moreover have "dropWhile jsWhitespace (rev v @ rev s) = rev s"
    using assms by (cases s rule: rev_cases) (auto simp: list_all_iff dropWhile_append)
  ultimately show ?thesis by (simp add: trim_def)
qed

lemma quote_no_space [simp]: "\<not> jsWhitespace singleQuote"
  by (simp add: jsWhitespace_def)

definition quoted :: "string \<Rightarrow> bool" where
  "quoted s \<longleftrightarrow> s \<noteq> [] \<and> hd s = singleQuote \<and> last s = singleQuote"

lemma quoted_trim: "quoted s \<Longrightarrow> list_all jsWhitespace u \<Longrightarrow> list_all jsWhitespace v \<Longrightarrow> trim (u @ s @ v) = s"
  by (rule trim_kept) (auto simp: quoted_def)

lemma quoted_join: "quoted s \<Longrightarrow> quoted t \<Longrightarrow> quoted (s @ u @ t)"
  by (auto simp: quoted_def)

lemma quoted_escape [simp]: "quoted (shellEscapeSingleArg v)"
  by (simp add: quoted_def shellEscapeSingleArg_def)

lemma quoted_joinWith: "ss \<noteq> [] \<Longrightarrow> list_all quoted ss \<Longrightarrow> quoted (joinWith u ss)"
  by (induction u ss rule: joinWith.induct) (auto intro: quoted_join)

lemma quoted_argv: "argv \<noteq> [] \<Longrightarrow> quoted (renderQuotedArgv argv)"
  unfolding renderQuotedArgv_def by (rule quoted_joinWith) (auto simp: list_all_iff)

lemma quoted_part: "argvs \<noteq> [] \<Longrightarrow> [] \<notin> set argvs \<Longrightarrow> quoted (partText argvs)"
  unfolding partText_def by (rule quoted_joinWith) (auto simp: list_all_iff intro!: quoted_argv)

definition plainChain :: "chain_state \<Rightarrow> bool" where
  "plainChain st \<longleftrightarrow> \<not> ccEscaped st \<and> \<not> ccSingle st \<and> \<not> ccDouble st"

lemma chainText_join [simp]: "chainText t (chainText s st) = chainText (s @ t) st"
  by (simp add: chainText_def)

lemma chainLoop_body:
  assumes "plainChain st"
  shows "chainLoop (st\<lparr>ccSingle := True\<rparr>) prev (concat (map (\<lambda>c. if c = singleQuote then escapeSingle else [c]) v) @ singleQuote # rest) =
    chainLoop (chainText (concat (map (\<lambda>c. if c = singleQuote then escapeSingle else [c]) v) @ [singleQuote]) st) (Some singleQuote) rest"
  using assms
proof (induction v arbitrary: st prev)
  case Nil
  then show ?case by (cases st) (simp add: chainLoop.simps(2) plainChain_def chainText_def)
next
  case (Cons c v)
  then have p: "\<not> ccEscaped st" "\<not> ccSingle st" "\<not> ccDouble st" by (simp_all add: plainChain_def)
  show ?case
  proof (cases "c = singleQuote")
    case True
    have "plainChain (chainText escapeSingle st)" using Cons.prems by (simp add: plainChain_def)
    note IH = Cons.IH[OF this, of "Some singleQuote"]
    show ?thesis using IH p True
      by (cases st) (simp add: chainLoop.simps(2) escapeSingle_def chainText_def)
  next
    case False
    have "plainChain (chainText [c] st)" using Cons.prems by (simp add: plainChain_def)
    note IH = Cons.IH[OF this, of "Some c"]
    show ?thesis using IH p False by (cases st) (simp add: chainLoop.simps(2) chainText_def)
  qed
qed

lemma chainLoop_escaped:
  assumes "plainChain st"
  shows "chainLoop st prev (shellEscapeSingleArg v @ rest) = chainLoop (chainText (shellEscapeSingleArg v) st) (Some singleQuote) rest"
proof -
  have "plainChain (chainText [singleQuote] st)" using assms by (simp add: plainChain_def)
  note body = chainLoop_body[OF this, of "Some singleQuote" v rest]
  show ?thesis using body assms
    by (cases st) (simp add: shellEscapeSingleArg_def chainLoop.simps(2) plainChain_def chainText_def)
qed

definition chainSkips :: "string \<Rightarrow> bool" where
  \<comment> \<open>text that the chain splitter takes over as it is\<close>
  "chainSkips s \<longleftrightarrow> s \<noteq> [] \<and> (\<forall>st prev rest. plainChain st \<longrightarrow>
     chainLoop st prev (s @ rest) = chainLoop (chainText s st) (Some (last s)) rest)"

lemma plainChain_text [simp]: "plainChain (chainText s st) = plainChain st"
  by (simp add: plainChain_def)

lemma chainSkips_append: "chainSkips s \<Longrightarrow> chainSkips t \<Longrightarrow> chainSkips (s @ t)"
  by (simp add: chainSkips_def)

lemma chainSkips_escape: "chainSkips (shellEscapeSingleArg v)"
  using quoted_escape[of v] by (auto simp: chainSkips_def chainLoop_escaped quoted_def)

lemma chainSkips_blank: "chainSkips '' ''" "chainSkips '' | ''"
  by (auto simp: chainSkips_def chainLoop.simps(2) plainChain_def isShellCommentStart_def nextOf_def)

lemma chainSkips_join: "chainSkips u \<Longrightarrow> ss \<noteq> [] \<Longrightarrow> list_all chainSkips ss \<Longrightarrow> chainSkips (joinWith u ss)"
  by (induction u ss rule: joinWith.induct) (auto intro: chainSkips_append)

lemma chainSkips_part: "argvs \<noteq> [] \<Longrightarrow> [] \<notin> set argvs \<Longrightarrow> chainSkips (partText argvs)"
  unfolding partText_def renderQuotedArgv_def
  by (intro chainSkips_join) (auto simp: list_all_iff chainSkips_blank chainSkips_escape intro!: chainSkips_join)

lemma chainLoop_operator:
  assumes "chainOperator (Some operator)" "plainChain st"
  shows "chainLoop st prev ('' '' @ operator @ '' '' @ rest) =
    chainLoop (chainText '' '' (pushChain operator (chainText '' '' st))) (Some (CHR '' '')) rest"
proof -
  have [simp]: "plainChain (pushChain operator (chainText '' '' st))" using assms(2)
    by (simp add: plainChain_def pushChain_def Let_def)
  have "chainLoop (chainText '' '' st) (Some (CHR '' '')) (operator @ '' '' @ rest) =
    chainLoop (pushChain operator (chainText '' '' st)) (Some (last operator)) ('' '' @ rest)"
    using assms by (auto simp: chainOperator_def chainLoop.simps(2) plainChain_def isShellCommentStart_def nextOf_def)
  then show ?thesis using chainSkips_blank(1) assms(2) by (simp add: chainSkips_def)
qed

definition chainPartsOfGroups :: "argv_group list \<Rightarrow> chain_part list" where
  "chainPartsOfGroups gs = map (\<lambda>(argvs, operator). (partText argvs, operator)) gs"

lemma chainLoop_groups:
  assumes "gs \<noteq> []" "list_all groupOk gs" "lastAlone gs" "plainChain st" "list_all jsWhitespace (ccBuf st)"
    and "snd (last gs) = None"
  shows "\<exists>st'. chainLoop st prev (chainTextOf gs) = st' \<and>
     ccParts st' = ccParts st @ chainPartsOfGroups (butlast gs) \<and> trim (ccBuf st') = partText (fst (last gs)) \<and>
     ccInvalid st' = ccInvalid st \<and> ccFound st' = (ccFound st \<or> butlast gs \<noteq> [])"
  using assms
proof (induction gs arbitrary: st prev)
  case (Cons g gs)
  obtain argvs operator where g: "g = (argvs, operator)" by force
  have q: "quoted (partText argvs)" and skip: "chainSkips (partText argvs)"
    using Cons.prems g by (auto simp: groupOk_def intro!: quoted_part chainSkips_part)
  show ?case
  proof (cases gs)
    case Nil
    then have "chainTextOf (g # gs) = partText argvs" using Cons.prems g by (simp add: chainTextOf_def)
    moreover have "chainLoop st prev (partText argvs) = chainText (partText argvs) st"
      using skip Cons.prems(4) unfolding chainSkips_def by (metis append_Nil2 chainLoop.simps(1))
    ultimately show ?thesis using Nil g quoted_trim[OF q Cons.prems(5), of "[]"]
      by (simp add: chainPartsOfGroups_def)
  next
    case (Cons g' gs')
    then obtain o' where o: "operator = Some o'" using Cons.prems g by auto
    define st1 where "st1 = chainText '' '' (chainText (partText argvs) st)"
    define st2 where "st2 = chainText '' '' (pushChain o' st1)"
    have t: "chainTextOf (g # gs) = partText argvs @ ('' '' @ o' @ '' '' @ chainTextOf gs)"
      using g o by (simp add: chainTextOf_def)
    have op: "chainOperator (Some o')" using Cons.prems g o by (simp add: groupOk_def)
    have buf: "trim (ccBuf st1) = partText argvs"
      using quoted_trim[OF q Cons.prems(5), of "'' ''"] by (simp add: st1_def jsWhitespace_def)
    have ne: "partText argvs \<noteq> []" using q by (auto simp: quoted_def)
    have push: "pushChain o' st1 = st1\<lparr>ccBuf := [], ccParts := ccParts st1 @ [(partText argvs, Some o')], ccFound := True\<rparr>"
      by (simp add: pushChain_def buf ne)
    have step: "chainLoop st prev (chainTextOf (g # gs)) = chainLoop st2 (Some (CHR '' '')) (chainTextOf gs)"
      using skip op Cons.prems(4) chainLoop_operator[OF op, of "chainText (partText argvs) st"]
      unfolding t by (simp add: chainSkips_def st1_def st2_def)
    have props: "plainChain st2" "list_all jsWhitespace (ccBuf st2)" "ccParts st2 = ccParts st @ [(partText argvs, Some o')]"
      "ccInvalid st2 = ccInvalid st" "ccFound st2"
      unfolding st2_def push using Cons.prems(4) by (simp_all add: plainChain_def jsWhitespace_def st1_def)
    have "gs \<noteq> []" "list_all groupOk gs" "lastAlone gs" "snd (last gs) = None" using Cons.prems Cons g by auto
    from Cons.IH[OF this(1-3) props(1,2) this(4), of "Some (CHR '' '')"]
    show ?thesis unfolding step using props(3-5) Cons g o by (auto simp: chainPartsOfGroups_def)
  qed
qed simp

lemma quoted_chainText:
  assumes "gs \<noteq> []" "list_all groupOk gs" "snd (last gs) = None" "lastAlone gs"
  shows "quoted (chainTextOf gs)"
  using assms
proof (induction gs)
  case (Cons g gs)
  obtain argvs operator where g: "g = (argvs, operator)" by force
  have q: "quoted (partText argvs)" using Cons.prems g by (auto simp: groupOk_def intro!: quoted_part)
  show ?case
  proof (cases gs)
    case Nil
    then show ?thesis using g q Cons.prems by (simp add: chainTextOf_def)
  next
    case (Cons g' gs')
    have "quoted (chainTextOf gs)" using Cons.IH Cons.prems Cons g by auto
    then show ?thesis using q g quoted_join by (auto simp: chainTextOf_def)
  qed
qed simp

lemma chainPartsOf_text:
  assumes "gs \<noteq> []" "list_all groupOk gs" "snd (last gs) = None" "lastAlone gs"
  shows "chainPartsOf (chainTextOf gs) = chainPartsOfGroups gs"
proof -
  have q: "trim (chainTextOf gs) = chainTextOf gs"
    using quoted_trim[OF quoted_chainText[OF assms], of "[]" "[]"] by simp
  define st where "st = chainLoop emptyChain None (chainTextOf gs)"
  have st: "ccParts st = chainPartsOfGroups (butlast gs)" "trim (ccBuf st) = partText (fst (last gs))" "\<not> ccInvalid st"
    "ccFound st \<longleftrightarrow> butlast gs \<noteq> []"
    using chainLoop_groups[OF assms(1,2,4), of emptyChain None] assms(3)
    by (auto simp: st_def emptyChain_def plainChain_def)
  have last: "chainPartsOfGroups gs = chainPartsOfGroups (butlast gs) @ [(partText (fst (last gs)), None)]"
    using assms(1,3) by (cases gs rule: rev_cases) (auto simp: chainPartsOfGroups_def)
  have "groupOk (last gs)" using assms(1,2) by (simp add: list_all_iff)
  then have ne: "partText (fst (last gs)) \<noteq> []" using quoted_part[of "fst (last gs)"] by (auto simp: groupOk_def quoted_def)
  show ?thesis
  proof (cases "butlast gs")
    case Nil
    then obtain argvs where gs: "gs = [(argvs, None)]" using assms(1,3) by (cases gs rule: rev_cases) auto
    have "chainPartsOf (chainTextOf gs) = [(chainTextOf gs, None)]"
      unfolding chainPartsOf_def q splitCommandChainWithOperators_def st_def[symmetric] Let_def using st(4) Nil by simp
    then show ?thesis by (simp add: gs chainPartsOfGroups_def chainTextOf_def)
  next
    case (Cons g gs')
    then show ?thesis using st last ne
      by (simp add: chainPartsOf_def q splitCommandChainWithOperators_def st_def[symmetric] Let_def)
  qed
qed


subsection \<open>Its segments\<close>

definition plainPipe :: "pipe_state \<Rightarrow> bool" where
  "plainPipe st \<longleftrightarrow> \<not> ppBody st \<and> \<not> ppEscaped st \<and> \<not> ppSingle st \<and> \<not> ppDouble st \<and> ppPending st = []"

lemma addText_simps [simp]:
  "ppSegments (addText s st) = ppSegments st" "ppBuf (addText s st) = ppBuf st @ s" "\<not> ppEmpty (addText s st)"
  "addText t (addText s st) = addText (s @ t) st" "plainPipe (addText s st) = plainPipe st"
  by (simp_all add: addText_def plainPipe_def)

lemma pipeLoop_body:
  assumes "plainPipe st"
  shows "pipeLoop (st\<lparr>ppSingle := True\<rparr>) prev (concat (map (\<lambda>c. if c = singleQuote then escapeSingle else [c]) v) @ singleQuote # rest) =
    pipeLoop (addText (concat (map (\<lambda>c. if c = singleQuote then escapeSingle else [c]) v) @ [singleQuote]) st) (Some singleQuote) rest"
  using assms
proof (induction v arbitrary: st prev)
  case Nil
  then show ?case by (cases st) (simp add: pipeLoop.simps(2) plainPipe_def addText_def)
next
  case (Cons c v)
  then have p: "\<not> ppBody st" "\<not> ppEscaped st" "\<not> ppSingle st" "\<not> ppDouble st" by (simp_all add: plainPipe_def)
  show ?case
  proof (cases "c = singleQuote")
    case True
    have "plainPipe (addText escapeSingle st)" using Cons.prems by simp
    note IH = Cons.IH[OF this, of "Some singleQuote"]
    show ?thesis using IH p True
      by (cases st) (simp add: pipeLoop.simps(2) escapeSingle_def addText_def)
  next
    case False
    have "plainPipe (addText [c] st)" using Cons.prems by simp
    note IH = Cons.IH[OF this, of "Some c"]
    show ?thesis using IH p False by (cases st) (simp add: pipeLoop.simps(2) addText_def)
  qed
qed

definition pipeSkips :: "string \<Rightarrow> bool" where
  "pipeSkips s \<longleftrightarrow> s \<noteq> [] \<and> (\<forall>st prev rest. plainPipe st \<longrightarrow>
     pipeLoop st prev (s @ rest) = pipeLoop (addText s st) (Some (last s)) rest)"

lemma pipeSkips_append: "pipeSkips s \<Longrightarrow> pipeSkips t \<Longrightarrow> pipeSkips (s @ t)"
  by (simp add: pipeSkips_def)

lemma pipeSkips_escape: "pipeSkips (shellEscapeSingleArg v)"
proof -
  have "pipeLoop st prev (shellEscapeSingleArg v @ rest) = pipeLoop (addText (shellEscapeSingleArg v) st) (Some singleQuote) rest"
    if "plainPipe st" for st prev rest
  proof -
    have "plainPipe (addText [singleQuote] st)" using that by simp
    note body = pipeLoop_body[OF this, of "Some singleQuote" v rest]
    show ?thesis using body that
      by (cases st) (simp add: shellEscapeSingleArg_def pipeLoop.simps(2) plainPipe_def addText_def)
  qed
  then show ?thesis using quoted_escape[of v] by (simp add: pipeSkips_def quoted_def)
qed

lemma pipeSkips_blank: "pipeSkips '' ''"
  by (auto simp: pipeSkips_def pipeLoop.simps(2) plainPipe_def isShellCommentStart_def disallowedPipelineToken_def)

lemma pipeSkips_join: "pipeSkips u \<Longrightarrow> ss \<noteq> [] \<Longrightarrow> list_all pipeSkips ss \<Longrightarrow> pipeSkips (joinWith u ss)"
  by (induction u ss rule: joinWith.induct) (auto intro: pipeSkips_append)

lemma pipeSkips_argv: "argv \<noteq> [] \<Longrightarrow> pipeSkips (renderQuotedArgv argv)"
  unfolding renderQuotedArgv_def by (rule pipeSkips_join) (auto simp: list_all_iff pipeSkips_blank pipeSkips_escape)

lemma pipeLoop_bar:
  assumes "plainPipe st"
  shows "pipeLoop st prev ('' | '' @ rest) = pipeLoop (addText '' '' (pushPart ((addText '' '' st)\<lparr>ppEmpty := True\<rparr>))) (Some (CHR '' '')) rest"
  using assms
  by (cases st) (simp add: pipeLoop.simps(2) plainPipe_def isShellCommentStart_def disallowedPipelineToken_def nextOf_def
      addText_def pushPart_def)

lemma pipeLoop_part:
  assumes "argvs \<noteq> []" "[] \<notin> set argvs" "plainPipe st" "list_all jsWhitespace (ppBuf st)"
  shows "\<exists>st'. pipeLoop st prev (partText argvs) = Inr st' \<and> pipeEnd st' = Inr (ppSegments st @ map renderQuotedArgv argvs)"
  using assms
proof (induction argvs arbitrary: st prev)
  case (Cons a as)
  have q: "quoted (renderQuotedArgv a)" and skip: "pipeSkips (renderQuotedArgv a)" using Cons.prems
    by (auto intro!: quoted_argv pipeSkips_argv)
  have ne: "renderQuotedArgv a \<noteq> []" using q by (simp add: quoted_def)
  show ?case
  proof (cases as)
    case Nil
    have "pipeLoop st prev (renderQuotedArgv a) = Inr (addText (renderQuotedArgv a) st)"
      using skip Cons.prems(3) unfolding pipeSkips_def by (metis append_Nil2 pipeLoop.simps(1))
    then show ?thesis
      using Nil Cons.prems(3) ne quoted_trim[OF q Cons.prems(4), of "[]"]
      by (simp add: partText_def pipeEnd_def pushPart_def plainPipe_def addText_def)
  next
    case (Cons b bs)
    define st1 where "st1 = addText (renderQuotedArgv a @ '' '') st"
    define st2 where "st2 = addText '' '' (pushPart (st1\<lparr>ppEmpty := True\<rparr>))"
    have buf: "trim (ppBuf st1) = renderQuotedArgv a"
      using quoted_trim[OF q Cons.prems(4), of "'' ''"] by (simp add: st1_def jsWhitespace_def)
    have t: "partText (a # as) = renderQuotedArgv a @ '' | '' @ partText as" using Cons by (simp add: partText_def)
    have step: "pipeLoop st prev (partText (a # as)) = pipeLoop st2 (Some (CHR '' '')) (partText as)"
      unfolding t using skip Cons.prems(3) pipeLoop_bar[of "addText (renderQuotedArgv a) st"]
      by (simp add: pipeSkips_def st1_def st2_def)
    have props: "plainPipe st2" "list_all jsWhitespace (ppBuf st2)" "ppSegments st2 = ppSegments st @ [renderQuotedArgv a]"
      unfolding st2_def pushPart_def using Cons.prems(3) buf ne
      by (simp_all add: plainPipe_def jsWhitespace_def st1_def addText_def)
    have "as \<noteq> []" "[] \<notin> set as" using Cons.prems Cons by auto
    from Cons.IH[OF this props(1,2), of "Some (CHR '' '')"] show ?thesis
      unfolding step props(3) by simp
  qed
qed simp

lemma splitShellPipeline_part:
  assumes "argvs \<noteq> []" "[] \<notin> set argvs"
  shows "splitShellPipeline (partText argvs) = Inr (map renderQuotedArgv argvs)"
  using pipeLoop_part[OF assms, of emptyPipe None]
  by (auto simp: splitShellPipeline_def emptyPipe_def plainPipe_def)

subsection \<open>Its words\<close>

lemma argsLoop_body:
  "argsLoop False True False buf tokens (concat (map (\<lambda>c. if c = singleQuote then escapeSingle else [c]) v) @ singleQuote # rest) =
   argsLoop False False False (buf @ v) tokens rest"
  by (induction v arbitrary: buf) (auto simp: escapeSingle_def split: list.splits)

lemma argsLoop_escape:
  "argsLoop False False False buf tokens (shellEscapeSingleArg v @ rest) = argsLoop False False False (buf @ v) tokens rest"
  by (simp add: shellEscapeSingleArg_def argsLoop_body)

lemma argsLoop_argv:
  assumes "argv \<noteq> []" "[] \<notin> set argv"
  shows "argsLoop False False False [] tokens (renderQuotedArgv argv) = Some (tokens @ argv)"
  using assms
proof (induction argv arbitrary: tokens)
  case (Cons a as)
  show ?case
  proof (cases as)
    case Nil
    then show ?thesis using argsLoop_escape[of "[]" tokens a "[]"] Cons.prems
      by (simp add: renderQuotedArgv_def pushToken_def)
  next
    case (Cons b bs)
    then have t: "renderQuotedArgv (a # as) = shellEscapeSingleArg a @ CHR '' '' # renderQuotedArgv as"
      by (simp add: renderQuotedArgv_def)
    show ?thesis
      using Cons.IH[of "tokens @ [a]"] Cons.prems Cons unfolding t argsLoop_escape
      by (cases a) (simp_all add: pushToken_def jsWhitespace_def)
  qed
qed simp

lemma splitShellArgs_rendered: "argv \<noteq> [] \<Longrightarrow> [] \<notin> set argv \<Longrightarrow> splitShellArgs (renderQuotedArgv argv) = Some argv"
  unfolding splitShellArgs_def by (simp add: argsLoop_argv)

definition noEmptyWord :: "string list option \<Rightarrow> bool" where
  "noEmptyWord x \<longleftrightarrow> (case x of None \<Rightarrow> True | Some argv \<Rightarrow> [] \<notin> set argv)"

lemma argsLoop_nonempty: "[] \<notin> set tokens \<Longrightarrow> noEmptyWord (argsLoop escaped inS inD buf tokens r)"
proof (induction r arbitrary: escaped inS inD buf tokens rule: length_induct)
  case (1 r)
  have IH: "noEmptyWord (argsLoop e s d b ts u)" if "length u < length r" "[] \<notin> set ts" for e s d b ts u
    using 1 that by blast
  have push: "[] \<notin> set (pushToken buf tokens)" using "1.prems" by (simp add: pushToken_def)
  show ?case
  proof (cases r)
    case Nil
    then show ?thesis using push by (simp add: noEmptyWord_def)
  next
    case (Cons ch rest)
    have fin: "noEmptyWord (Some (pushToken buf tokens))" using push by (simp add: noEmptyWord_def)
    show ?thesis
      unfolding Cons argsLoop.simps
      by (cases rest; simp only: list.case; intro if_intro [where P = noEmptyWord] IH fin) (simp_all add: Cons "1.prems" push)
  qed
qed

lemma splitShellArgs_nonempty: "splitShellArgs r = Some argv \<Longrightarrow> [] \<notin> set argv"
  using argsLoop_nonempty[of "[]" False False False "[]" r] by (simp add: splitShellArgs_def noEmptyWord_def)


subsection \<open>Rebuilding it again\<close>

lemma chainPartsOf_last: "chainPartsOf command \<noteq> []" "snd (last (chainPartsOf command)) = None"
  by (auto simp: chainPartsOf_def splitCommandChainWithOperators_def Let_def coalesce_def split: option.splits if_splits)

lemma renderSegments_safe:
  "\<lbrakk>[] \<notin> set argvs; \<forall>argv \<in> set argvs. [] \<notin> set argv\<rbrakk> \<Longrightarrow>
   renderSegments safeSegment n (map renderQuotedArgv argvs) = Inr (map renderQuotedArgv argvs)"
  by (induction argvs arbitrary: n) (auto simp: safeSegment_def splitShellArgs_rendered)

lemma rebuildParts_safe:
  assumes "list_all groupOk gs" "\<forall>argv \<in> set (concat (map fst gs)). [] \<notin> set argv"
  shows "\<exists>m. rebuildParts safeSegment n out (chainPartsOfGroups gs) = Inr (out @ chainTextOf gs, m)"
  using assms
proof (induction gs arbitrary: n out)
  case (Cons g gs)
  obtain argvs operator where g: "g = (argvs, operator)" by force
  have "argvs \<noteq> []" "[] \<notin> set argvs" "\<forall>argv \<in> set argvs. [] \<notin> set argv" using Cons.prems g by (auto simp: groupOk_def)
  note here = splitShellPipeline_part[OF this(1,2)] renderSegments_safe[OF this(2,3)]
  define out' where "out' = out @ partText argvs @ (case operator of None \<Rightarrow> [] | Some o' \<Rightarrow> '' '' @ o' @ '' '')"
  have "\<exists>m. rebuildParts safeSegment (n + length argvs) out' (chainPartsOfGroups gs) = Inr (out' @ chainTextOf gs, m)"
    by (rule Cons.IH) (use Cons.prems in auto)
  then show ?case using here g by (simp add: chainPartsOfGroups_def chainTextOf_def partText_def[symmetric] out'_def)
qed (simp add: chainPartsOfGroups_def chainTextOf_def)

lemma safe_command_facts:
  assumes "buildSafeShellCommand command = Inr c"
  shows "\<exists>gs. shLex Plain None c = Some (chainTokens gs) \<and> map snd gs = map snd (chainPartsOf command) \<and>
      map splitShellArgs (segmentTexts (chainPartsOf command)) = map Some (concat (map fst gs)) \<and>
      gs \<noteq> [] \<and> snd (last gs) = None \<and> c = chainTextOf gs \<and> list_all groupOk gs \<and> lastAlone gs"
proof -
  obtain m where m: "rebuildShellCommandFromSource safeSegment command = Inr (c, m)"
    using assms by (auto simp: buildSafeShellCommand_def finalize_Inr)
  obtain gs where gs: "shLex Plain None c = Some (chainTokens gs)" "map snd gs = map snd (chainPartsOf command)"
    "c = chainTextOf gs" "list_all groupOk gs" "lastAlone gs" "m = length (segmentTexts (chainPartsOf command))"
    "map2 (\<lambda>raw n. splitShellArgs raw) (segmentTexts (chainPartsOf command)) [0..<m] = map Some (concat (map fst gs))"
    using safe.rebuild_quoted[OF m] by blast
  have "map2 (\<lambda>raw n. splitShellArgs raw) ts [0..<length ts] = map splitShellArgs ts" for ts
    by (intro nth_equalityI) auto
  then have "map splitShellArgs (segmentTexts (chainPartsOf command)) = map Some (concat (map fst gs))"
    using gs(6,7) by metis
  moreover have "gs \<noteq> []" "snd (last gs) = None"
    using gs(2) chainPartsOf_last[of command] by (metis list.map_disc_iff, metis last_map list.map_disc_iff)
  ultimately show ?thesis using gs by blast
qed

text \<open>
  C4. What \<open>buildSafeShellCommand\<close> gives is read by a shell as exactly the words that the analysis found in the
  segments of the command, with its operators and nothing to expand, and building the safe command from it
  again changes nothing.
\<close>

theorem safe_command_means_what_was_read:
  assumes "buildSafeShellCommand command = Inr c"
  shows "\<exists>gs. shLex Plain None c = Some (chainTokens gs) \<and> map snd gs = map snd (chainPartsOf command) \<and>
      map splitShellArgs (segmentTexts (chainPartsOf command)) = map Some (concat (map fst gs)) \<and>
      buildSafeShellCommand c = Inr c"
proof -
  obtain gs where gs: "shLex Plain None c = Some (chainTokens gs)" "map snd gs = map snd (chainPartsOf command)"
    "map splitShellArgs (segmentTexts (chainPartsOf command)) = map Some (concat (map fst gs))"
    and ok: "gs \<noteq> []" "list_all groupOk gs" "snd (last gs) = None" "lastAlone gs" and c: "c = chainTextOf gs"
    using safe_command_facts[OF assms] by blast
  have words: "\<forall>argv \<in> set (concat (map fst gs)). [] \<notin> set argv"
  proof
    fix argv
    assume "argv \<in> set (concat (map fst gs))"
    then have "Some argv \<in> set (map splitShellArgs (segmentTexts (chainPartsOf command)))" unfolding gs(3) by simp
    then obtain raw where "splitShellArgs raw = Some argv" by (metis imageE set_map)
    then show "[] \<notin> set argv" by (rule splitShellArgs_nonempty)
  qed
  have "trim c \<noteq> []" using quoted_trim[OF quoted_chainText[OF ok], of "[]" "[]"] quoted_chainText[OF ok] c
    by (auto simp: quoted_def)
  moreover obtain m where "rebuildParts safeSegment 0 [] (chainPartsOf c) = Inr (c, m)"
    using rebuildParts_safe[OF ok(2) words, of 0 "[]"] chainPartsOf_text[OF ok] c by auto
  ultimately have "buildSafeShellCommand c = Inr c"
    by (auto simp: buildSafeShellCommand_def rebuildShellCommandFromSource_def chainPartsOf_def Let_def finalize_Inr)
  then show ?thesis using gs by blast
qed

lemma safe_command_demo: "buildSafeShellCommand ''ls a* ; wc'' = Inr (chainTextOf [([[''ls'', ''a*'']], Some '';''), ([[''wc'']], None)])"
  by code_simp

theorem safe_command_means_what_was_read_witness:
  "\<exists>c. buildSafeShellCommand ''ls a* ; wc'' = Inr c \<and> buildSafeShellCommand c = Inr c"
  using safe_command_means_what_was_read[OF safe_command_demo] safe_command_demo by blast

text \<open>
  A quoted empty argument, which the shell passes on, is lost: the words the analysis finds, and with them the
  safe command, are those of another command.
\<close>

theorem empty_argument_is_lost:
  "shLex Plain None ([CHR ''g'', CHR '' '', singleQuote, singleQuote] @ '' f'') =
     Some [Word [(CHR ''g'', False)], literalWord [], Word [(CHR ''f'', False)]] \<and>
   splitShellArgs ([CHR ''g'', CHR '' '', singleQuote, singleQuote] @ '' f'') = Some [''g'', ''f''] \<and>
   buildSafeShellCommand ([CHR ''g'', CHR '' '', singleQuote, singleQuote] @ '' f'') = Inr (renderQuotedArgv [''g'', ''f''])"
  by code_simp

text \<open>
  After a comment the scanners stop for good, also before the next line: the analysis of a pipeline with a
  comment knows nothing of the lines below, which a shell goes on to run.
\<close>

theorem comment_hides_the_next_line:
  "splitShellPipeline (''a #'' @ [newline] @ ''b'') = Inr [''a''] \<and>
   splitCommandChainWithOperators (''a #'' @ [newline] @ ''b'') = None \<and>
   shLex Plain None (''a #'' @ [newline] @ ''b'') =
     Some [Word [(CHR ''a'', False)], Op [newline], Word [(CHR ''b'', False)]]"
  by code_simp

end
