(* ===== verification/SafeBins.thy ===== *)
theory SafeBins
  imports CommandResolution
begin

text \<open>
  Commands that may run without an allowlist entry because they only read their standard input: the profiles of
  their flags (\<open>src/src/infra/exec-safe-bin-policy-profiles.ts\<close>), the validation of an argument vector against
  a profile (\<open>exec-safe-bin-policy-validator.ts\<close>), the extra rules for interpreters
  (\<open>exec-safe-bin-semantics.ts\<close>), the trusted directories (\<open>exec-safe-bin-trust.ts\<close>) and their use in
  \<open>exec-approvals-allowlist.ts\<close>.

  Flag sets are lists without duplicates. A scanner position is the list of arguments from there on; a consumer
  gives the number of arguments it takes besides its own, or \<open>None\<close> for \<open>-1\<close>.
\<close>

section \<open>Profiles\<close>

record safe_bin_fixture =
  sfMinPositional :: "nat option"
  sfMaxPositional :: "nat option"
  sfAllowedValueFlags :: "string list"
  sfDeniedFlags :: "string list"

record safe_bin_profile =
  sbMinPositional :: "nat option"
  sbMaxPositional :: "nat option"
  sbAllowedValueFlags :: "string list"
  sbDeniedFlags :: "string list"
  sbKnownLongFlags :: "string list"
  sbLongFlagPrefixMap :: "(string, string option) jsmap"

definition longFlag :: "string \<Rightarrow> bool" where
  "longFlag flag \<longleftrightarrow> startsWith flag ''--''"

definition collectKnownLongFlags :: "string list \<Rightarrow> string list \<Rightarrow> string list" where
  "collectKnownLongFlags allowed denied = fold setAdd (filter longFlag denied) (fold setAdd (filter longFlag allowed) [])"

definition notePrefix :: "string \<Rightarrow> nat \<Rightarrow> (string, string option) jsmap \<Rightarrow> (string, string option) jsmap" where
  "notePrefix flag n m =
     (let prefix = take n flag
      in case mapGet m prefix of
           None \<Rightarrow> mapSet prefix (Some flag) m
         | Some existing \<Rightarrow> if existing \<noteq> Some flag then mapSet prefix None m else m)"

definition notePrefixes :: "string \<Rightarrow> (string, string option) jsmap \<Rightarrow> (string, string option) jsmap" where
  "notePrefixes flag m =
     (if \<not> longFlag flag \<or> length flag \<le> 2 then m else fold (notePrefix flag) [3..<Suc (length flag)] m)"

definition buildLongFlagPrefixMap :: "string list \<Rightarrow> (string, string option) jsmap" where
  "buildLongFlagPrefixMap known = fold notePrefixes known []"

definition compileSafeBinProfile :: "safe_bin_fixture \<Rightarrow> safe_bin_profile" where
  "compileSafeBinProfile f =
     (let allowed = fold setAdd (sfAllowedValueFlags f) []; denied = fold setAdd (sfDeniedFlags f) [];
          known = collectKnownLongFlags allowed denied
      in \<lparr>sbMinPositional = sfMinPositional f, sbMaxPositional = sfMaxPositional f, sbAllowedValueFlags = allowed,
          sbDeniedFlags = denied, sbKnownLongFlags = known, sbLongFlagPrefixMap = buildLongFlagPrefixMap known\<rparr>)"

definition fixture :: "nat option \<Rightarrow> nat option \<Rightarrow> string list \<Rightarrow> string list \<Rightarrow> safe_bin_fixture" where
  "fixture lo hi allowed denied =
     \<lparr>sfMinPositional = lo, sfMaxPositional = hi, sfAllowedValueFlags = allowed, sfDeniedFlags = denied\<rparr>"

definition safeBinProfileFixtures :: "(string, safe_bin_fixture) jsmap" where
  "safeBinProfileFixtures =
     [(''jq'', fixture None (Some 1) [''--arg'', ''--argjson'', ''--argstr'']
         [''--argfile'', ''--rawfile'', ''--slurpfile'', ''--from-file'', ''--library-path'', ''-L'', ''-f'']),
      (''grep'', fixture None (Some 0)
         [''--regexp'', ''--max-count'', ''--after-context'', ''--before-context'', ''--context'', ''--devices'',
          ''--binary-files'', ''--exclude'', ''--include'', ''--label'', ''-e'', ''-m'', ''-A'', ''-B'', ''-C'', ''-D'']
         [''--file'', ''--exclude-from'', ''--dereference-recursive'', ''--directories'', ''--recursive'', ''-f'', ''-d'',
          ''-r'', ''-R'']),
      (''cut'', fixture None (Some 0)
         [''--bytes'', ''--characters'', ''--fields'', ''--delimiter'', ''--output-delimiter'', ''-b'', ''-c'', ''-f'', ''-d''] []),
      (''sort'', fixture None (Some 0)
         [''--key'', ''--field-separator'', ''--buffer-size'', ''--parallel'', ''--batch-size'', ''-k'', ''-t'', ''-S'']
         [''--compress-program'', ''--files0-from'', ''--output'', ''--random-source'', ''--temporary-directory'', ''-T'', ''-o'']),
      (''uniq'', fixture None (Some 0)
         [''--skip-fields'', ''--skip-chars'', ''--check-chars'', ''--group'', ''-f'', ''-s'', ''-w''] []),
      (''head'', fixture None (Some 0) [''--lines'', ''--bytes'', ''-n'', ''-c''] []),
      (''tail'', fixture None (Some 0)
         [''--lines'', ''--bytes'', ''--sleep-interval'', ''--max-unchanged-stats'', ''--pid'', ''-n'', ''-c''] []),
      (''tr'', fixture (Some 1) (Some 2) [] []),
      (''wc'', fixture None (Some 0) [] [''--files0-from''])]"

definition safeBinProfiles :: "(string, safe_bin_profile) jsmap" where
  "safeBinProfiles = map (\<lambda>(name, f). (name, compileSafeBinProfile f)) safeBinProfileFixtures"

definition defaultSafeBins :: "string list" where
  "defaultSafeBins = [''cut'', ''uniq'', ''head'', ''tail'', ''tr'', ''wc'']"

section \<open>Validation\<close>

definition isPathLikeToken :: "string \<Rightarrow> bool" where
  "isPathLikeToken v =
     (let t = trim v
      in if t = [] \<or> t = ''-'' then False
         else if startsWith t ''./'' \<or> startsWith t ''../'' \<or> startsWith t ''~'' then True
         else if startsWith t ''/'' then True
         else (case t of a # b # c # r \<Rightarrow> isLetter a \<and> b = CHR '':'' \<and> (c = sep \<or> c = CHR 0x5C) | _ \<Rightarrow> False))"

definition hasGlobToken :: "string \<Rightarrow> bool" where
  "hasGlobToken v \<longleftrightarrow> (\<exists>c \<in> set v. c \<in> {CHR ''*'', CHR ''?'', CHR ''['', CHR '']''})"

definition isSafeLiteralToken :: "string \<Rightarrow> bool" where
  "isSafeLiteralToken v = (if v = [] \<or> v = ''-'' then True else \<not> hasGlobToken v \<and> \<not> isPathLikeToken v)"

definition isInvalidValueToken :: "string list \<Rightarrow> bool" where
  \<comment> \<open>of the argument at the next index, if there is one\<close>
  "isInvalidValueToken rest = (case rest of [] \<Rightarrow> True | v # _ \<Rightarrow> v = [] \<or> \<not> isSafeLiteralToken v)"

definition resolveCanonicalLongFlag :: "safe_bin_profile \<Rightarrow> string \<Rightarrow> string option" where
  "resolveCanonicalLongFlag prof flag =
     (if \<not> longFlag flag \<or> length flag \<le> 2 then None
      else if flag \<in> set (sbKnownLongFlags prof) then Some flag
      else coalesce (mapGet (sbLongFlagPrefixMap prof) flag) None)"

definition consumeLongOptionToken :: "safe_bin_profile \<Rightarrow> string \<Rightarrow> string option \<Rightarrow> string list \<Rightarrow> nat option" where
  "consumeLongOptionToken prof flag inlineValue rest =
     (case resolveCanonicalLongFlag prof flag of
        None \<Rightarrow> None
      | Some canonicalFlag \<Rightarrow>
          (let expectsValue = (canonicalFlag \<in> set (sbAllowedValueFlags prof))
           in if canonicalFlag = [] \<or> canonicalFlag \<in> set (sbDeniedFlags prof) then None
              else (case inlineValue of
                      Some v \<Rightarrow> if \<not> expectsValue then None else if isSafeLiteralToken v then Some 0 else None
                    | None \<Rightarrow> if \<not> expectsValue then Some 0 else if isInvalidValueToken rest then None else Some 1)))"

fun consumeShortOptionClusterToken :: "safe_bin_profile \<Rightarrow> string \<Rightarrow> string list \<Rightarrow> nat option" where
  \<comment> \<open>the flags of the cluster from the index \<open>j\<close> on\<close>
  "consumeShortOptionClusterToken prof [] rest = None"
| "consumeShortOptionClusterToken prof (c # inlineValue) rest =
     (let flag = [CHR ''-'', c]
      in if flag \<in> set (sbDeniedFlags prof) then None
         else if flag \<notin> set (sbAllowedValueFlags prof) then consumeShortOptionClusterToken prof inlineValue rest
         else if inlineValue \<noteq> [] then (if isSafeLiteralToken inlineValue then Some 0 else None)
         else if isInvalidValueToken rest then None else Some 1)"

fun collectRest :: "string list \<Rightarrow> string list \<Rightarrow> string list option" where
  \<comment> \<open>the arguments after \<open>--\<close>\<close>
  "collectRest positional [] = Some positional"
| "collectRest positional (a # args) =
     (if a = [] \<or> a = ''-'' then collectRest positional args
      else if isSafeLiteralToken a then collectRest (positional @ [a]) args else None)"

fun collectPositionalTokens :: "safe_bin_profile \<Rightarrow> string list \<Rightarrow> string list \<Rightarrow> string list option" where
  "collectPositionalTokens prof positional [] = Some positional"
| "collectPositionalTokens prof positional (rawToken # rest) =
     (case parseExecArgvToken rawToken of
        EmptyToken \<Rightarrow> collectPositionalTokens prof positional rest
      | StdinToken \<Rightarrow> collectPositionalTokens prof positional rest
      | Terminator \<Rightarrow> collectRest positional rest
      | Positional t \<Rightarrow>
          if isSafeLiteralToken t then collectPositionalTokens prof (positional @ [t]) rest else None
      | LongOption flag inlineValue \<Rightarrow>
          (case consumeLongOptionToken prof flag inlineValue rest of
             None \<Rightarrow> None | Some n \<Rightarrow> collectPositionalTokens prof positional (drop n rest))
      | ShortCluster cluster flags \<Rightarrow>
          (case consumeShortOptionClusterToken prof cluster rest of
             None \<Rightarrow> None | Some n \<Rightarrow> collectPositionalTokens prof positional (drop n rest)))"

definition validatePositionalCount :: "safe_bin_profile \<Rightarrow> string list \<Rightarrow> bool" where
  "validatePositionalCount prof positional \<longleftrightarrow>
     coalesce (sbMinPositional prof) 0 \<le> length positional \<and>
     (case sbMaxPositional prof of None \<Rightarrow> True | Some m \<Rightarrow> length positional \<le> m)"

section \<open>Rules for interpreters (\<open>exec-safe-bin-semantics.ts\<close>)\<close>

definition normalizeSafeBinName :: "string \<Rightarrow> string" where
  "normalizeSafeBinName raw =
     (let t = toLowerCase (trim raw)
      in if t = [] then []
         else stripWindowsExecutableSuffix (rev (takeWhile (\<lambda>c. c \<noteq> sep \<and> c \<noteq> CHR 0x5C) (rev t))))"

fun jqReadsEnv :: "char option \<Rightarrow> string \<Rightarrow> bool" where
  \<comment> \<open>\<open>JQ_ENV_FILTER_PATTERN\<close>; the option is the character before\<close>
  "jqReadsEnv prev [] = False"
| "jqReadsEnv prev (c # r) =
     ((startsWith (c # r) ''env'' \<and> (case prev of None \<Rightarrow> True | Some p \<Rightarrow> \<not> isWordChar p \<and> p \<noteq> CHR ''.'' \<and> p \<noteq> CHR ''$'') \<and>
       (case drop 3 (c # r) of [] \<Rightarrow> True | d # _ \<Rightarrow> \<not> isWordChar d)) \<or> jqReadsEnv (Some c) r)"

fun jqReadsEnvVariable :: "string \<Rightarrow> bool" where
  \<comment> \<open>\<open>JQ_ENV_VARIABLE_PATTERN\<close>\<close>
  "jqReadsEnvVariable [] = False"
| "jqReadsEnvVariable (c # r) =
     ((startsWith (c # r) ''$ENV'' \<and> (case drop 4 (c # r) of [] \<Rightarrow> True | d # _ \<Rightarrow> \<not> isWordChar d)) \<or> jqReadsEnvVariable r)"

definition validateSafeBinSemantics :: "string \<Rightarrow> string list \<Rightarrow> bool" where
  "validateSafeBinSemantics binName positional =
     (let name = normalizeSafeBinName binName
      in if name = ''jq'' then \<not> (\<exists>t \<in> set positional. jqReadsEnv None t \<or> jqReadsEnvVariable t)
         else name \<notin> {''awk'', ''gawk'', ''mawk'', ''nawk'', ''sed'', ''gsed''})"

definition validateSafeBinArgv :: "string list \<Rightarrow> safe_bin_profile \<Rightarrow> string \<Rightarrow> bool" where
  "validateSafeBinArgv args prof binName =
     (case collectPositionalTokens prof [] args of
        None \<Rightarrow> False
      | Some positional \<Rightarrow> validatePositionalCount prof positional \<and> validateSafeBinSemantics binName positional)"

section \<open>Trusted directories (\<open>exec-safe-bin-trust.ts\<close>)\<close>

definition defaultSafeBinTrustedDirs :: "string list" where
  "defaultSafeBinTrustedDirs = [''/bin'', ''/usr/bin'']"

definition pathDirname :: "string \<Rightarrow> string" where
  \<comment> \<open>\<open>path.dirname\<close> of an absolute path without a slash at its end\<close>
  "pathDirname p = (let d = rev (tl (dropWhile (\<lambda>c. c \<noteq> sep) (rev p))) in if d = [] then ''/'' else d)"

definition normalizeTrustedDir :: "exec_host \<Rightarrow> string \<Rightarrow> string option" where
  "normalizeTrustedDir h v = (if trim v = [] then None else Some (pathResolve (ehCwd h) [trim v]))"

definition buildTrustedSafeBinDirs :: "exec_host \<Rightarrow> string list \<Rightarrow> string list \<Rightarrow> string set" where
  "buildTrustedSafeBinDirs h baseDirs extraDirs = set (List.map_filter (normalizeTrustedDir h) (baseDirs @ extraDirs))"

definition isTrustedSafeBinPath :: "exec_host \<Rightarrow> string set option \<Rightarrow> string \<Rightarrow> bool" where
  "isTrustedSafeBinPath h trustedDirs resolvedPath \<longleftrightarrow>
     pathDirname (pathResolve (ehCwd h) [resolvedPath]) \<in>
       coalesce trustedDirs (buildTrustedSafeBinDirs h defaultSafeBinTrustedDirs [])"

section \<open>Use (\<open>exec-approvals-allowlist.ts\<close>)\<close>

definition normalizeSafeBins :: "string list \<Rightarrow> string set" where
  "normalizeSafeBins entries = set (filter (\<lambda>e. e \<noteq> []) (map (\<lambda>e. toLowerCase (trim e)) entries))"

definition resolveSafeBins :: "string list option \<Rightarrow> string set" where
  \<comment> \<open>\<open>None\<close> is \<open>undefined\<close>; for \<open>null\<close> the list is empty\<close>
  "resolveSafeBins entries = normalizeSafeBins (coalesce entries defaultSafeBins)"

definition isSafeBinUsage ::
  "exec_host \<Rightarrow> string set option \<Rightarrow> string set \<Rightarrow> (string, safe_bin_profile) jsmap option \<Rightarrow> string list \<Rightarrow>
   executable_resolution option \<Rightarrow> bool" where
  "isSafeBinUsage h trustedDirs safeBins profiles argv resolution =
     (case resolution of
        None \<Rightarrow> False
      | Some r \<Rightarrow>
          (let execName = toLowerCase (erExecutableName r)
           in safeBins \<noteq> {} \<and> execName \<noteq> [] \<and> execName \<in> safeBins \<and> truthy (erResolvedPath r) \<and>
              isTrustedSafeBinPath h trustedDirs (the (erResolvedPath r)) \<and>
              (case mapGet (coalesce profiles safeBinProfiles) execName of
                 None \<Rightarrow> False
               | Some prof \<Rightarrow> validateSafeBinArgv (tl argv) prof execName)))"


section \<open>What an accepted call may name\<close>

definition harmless :: "string \<Rightarrow> bool" where
  \<comment> \<open>no absolute, home or dot path and nothing to expand, unless it starts with a dash\<close>
  "harmless a \<longleftrightarrow> startsWith a ''-'' \<or> \<not> hasGlobToken a \<and> \<not> isPathLikeToken a"

lemma empty_token: "\<not> hasGlobToken []" "\<not> isPathLikeToken []"
  by (simp_all add: hasGlobToken_def isPathLikeToken_def)

lemma safeLiteral_harmless: "isSafeLiteralToken a \<Longrightarrow> harmless a"
  by (cases "a = [] \<or> a = ''-''") (auto simp: isSafeLiteralToken_def harmless_def empty_token)

lemma harmless_Nil: "harmless []"
  by (simp add: harmless_def empty_token)

lemma validValue_harmless: "\<not> isInvalidValueToken rest \<Longrightarrow> rest \<noteq> [] \<and> harmless (hd rest)"
  by (cases rest) (auto simp: isInvalidValueToken_def intro: safeLiteral_harmless)

lemma consumeLong_value:
  "consumeLongOptionToken prof flag inl rest = Some n \<Longrightarrow> n = 0 \<or> n = 1 \<and> rest \<noteq> [] \<and> harmless (hd rest)"
  using validValue_harmless
  by (auto simp: consumeLongOptionToken_def Let_def split: option.splits if_splits)

lemma consumeShort_value:
  "consumeShortOptionClusterToken prof cluster rest = Some n \<Longrightarrow> n = 0 \<or> n = 1 \<and> rest \<noteq> [] \<and> harmless (hd rest)"
  using validValue_harmless
  by (induction prof cluster rest rule: consumeShortOptionClusterToken.induct) (auto simp: Let_def split: if_splits)

lemma parse_dash:
  "parseExecArgvToken a = LongOption f i \<Longrightarrow> startsWith a ''-''"
  "parseExecArgvToken a = ShortCluster c fs \<Longrightarrow> startsWith a ''-''"
  "parseExecArgvToken a = Terminator \<Longrightarrow> startsWith a ''-''" "parseExecArgvToken a = StdinToken \<Longrightarrow> startsWith a ''-''"
  "parseExecArgvToken a = EmptyToken \<Longrightarrow> a = []" "parseExecArgvToken a = Positional t \<Longrightarrow> t = a"
  by (auto simp: parseExecArgvToken_def split: if_splits)

lemma collectRest_harmless: "collectRest positional args = Some p \<Longrightarrow> \<forall>a \<in> set args. harmless a"
  by (induction positional args rule: collectRest.induct)
     (auto split: if_splits intro: safeLiteral_harmless harmless_Nil simp: harmless_def[of "''-''"])

lemma collect_harmless: "collectPositionalTokens prof positional args = Some p \<Longrightarrow> \<forall>a \<in> set args. harmless a"
proof (induction args arbitrary: positional rule: length_induct)
  case (1 args)
  show ?case
  proof (cases args)
    case (Cons rawToken rest)
    have IH: "\<forall>a \<in> set (drop n rest). harmless a" if "collectPositionalTokens prof q (drop n rest) = Some p" for n q
    proof -
      have "length (drop n rest) < length args" using Cons by simp
      then show ?thesis using "1.IH" that by blast
    qed
    have skipped: "\<forall>a \<in> set rest. harmless a"
      if "\<forall>a \<in> set (drop n rest). harmless a" "n = 0 \<or> n = 1 \<and> rest \<noteq> [] \<and> harmless (hd rest)" for n
      using that by (cases rest) auto
    have dash: "harmless rawToken" if "startsWith rawToken ''-''" using that by (simp add: harmless_def)
    have "harmless rawToken \<and> (\<forall>a \<in> set rest. harmless a)"
    proof (cases "parseExecArgvToken rawToken")
      case EmptyToken
      then show ?thesis using "1.prems" Cons IH[of _ 0] parse_dash(5) harmless_Nil by auto
    next
      case Terminator
      then show ?thesis using "1.prems" Cons collectRest_harmless dash parse_dash(3) by auto
    next
      case StdinToken
      then show ?thesis using "1.prems" Cons IH[of _ 0] dash parse_dash(4) by auto
    next
      case (Positional t)
      then have "isSafeLiteralToken rawToken" "collectPositionalTokens prof (positional @ [t]) rest = Some p"
        using "1.prems" Cons parse_dash(6)[OF Positional] by (auto split: if_splits)
      then show ?thesis using safeLiteral_harmless IH[of _ 0] by auto
    next
      case (LongOption f i)
      then obtain n where n: "consumeLongOptionToken prof f i rest = Some n" "collectPositionalTokens prof positional (drop n rest) = Some p"
        using "1.prems" Cons by (auto split: option.splits)
      show ?thesis using skipped[OF IH[OF n(2)] consumeLong_value[OF n(1)]] dash parse_dash(1)[OF LongOption] by blast
    next
      case (ShortCluster c fs)
      then obtain n where n: "consumeShortOptionClusterToken prof c rest = Some n" "collectPositionalTokens prof positional (drop n rest) = Some p"
        using "1.prems" Cons by (auto split: option.splits)
      show ?thesis using skipped[OF IH[OF n(2)] consumeShort_value[OF n(1)]] dash parse_dash(2)[OF ShortCluster] by blast
    qed
    then show ?thesis using Cons by simp
  qed simp
qed

section \<open>Denied flags and their abbreviations\<close>

definition abbreviates :: "string \<Rightarrow> string \<Rightarrow> bool" where
  "abbreviates p flag \<longleftrightarrow> 3 \<le> length p \<and> length p \<le> length flag \<and> take (length p) flag = p"

definition entryOk :: "(string \<Rightarrow> bool) \<Rightarrow> string option option \<Rightarrow> bool" where
  \<comment> \<open>what an entry of the map says of the flags in \<open>K\<close>: none, perhaps several, or just the one\<close>
  "entryOk K x = (case x of None \<Rightarrow> \<not> (\<exists>g. K g) | Some None \<Rightarrow> True | Some (Some f) \<Rightarrow> K f \<and> (\<forall>g. K g \<longrightarrow> g = f))"

definition abbreviated :: "string set \<Rightarrow> string \<Rightarrow> string \<Rightarrow> bool" where
  "abbreviated F p g \<longleftrightarrow> g \<in> F \<and> longFlag g \<and> abbreviates p g"

definition mapOk :: "string set \<Rightarrow> (string, string option) jsmap \<Rightarrow> bool" where
  "mapOk F m \<longleftrightarrow> (\<forall>p. entryOk (abbreviated F p) (mapGet m p))"

definition partly :: "string set \<Rightarrow> string \<Rightarrow> nat \<Rightarrow> string \<Rightarrow> string \<Rightarrow> bool" where
  \<comment> \<open>as \<open>abbreviated\<close>, and \<open>flag\<close> itself by its prefixes up to the length \<open>n\<close>\<close>
  "partly F flag n p g \<longleftrightarrow> abbreviated F p g \<or> g = flag \<and> abbreviates p flag \<and> length p \<le> n"

lemma entryOk_notePrefix:
  "entryOk K (mapGet m p) \<Longrightarrow> p = take n flag \<Longrightarrow> entryOk (\<lambda>g. K g \<or> g = flag) (mapGet (notePrefix flag n m) p)"
  by (auto simp: entryOk_def notePrefix_def Let_def mapGet_set split: option.splits)

lemma notePrefix_other: "p \<noteq> take n flag \<Longrightarrow> mapGet (notePrefix flag n m) p = mapGet m p"
  by (auto simp: notePrefix_def Let_def split: option.splits)

lemma notePrefix_partly:
  assumes "\<forall>p. entryOk (partly F flag n p) (mapGet m p)" "2 \<le> n" "Suc n \<le> length flag"
  shows "\<forall>p. entryOk (partly F flag (Suc n) p) (mapGet (notePrefix flag (Suc n) m) p)"
proof
  fix p
  show "entryOk (partly F flag (Suc n) p) (mapGet (notePrefix flag (Suc n) m) p)"
  proof (cases "p = take (Suc n) flag")
    case True
    then have "abbreviates p flag" "length p = Suc n" using assms(2,3) by (auto simp: abbreviates_def)
    then have "partly F flag (Suc n) p = (\<lambda>g. partly F flag n p g \<or> g = flag)" by (auto simp: partly_def fun_eq_iff)
    then show ?thesis using entryOk_notePrefix[OF assms(1)[rule_format] True] by simp
  next
    case False
    then have "\<not> (abbreviates p flag \<and> length p = Suc n)" by (auto simp: abbreviates_def)
    then have "partly F flag (Suc n) p = partly F flag n p" by (auto simp: partly_def fun_eq_iff le_Suc_eq)
    then show ?thesis using notePrefix_other[OF False, of m] assms(1) by simp
  qed
qed

lemma notePrefixes_ok:
  assumes "mapOk F m"
  shows "mapOk (insert flag F) (notePrefixes flag m)"
proof (cases "longFlag flag \<and> 2 < length flag")
  case False
  then have "abbreviated (insert flag F) p = abbreviated F p" for p by (auto simp: abbreviated_def abbreviates_def fun_eq_iff)
  moreover have "notePrefixes flag m = m" using False by (auto simp: notePrefixes_def)
  ultimately show ?thesis using assms by (simp add: mapOk_def)
next
  case True
  have "partly F flag 2 p = abbreviated F p" for p by (auto simp: partly_def abbreviates_def fun_eq_iff)
  then have start: "\<forall>p. entryOk (partly F flag 2 p) (mapGet m p)" using assms by (simp add: mapOk_def)
  have "\<forall>p. entryOk (partly F flag n p) (mapGet (fold (notePrefix flag) [3..<Suc n] m) p)" if "2 \<le> n" "n \<le> length flag" for n
    using that
  proof (induction n)
    case (Suc n)
    show ?case
    proof (cases "n = 1")
      case True
      then show ?thesis using start by (simp add: numeral_2_eq_2)
    next
      case False
      then have n: "2 \<le> n" "n \<le> length flag" "Suc n \<le> length flag" using Suc.prems by auto
      have "[3..<Suc (Suc n)] = [3..<Suc n] @ [Suc n]" using n by simp
      then show ?thesis using notePrefix_partly[OF Suc.IH[OF n(1,2)] n(1,3)] by simp
    qed
  qed simp
  from this[of "length flag"] True have "\<forall>p. entryOk (partly F flag (length flag) p) (mapGet (notePrefixes flag m) p)"
    by (simp add: notePrefixes_def)
  moreover have "partly F flag (length flag) p = abbreviated (insert flag F) p" for p
    using True by (auto simp: partly_def abbreviated_def abbreviates_def fun_eq_iff)
  ultimately show ?thesis by (simp add: mapOk_def)
qed

lemma buildMap_ok: "mapOk (set known) (buildLongFlagPrefixMap known)"
proof -
  have "mapOk (F \<union> set known) (fold notePrefixes known m)" if "mapOk F m" for F m
    using that
  proof (induction known arbitrary: F m)
    case (Cons k known)
    from Cons.IH[OF notePrefixes_ok[OF Cons.prems, of k]] show ?case by (simp add: Un_commute)
  qed simp
  from this[of "{}" "[]"] show ?thesis by (simp add: buildLongFlagPrefixMap_def mapOk_def entryOk_def abbreviated_def)
qed

lemma fold_setAdd: "set (fold setAdd xs ys) = set xs \<union> set ys"
  by (induction xs arbitrary: ys) (auto simp: setAdd_def)

lemma compiled_known:
  "set (sbKnownLongFlags (compileSafeBinProfile f)) = {g \<in> set (sfAllowedValueFlags f) \<union> set (sfDeniedFlags f). longFlag g}"
  "set (sbDeniedFlags (compileSafeBinProfile f)) = set (sfDeniedFlags f)"
  "set (sbAllowedValueFlags (compileSafeBinProfile f)) = set (sfAllowedValueFlags f)"
  "mapOk (set (sbKnownLongFlags (compileSafeBinProfile f))) (sbLongFlagPrefixMap (compileSafeBinProfile f))"
proof -
  show "mapOk (set (sbKnownLongFlags (compileSafeBinProfile f))) (sbLongFlagPrefixMap (compileSafeBinProfile f))"
    using buildMap_ok by (simp add: compileSafeBinProfile_def Let_def)
qed (auto simp: compileSafeBinProfile_def Let_def collectKnownLongFlags_def fold_setAdd)

fun optionFlags :: "safe_bin_profile \<Rightarrow> string list \<Rightarrow> string list" where
  \<comment> \<open>the flags an argument vector gives, in the places where the tool reads options\<close>
  "optionFlags prof [] = []"
| "optionFlags prof (a # rest) =
     (case parseExecArgvToken a of
        Terminator \<Rightarrow> []
      | LongOption flag inlineValue \<Rightarrow>
          flag # (case consumeLongOptionToken prof flag inlineValue rest of
                    None \<Rightarrow> [] | Some n \<Rightarrow> optionFlags prof (drop n rest))
      | ShortCluster cluster flags \<Rightarrow>
          (case consumeShortOptionClusterToken prof cluster rest of
             None \<Rightarrow> [] | Some n \<Rightarrow> optionFlags prof (drop n rest))
      | _ \<Rightarrow> optionFlags prof rest)"

lemma consumeLong_flag:
  assumes "consumeLongOptionToken (compileSafeBinProfile f) flag inl rest = Some n" "d \<in> set (sfDeniedFlags f)"
    "longFlag d" "abbreviates flag d"
  shows "flag \<in> set (sfAllowedValueFlags f)"
proof -
  let ?p = "compileSafeBinProfile f"
  obtain c where c: "resolveCanonicalLongFlag ?p flag = Some c" "c \<notin> set (sfDeniedFlags f)"
    using assms(1) by (auto simp: consumeLongOptionToken_def Let_def compiled_known split: option.splits if_splits)
  have d: "abbreviated (set (sbKnownLongFlags ?p)) flag d" using assms(2-4) by (simp add: abbreviated_def compiled_known)
  show ?thesis
  proof (cases "flag \<in> set (sbKnownLongFlags ?p)")
    case True
    then show ?thesis using c by (auto simp: resolveCanonicalLongFlag_def compiled_known split: if_splits)
  next
    case False
    then have "mapGet (sbLongFlagPrefixMap ?p) flag = Some (Some c)"
      using c(1) by (auto simp: resolveCanonicalLongFlag_def coalesce_def split: if_splits option.splits)
    moreover have "entryOk (abbreviated (set (sbKnownLongFlags ?p)) flag) (mapGet (sbLongFlagPrefixMap ?p) flag)"
      using compiled_known(4)[of f] unfolding mapOk_def by blast
    ultimately have "d = c" using d by (auto simp: entryOk_def)
    then show ?thesis using c assms(2) by simp
  qed
qed

lemma accepted_flags:
  assumes "collectPositionalTokens (compileSafeBinProfile f) positional args = Some p"
    and "t \<in> set (optionFlags (compileSafeBinProfile f) args)" "d \<in> set (sfDeniedFlags f)" "longFlag d" "abbreviates t d"
  shows "t \<in> set (sfAllowedValueFlags f)"
  using assms(1,2)
proof (induction args arbitrary: positional rule: length_induct)
  case (1 args)
  have IH: "t \<in> set (sfAllowedValueFlags f)"
    if "length ys < length args" "collectPositionalTokens (compileSafeBinProfile f) q ys = Some p"
      "t \<in> set (optionFlags (compileSafeBinProfile f) ys)" for ys q
    using "1.IH" that by blast
  show ?case
  proof (cases args)
    case Nil
    then show ?thesis using "1.prems" by simp
  next
    case (Cons a rest)
    show ?thesis
    proof (cases "parseExecArgvToken a")
      case (LongOption g i)
      then obtain n where n: "consumeLongOptionToken (compileSafeBinProfile f) g i rest = Some n"
        "collectPositionalTokens (compileSafeBinProfile f) positional (drop n rest) = Some p"
        using "1.prems"(1) Cons by (auto split: option.splits)
      then have "t = g \<or> t \<in> set (optionFlags (compileSafeBinProfile f) (drop n rest))" using "1.prems"(2) Cons LongOption by auto
      then show ?thesis using consumeLong_flag[OF n(1) assms(3,4)] assms(5) IH[OF _ n(2)] Cons by auto
    next
      case (ShortCluster c fs)
      then obtain n where n: "consumeShortOptionClusterToken (compileSafeBinProfile f) c rest = Some n"
        "collectPositionalTokens (compileSafeBinProfile f) positional (drop n rest) = Some p"
        using "1.prems"(1) Cons by (auto split: option.splits)
      then have "t \<in> set (optionFlags (compileSafeBinProfile f) (drop n rest))" using "1.prems"(2) Cons ShortCluster by auto
      then show ?thesis using IH[OF _ n(2)] Cons by auto
    qed (use "1.prems" Cons IH in \<open>auto split: if_splits\<close>)
  qed
qed

text \<open>
  C33. An accepted call of a safe command names no absolute path, no path from the home or the current directory
  and no pattern, except behind a dash, and a long flag it gives abbreviates a denied flag only when it is itself
  an allowed flag.
\<close>

theorem safe_bin_call_is_tame:
  assumes "validateSafeBinArgv args (compileSafeBinProfile f) bin"
  shows "(\<forall>a \<in> set args. startsWith a ''-'' \<or> \<not> hasGlobToken a \<and> \<not> isPathLikeToken a) \<and>
    (\<forall>t \<in> set (optionFlags (compileSafeBinProfile f) args). \<forall>d \<in> set (sfDeniedFlags f).
       longFlag d \<and> abbreviates t d \<longrightarrow> t \<in> set (sfAllowedValueFlags f))"
proof -
  obtain p where p: "collectPositionalTokens (compileSafeBinProfile f) [] args = Some p"
    using assms by (auto simp: validateSafeBinArgv_def split: option.splits)
  show ?thesis using collect_harmless[OF p] accepted_flags[OF p] by (auto simp: harmless_def)
qed

definition tailFixture :: safe_bin_fixture where
  "tailFixture = fixture None (Some 0)
     [''--lines'', ''--bytes'', ''--sleep-interval'', ''--max-unchanged-stats'', ''--pid'', ''-n'', ''-c''] []"

lemma tail_call: "validateSafeBinArgv [''-n'', ''5''] (compileSafeBinProfile tailFixture) ''tail''"
  by code_simp

theorem safe_bin_call_is_tame_witness:
  "mapGet safeBinProfileFixtures ''tail'' = Some tailFixture
   \<and> validateSafeBinArgv [''-n'', ''5''] (compileSafeBinProfile tailFixture) ''tail''
   \<and> \<not> hasGlobToken ''5'' \<and> \<not> isPathLikeToken ''5''"
proof (intro conjI)
  have "\<not> startsWith ''5'' ''-''" by code_simp
  then show "\<not> hasGlobToken ''5''" "\<not> isPathLikeToken ''5''"
    using safe_bin_call_is_tame[OF tail_call] by auto
  show "mapGet safeBinProfileFixtures ''tail'' = Some tailFixture" by (simp add: safeBinProfileFixtures_def tailFixture_def)
qed (rule tail_call)

definition uniqFixture :: safe_bin_fixture where
  "uniqFixture = fixture None (Some 0)
     [''--skip-fields'', ''--skip-chars'', ''--check-chars'', ''--group'', ''-f'', ''-s'', ''-w''] []"

text \<open>
  The argument after \<open>--group\<close> of \<open>uniq\<close> is taken for the value of the flag; to \<open>uniq\<close>, where that value can
  only follow an equals sign, it is the file to read.
\<close>

theorem uniq_group_hides_a_file:
  "mapGet safeBinProfileFixtures ''uniq'' = Some uniqFixture \<and>
   validateSafeBinArgv [''--group'', ''notes''] (compileSafeBinProfile uniqFixture) ''uniq'' \<and>
   \<not> validateSafeBinArgv [''notes''] (compileSafeBinProfile uniqFixture) ''uniq''"
proof (intro conjI)
  have "mapGet safeBinProfiles ''uniq'' = Some (compileSafeBinProfile uniqFixture)"
    by (simp add: safeBinProfiles_def safeBinProfileFixtures_def uniqFixture_def)
  have lit: "isSafeLiteralToken ''notes''" and sem: "validateSafeBinSemantics ''uniq'' []" by code_simp+
  have "''--group'' \<in> set (sbKnownLongFlags (compileSafeBinProfile uniqFixture))"
    unfolding compiled_known by (simp add: uniqFixture_def fixture_def longFlag_def)
  then have c: "consumeLongOptionToken (compileSafeBinProfile uniqFixture) ''--group'' None [''notes''] = Some 1"
    using lit by (simp add: consumeLongOptionToken_def resolveCanonicalLongFlag_def longFlag_def compiled_known
        isInvalidValueToken_def uniqFixture_def fixture_def)
  have count: "sbMinPositional (compileSafeBinProfile uniqFixture) = None" "sbMaxPositional (compileSafeBinProfile uniqFixture) = Some 0"
    by (simp_all add: compileSafeBinProfile_def Let_def uniqFixture_def fixture_def)
  show "validateSafeBinArgv [''--group'', ''notes''] (compileSafeBinProfile uniqFixture) ''uniq''"
    using c sem count by (simp add: validateSafeBinArgv_def parseExecArgvToken_def validatePositionalCount_def)
  show "\<not> validateSafeBinArgv [''notes''] (compileSafeBinProfile uniqFixture) ''uniq''"
    using lit count by (simp add: validateSafeBinArgv_def parseExecArgvToken_def validatePositionalCount_def)
  show "mapGet safeBinProfileFixtures ''uniq'' = Some uniqFixture" by (simp add: safeBinProfileFixtures_def uniqFixture_def)
qed

end
