(* ===== verification/InlineEval.thy ===== *)
theory InlineEval
  imports CommandResolution
begin

text \<open>
  Interpreters that run a program given among their arguments (\<open>src/src/infra/exec-inline-eval.ts\<close>): the flags and
  positions at which each of them takes one, the search of an argument vector for it, and the allowlist patterns
  that name an interpreter.
\<close>

section \<open>Specifications\<close>

record interpreter_flag_spec =
  ifNames :: "string list"
  ifExactFlags :: "string list"
  ifRawExactFlags :: "(string, string) jsmap"
  ifRawPrefixFlags :: "(string \<times> string) list" \<comment> \<open>label and prefix\<close>
  ifPrefixFlags :: "(string \<times> string) list"
  ifScanPastDoubleDash :: bool

record positional_interpreter_spec =
  piNames :: "string list"
  piFileFlags :: "string list"
  piFileFlagPrefixes :: "string list"
  piExactValueFlags :: "string list"
  piExactOptionalValueFlags :: "string list"
  piPrefixValueFlags :: "string list"
  piFlag :: string

definition flagSpec :: "string list \<Rightarrow> string list \<Rightarrow> interpreter_flag_spec" where
  \<comment> \<open>a specification with names and exact flags only\<close>
  "flagSpec names exact =
     \<lparr>ifNames = names, ifExactFlags = exact, ifRawExactFlags = [], ifRawPrefixFlags = [], ifPrefixFlags = [],
      ifScanPastDoubleDash = False\<rparr>"

definition flagInterpreterInlineEvalSpecs :: "interpreter_flag_spec list" where
  "flagInterpreterInlineEvalSpecs =
     [flagSpec [''python'', ''python2'', ''python3'', ''pypy'', ''pypy3''] [''-c''],
      flagSpec [''node'', ''nodejs'', ''bun'', ''deno''] [''-e'', ''--eval'', ''-p'', ''--print''],
      (flagSpec [''awk'', ''gawk'', ''mawk'', ''nawk''] [''-e'', ''--source''])\<lparr>ifPrefixFlags := [(''--source'', ''--source='')]\<rparr>,
      flagSpec [''ruby''] [''-e''],
      flagSpec [''perl''] [''-e'', ''-E''],
      flagSpec [''php''] [''-r''],
      flagSpec [''lua''] [''-e''],
      flagSpec [''osascript''] [''-e''],
      (flagSpec [''find''] [''-exec'', ''-execdir'', ''-ok'', ''-okdir''])\<lparr>ifScanPastDoubleDash := True\<rparr>,
      (flagSpec [''make'', ''gmake''] [''-f'', ''--file'', ''--makefile'', ''--eval''])
        \<lparr>ifRawExactFlags := [(''-E'', ''-E'')], ifRawPrefixFlags := [(''-E'', ''-E'')],
         ifPrefixFlags := [(''-f'', ''-f''), (''--file'', ''--file=''), (''--makefile'', ''--makefile=''),
                           (''--eval'', ''--eval='')]\<rparr>,
      (flagSpec [''sed'', ''gsed''] [])
        \<lparr>ifRawExactFlags := [(''-e'', ''-e'')], ifRawPrefixFlags := [(''-e'', ''-e'')]\<rparr>]"

definition positionalInterpreterInlineEvalSpecs :: "positional_interpreter_spec list" where
  "positionalInterpreterInlineEvalSpecs =
     [\<lparr>piNames = [''awk'', ''gawk'', ''mawk'', ''nawk''], piFileFlags = [''-f'', ''--file''],
       piFileFlagPrefixes = [''-f'', ''--file=''],
       piExactValueFlags = [''-f'', ''--file'', ''-F'', ''--field-separator'', ''-v'', ''--assign'', ''-i'', ''--include'',
         ''-l'', ''--load'', ''-W''],
       piExactOptionalValueFlags = [],
       piPrefixValueFlags = [''-F'', ''--field-separator='', ''-v'', ''--assign='', ''--include='', ''--load=''],
       piFlag = ''<program>''\<rparr>,
      \<lparr>piNames = [''xargs''], piFileFlags = [], piFileFlagPrefixes = [],
       piExactValueFlags = [''-a'', ''--arg-file'', ''-d'', ''--delimiter'', ''-E'', ''-I'', ''-L'', ''--max-lines'', ''-n'',
         ''--max-args'', ''-P'', ''--max-procs'', ''-s'', ''--max-chars''],
       piExactOptionalValueFlags = [''--eof'', ''--replace''],
       piPrefixValueFlags = [''-a'', ''--arg-file='', ''-d'', ''--delimiter='', ''-E'', ''--eof='', ''-I'', ''--replace='',
         ''-i'', ''-L'', ''--max-lines='', ''-l'', ''-n'', ''--max-args='', ''-P'', ''--max-procs='', ''-s'', ''--max-chars=''],
       piFlag = ''<command>''\<rparr>,
      \<lparr>piNames = [''sed'', ''gsed''], piFileFlags = [''-f'', ''--file''], piFileFlagPrefixes = [''-f'', ''--file=''],
       piExactValueFlags = [''-f'', ''--file'', ''-l'', ''--line-length''],
       piExactOptionalValueFlags = [''-i'', ''--in-place''],
       piPrefixValueFlags = [''-f'', ''--file='', ''--in-place='', ''--line-length=''],
       piFlag = ''<program>''\<rparr>]"

definition interpreterAllowlistNames :: "string list" where
  "interpreterAllowlistNames =
     concat (map ifNames flagInterpreterInlineEvalSpecs) @ concat (map piNames positionalInterpreterInlineEvalSpecs)"

definition findInterpreterSpec :: "string \<Rightarrow> interpreter_flag_spec option" where
  "findInterpreterSpec executable =
     (let normalized = normalizeExecutableToken executable
      in find (\<lambda>spec. normalized \<in> set (ifNames spec)) flagInterpreterInlineEvalSpecs)"

definition findPositionalInterpreterSpec :: "string \<Rightarrow> positional_interpreter_spec option" where
  "findPositionalInterpreterSpec executable =
     (let normalized = normalizeExecutableToken executable
      in find (\<lambda>spec. normalized \<in> set (piNames spec)) positionalInterpreterInlineEvalSpecs)"

section \<open>Search of an argument vector\<close>

record interpreter_inline_eval_hit =
  ihExecutable :: string
  ihNormalizedExecutable :: string
  ihFlag :: string
  ihArgv :: "string list"

definition createInlineEvalHit :: "string \<Rightarrow> string list \<Rightarrow> string \<Rightarrow> interpreter_inline_eval_hit" where
  "createInlineEvalHit executable argv flag =
     \<lparr>ihExecutable = executable, ihNormalizedExecutable = normalizeExecutableToken executable, ihFlag = flag, ihArgv = argv\<rparr>"

definition properPrefix :: "string \<Rightarrow> string \<Rightarrow> bool" where
  "properPrefix token pre \<longleftrightarrow> startsWith token pre \<and> length token > length pre"

fun flagEvalHit :: "interpreter_flag_spec \<Rightarrow> string list \<Rightarrow> string option" where
  \<comment> \<open>the first loop, over the arguments; the result is the flag of the hit\<close>
  "flagEvalHit spec [] = None"
| "flagEvalHit spec (arg # rest) =
     (let token = trim arg; lower = toLowerCase token
      in if token = [] then flagEvalHit spec rest
         else if token = ''--'' then (if ifScanPastDoubleDash spec then flagEvalHit spec rest else None)
         else if truthy (mapGet (ifRawExactFlags spec) token) then mapGet (ifRawExactFlags spec) token
         else (case find (\<lambda>(label, pre). properPrefix token pre) (ifRawPrefixFlags spec) of
                 Some (label, _) \<Rightarrow> Some label
               | None \<Rightarrow>
                   if lower \<in> set (ifExactFlags spec) then Some lower
                   else (case find (\<lambda>(label, pre). properPrefix lower pre) (ifPrefixFlags spec) of
                           Some (label, _) \<Rightarrow> Some label
                         | None \<Rightarrow> flagEvalHit spec rest)))"

fun positionalEvalHit :: "positional_interpreter_spec \<Rightarrow> string list \<Rightarrow> string option" where
  \<comment> \<open>the second loop\<close>
  "positionalEvalHit spec [] = None"
| "positionalEvalHit spec (arg # rest) =
     (let token = trim arg
      in if token = [] then positionalEvalHit spec rest
         else if token = ''--'' then
           (case rest of [] \<Rightarrow> None | next # _ \<Rightarrow> if trim next = [] then None else Some (piFlag spec))
         else if token \<in> set (piFileFlags spec) then None
         else if \<exists>pre \<in> set (piFileFlagPrefixes spec). properPrefix token pre then None
         else if token \<in> set (piExactValueFlags spec) then positionalEvalHit spec (drop 1 rest)
         else if token \<in> set (piExactOptionalValueFlags spec) then positionalEvalHit spec rest
         else if \<exists>pre \<in> set (piPrefixValueFlags spec). properPrefix token pre then positionalEvalHit spec rest
         else if startsWith token ''-'' then positionalEvalHit spec rest
         else Some (piFlag spec))"

definition detectInterpreterInlineEvalArgv :: "string list \<Rightarrow> interpreter_inline_eval_hit option" where
  "detectInterpreterInlineEvalArgv argv =
     (let executable = (case argv of [] \<Rightarrow> [] | a # _ \<Rightarrow> trim a);
          positionalHit = (case findPositionalInterpreterSpec executable of
             None \<Rightarrow> None | Some spec \<Rightarrow> positionalEvalHit spec (drop 1 argv));
          flag = (case findInterpreterSpec executable of
             None \<Rightarrow> positionalHit
           | Some spec \<Rightarrow> orElse (flagEvalHit spec (drop 1 argv)) positionalHit)
      in if executable = [] then None else map_option (createInlineEvalHit executable argv) flag)"

definition describeInterpreterInlineEval :: "interpreter_inline_eval_hit \<Rightarrow> string" where
  "describeInterpreterInlineEval hit =
     ihNormalizedExecutable hit @
     (if ihFlag hit = ''<command>'' then '' inline command''
      else if ihFlag hit = ''<program>'' then '' inline program''
      else '' '' @ ihFlag hit)"

definition isInterpreterLikeAllowlistPattern :: "string option \<Rightarrow> bool" where
  "isInterpreterLikeAllowlistPattern pattern =
     (let t = toLowerCase (trim (coalesce pattern []))
      in if t = [] then False
         else if normalizeExecutableToken t \<in> set interpreterAllowlistNames then True
         else (let basename = last (splitOn sep (map (\<lambda>c. if c = CHR 0x5C then sep else c) t));
                   withoutExe = (if endsWith basename ''.exe'' then take (length basename - 4) basename else basename);
                   strippedWildcards = filter (\<lambda>c. c \<notin> set ''*?[]{}()'') withoutExe
               in strippedWildcards \<in> set interpreterAllowlistNames))"

section \<open>What is found\<close>

definition evalFlagOf :: "interpreter_flag_spec \<Rightarrow> string \<Rightarrow> bool" where
  \<comment> \<open>an argument that is an evaluation flag of the interpreter\<close>
  "evalFlagOf spec arg \<longleftrightarrow>
     truthy (mapGet (ifRawExactFlags spec) (trim arg)) \<or> toLowerCase (trim arg) \<in> set (ifExactFlags spec)"

lemma flagEvalHit_finds:
  assumes "evalFlagOf spec flag" and "trim flag \<notin> {[], ''--''}"
    and "ifScanPastDoubleDash spec \<or> (\<forall>a \<in> set pre. trim a \<noteq> ''--'')"
  shows "flagEvalHit spec (pre @ flag # post) \<noteq> None"
  using assms(3)
proof (induction pre)
  case Nil
  show ?case using assms(1,2)
    by (auto simp: evalFlagOf_def Let_def truthy_def split: option.splits)
next
  case (Cons a pre)
  then have "flagEvalHit spec (pre @ flag # post) \<noteq> None" by auto
  moreover have "trim a = ''--'' \<Longrightarrow> ifScanPastDoubleDash spec" using Cons.prems by auto
  ultimately show ?case by (auto simp: Let_def truthy_def split: option.splits)
qed

text \<open>
  C36. A program given with an evaluation flag is found, whatever stands around the flag, unless \<open>--\<close> comes before it.
\<close>

theorem eval_flag_is_found:
  assumes "findInterpreterSpec (trim x) = Some spec" and "trim x \<noteq> []"
    and "evalFlagOf spec flag" and "trim flag \<notin> {[], ''--''}"
    and "ifScanPastDoubleDash spec \<or> (\<forall>a \<in> set pre. trim a \<noteq> ''--'')"
  shows "\<exists>hit. detectInterpreterInlineEvalArgv (x # pre @ flag # post) = Some hit \<and> ihExecutable hit = trim x \<and>
    ihArgv hit = x # pre @ flag # post"
proof -
  obtain l where "flagEvalHit spec (pre @ flag # post) = Some l"
    using flagEvalHit_finds[OF assms(3-5)] by blast
  then show ?thesis using assms(1,2) by (simp add: detectInterpreterInlineEvalArgv_def createInlineEvalHit_def Let_def)
qed

lemma python_spec: "findInterpreterSpec ''/usr/bin/python3'' =
    Some (flagSpec [''python'', ''python2'', ''python3'', ''pypy'', ''pypy3''] [''-c''])"
  by code_simp

theorem eval_flag_is_found_witness:
  "\<exists>hit. detectInterpreterInlineEvalArgv [''/usr/bin/python3'', ''-I'', ''-c'', ''1''] = Some hit \<and>
     ihExecutable hit = ''/usr/bin/python3'' \<and> ihArgv hit = [''/usr/bin/python3'', ''-I'', ''-c'', ''1'']"
proof -
  have t: "trim ''/usr/bin/python3'' = ''/usr/bin/python3''" "trim ''-c'' = ''-c''" "trim ''-I'' = ''-I''" by code_simp+
  have l: "toLowerCase ''-c'' = ''-c''" by code_simp
  show ?thesis
    using eval_flag_is_found[of "''/usr/bin/python3''" _ "''-c''" "[''-I'']" "[''1'']"] python_spec
    by (simp add: t l evalFlagOf_def flagSpec_def)
qed

text \<open>
  A flag bundled with others is not found: \<open>perl -we\<close> and \<open>python3 -Ic\<close> run the program that follows.
\<close>

theorem bundled_eval_flag_is_missed:
  "detectInterpreterInlineEvalArgv [''perl'', ''-we'', ''unlink'']  = None \<and>
   detectInterpreterInlineEvalArgv [''python3'', ''-Ic'', ''exit()''] = None \<and>
   detectInterpreterInlineEvalArgv [''perl'', ''-w'', ''-e'', ''unlink''] \<noteq> None"
  by code_simp

end
