(* ===== verification/SegmentMatch.thy ===== *)
theory SegmentMatch
  imports ShellAnalysis SafeBins InlineEval
begin

text \<open>
  One segment of an analysed command against the allowlist (\<open>src/src/infra/exec-approvals-allowlist.ts\<close>, first
  half): the commands that skills bring along, the script or the program a shell is called for, the allowlist entry
  of a segment and what else may satisfy it. The target platform is POSIX, so the argument patterns of entries,
  which are only read on Windows, play no part. A context holds what the callers pass through; \<open>axHost\<close> is the machine
  and \<open>axPlatform\<close> is \<open>process.platform\<close>, on which the wrappers depend.
\<close>

record skill_bin_trust_entry =
  skName :: string
  skResolvedPath :: string

record allowlist_context =
  axHost :: exec_host
  axPlatform :: string
  axAllowlist :: "allowlist_entry list"
  axSafeBins :: "string set"
  axSafeBinProfiles :: "(string, safe_bin_profile) jsmap option"
  axCwd :: "string option"
  axEnv :: "process_env option"
  axTrustedSafeBinDirs :: "string set option"
  axSkillBins :: "skill_bin_trust_entry list"
  axAutoAllowSkills :: bool

definition isPathScopedExecutableToken :: "string \<Rightarrow> bool" where
  "isPathScopedExecutableToken token \<longleftrightarrow> sep \<in> set token \<or> backslash \<in> set token"

definition firstArgument :: "string list \<Rightarrow> string" where
  \<comment> \<open>\<open>argv[0] ?? ""\<close>\<close>
  "firstArgument argv = (case argv of [] \<Rightarrow> [] | a # _ \<Rightarrow> a)"

section \<open>Commands of skills\<close>

definition normalizeSkillBinName :: "string \<Rightarrow> string option" where
  "normalizeSkillBinName v = (let t = toLowerCase (trim v) in if t = [] then None else Some t)"

definition normalizeSkillBinResolvedPath :: "exec_host \<Rightarrow> string \<Rightarrow> string option" where
  "normalizeSkillBinResolvedPath h v = (if trim v = [] then None else Some (pathResolve (ehCwd h) [trim v]))"

definition trustSkillBin ::
  "exec_host \<Rightarrow> skill_bin_trust_entry \<Rightarrow> (string, string list) jsmap \<Rightarrow> (string, string list) jsmap" where
  "trustSkillBin h entry trust =
     (case (normalizeSkillBinName (skName entry), normalizeSkillBinResolvedPath h (skResolvedPath entry)) of
        (Some name, Some resolvedPath) \<Rightarrow>
          mapSet name (setAdd resolvedPath (coalesce (mapGet trust name) [])) trust
      | _ \<Rightarrow> trust)"

definition buildSkillBinTrustIndex :: "exec_host \<Rightarrow> skill_bin_trust_entry list \<Rightarrow> (string, string list) jsmap" where
  "buildSkillBinTrustIndex h entries = fold (trustSkillBin h) entries []"

definition isSkillAutoAllowedSegment ::
  "exec_host \<Rightarrow> exec_segment \<Rightarrow> bool \<Rightarrow> (string, string list) jsmap \<Rightarrow> bool" where
  "isSkillAutoAllowedSegment h segment allowSkills skillBinTrust =
     (if \<not> allowSkills then False
      else (case resolveExecutionTargetResolution (sgResolution segment) of
              None \<Rightarrow> False
            | Some execution \<Rightarrow>
                if \<not> truthy (erResolvedPath execution) then False
                else (let rawExecutable = trim (erRawExecutable execution)
                      in if rawExecutable = [] \<or> isPathScopedExecutableToken rawExecutable then False
                         else (case (normalizeSkillBinName (erExecutableName execution),
                                     normalizeSkillBinResolvedPath h (the (erResolvedPath execution))) of
                                 (Some executableName, Some resolvedPath) \<Rightarrow>
                                   (case mapGet skillBinTrust executableName of
                                      None \<Rightarrow> False | Some paths \<Rightarrow> resolvedPath \<in> set paths)
                               | _ \<Rightarrow> False))))"

section \<open>Showing the text of a skill before its command\<close>

definition resolveSkillPreludePath :: "exec_host \<Rightarrow> string option \<Rightarrow> string \<Rightarrow> string" where
  "resolveSkillPreludePath h cwd rawPath =
     (let expanded = (if startsWith rawPath ''~'' then expandHomePrefix h None rawPath else rawPath)
      in if isAbsolute expanded then pathResolve (ehCwd h) [expanded]
         else pathResolve (ehCwd h) [cwdBase h cwd, expanded])"

definition lowerPathParts :: "string \<Rightarrow> string list" where
  "lowerPathParts filePath =
     filter (\<lambda>p. p \<noteq> []) (splitOn sep (toLowerCase (map (\<lambda>c. if c = backslash then sep else c) filePath)))"

definition endsWithSkillMd :: "string \<Rightarrow> bool" where
  "endsWithSkillMd filePath \<longleftrightarrow>
     endsWith (toLowerCase (map (\<lambda>c. if c = backslash then sep else c) filePath)) ''/skill.md''"

fun skillsBelow :: "string list \<Rightarrow> nat list \<Rightarrow> bool" where
  \<comment> \<open>the loop of \<open>isSkillMarkdownPreludePath\<close> over the indexes\<close>
  "skillsBelow parts [] = False"
| "skillsBelow parts (index # indexes) =
     (if parts ! index \<noteq> ''skills'' then skillsBelow parts indexes
      else if length parts - index - 1 = 1 \<or> length parts - index - 1 = 2 then True
      else skillsBelow parts indexes)"

definition isSkillMarkdownPreludePath :: "string \<Rightarrow> bool" where
  "isSkillMarkdownPreludePath filePath =
     (if \<not> endsWithSkillMd filePath then False
      else (let parts = lowerPathParts filePath
            in if length parts < 2 then False else skillsBelow parts (rev [0..<length parts - 1])))"

fun skillIdBelow :: "string list \<Rightarrow> nat list \<Rightarrow> string option" where
  \<comment> \<open>the loop of \<open>resolveSkillMarkdownPreludeId\<close>\<close>
  "skillIdBelow parts [] = None"
| "skillIdBelow parts (index # indexes) =
     (if parts ! index \<noteq> ''skills'' then skillIdBelow parts indexes
      else if length parts - index - 1 \<noteq> 2 then skillIdBelow parts indexes
      else trimmed (Some (parts ! (index + 1))))"

definition resolveSkillMarkdownPreludeId :: "string \<Rightarrow> string option" where
  "resolveSkillMarkdownPreludeId filePath =
     (if \<not> endsWithSkillMd filePath then None
      else (let parts = lowerPathParts filePath
            in if length parts < 3 then None else skillIdBelow parts (rev [0..<length parts - 1])))"

definition executionNameLower :: "exec_segment \<Rightarrow> string option" where
  "executionNameLower segment =
     map_option (\<lambda>e. toLowerCase (erExecutableName e)) (resolveExecutionTargetResolution (sgResolution segment))"

definition isSkillPreludeReadSegment :: "exec_host \<Rightarrow> string option \<Rightarrow> exec_segment \<Rightarrow> bool" where
  "isSkillPreludeReadSegment h cwd segment =
     (if executionNameLower segment \<noteq> Some ''cat'' then False
      else if length (sgArgv segment) \<noteq> 2 then False
      else (let rawPath = trim (sgArgv segment ! 1)
            in rawPath \<noteq> [] \<and> isSkillMarkdownPreludePath (resolveSkillPreludePath h cwd rawPath)))"

definition isSkillPreludeMarkerSegment :: "exec_segment \<Rightarrow> bool" where
  "isSkillPreludeMarkerSegment segment =
     (if executionNameLower segment \<noteq> Some ''printf'' then False
      else if length (sgArgv segment) \<noteq> 2 then False
      else sgArgv segment ! 1 \<in> {[backslash] @ ''n---CMD---'' @ [backslash] @ ''n'', [newline] @ ''---CMD---'' @ [newline]})"

definition isSkillPreludeSegment :: "exec_host \<Rightarrow> string option \<Rightarrow> exec_segment \<Rightarrow> bool" where
  "isSkillPreludeSegment h cwd segment \<longleftrightarrow>
     isSkillPreludeReadSegment h cwd segment \<or> isSkillPreludeMarkerSegment segment"

definition isSkillPreludeOnlyEvaluation :: "exec_host \<Rightarrow> string option \<Rightarrow> exec_segment list \<Rightarrow> bool" where
  "isSkillPreludeOnlyEvaluation h cwd segments \<longleftrightarrow>
     segments \<noteq> [] \<and> (\<forall>segment \<in> set segments. isSkillPreludeSegment h cwd segment)"

definition preludeIdOf :: "exec_host \<Rightarrow> string option \<Rightarrow> exec_segment \<Rightarrow> string option" where
  "preludeIdOf h cwd segment =
     (if isSkillPreludeReadSegment h cwd segment
      then resolveSkillMarkdownPreludeId (resolveSkillPreludePath h cwd (trim (sgArgv segment ! 1))) else None)"

definition resolveSkillPreludeIds :: "exec_host \<Rightarrow> string option \<Rightarrow> exec_segment list \<Rightarrow> string list" where
  "resolveSkillPreludeIds h cwd segments = fold setAdd (List.map_filter (preludeIdOf h cwd) segments) []"

definition resolveAllowlistedSkillWrapperId :: "exec_segment \<Rightarrow> string option" where
  "resolveAllowlistedSkillWrapperId segment =
     (let executableName = normalizeExecutableToken
            (coalesce (map_option erExecutableName (resolveExecutionTargetResolution (sgResolution segment)))
               (firstArgument (sgArgv segment)));
          suffixLength = length ''-wrapper''
      in if \<not> endsWith executableName ''-wrapper'' then None
         else trimmed (Some (take (length executableName - suffixLength) executableName)))"

section \<open>Shells called for a script or a program\<close>

definition hasSegmentExecutableMatch :: "exec_segment \<Rightarrow> (string \<Rightarrow> bool) \<Rightarrow> bool" where
  "hasSegmentExecutableMatch segment predicate =
     (let execution = resolveExecutionTargetResolution (sgResolution segment);
          candidates = (case execution of None \<Rightarrow> [] | Some e \<Rightarrow> [erExecutableName e, erRawExecutable e]) @
                       take 1 (sgArgv segment)
      in \<exists>candidate \<in> set candidates. trim candidate \<noteq> [] \<and> predicate (trim candidate))"

definition isShellWrapperSegment :: "exec_segment \<Rightarrow> bool" where
  "isShellWrapperSegment segment = hasSegmentExecutableMatch segment isShellWrapperExecutable"

definition shellWrapperOptionsWithValue :: "string list" where
  "shellWrapperOptionsWithValue = [''-c'', ''--command'', ''-o'', ''-O'', ''+O'']"

definition shellWrapperDisqualifyingScriptOptions :: "string list" where
  "shellWrapperDisqualifyingScriptOptions = [''--rcfile'', ''--init-file'', ''--startup-file'']"

definition hasDisqualifyingShellWrapperScriptOption :: "string \<Rightarrow> bool" where
  "hasDisqualifyingShellWrapperScriptOption token \<longleftrightarrow>
     (\<exists>option \<in> set shellWrapperDisqualifyingScriptOptions. token = option \<or> startsWith token (option @ ''=''))"

definition powershellWrappers :: "string list" where
  "powershellWrappers = [''powershell'', ''powershell.exe'', ''pwsh'', ''pwsh.exe'']"

definition powershellOptionsWithValue :: "string list" where
  "powershellOptionsWithValue =
     map (\<lambda>name. CHR ''-'' # name)
       [''executionpolicy'', ''ep'', ''windowstyle'', ''w'', ''workingdirectory'', ''wd'', ''inputformat'', ''outputformat'',
        ''settingsfile'', ''configurationfile'', ''version'', ''v'', ''psconsolefile'', ''pscf'', ''encodedcommand'', ''en'',
        ''enc'', ''encodedarguments'', ''ea'']"

definition isCombinedSFlag :: "string \<Rightarrow> bool" where
  \<comment> \<open>\<open>/^-[^-]*s[^-]*$/i\<close>\<close>
  "isCombinedSFlag token \<longleftrightarrow>
     (case token of [] \<Rightarrow> False
      | d # rest \<Rightarrow> d = CHR ''-'' \<and> CHR ''-'' \<notin> set rest \<and> (CHR ''s'' \<in> set rest \<or> CHR ''S'' \<in> set rest))"

fun scriptOperands :: "bool \<Rightarrow> string list \<Rightarrow> string list option" where
  \<comment> \<open>the arguments at the index where the loop stops; \<open>None\<close> where it returns \<open>undefined\<close>\<close>
  "scriptOperands isPowerShell [] = Some []"
| "scriptOperands isPowerShell (arg # rest) =
     (let token = trim arg
      in if token = [] then scriptOperands isPowerShell rest
         else if token = ''--'' then Some rest
         else if token = ''-c'' \<or> token = ''--command'' then None
         else if \<not> isPowerShell \<and> isCombinedCFlag token then None
         else if token = ''-s'' \<or> \<not> isPowerShell \<and> isCombinedSFlag token then None
         else if hasDisqualifyingShellWrapperScriptOption token then None
         else if token \<in> set shellWrapperOptionsWithValue then scriptOperands isPowerShell (drop 1 rest)
         else if isPowerShell \<and> toLowerCase token \<in> set powershellOptionsWithValue then
           scriptOperands isPowerShell (drop 1 rest)
         else if startsWith token ''-'' \<or> startsWith token ''+'' then scriptOperands isPowerShell rest
         else Some (arg # rest))"

definition resolveShellWrapperScriptCandidatePath :: "exec_host \<Rightarrow> string option \<Rightarrow> exec_segment \<Rightarrow> string option" where
  "resolveShellWrapperScriptCandidatePath h cwd segment =
     (let argv = sgArgv segment
      in if \<not> isShellWrapperSegment segment then None
         else if length argv < 2 then None
         else (case scriptOperands (normalizeExecutableToken (firstArgument argv) \<in> set powershellWrappers) (drop 1 argv) of
                 None \<Rightarrow> None
               | Some operands \<Rightarrow>
                   (let scriptToken = (case operands of [] \<Rightarrow> [] | a # _ \<Rightarrow> trim a);
                        expanded = (if startsWith scriptToken ''~'' then expandHomePrefix h None scriptToken else scriptToken);
                        base = (case cwd of None \<Rightarrow> ehCwd h | Some d \<Rightarrow> if trim d \<noteq> [] then d else ehCwd h)
                    in if scriptToken = [] then None
                       else if isAbsolute scriptToken then Some scriptToken
                       else Some (pathResolve (ehCwd h) [base, expanded]))))"

definition isShellBlank :: "char \<Rightarrow> bool" where
  \<comment> \<open>\<open>[^\S\r\n]\<close>\<close>
  "isShellBlank c \<longleftrightarrow> jsWhitespace c \<and> \<not> isLineEnd c"

definition blankThen :: "string \<Rightarrow> string option" where
  \<comment> \<open>\<open>[^\S\r\n]+\<close>: what follows it\<close>
  "blankThen s = (case s of [] \<Rightarrow> None | c # r \<Rightarrow> if isShellBlank c then Some (dropWhile isShellBlank r) else None)"

definition afterDollar :: "(char \<Rightarrow> bool) \<Rightarrow> string \<Rightarrow> string option" where
  \<comment> \<open>a parameter from the given ones, bare or in braces\<close>
  "afterDollar P s =
     (case s of
        d # a # r \<Rightarrow>
          if d \<noteq> CHR ''$'' then None
          else if P a then Some r
          else if a = CHR ''{'' then (case r of b # c # r' \<Rightarrow> if P b \<and> c = CHR ''}'' then Some r' else None | _ \<Rightarrow> None)
          else None
      | _ \<Rightarrow> None)"

definition afterParameter :: "(char \<Rightarrow> bool) \<Rightarrow> string \<Rightarrow> string option" where
  \<comment> \<open>the same, possibly in double quotes\<close>
  "afterParameter P s =
     (case s of
        [] \<Rightarrow> None
      | q # r \<Rightarrow>
          if q = doubleQuote then
            (case afterDollar P r of Some (q' # r') \<Rightarrow> if q' = doubleQuote then Some r' else None | _ \<Rightarrow> None)
          else afterDollar P s)"

definition positionalZero :: "char \<Rightarrow> bool" where
  "positionalZero c \<longleftrightarrow> c = CHR ''0''"

definition positionalArg :: "char \<Rightarrow> bool" where
  "positionalArg c \<longleftrightarrow> c \<in> {CHR ''@'', CHR ''*''} \<or> isDigit c \<and> c \<noteq> CHR ''0''"

fun carriedArguments :: "nat \<Rightarrow> string \<Rightarrow> bool" where
  \<comment> \<open>\<open>(?:blank positionalArg)*$\<close>; the number bounds the rounds by the length of the text\<close>
  "carriedArguments 0 s = (s = [])"
| "carriedArguments (Suc n) s =
     (s = [] \<or> (case blankThen s of None \<Rightarrow> False
        | Some r \<Rightarrow> (case afterParameter positionalArg r of None \<Rightarrow> False | Some r' \<Rightarrow> carriedArguments n r')))"

definition isDirectShellPositionalCarrierInvocation :: "string \<Rightarrow> bool" where
  "isDirectShellPositionalCarrierInvocation command =
     (let s = trim command;
          afterExec = (if startsWith s ''exec'' then
             (case blankThen (drop 4 s) of
                None \<Rightarrow> s
              | Some r \<Rightarrow> if startsWith r ''--'' then coalesce (blankThen (drop 2 r)) r else r) else s)
      in s \<noteq> [] \<and> (case afterParameter positionalZero afterExec of
                     None \<Rightarrow> False | Some r \<Rightarrow> carriedArguments (length s) r))"

definition carriedExecutable :: "string list \<Rightarrow> string option" where
  \<comment> \<open>the first argument after the inline command that is not blank\<close>
  "carriedExecutable rest = find (\<lambda>token. token \<noteq> []) (map trim rest)"

definition resolveShellWrapperPositionalArgvCandidatePath ::
  "exec_host \<Rightarrow> string \<Rightarrow> string option \<Rightarrow> process_env option \<Rightarrow> exec_segment \<Rightarrow> string option" where
  "resolveShellWrapperPositionalArgvCandidatePath h host cwd env segment =
     (let argv = sgArgv segment;
          inlineMatch = resolveInlineCommandMatch argv posixInlineCommandFlags True
      in if \<not> isShellWrapperSegment segment then None
         else if length argv < 4 then None
         else if normalizeExecutableToken (firstArgument argv) \<notin> {''ash'', ''bash'', ''dash'', ''fish'', ''ksh'', ''sh'', ''zsh''}
           then None
         else (case (imValueTokenIndex inlineMatch, imCommand inlineMatch) of
                 (Some index, Some command) \<Rightarrow>
                   if command = [] then None
                   else if \<not> isDirectShellPositionalCarrierInvocation command then None
                   else (case carriedExecutable (drop (index + 1) argv) of
                           None \<Rightarrow> None
                         | Some carried \<Rightarrow>
                             (let carriedName = normalizeExecutableToken carried
                              in if isDispatchWrapperExecutable host carriedName \<or> isShellWrapperExecutable carriedName
                                 then None
                                 else resolveExecutionTargetCandidatePath h cwd
                                        (resolveCommandResolutionFromArgv h host cwd env [carried])))
               | _ \<Rightarrow> None))"

section \<open>The entry of a segment and what satisfies it\<close>

definition effectiveArgvOf :: "exec_segment \<Rightarrow> string list" where
  "effectiveArgvOf segment =
     (case sgResolution segment of
        None \<Rightarrow> sgArgv segment
      | Some r \<Rightarrow> if crEffectiveArgv r \<noteq> [] then crEffectiveArgv r else sgArgv segment)"

definition pathResolution :: "string \<Rightarrow> executable_resolution" where
  \<comment> \<open>the resolution made up for a path\<close>
  "pathResolution p =
     \<lparr>erRawExecutable = p, erResolvedPath = Some p, erResolvedRealPath = None, erExecutableName = posixBasename p\<rparr>"

record segment_match_evaluation =
  seEffectiveArgv :: "string list"
  seInlineCommand :: "string option"
  seMatch :: "allowlist_entry option"

definition resolveSegmentAllowlistMatch :: "allowlist_context \<Rightarrow> exec_segment \<Rightarrow> segment_match_evaluation" where
  "resolveSegmentAllowlistMatch ctx segment =
     (let h = axHost ctx;
          effectiveArgv = effectiveArgvOf segment;
          allowlistSegment = segment\<lparr>sgArgv := effectiveArgv\<rparr>;
          candidatePath = resolvePolicyTargetCandidatePath h (axCwd ctx) (sgResolution segment);
          candidateResolution = map_option
            (\<lambda>r. if truthy candidatePath then r\<lparr>erResolvedPath := candidatePath\<rparr> else r)
            (resolvePolicyTargetResolution (sgResolution segment));
          inlineCommand = extractShellWrapperInlineCommand (axPlatform ctx) effectiveArgv;
          isPositionalCarrierInvocation =
            (case inlineCommand of None \<Rightarrow> False | Some c \<Rightarrow> isDirectShellPositionalCarrierInvocation c);
          executableMatch = (if isPositionalCarrierInvocation then None
                             else matchAllowlist h (axAllowlist ctx) candidateResolution);
          matchPath = (\<lambda>p. if truthy p then matchAllowlist h (axAllowlist ctx) (Some (pathResolution (the p))) else None);
          shellPositionalArgvMatch = matchPath
            (resolveShellWrapperPositionalArgvCandidatePath h (axPlatform ctx) (axCwd ctx) (axEnv ctx) allowlistSegment);
          shellScriptMatch = matchPath
            (if inlineCommand = None then resolveShellWrapperScriptCandidatePath h (axCwd ctx) allowlistSegment else None)
      in \<lparr>seEffectiveArgv = effectiveArgv, seInlineCommand = inlineCommand,
          seMatch = orElse executableMatch (orElse shellPositionalArgvMatch shellScriptMatch)\<rparr>)"

definition resolveSegmentSatisfaction ::
  "allowlist_context \<Rightarrow> bool \<Rightarrow> (string, string list) jsmap \<Rightarrow> exec_segment \<Rightarrow> segment_match_evaluation \<Rightarrow> satisfied_by option" where
  "resolveSegmentSatisfaction ctx allowSkills skillBinTrust segment ev =
     (if seMatch ev \<noteq> None then Some ByAllowlist
      else if isSafeBinUsage (axHost ctx) (axTrustedSafeBinDirs ctx) (axSafeBins ctx) (axSafeBinProfiles ctx)
                (seEffectiveArgv ev) (resolveExecutionTargetResolution (sgResolution segment)) then Some BySafeBins
      else if isSkillAutoAllowedSegment (axHost ctx) segment allowSkills skillBinTrust then Some BySkills
      else None)"

end
