(* ===== verification/ExecAllowlist.thy ===== *)
theory ExecAllowlist
  imports SegmentMatch ShellReading
begin

text \<open>
  Whether a command line is covered by the allowlist (\<open>src/src/infra/exec-approvals-allowlist.ts\<close>, second half):
  the segments of a pipeline, the chains inside \<open>sh -c\<close>, whole analyses, and whole command lines with the exception
  for showing the text of a skill.

  \<open>evaluateShellWrapperInlineChain\<close> and \<open>evaluateSegments\<close> call each other up to a depth of three; the model counts
  the levels that are left, so \<open>evaluateSegmentsAt ctx d\<close> is \<open>evaluateSegments\<close> with \<open>inlineDepth\<close> two less \<open>d\<close>. What an
  accepted command rests on is the inductive relation \<open>covered\<close>.
\<close>

section \<open>Segments\<close>

record segments_evaluation =
  evSatisfied :: bool
  evMatches :: "allowlist_entry list"
  evEntries :: "allowlist_entry option list"
  evSatisfiedBy :: "satisfied_by option list"

type_synonym inline_evaluation = "string list \<Rightarrow> allowlist_entry list option"
  \<comment> \<open>\<open>evaluateShellWrapperInlineChain\<close> on the parts of a chain, at a context and depth\<close>

definition resolveInlineChainFallback ::
  "inline_evaluation \<Rightarrow> satisfied_by option \<Rightarrow> string option \<Rightarrow> allowlist_entry list option" where
  "resolveInlineChainFallback evalChain satisfaction inlineCommand =
     (if satisfaction \<noteq> None \<or> \<not> truthy inlineCommand then None
      else (case splitCommandChain (the inlineCommand) of
              None \<Rightarrow> None
            | Some inlineParts \<Rightarrow> if length inlineParts \<le> 1 then None else evalChain inlineParts))"

record segment_result =
  srSatisfied :: bool
  srMatches :: "allowlist_entry list"
  srEntry :: "allowlist_entry option"
  srBy :: "satisfied_by option"

definition blockedSegment :: "exec_segment \<Rightarrow> bool" where
  \<comment> \<open>\<open>segment.resolution?.policyBlocked === true\<close>\<close>
  "blockedSegment segment \<longleftrightarrow> (case sgResolution segment of None \<Rightarrow> False | Some r \<Rightarrow> crPolicyBlocked r)"

definition evaluateSegment ::
  "allowlist_context \<Rightarrow> inline_evaluation \<Rightarrow> bool \<Rightarrow> (string, string list) jsmap \<Rightarrow> exec_segment \<Rightarrow> segment_result" where
  \<comment> \<open>the callback of \<open>segments.every\<close>: what it returns and pushes\<close>
  "evaluateSegment ctx evalChain allowSkills trust segment =
     (if blockedSegment segment then
        \<lparr>srSatisfied = False, srMatches = [], srEntry = None, srBy = None\<rparr>
      else
        (let ev = resolveSegmentAllowlistMatch ctx segment;
             own = (case seMatch ev of None \<Rightarrow> [] | Some e \<Rightarrow> [e]);
             satisfaction = resolveSegmentSatisfaction ctx allowSkills trust segment ev
         in case resolveInlineChainFallback evalChain satisfaction (seInlineCommand ev) of
              Some inlineMatches \<Rightarrow>
                \<lparr>srSatisfied = True, srMatches = own @ inlineMatches, srEntry = seMatch ev, srBy = Some ByAllowlist\<rparr>
            | None \<Rightarrow>
                \<lparr>srSatisfied = (satisfaction \<noteq> None), srMatches = own, srEntry = seMatch ev, srBy = satisfaction\<rparr>))"

definition noEvaluation :: "bool \<Rightarrow> segments_evaluation" where
  "noEvaluation satisfied = \<lparr>evSatisfied = satisfied, evMatches = [], evEntries = [], evSatisfiedBy = []\<rparr>"

definition appendEvaluation :: "segments_evaluation \<Rightarrow> segments_evaluation \<Rightarrow> segments_evaluation" where
  "appendEvaluation a b =
     \<lparr>evSatisfied = evSatisfied b, evMatches = evMatches a @ evMatches b, evEntries = evEntries a @ evEntries b,
      evSatisfiedBy = evSatisfiedBy a @ evSatisfiedBy b\<rparr>"

definition evaluationOf :: "segment_result \<Rightarrow> segments_evaluation" where
  "evaluationOf r =
     \<lparr>evSatisfied = srSatisfied r, evMatches = srMatches r, evEntries = [srEntry r], evSatisfiedBy = [srBy r]\<rparr>"

fun evaluateEvery :: "(exec_segment \<Rightarrow> segment_result) \<Rightarrow> exec_segment list \<Rightarrow> segments_evaluation" where
  \<comment> \<open>\<open>segments.every\<close>, which stops at the first segment that is not satisfied\<close>
  "evaluateEvery evaluate [] = noEvaluation True"
| "evaluateEvery evaluate (segment # segments) =
     (let r = evaluate segment
      in if srSatisfied r then appendEvaluation (evaluationOf r) (evaluateEvery evaluate segments) else evaluationOf r)"

definition evaluateSegmentsWith ::
  "allowlist_context \<Rightarrow> inline_evaluation \<Rightarrow> exec_segment list \<Rightarrow> segments_evaluation" where
  "evaluateSegmentsWith ctx evalChain segments =
     (let trust = buildSkillBinTrustIndex (axHost ctx) (axSkillBins ctx)
      in evaluateEvery (evaluateSegment ctx evalChain (axAutoAllowSkills ctx \<and> trust \<noteq> []) trust) segments)"

definition contextResolver :: "allowlist_context \<Rightarrow> resolver" where
  "contextResolver ctx = resolveCommandResolutionFromArgv (axHost ctx) (axPlatform ctx) (axCwd ctx) (axEnv ctx)"

fun evaluateInlineChain ::
  "resolver \<Rightarrow> (exec_segment list \<Rightarrow> segments_evaluation) \<Rightarrow> string list \<Rightarrow> allowlist_entry list option" where
  \<comment> \<open>the loop of \<open>evaluateShellWrapperInlineChain\<close>\<close>
  "evaluateInlineChain resolve evaluate [] = Some []"
| "evaluateInlineChain resolve evaluate (part # parts) =
     (case analyzeShellCommand resolve part of
        Inl _ \<Rightarrow> None
      | Inr analysis \<Rightarrow>
          (let r = evaluate (anSegments analysis)
           in if \<not> evSatisfied r then None
              else map_option (\<lambda>matches. evMatches r @ matches) (evaluateInlineChain resolve evaluate parts)))"

primrec evaluateSegmentsAt :: "allowlist_context \<Rightarrow> nat \<Rightarrow> exec_segment list \<Rightarrow> segments_evaluation" where
  "evaluateSegmentsAt ctx 0 = evaluateSegmentsWith ctx (\<lambda>_. None)"
| "evaluateSegmentsAt ctx (Suc d) =
     evaluateSegmentsWith ctx (evaluateInlineChain (contextResolver ctx) (evaluateSegmentsAt ctx d))"

definition maxShellWrapperInlineEvalDepth :: nat where
  "maxShellWrapperInlineEvalDepth = 3"

definition evaluateSegments :: "allowlist_context \<Rightarrow> exec_segment list \<Rightarrow> segments_evaluation" where
  \<comment> \<open>at \<open>inlineDepth\<close> 0\<close>
  "evaluateSegments ctx segments = evaluateSegmentsAt ctx (maxShellWrapperInlineEvalDepth - 1) segments"

section \<open>Analyses and command lines\<close>

definition resolveAnalysisSegmentGroups :: "exec_analysis \<Rightarrow> exec_segment list list" where
  "resolveAnalysisSegmentGroups analysis = coalesce (anChains analysis) [anSegments analysis]"

fun evaluateGroups ::
  "allowlist_context \<Rightarrow> bool \<Rightarrow> segments_evaluation \<Rightarrow> exec_segment list list \<Rightarrow> segments_evaluation" where
  "evaluateGroups ctx hasChains done [] = done\<lparr>evSatisfied := True\<rparr>"
| "evaluateGroups ctx hasChains done (grp # groups) =
     (let r = evaluateSegments ctx grp
      in if \<not> evSatisfied r then (if hasChains then noEvaluation False else r)
         else evaluateGroups ctx hasChains (appendEvaluation done r) groups)"

definition evaluateExecAllowlist :: "allowlist_context \<Rightarrow> string + exec_analysis \<Rightarrow> segments_evaluation" where
  "evaluateExecAllowlist ctx result =
     (case result of
        Inl _ \<Rightarrow> noEvaluation False
      | Inr analysis \<Rightarrow>
          if anSegments analysis = [] then noEvaluation False
          else evaluateGroups ctx (anChains analysis \<noteq> None) (noEvaluation True) (resolveAnalysisSegmentGroups analysis))"

definition resolveTrustedSkillExecutionIds :: "exec_analysis \<Rightarrow> segments_evaluation \<Rightarrow> string list" where
  "resolveTrustedSkillExecutionIds analysis evaluation =
     (if \<not> evSatisfied evaluation then []
      else fold setAdd (List.map_filter
        (\<lambda>(segment, satisfiedBy).
           case satisfiedBy of
             Some BySkills \<Rightarrow>
               (let name = normalizeExecutableToken
                      (coalesce (map_option erExecutableName (resolveExecutionTargetResolution (sgResolution segment)))
                         (firstArgument (sgArgv segment)))
                in if name = [] then None else Some name)
           | Some ByAllowlist \<Rightarrow> resolveAllowlistedSkillWrapperId segment
           | _ \<Rightarrow> None)
        (zip (anSegments analysis) (evSatisfiedBy evaluation))) [])"

record exec_allowlist_analysis =
  xaAnalysisOk :: bool
  xaSegments :: "exec_segment list"
  xaEvaluation :: segments_evaluation

definition analysisFailure :: exec_allowlist_analysis where
  "analysisFailure = \<lparr>xaAnalysisOk = False, xaSegments = [], xaEvaluation = noEvaluation False\<rparr>"

fun hasShellLineContinuation :: "string \<Rightarrow> bool" where
  "hasShellLineContinuation (c # d # r) =
     (c = backslash \<and> (d = newline \<or> d = carriage) \<or> hasShellLineContinuation (d # r))"
| "hasShellLineContinuation r = False"

record chain_evaluation =
  chAnalysis :: exec_analysis
  chEvaluation :: segments_evaluation
  chOpToNext :: "string option"

fun chainEvaluations :: "allowlist_context \<Rightarrow> chain_part list \<Rightarrow> chain_evaluation list option" where
  "chainEvaluations ctx [] = Some []"
| "chainEvaluations ctx ((part, op) # parts) =
     (case (analyzeShellCommand (contextResolver ctx) part, chainEvaluations ctx parts) of
        (Inr analysis, Some rest) \<Rightarrow>
          Some (\<lparr>chAnalysis = analysis, chEvaluation = evaluateExecAllowlist ctx (Inr analysis), chOpToNext = op\<rparr> # rest)
      | _ \<Rightarrow> None)"

fun allowSkillPreludes :: "allowlist_context \<Rightarrow> chain_evaluation list \<Rightarrow> bool list \<times> string list" where
  \<comment> \<open>the loop from the last part to the first: for each part whether it is an allowed prelude
      (\<open>allowSkillPreludeAtIndex\<close>), and \<open>reachableSkillIds\<close> before the first of them\<close>
  "allowSkillPreludes ctx [] = ([], [])"
| "allowSkillPreludes ctx (c # cs) =
     (case allowSkillPreludes ctx cs of
        (allowed, reachable) \<Rightarrow>
          (let trusted = resolveTrustedSkillExecutionIds (chAnalysis c) (chEvaluation c);
               segments = anSegments (chAnalysis c);
               isPreludeOnly = (\<not> evSatisfied (chEvaluation c) \<and>
                                isSkillPreludeOnlyEvaluation (axHost ctx) (axCwd ctx) segments);
               preludeSkillIds = (if isPreludeOnly then resolveSkillPreludeIds (axHost ctx) (axCwd ctx) segments else []);
               reachesTrustedSkillExecution = (chOpToNext c = Some ''&&'' \<and>
                 (if preludeSkillIds = [] then reachable \<noteq> [] else \<exists>skillId \<in> set preludeSkillIds. skillId \<in> set reachable))
           in if trusted \<noteq> [] then (False # allowed, fold setAdd trusted reachable)
              else if isPreludeOnly \<and> reachesTrustedSkillExecution then (True # allowed, reachable)
              else (False # allowed, [])))"

fun finishChain :: "(chain_evaluation \<times> bool) list \<Rightarrow> exec_allowlist_analysis" where
  \<comment> \<open>the last loop of \<open>evaluateShellAllowlist\<close>, which stops at the first part that is not satisfied\<close>
  "finishChain [] = \<lparr>xaAnalysisOk = True, xaSegments = [], xaEvaluation = noEvaluation True\<rparr>"
| "finishChain ((c, prelude) # cs) =
     (let segments = anSegments (chAnalysis c); evaluation = chEvaluation c;
          own = (if prelude then
                   \<lparr>evSatisfied = True, evMatches = evMatches evaluation, evEntries = map (\<lambda>_. None) segments,
                    evSatisfiedBy = map (\<lambda>_. Some BySkillPrelude) segments\<rparr>
                 else evaluation);
          rest = finishChain cs
      in if \<not> evSatisfied own then \<lparr>xaAnalysisOk = True, xaSegments = segments, xaEvaluation = own\<rparr>
         else \<lparr>xaAnalysisOk = True, xaSegments = segments @ xaSegments rest,
               xaEvaluation = appendEvaluation own (xaEvaluation rest)\<rparr>)"

definition evaluateShellAllowlist :: "allowlist_context \<Rightarrow> string \<Rightarrow> exec_allowlist_analysis" where
  "evaluateShellAllowlist ctx command =
     (if hasShellLineContinuation command then analysisFailure
      else (case splitCommandChainWithOperators command of
              None \<Rightarrow>
                (case analyzeShellCommand (contextResolver ctx) command of
                   Inl _ \<Rightarrow> analysisFailure
                 | Inr analysis \<Rightarrow>
                     \<lparr>xaAnalysisOk = True, xaSegments = anSegments analysis,
                      xaEvaluation = evaluateExecAllowlist ctx (Inr analysis)\<rparr>)
            | Some chainParts \<Rightarrow>
                (case chainEvaluations ctx chainParts of
                   None \<Rightarrow> analysisFailure
                 | Some evaluations \<Rightarrow> finishChain (zip evaluations (fst (allowSkillPreludes ctx evaluations))))))"

section \<open>What an accepted segment rests on\<close>

inductive covered :: "allowlist_context \<Rightarrow> exec_segment \<Rightarrow> bool" for ctx where
  entry: "\<lbrakk>\<not> blockedSegment s; seMatch (resolveSegmentAllowlistMatch ctx s) = Some e; e \<in> set (axAllowlist ctx)\<rbrakk> \<Longrightarrow>
    covered ctx s"
| safe: "\<lbrakk>\<not> blockedSegment s;
      isSafeBinUsage (axHost ctx) (axTrustedSafeBinDirs ctx) (axSafeBins ctx) (axSafeBinProfiles ctx) (effectiveArgvOf s)
        (resolveExecutionTargetResolution (sgResolution s))\<rbrakk> \<Longrightarrow> covered ctx s"
| skill: "\<lbrakk>\<not> blockedSegment s; axAutoAllowSkills ctx;
      isSkillAutoAllowedSegment (axHost ctx) s True (buildSkillBinTrustIndex (axHost ctx) (axSkillBins ctx))\<rbrakk> \<Longrightarrow> covered ctx s"
| inline: "\<lbrakk>\<not> blockedSegment s; extractShellWrapperInlineCommand (axPlatform ctx) (effectiveArgvOf s) = Some command;
      splitCommandChain command = Some inlineParts; 1 < length inlineParts;
      \<And>part. part \<in> set inlineParts \<Longrightarrow>
        \<exists>analysis. analyzeShellCommand (contextResolver ctx) part = Inr analysis \<and>
          (\<forall>s' \<in> set (anSegments analysis). covered ctx s')\<rbrakk> \<Longrightarrow> covered ctx s"

lemma matchAllowlist_member: "matchAllowlist h entries r = Some e \<Longrightarrow> e \<in> set entries"
  by (auto simp: matchAllowlist_def Let_def find_Some_iff split: option.splits if_splits)

lemma orElse_Some: "orElse a b = Some e \<longleftrightarrow> a = Some e \<or> a = None \<and> b = Some e"
  by (cases a) simp_all

lemma segment_match_member: "seMatch (resolveSegmentAllowlistMatch ctx s) = Some e \<Longrightarrow> e \<in> set (axAllowlist ctx)"
  by (auto simp: resolveSegmentAllowlistMatch_def Let_def orElse_Some dest: matchAllowlist_member split: if_splits)

lemma segment_match_fields [simp]:
  "seEffectiveArgv (resolveSegmentAllowlistMatch ctx s) = effectiveArgvOf s"
  "seInlineCommand (resolveSegmentAllowlistMatch ctx s) = extractShellWrapperInlineCommand (axPlatform ctx) (effectiveArgvOf s)"
  by (simp_all add: resolveSegmentAllowlistMatch_def Let_def)

lemma evaluateEvery_satisfied:
  "evSatisfied (evaluateEvery f segments) \<Longrightarrow>
     (\<forall>s \<in> set segments. srSatisfied (f s)) \<and> evaluateEvery f segments =
       \<lparr>evSatisfied = True, evMatches = concat (map (\<lambda>s. srMatches (f s)) segments), evEntries = map (\<lambda>s. srEntry (f s)) segments,
        evSatisfiedBy = map (\<lambda>s. srBy (f s)) segments\<rparr>"
  by (induction segments)
     (auto simp: noEvaluation_def appendEvaluation_def evaluationOf_def Let_def split: if_split_asm)

lemma evaluateEvery_refused: "\<not> evSatisfied (evaluateEvery f segments) \<longleftrightarrow> (\<exists>s \<in> set segments. \<not> srSatisfied (f s))"
  by (induction segments)
     (auto simp: noEvaluation_def appendEvaluation_def evaluationOf_def Let_def)

lemma evaluateSegment_by: "srSatisfied (evaluateSegment ctx evalChain a trust s) \<longleftrightarrow> srBy (evaluateSegment ctx evalChain a trust s) \<noteq> None"
  by (simp add: evaluateSegment_def Let_def split: option.split)

definition chainSound :: "allowlist_context \<Rightarrow> inline_evaluation \<Rightarrow> bool" where
  \<comment> \<open>accepted chains consist of parts with covered segments\<close>
  "chainSound ctx evalChain \<longleftrightarrow>
     (\<forall>inlineParts matches. evalChain inlineParts = Some matches \<longrightarrow>
        (\<forall>part \<in> set inlineParts. \<exists>analysis. analyzeShellCommand (contextResolver ctx) part = Inr analysis \<and>
           (\<forall>s' \<in> set (anSegments analysis). covered ctx s')))"

lemma fallback_Some:
  "resolveInlineChainFallback evalChain satisfaction inlineCommand = Some matches \<longleftrightarrow>
     satisfaction = None \<and> (\<exists>command inlineParts. inlineCommand = Some command \<and> command \<noteq> [] \<and>
       splitCommandChain command = Some inlineParts \<and> 1 < length inlineParts \<and> evalChain inlineParts = Some matches)"
  by (cases inlineCommand) (auto simp: resolveInlineChainFallback_def split: option.splits)

lemma skill_allowed: "isSkillAutoAllowedSegment h s allow trust \<longleftrightarrow> allow \<and> isSkillAutoAllowedSegment h s True trust"
  by (simp add: isSkillAutoAllowedSegment_def)

lemma evaluateSegment_covered:
  assumes "chainSound ctx evalChain" and "srSatisfied (evaluateSegment ctx evalChain
      (axAutoAllowSkills ctx \<and> trust \<noteq> []) trust s)" and trust: "trust = buildSkillBinTrustIndex (axHost ctx) (axSkillBins ctx)"
  shows "covered ctx s"
proof -
  have open_: "\<not> blockedSegment s" using assms(2) by (auto simp: evaluateSegment_def)
  let ?ev = "resolveSegmentAllowlistMatch ctx s"
  let ?by = "resolveSegmentSatisfaction ctx (axAutoAllowSkills ctx \<and> trust \<noteq> []) trust s ?ev"
  show ?thesis
  proof (cases "resolveInlineChainFallback evalChain ?by (seInlineCommand ?ev)")
    case None
    then have "?by \<noteq> None" using assms(2) open_ by (simp add: evaluateSegment_def Let_def)
    then show ?thesis using open_ trust
      by (auto simp: resolveSegmentSatisfaction_def skill_allowed[of _ _ "axAutoAllowSkills ctx \<and> _"] segment_match_member
          intro: covered.entry covered.safe covered.skill split: if_split_asm)
  next
    case (Some matches)
    then obtain command inlineParts where "seInlineCommand ?ev = Some command"
      "splitCommandChain command = Some inlineParts" "1 < length inlineParts" "evalChain inlineParts = Some matches" unfolding fallback_Some by blast
    then show ?thesis using open_ assms(1) unfolding chainSound_def by (intro covered.inline) auto
  qed
qed

lemma evaluateInlineChain_Some:
  "evaluateInlineChain resolve evaluate inlineParts = Some matches \<Longrightarrow> part \<in> set inlineParts \<Longrightarrow>
     \<exists>analysis. analyzeShellCommand resolve part = Inr analysis \<and> evSatisfied (evaluate (anSegments analysis))"
  by (induction inlineParts arbitrary: matches) (auto simp: Let_def split: sum.splits if_split_asm)

lemma evaluateSegmentsWith_covered:
  assumes "chainSound ctx evalChain" and "evSatisfied (evaluateSegmentsWith ctx evalChain segments)" and "s \<in> set segments"
  shows "covered ctx s"
  using evaluateEvery_satisfied[OF assms(2)[unfolded evaluateSegmentsWith_def Let_def]] assms(1,3)
    evaluateSegment_covered[OF assms(1) _ refl] by blast

lemma evaluateSegmentsAt_covered:
  "evSatisfied (evaluateSegmentsAt ctx d segments) \<Longrightarrow> s \<in> set segments \<Longrightarrow> covered ctx s"
proof (induction d arbitrary: segments s)
  case 0
  then show ?case using evaluateSegmentsWith_covered[of ctx "\<lambda>_. None"] by (simp add: chainSound_def)
next
  case (Suc d)
  have "chainSound ctx (evaluateInlineChain (contextResolver ctx) (evaluateSegmentsAt ctx d))"
    unfolding chainSound_def using evaluateInlineChain_Some Suc.IH by blast
  then show ?case using evaluateSegmentsWith_covered Suc.prems by simp
qed

section \<open>What an accepted command line rests on\<close>

definition accepted :: "allowlist_context \<Rightarrow> exec_segment \<Rightarrow> satisfied_by option \<Rightarrow> bool" where
  \<comment> \<open>a segment stands for what its marker says\<close>
  "accepted ctx s b \<longleftrightarrow>
     (case b of
        None \<Rightarrow> False
      | Some BySkillPrelude \<Rightarrow> isSkillPreludeSegment (axHost ctx) (axCwd ctx) s
      | Some _ \<Rightarrow> covered ctx s)"

definition backedBy :: "allowlist_context \<Rightarrow> exec_segment list \<Rightarrow> segments_evaluation \<Rightarrow> bool" where
  "backedBy ctx segments r \<longleftrightarrow>
     list_all2 (accepted ctx) segments (evSatisfiedBy r) \<and> length (evEntries r) = length segments"

lemma not_prelude_marker:
  "srBy (evaluateSegment ctx evalChain a trust s) \<noteq> Some BySkillPrelude"
  by (simp add: evaluateSegment_def Let_def resolveSegmentSatisfaction_def split: option.split)

lemma evaluateSegmentsWith_backed:
  assumes "chainSound ctx evalChain" and "evSatisfied (evaluateSegmentsWith ctx evalChain segments)"
  shows "backedBy ctx segments (evaluateSegmentsWith ctx evalChain segments)"
proof -
  define trust where "trust = buildSkillBinTrustIndex (axHost ctx) (axSkillBins ctx)"
  define f where "f = evaluateSegment ctx evalChain (axAutoAllowSkills ctx \<and> trust \<noteq> []) trust"
  have ev: "evaluateSegmentsWith ctx evalChain segments = evaluateEvery f segments"
    by (simp add: evaluateSegmentsWith_def f_def trust_def Let_def)
  note all = evaluateEvery_satisfied[OF assms(2)[unfolded ev]]
  have "accepted ctx s (srBy (f s))" if "s \<in> set segments" for s
  proof -
    have "covered ctx s" using evaluateSegmentsWith_covered[OF assms that] .
    moreover have "srBy (f s) \<noteq> None" using all that evaluateSegment_by unfolding f_def by blast
    moreover have "srBy (f s) \<noteq> Some BySkillPrelude" unfolding f_def by (rule not_prelude_marker)
    ultimately show ?thesis by (auto simp: accepted_def split: satisfied_by.split)
  qed
  moreover have "evSatisfiedBy (evaluateEvery f segments) = map (\<lambda>s. srBy (f s)) segments"
    "evEntries (evaluateEvery f segments) = map (\<lambda>s. srEntry (f s)) segments"
    using all by (metis segments_evaluation.select_convs)+
  ultimately show ?thesis by (auto simp: backedBy_def ev list_all2_map2 list_all2_same)
qed

lemma chainSound_at: "chainSound ctx (evaluateInlineChain (contextResolver ctx) (evaluateSegmentsAt ctx d))"
  unfolding chainSound_def using evaluateInlineChain_Some evaluateSegmentsAt_covered by blast

lemma evaluateSegments_unfold:
  "evaluateSegments ctx segments =
     evaluateSegmentsWith ctx (evaluateInlineChain (contextResolver ctx) (evaluateSegmentsAt ctx (Suc 0))) segments"
  by (simp add: evaluateSegments_def maxShellWrapperInlineEvalDepth_def numeral_2_eq_2)

lemma evaluateSegments_backed:
  "evSatisfied (evaluateSegments ctx segments) \<Longrightarrow> backedBy ctx segments (evaluateSegments ctx segments)"
  unfolding evaluateSegments_unfold by (rule evaluateSegmentsWith_backed[OF chainSound_at])

lemma backedBy_append:
  "backedBy ctx s a \<Longrightarrow> backedBy ctx s' b \<Longrightarrow> backedBy ctx (s @ s') (appendEvaluation a b)"
  by (simp add: backedBy_def appendEvaluation_def list_all2_appendI)

lemma backedBy_flag [simp]: "backedBy ctx s (r\<lparr>evSatisfied := v\<rparr>) = backedBy ctx s r"
  by (simp add: backedBy_def)

lemma noEvaluation_satisfied [simp]: "evSatisfied (noEvaluation v) = v"
  by (simp add: noEvaluation_def)

lemma backedBy_none [simp]: "backedBy ctx [] (noEvaluation v)"
  by (simp add: backedBy_def noEvaluation_def)

lemma evaluateGroups_backed:
  "backedBy ctx segments r \<Longrightarrow> evSatisfied (evaluateGroups ctx hasChains r groups) \<Longrightarrow>
     backedBy ctx (segments @ concat groups) (evaluateGroups ctx hasChains r groups)"
proof (induction groups arbitrary: segments r)
  case (Cons g groups)
  then have "evSatisfied (evaluateSegments ctx g)" by (auto simp: noEvaluation_def Let_def split: if_split_asm)
  then show ?case
    using Cons.IH[OF backedBy_append[OF Cons.prems(1) evaluateSegments_backed]] Cons.prems(2) by simp
qed simp

lemma analyzed_groups:
  "analyzeShellCommand resolve command = Inr analysis \<Longrightarrow> concat (resolveAnalysisSegmentGroups analysis) = anSegments analysis"
  by (auto simp: analyzeShellCommand_def resolveAnalysisSegmentGroups_def split: option.splits sum.splits)

lemma evaluateExecAllowlist_backed:
  assumes "analyzeShellCommand resolve command = Inr analysis" and "evSatisfied (evaluateExecAllowlist ctx (Inr analysis))"
  shows "backedBy ctx (anSegments analysis) (evaluateExecAllowlist ctx (Inr analysis))"
  using assms(2) evaluateGroups_backed[of ctx "[]" "noEvaluation True" "anChains analysis \<noteq> None" "resolveAnalysisSegmentGroups analysis"]
    analyzed_groups[OF assms(1)] by (simp add: evaluateExecAllowlist_def split: if_split_asm)

lemma allowSkillPreludes_step:
  "tl (fst (allowSkillPreludes ctx (c # cs))) = fst (allowSkillPreludes ctx cs)" "fst (allowSkillPreludes ctx (c # cs)) \<noteq> []"
  "hd (fst (allowSkillPreludes ctx (c # cs))) \<Longrightarrow> isSkillPreludeOnlyEvaluation (axHost ctx) (axCwd ctx) (anSegments (chAnalysis c))"
  by (cases "allowSkillPreludes ctx cs"; simp add: Let_def split: if_split_asm)+

lemma allowSkillPreludes_only:
  "list_all2 (\<lambda>c allowed. allowed \<longrightarrow> isSkillPreludeOnlyEvaluation (axHost ctx) (axCwd ctx) (anSegments (chAnalysis c)))
     cs (fst (allowSkillPreludes ctx cs))"
proof (induction cs)
  case (Cons c cs)
  obtain p ps where "fst (allowSkillPreludes ctx (c # cs)) = p # ps"
    using allowSkillPreludes_step(2) by (cases "fst (allowSkillPreludes ctx (c # cs))") blast+
  then show ?case using Cons allowSkillPreludes_step(1,3)[of ctx c cs] by (simp del: allowSkillPreludes.simps)
qed simp

lemma chainEvaluations_fit:
  "chainEvaluations ctx chainParts = Some cs \<Longrightarrow> c \<in> set cs \<Longrightarrow>
     \<exists>part. analyzeShellCommand (contextResolver ctx) part = Inr (chAnalysis c) \<and>
       chEvaluation c = evaluateExecAllowlist ctx (Inr (chAnalysis c))"
  by (induction ctx chainParts arbitrary: cs rule: chainEvaluations.induct)
     (fastforce split: sum.splits option.splits)+

lemma prelude_backed:
  assumes "isSkillPreludeOnlyEvaluation (axHost ctx) (axCwd ctx) segments"
    and "evEntries r = map (\<lambda>_. None) segments" and "evSatisfiedBy r = map (\<lambda>_. Some BySkillPrelude) segments"
  shows "backedBy ctx segments r"
  using assms by (simp add: backedBy_def list_all2_map2 list_all2_same accepted_def isSkillPreludeOnlyEvaluation_def)

lemma finishChain_backed:
  assumes "\<And>c p. (c, p) \<in> set cps \<Longrightarrow>
      \<exists>part. analyzeShellCommand (contextResolver ctx) part = Inr (chAnalysis c) \<and>
        chEvaluation c = evaluateExecAllowlist ctx (Inr (chAnalysis c))"
    and "\<And>c p. (c, p) \<in> set cps \<Longrightarrow> p \<Longrightarrow>
      isSkillPreludeOnlyEvaluation (axHost ctx) (axCwd ctx) (anSegments (chAnalysis c))"
    and "evSatisfied (xaEvaluation (finishChain cps))"
  shows "backedBy ctx (xaSegments (finishChain cps)) (xaEvaluation (finishChain cps))"
  using assms
proof (induction cps)
  case (Cons cp cps)
  obtain c p where cp: "cp = (c, p)" by (cases cp)
  define own where "own = (if p then
      \<lparr>evSatisfied = True, evMatches = evMatches (chEvaluation c), evEntries = map (\<lambda>_. None) (anSegments (chAnalysis c)),
       evSatisfiedBy = map (\<lambda>_. Some BySkillPrelude) (anSegments (chAnalysis c))\<rparr> else chEvaluation c)"
  have fin: "finishChain (cp # cps) = (if \<not> evSatisfied own
      then \<lparr>xaAnalysisOk = True, xaSegments = anSegments (chAnalysis c), xaEvaluation = own\<rparr>
      else \<lparr>xaAnalysisOk = True, xaSegments = anSegments (chAnalysis c) @ xaSegments (finishChain cps),
            xaEvaluation = appendEvaluation own (xaEvaluation (finishChain cps))\<rparr>)"
    by (simp add: cp own_def Let_def)
  have sat: "evSatisfied own" using Cons.prems(3) by (auto simp: fin split: if_split_asm)
  have rest: "evSatisfied (xaEvaluation (finishChain cps))"
    using Cons.prems(3) sat by (simp add: fin appendEvaluation_def)
  have tail: "backedBy ctx (xaSegments (finishChain cps)) (xaEvaluation (finishChain cps))"
    using Cons.IH Cons.prems(1,2) rest by (metis list.set_intros(2))
  have "backedBy ctx (anSegments (chAnalysis c)) own"
  proof (cases p)
    case True
    show ?thesis using True by (intro prelude_backed Cons.prems(2)[of c p]) (simp_all add: cp own_def)
  next
    case False
    obtain part where "analyzeShellCommand (contextResolver ctx) part = Inr (chAnalysis c)"
      "chEvaluation c = evaluateExecAllowlist ctx (Inr (chAnalysis c))" using Cons.prems(1)[of c p] cp by auto
    then show ?thesis using evaluateExecAllowlist_backed sat False by (simp add: own_def)
  qed
  then show ?case using tail sat by (simp add: fin backedBy_append)
qed simp

lemma evaluateShellAllowlist_backed:
  assumes "evSatisfied (xaEvaluation (evaluateShellAllowlist ctx command))"
  shows "backedBy ctx (xaSegments (evaluateShellAllowlist ctx command)) (xaEvaluation (evaluateShellAllowlist ctx command))"
proof (cases "splitCommandChainWithOperators command")
  case None
  then show ?thesis using assms evaluateExecAllowlist_backed
    by (auto simp: evaluateShellAllowlist_def analysisFailure_def split: if_split_asm sum.splits)
next
  case (Some chainParts)
  then obtain cs where cs: "chainEvaluations ctx chainParts = Some cs"
    and fin: "evaluateShellAllowlist ctx command = finishChain (zip cs (fst (allowSkillPreludes ctx cs)))"
    using assms by (auto simp: evaluateShellAllowlist_def analysisFailure_def split: if_split_asm option.splits)
  show ?thesis using assms unfolding fin
  proof (intro finishChain_backed)
    fix c p assume c: "(c, p) \<in> set (zip cs (fst (allowSkillPreludes ctx cs)))"
    show "\<exists>part. analyzeShellCommand (contextResolver ctx) part = Inr (chAnalysis c) \<and>
        chEvaluation c = evaluateExecAllowlist ctx (Inr (chAnalysis c))"
      using chainEvaluations_fit[OF cs] c by (meson set_zip_leftD)
    show "isSkillPreludeOnlyEvaluation (axHost ctx) (axCwd ctx) (anSegments (chAnalysis c))" if p
      using allowSkillPreludes_only[of ctx cs] c that by (auto simp: list_all2_iff)
  qed
qed

section \<open>Nothing without rules, and the bound on nesting\<close>

lemma parseSegments_length: "parseSegmentsFromParts resolve raws = Some segs \<Longrightarrow> length segs = length raws"
  by (induction raws arbitrary: segs) (auto split: option.splits if_splits)

lemma analyzePipeline_nonempty: "analyzePipeline resolve part = Inr segs \<Longrightarrow> segs \<noteq> []"
  using splitShellPipeline_nonempty parseSegments_length
  by (fastforce simp: analyzePipeline_def split: sum.splits option.splits)

lemma analyzeParts_nonempty: "analyzeParts resolve chainParts = Inr groups \<Longrightarrow> length groups = length chainParts \<and> [] \<notin> set groups"
  by (induction chainParts arbitrary: groups) (auto split: sum.splits dest: analyzePipeline_nonempty)

lemma splitCommandChain_some: "splitCommandChain command = Some chainParts \<Longrightarrow> chainParts \<noteq> []"
  by (auto simp: splitCommandChain_def splitCommandChainWithOperators_def Let_def split: if_split_asm)

lemma analyzed_groups_nonempty:
  assumes "analyzeShellCommand resolve command = Inr analysis"
  shows "resolveAnalysisSegmentGroups analysis \<noteq> [] \<and> [] \<notin> set (resolveAnalysisSegmentGroups analysis)"
proof (cases "splitCommandChain command")
  case None
  then show ?thesis using assms
    by (auto simp: analyzeShellCommand_def resolveAnalysisSegmentGroups_def split: sum.splits dest: analyzePipeline_nonempty)
next
  case (Some chainParts)
  then obtain groups where "analyzeParts resolve chainParts = Inr groups" "anChains analysis = Some groups"
    using assms by (auto simp: analyzeShellCommand_def split: sum.splits)
  then show ?thesis using analyzeParts_nonempty splitCommandChain_some[OF Some]
    by (fastforce simp: resolveAnalysisSegmentGroups_def)
qed

lemma analyze_nonempty: "analyzeShellCommand resolve command = Inr analysis \<Longrightarrow> anSegments analysis \<noteq> []"
  using analyzed_groups_nonempty[of resolve command analysis] analyzed_groups[of resolve command analysis]
  by (cases "resolveAnalysisSegmentGroups analysis") auto

definition ruleless :: "allowlist_context \<Rightarrow> bool" where
  "ruleless ctx \<longleftrightarrow> axAllowlist ctx = [] \<and> axSafeBins ctx = {} \<and> \<not> axAutoAllowSkills ctx"

lemma ruleless_covers_nothing: "covered ctx s \<Longrightarrow> \<not> ruleless ctx"
proof (induction rule: covered.induct)
  case (safe s)
  then show ?case by (auto simp: ruleless_def isSafeBinUsage_def Let_def split: option.splits)
next
  case (inline s command inlineParts)
  then obtain part where "part \<in> set inlineParts" by (cases inlineParts) auto
  then obtain analysis where "analyzeShellCommand (contextResolver ctx) part = Inr analysis"
    "\<forall>s' \<in> set (anSegments analysis). \<not> ruleless ctx" using inline.IH by blast
  then show ?case using analyze_nonempty[of _ part analysis] by (cases "anSegments analysis") auto
qed (auto simp: ruleless_def)

lemma ruleless_evaluation:
  assumes "ruleless ctx" and "analyzeShellCommand (contextResolver ctx) command = Inr analysis"
  shows "\<not> evSatisfied (evaluateExecAllowlist ctx (Inr analysis))"
proof
  assume sat: "evSatisfied (evaluateExecAllowlist ctx (Inr analysis))"
  obtain g gs where groups: "resolveAnalysisSegmentGroups analysis = g # gs" "g \<noteq> []"
    using analyzed_groups_nonempty[OF assms(2)] by (cases "resolveAnalysisSegmentGroups analysis") auto
  then have "evSatisfied (evaluateSegments ctx g)"
    using sat analyze_nonempty[OF assms(2)] by (auto simp: evaluateExecAllowlist_def Let_def split: if_split_asm)
  then show False
    using groups(2) evaluateSegmentsAt_covered[of ctx _ g "hd g"] ruleless_covers_nothing assms(1)
    by (simp add: evaluateSegments_def) blast
qed

lemma evaluateSegment_more:
  assumes "\<And>inlineParts matches. evalChain inlineParts = Some matches \<Longrightarrow> evalChain' inlineParts = Some matches"
    and "srSatisfied (evaluateSegment ctx evalChain a trust s)"
  shows "evaluateSegment ctx evalChain' a trust s = evaluateSegment ctx evalChain a trust s"
proof -
  let ?ev = "resolveSegmentAllowlistMatch ctx s"
  let ?by = "resolveSegmentSatisfaction ctx a trust s ?ev"
  have "resolveInlineChainFallback evalChain' ?by (seInlineCommand ?ev) =
      resolveInlineChainFallback evalChain ?by (seInlineCommand ?ev)" if "\<not> blockedSegment s"
  proof (cases "resolveInlineChainFallback evalChain ?by (seInlineCommand ?ev)")
    case None
    then have "?by \<noteq> None" using assms(2) that by (simp add: evaluateSegment_def Let_def)
    then show ?thesis by (simp add: resolveInlineChainFallback_def)
  next
    case (Some matches)
    then have "resolveInlineChainFallback evalChain' ?by (seInlineCommand ?ev) = Some matches"
      using assms(1) unfolding fallback_Some by blast
    then show ?thesis using Some by simp
  qed
  then show ?thesis by (simp add: evaluateSegment_def Let_def)
qed

lemma evaluateEvery_cong:
  "(\<And>s. s \<in> set segments \<Longrightarrow> f s = g s) \<Longrightarrow> evaluateEvery f segments = evaluateEvery g segments"
  by (induction segments) (simp_all add: Let_def)

lemma evaluateSegmentsWith_more:
  assumes "\<And>inlineParts matches. evalChain inlineParts = Some matches \<Longrightarrow> evalChain' inlineParts = Some matches"
    and "evSatisfied (evaluateSegmentsWith ctx evalChain segments)"
  shows "evaluateSegmentsWith ctx evalChain' segments = evaluateSegmentsWith ctx evalChain segments"
proof -
  define trust where "trust = buildSkillBinTrustIndex (axHost ctx) (axSkillBins ctx)"
  have ev: "evaluateSegmentsWith ctx c segments =
      evaluateEvery (evaluateSegment ctx c (axAutoAllowSkills ctx \<and> trust \<noteq> []) trust) segments" for c
    by (simp add: evaluateSegmentsWith_def trust_def Let_def)
  show ?thesis unfolding ev
  proof (rule evaluateEvery_cong)
    fix s assume "s \<in> set segments"
    then have "srSatisfied (evaluateSegment ctx evalChain (axAutoAllowSkills ctx \<and> trust \<noteq> []) trust s)"
      using evaluateEvery_satisfied[OF assms(2)[unfolded ev]] by blast
    then show "evaluateSegment ctx evalChain' (axAutoAllowSkills ctx \<and> trust \<noteq> []) trust s =
        evaluateSegment ctx evalChain (axAutoAllowSkills ctx \<and> trust \<noteq> []) trust s"
      using evaluateSegment_more[where evalChain = evalChain and evalChain' = evalChain'] assms(1) by blast
  qed
qed

lemma evaluateInlineChain_more:
  assumes "\<And>segments. evSatisfied (f segments) \<Longrightarrow> g segments = f segments"
  shows "evaluateInlineChain resolve f inlineParts = Some matches \<Longrightarrow> evaluateInlineChain resolve g inlineParts = Some matches"
proof (induction inlineParts arbitrary: matches)
  case (Cons part inlineParts)
  then obtain analysis where "analyzeShellCommand resolve part = Inr analysis" "evSatisfied (f (anSegments analysis))"
    using evaluateInlineChain_Some[of resolve f "part # inlineParts" matches part] by auto
  then show ?case using Cons assms[of "anSegments analysis"] by (auto simp: Let_def)
qed simp

lemma evaluateSegmentsAt_Suc:
  "evSatisfied (evaluateSegmentsAt ctx d segments) \<Longrightarrow> evaluateSegmentsAt ctx (Suc d) segments = evaluateSegmentsAt ctx d segments"
proof (induction d arbitrary: segments)
  case 0
  show ?case unfolding evaluateSegmentsAt.simps
    by (rule evaluateSegmentsWith_more) (use 0 in simp_all)
next
  case (Suc d)
  show ?case unfolding evaluateSegmentsAt.simps(2)[of ctx "Suc d"] evaluateSegmentsAt.simps(2)[of ctx d]
  proof (rule evaluateSegmentsWith_more)
    fix inlineParts matches
    assume "evaluateInlineChain (contextResolver ctx) (evaluateSegmentsAt ctx d) inlineParts = Some matches"
    then show "evaluateInlineChain (contextResolver ctx)
        (evaluateSegmentsWith ctx (evaluateInlineChain (contextResolver ctx) (evaluateSegmentsAt ctx d))) inlineParts = Some matches"
      using evaluateInlineChain_more[of "evaluateSegmentsAt ctx d" "evaluateSegmentsAt ctx (Suc d)"] Suc.IH
      by (simp only: evaluateSegmentsAt.simps)
  qed (use Suc.prems in \<open>simp only: evaluateSegmentsAt.simps\<close>)
qed

lemma ruleless_chain:
  assumes "ruleless ctx" and "chainEvaluations ctx chainParts = Some cs" and "c \<in> set cs"
  shows "\<not> evSatisfied (chEvaluation c)"
  using chainEvaluations_fit[OF assms(2,3)] ruleless_evaluation[OF assms(1)] by auto

lemma ruleless_preludes:
  "(\<And>c. c \<in> set cs \<Longrightarrow> \<not> evSatisfied (chEvaluation c)) \<Longrightarrow>
     allowSkillPreludes ctx cs = (map (\<lambda>_. False) cs, [])"
proof (induction cs)
  case (Cons c cs)
  moreover have "resolveTrustedSkillExecutionIds (chAnalysis c) (chEvaluation c) = []"
    using Cons.prems[of c] by (simp add: resolveTrustedSkillExecutionIds_def)
  ultimately show ?case by (auto simp: Let_def)
qed simp

lemma chainEvaluations_length: "chainEvaluations ctx chainParts = Some cs \<Longrightarrow> length cs = length chainParts"
  by (induction ctx chainParts arbitrary: cs rule: chainEvaluations.induct) (auto split: sum.splits option.splits)

lemma withOperators_some: "splitCommandChainWithOperators command = Some chainParts \<Longrightarrow> chainParts \<noteq> []"
  by (auto simp: splitCommandChainWithOperators_def Let_def split: if_split_asm)

lemma ruleless_command:
  assumes "ruleless ctx"
  shows "\<not> evSatisfied (xaEvaluation (evaluateShellAllowlist ctx command))"
proof (cases "splitCommandChainWithOperators command")
  case None
  then show ?thesis using ruleless_evaluation[OF assms]
    by (auto simp: evaluateShellAllowlist_def analysisFailure_def split: sum.split)
next
  case (Some chainParts)
  show ?thesis
  proof (cases "chainEvaluations ctx chainParts")
    case None
    then show ?thesis using Some by (simp add: evaluateShellAllowlist_def analysisFailure_def)
  next
    case cs: (Some cs)
    then obtain c cs' where "cs = c # cs'"
      using chainEvaluations_length withOperators_some[OF Some] by (cases cs) fastforce+
    then show ?thesis using Some cs ruleless_chain[OF assms cs] ruleless_preludes[of cs ctx]
      by (simp add: evaluateShellAllowlist_def analysisFailure_def Let_def)
  qed
qed

section \<open>A machine with a few commands\<close>

definition binHost :: exec_host where
  "binHost = \<lparr>ehCwd = ''/w'', ehEnv = [(''PATH'', ''/b'')], ehHomedir = None,
     ehIsFile = (\<lambda>p. p \<in> set [''/b/sh'', ''/b/ls'', ''/b/wc'', ''/b/rm'', ''/b/awk'']), ehRealpath = (\<lambda>_. None)\<rparr>"

definition allowEntry :: "string \<Rightarrow> allowlist_entry" where
  "allowEntry p = \<lparr>alId = None, alPattern = p, alSource = None, alCommandText = None, alArgPattern = None,
     alLastUsedAt = None, alLastUsedCommand = None, alLastResolvedPath = None\<rparr>"

definition binContext :: "string list \<Rightarrow> allowlist_context" where
  "binContext patterns = \<lparr>axHost = binHost, axPlatform = ''linux'', axAllowlist = map allowEntry patterns, axSafeBins = {},
     axSafeBinProfiles = None, axCwd = None, axEnv = None, axTrustedSafeBinDirs = None, axSkillBins = [],
     axAutoAllowSkills = False\<rparr>"

definition inShell :: "string \<Rightarrow> string" where
  "inShell inner = ''sh -c '' @ [singleQuote] @ inner @ [singleQuote]"

section \<open>Properties\<close>

lemma accepted_markers: "list_all2 (accepted ctx) segments marks \<Longrightarrow> None \<notin> set marks"
  by (induction rule: list_all2_induct) (auto simp: accepted_def)

text \<open>
  C5. Every segment of an accepted command stands for what its marker says: it is covered by an entry of the
  allowlist, a safe command, a command of a skill, or as a shell whose inline chain consists of covered segments,
  and none of these hides its command behind a wrapper that is blocked; or it shows the text of a skill.
\<close>

theorem accepted_command_is_covered:
  assumes "evSatisfied (xaEvaluation (evaluateShellAllowlist ctx command))"
  shows "list_all2 (accepted ctx) (xaSegments (evaluateShellAllowlist ctx command))
    (evSatisfiedBy (xaEvaluation (evaluateShellAllowlist ctx command)))"
  using evaluateShellAllowlist_backed[OF assms] by (simp add: backedBy_def)

lemma demo_accepted: "evSatisfied (xaEvaluation (evaluateShellAllowlist (binContext [''/b/ls'', ''/b/wc'']) ''ls | wc''))"
  by code_simp

theorem accepted_command_is_covered_witness:
  "list_all2 (accepted (binContext [''/b/ls'', ''/b/wc'']))
    (xaSegments (evaluateShellAllowlist (binContext [''/b/ls'', ''/b/wc'']) ''ls | wc''))
    (evSatisfiedBy (xaEvaluation (evaluateShellAllowlist (binContext [''/b/ls'', ''/b/wc'']) ''ls | wc'')))"
  by (rule accepted_command_is_covered[OF demo_accepted])

text \<open>
  C34. The metadata of an accepted command fits its segments: one entry or none and one marker for each.
\<close>

theorem accepted_metadata_fits:
  assumes "evSatisfied (xaEvaluation (evaluateShellAllowlist ctx command))"
  shows "length (evEntries (xaEvaluation (evaluateShellAllowlist ctx command))) = length (xaSegments (evaluateShellAllowlist ctx command)) \<and>
    length (evSatisfiedBy (xaEvaluation (evaluateShellAllowlist ctx command))) = length (xaSegments (evaluateShellAllowlist ctx command)) \<and>
    None \<notin> set (evSatisfiedBy (xaEvaluation (evaluateShellAllowlist ctx command)))"
proof -
  note b = evaluateShellAllowlist_backed[OF assms, unfolded backedBy_def]
  then have "None \<notin> set (evSatisfiedBy (xaEvaluation (evaluateShellAllowlist ctx command)))"
    using accepted_markers by blast
  then show ?thesis using b by (auto dest: list_all2_lengthD)
qed

theorem accepted_metadata_fits_witness:
  "None \<notin> set (evSatisfiedBy (xaEvaluation (evaluateShellAllowlist (binContext [''/b/ls'', ''/b/wc'']) ''ls | wc'')))"
  using accepted_metadata_fits[OF demo_accepted] by simp

text \<open>
  C35. Without entries, safe commands and skills nothing is accepted, whatever the machine and the command.
\<close>

theorem nothing_accepted_without_rules:
  assumes "axAllowlist ctx = []" and "axSafeBins ctx = {}" and "\<not> axAutoAllowSkills ctx"
  shows "\<not> evSatisfied (xaEvaluation (evaluateShellAllowlist ctx command))"
  using ruleless_command assms unfolding ruleless_def by blast

theorem nothing_accepted_without_rules_witness:
  "\<not> evSatisfied (xaEvaluation (evaluateShellAllowlist (binContext []) ''ls | wc''))"
  by (rule nothing_accepted_without_rules) (simp_all add: binContext_def)

text \<open>
  The bound on the nesting of shells only refuses: what is accepted within it is judged the same with any
  larger bound.
\<close>

theorem larger_bound_judges_alike:
  assumes "evSatisfied (evaluateSegments ctx segments)"
  shows "evaluateSegmentsAt ctx (maxShellWrapperInlineEvalDepth - 1 + extra) segments = evaluateSegments ctx segments"
  using assms
proof (induction extra)
  case (Suc extra)
  then show ?case
    using evaluateSegmentsAt_Suc[of ctx "maxShellWrapperInlineEvalDepth - 1 + extra" segments] by (simp only: add_Suc_right)
qed (simp add: evaluateSegments_def)

theorem larger_bound_judges_alike_witness:
  "evaluateSegmentsAt (binContext []) 7 [] = evaluateSegments (binContext []) []"
  using larger_bound_judges_alike[of "binContext []" "[]" 5]
  by (simp add: evaluateSegments_unfold evaluateSegmentsWith_def maxShellWrapperInlineEvalDepth_def Let_def noEvaluation_def)

text \<open>
  A comment hides what follows inside \<open>sh -c\<close> as well: the chain \<open>ls && wc #\<close> with \<open>rm x\<close> on the next line is accepted
  for the entries of \<open>ls\<close> and \<open>wc\<close>, and the shell is called with the whole text; written as one chain it is refused.
\<close>

theorem inline_comment_hides_a_command:
  "evSatisfied (xaEvaluation (evaluateShellAllowlist (binContext [''/b/ls'', ''/b/wc''])
     (inShell (''ls && wc #'' @ [newline] @ ''rm x'')))) \<and>
   map sgArgv (xaSegments (evaluateShellAllowlist (binContext [''/b/ls'', ''/b/wc''])
     (inShell (''ls && wc #'' @ [newline] @ ''rm x'')))) = [[''sh'', ''-c'', ''ls && wc #'' @ [newline] @ ''rm x'']] \<and>
   \<not> evSatisfied (xaEvaluation (evaluateShellAllowlist (binContext [''/b/ls'', ''/b/wc'']) (inShell ''ls && wc && rm x'')))"
proof (intro conjI)
  show "evSatisfied (xaEvaluation (evaluateShellAllowlist (binContext [''/b/ls'', ''/b/wc''])
      (inShell (''ls && wc #'' @ [newline] @ ''rm x''))))" by code_simp
  show "map sgArgv (xaSegments (evaluateShellAllowlist (binContext [''/b/ls'', ''/b/wc''])
      (inShell (''ls && wc #'' @ [newline] @ ''rm x'')))) = [[''sh'', ''-c'', ''ls && wc #'' @ [newline] @ ''rm x'']]"
    by code_simp
  show "\<not> evSatisfied (xaEvaluation (evaluateShellAllowlist (binContext [''/b/ls'', ''/b/wc'']) (inShell ''ls && wc && rm x'')))"
    by code_simp
qed

end
