(* ===== verification/AllowAlways.thy ===== *)
theory AllowAlways
  imports ExecAllowlist
begin

text \<open>
  The patterns that the decision to allow a command always adds to the allowlist
  (\<open>resolveAllowAlwaysPatternEntries\<close> in \<open>src/src/infra/exec-approvals-allowlist.ts\<close>): the command behind the wrappers,
  the script a shell is called for, or the commands inside \<open>sh -c\<close>, up to a depth of three; the model counts the levels
  that are left. On POSIX a pattern has no pattern of arguments.
\<close>

section \<open>Patterns for the decision to allow always\<close>

definition isPowerShellFileInvocation :: "string list \<Rightarrow> bool" where
  "isPowerShellFileInvocation argv \<longleftrightarrow>
     normalizeExecutableToken (firstArgument argv) \<in> set powershellWrappers \<and>
     (\<exists>t \<in> set argv. toLowerCase (trim t) \<in> {''-file'', ''-f''}) \<and>
     \<not> (\<exists>t \<in> set argv. toLowerCase (trim t) \<in> {''-command'', ''-c'', ''--command''})"

record allow_always_params =
  aaHost :: exec_host
  aaPlatform :: string
  aaCwd :: "string option"
  aaEnv :: "process_env option"
  aaStrictInlineEval :: bool

definition addAllowAlwaysPattern :: "string list \<Rightarrow> string \<Rightarrow> string list" where
  "addAllowAlwaysPattern out pattern = setAdd pattern out"

definition paramsResolver :: "allow_always_params \<Rightarrow> resolver" where
  "paramsResolver p = resolveCommandResolutionFromArgv (aaHost p) (aaPlatform p) (aaCwd p) (aaEnv p)"

definition unwrappedSegment :: "allow_always_params \<Rightarrow> exec_segment \<Rightarrow> string list \<Rightarrow> exec_segment" where
  \<comment> \<open>the segment at the end of the trusted plan, whose argument vector is given\<close>
  "unwrappedSegment p segment argv =
     (if argv = sgArgv segment then segment
      else \<lparr>sgRaw = joinWith '' '' argv, sgArgv = argv, sgResolution = paramsResolver p argv\<rparr>)"

fun collectAllowAlwaysPatterns :: "allow_always_params \<Rightarrow> nat \<Rightarrow> exec_segment \<Rightarrow> string list \<Rightarrow> string list" where
  "collectAllowAlwaysPatterns p 0 segment0 out = out"
| "collectAllowAlwaysPatterns p (Suc levels) segment0 out =
     (let trustPlan = resolveExecWrapperTrustPlan (aaPlatform p) (sgArgv segment0) maxDispatchWrapperDepth;
          segment = unwrappedSegment p segment0 (epArgv trustPlan);
          candidatePath = resolveExecutionTargetCandidatePath (aaHost p) (aaCwd p) (sgResolution segment);
          effectiveArgv = (case sgResolution segment of None \<Rightarrow> sgArgv segment | Some r \<Rightarrow> crEffectiveArgv r);
          positionalArgvPath = resolveShellWrapperPositionalArgvCandidatePath (aaHost p) (aaPlatform p) (aaCwd p)
                                 (aaEnv p) segment;
          inlineCommand = (if isPowerShellFileInvocation (sgArgv segment) then None
                           else orElse (epShellInlineCommand trustPlan)
                                  (extractShellWrapperInlineCommand (aaPlatform p) (sgArgv segment)))
      in if epPolicyBlocked trustPlan then out
         else if \<not> truthy candidatePath then out
         else if isInterpreterLikeAllowlistPattern candidatePath \<and>
                 (\<not> aaStrictInlineEval p \<or> detectInterpreterInlineEvalArgv effectiveArgv \<noteq> None) then out
         else if \<not> epShellWrapperExecutable trustPlan then addAllowAlwaysPattern out (the candidatePath)
         else if truthy positionalArgvPath then addAllowAlwaysPattern out (the positionalArgvPath)
         else if \<not> truthy inlineCommand then
           (case resolveShellWrapperScriptCandidatePath (aaHost p) (aaCwd p) segment of
              None \<Rightarrow> out
            | Some scriptPath \<Rightarrow> if scriptPath = [] then out else addAllowAlwaysPattern out scriptPath)
         else (case analyzeShellCommand (paramsResolver p) (the inlineCommand) of
                 Inl _ \<Rightarrow> out
               | Inr nested \<Rightarrow>
                   fold (\<lambda>nestedSegment acc. collectAllowAlwaysPatterns p levels nestedSegment acc) (anSegments nested) out))"

definition resolveAllowAlwaysPatterns :: "allow_always_params \<Rightarrow> exec_segment list \<Rightarrow> string list" where
  "resolveAllowAlwaysPatterns p segments =
     fold (\<lambda>segment out. collectAllowAlwaysPatterns p 3 segment out) segments []"

section \<open>A pattern matches the path it was made of\<close>

lemma glob_plain: "c \<noteq> CHR ''*'' \<Longrightarrow> globMatch (c # r) (c # r) = globMatch r r"
  by (subst globMatch.simps(2)) (auto simp: sep_def simp del: globMatch.simps)

lemma glob_star: "r \<noteq> [] \<Longrightarrow> hd r \<noteq> CHR ''*'' \<Longrightarrow> globMatch r t \<Longrightarrow> globMatch (CHR ''*'' # r) (CHR ''*'' # t)"
proof -
  assume r: "r \<noteq> []" "hd r \<noteq> CHR ''*''" "globMatch r t"
  then have "globMatch (CHR ''*'' # r) t" by (subst globMatch.simps(2)) (auto split: list.split simp del: globMatch.simps)
  then show ?thesis using r by (subst globMatch.simps(2)) (auto simp: sep_def split: list.split simp del: globMatch.simps)
qed

lemma glob_stars: "globMatch r t \<Longrightarrow> globMatch (CHR ''*'' # CHR ''*'' # r) (CHR ''*'' # CHR ''*'' # t)"
proof -
  assume r: "globMatch r t"
  let ?p = "CHR ''*'' # CHR ''*'' # r"
  have "globMatch ?p t" using r by (subst globMatch.simps(2)) (simp del: globMatch.simps)
  then have "globMatch ?p (CHR ''*'' # t)" by (subst globMatch.simps(2)) (simp add: isLineEnd_def del: globMatch.simps)
  then show ?thesis by (subst globMatch.simps(2)) (simp add: isLineEnd_def del: globMatch.simps)
qed

lemma globMatch_self: "globMatch p p"
proof (induction p rule: length_induct)
  case (1 p)
  have IH: "globMatch q q" if "length q < length p" for q using 1 that by blast
  show ?case
  proof (cases p)
    case (Cons c r)
    consider "c \<noteq> CHR ''*''" | "c = CHR ''*''" "r = []" | "c = CHR ''*''" "r \<noteq> []" "hd r \<noteq> CHR ''*''"
      | r' where "c = CHR ''*''" "r = CHR ''*'' # r'" by (cases r) auto
    then show ?thesis
    proof cases
      case 2
      then show ?thesis using Cons by (simp add: sep_def)
    qed (use Cons IH[of r] IH[of "tl r"] glob_plain glob_star glob_stars in \<open>auto simp del: globMatch.simps\<close>)
  qed simp
qed

lemma matchAllowlist_path:
  assumes "e \<in> set entries" "alPattern e = q" "trim q = q" "isAbsolute q" "erResolvedPath r = Some q"
  shows "matchAllowlist h entries (Some r) \<noteq> None"
proof -
  obtain q' where q: "q = sep # q'" using assms(4) by (cases q) (auto simp: isAbsolute_def sep_def)
  have "matchesExecAllowlistPattern h q q"
    using q assms(3) globMatch_self by (simp add: matchesExecAllowlistPattern_def Let_def sep_def)
  then have "find (\<lambda>e. let p = trim (alPattern e)
      in p \<noteq> [] \<and> pathPattern p \<and> matchesExecAllowlistPattern h p q) entries \<noteq> None"
    using assms(1-3) q by (auto simp: find_None_iff pathPattern_def Let_def)
  then show ?thesis using assms(5) q by (auto simp: matchAllowlist_def Let_def)
qed

lemma bare_inline:
  assumes "bare host argv" "\<not> isShellWrapperExecutable (headToken argv)"
  shows "extractShellWrapperInlineCommand host argv = None"
proof -
  have five: "maxDispatchWrapperDepth + 1 = Suc 4" by (simp add: maxDispatchWrapperDepth_def)
  show ?thesis unfolding extractShellWrapperInlineCommand_def five bare_extract[OF assms(1)] no_shell_no_payload[OF assms(2)]
    by (simp add: noShellWrapper_def)
qed

lemma execPlanLoop_bare: "bare host (psCurrent st) \<Longrightarrow> execPlanLoop host maxDepth (Suc rounds) st = Inr st"
  using bare_plan[of host "psCurrent st"] by (simp add: bare_def Let_def)

lemma bare_trust_plan:
  assumes "bare host argv"
  shows "resolveExecWrapperTrustPlan host argv maxDispatchWrapperDepth = finalizeExecWrapperTrustPlan host argv argv [] False None"
proof -
  let ?st = "\<lparr>psCurrent = argv, psPolicyArgv = argv, psSawMultiplexer = False, psChain = []\<rparr>"
  have "execPlanLoop host maxDispatchWrapperDepth maxDispatchWrapperDepth ?st = Inr ?st"
    using execPlanLoop_bare[of host ?st _ 3] assms by (simp add: maxDispatchWrapperDepth_def)
  then show ?thesis unfolding resolveExecWrapperTrustPlan_def by (simp add: Let_def maxDispatchWrapperDepth_def)
qed

lemma plain_plan:
  assumes "\<not> epPolicyBlocked (resolveExecWrapperTrustPlan host argv maxDispatchWrapperDepth)"
    and "\<not> epShellWrapperExecutable (resolveExecWrapperTrustPlan host argv maxDispatchWrapperDepth)"
    and "headToken (epArgv (resolveExecWrapperTrustPlan host argv maxDispatchWrapperDepth)) \<noteq> []"
  obtains argv' chain where "resolveExecWrapperTrustPlan host argv maxDispatchWrapperDepth =
      finalizeExecWrapperTrustPlan host argv' argv' chain False None"
    and "bare host argv'" "\<not> isShellWrapperExecutable (headToken argv')" "headToken argv' \<noteq> []"
proof (rule exec_plan_open[OF assms(1)])
  fix st
  assume st: "resolveExecWrapperTrustPlan host argv maxDispatchWrapperDepth =
      finalizeExecWrapperTrustPlan host (psCurrent st) (psPolicyArgv st) (psChain st) False None"
    "bare host (psCurrent st)" "policyOk st"
  have head: "headToken (psCurrent st) \<noteq> []" "\<not> isShellWrapperExecutable (headToken (psCurrent st))"
    using assms(2,3) unfolding st(1) by (auto simp: finalizeExecWrapperTrustPlan_def Let_def)
  then have "psPolicyArgv st = psCurrent st" using st(3) by (simp add: policyOk_def split: if_split_asm)
  then show thesis using that[of "psCurrent st" "psChain st"] st head by simp
qed

lemma plain_resolution:
  assumes "resolveExecWrapperTrustPlan host argv maxDispatchWrapperDepth = finalizeExecWrapperTrustPlan host argv' argv' chain False None"
    and "headToken argv' \<noteq> []"
  shows "resolveCommandResolutionFromArgv h host cwd env argv =
    Some \<lparr>crExecution = buildExecutableResolution h cwd env (headToken argv'),
          crPolicy = buildExecutableResolution h cwd env (headToken argv'), crEffectiveArgv = argv', crWrapperChain = chain,
          crPolicyBlocked = False, crBlockedWrapper = None\<rparr>"
  using assms(2) by (cases argv') (simp_all add: resolveCommandResolutionFromArgv_def assms(1) finalizeExecWrapperTrustPlan_def
      buildCommandResolution_def headToken_def Let_def)

lemma collected_plain:
  assumes plan: "resolveExecWrapperTrustPlan (aaPlatform p) (sgArgv s) maxDispatchWrapperDepth =
      finalizeExecWrapperTrustPlan (aaPlatform p) argv' argv' chain False None"
    and plain: "bare (aaPlatform p) argv'" "\<not> isShellWrapperExecutable (headToken argv')" "headToken argv' \<noteq> []"
    and res: "sgResolution s = paramsResolver p (sgArgv s)"
    and q: "q \<in> set (collectAllowAlwaysPatterns p (Suc levels) s out)" "q \<notin> set out"
  shows "candidatePathOf (aaHost p) (aaCwd p) (Some (buildExecutableResolution (aaHost p) (aaCwd p) (aaEnv p) (headToken argv'))) = Some q"
proof -
  let ?R = "buildExecutableResolution (aaHost p) (aaCwd p) (aaEnv p) (headToken argv')"
  let ?c = "candidatePathOf (aaHost p) (aaCwd p) (Some ?R)"
  have c: "resolveExecutionTargetCandidatePath (aaHost p) (aaCwd p) (sgResolution (unwrappedSegment p s argv')) = ?c"
    using plain_resolution[OF plan plain(3)] plain_resolution[OF bare_trust_plan[OF plain(1)] plain(3)] res
    by (simp add: unwrappedSegment_def resolveExecutionTargetCandidatePath_def paramsResolver_def)
  have "q = the ?c \<and> truthy ?c"
    using q plain(2) unfolding collectAllowAlwaysPatterns.simps plan
    by (simp add: Let_def finalizeExecWrapperTrustPlan_def c addAllowAlwaysPattern_def setAdd_def split: if_split_asm)
  then show ?thesis by (cases ?c) auto
qed

lemma resolved_head: "resolveCommandResolutionFromArgv h host cwd env argv \<noteq> None \<Longrightarrow>
    headToken (epArgv (resolveExecWrapperTrustPlan host argv maxDispatchWrapperDepth)) \<noteq> []"
  by (auto simp: resolveCommandResolutionFromArgv_def Let_def headToken_def truthy_def split: if_split_asm list.splits option.splits)

lemma collected_open:
  assumes "q \<in> set (collectAllowAlwaysPatterns p (Suc levels) s out)" "q \<notin> set out"
    and res: "sgResolution s = paramsResolver p (sgArgv s)"
  shows "\<not> epPolicyBlocked (resolveExecWrapperTrustPlan (aaPlatform p) (sgArgv s) maxDispatchWrapperDepth) \<and>
    headToken (epArgv (resolveExecWrapperTrustPlan (aaPlatform p) (sgArgv s) maxDispatchWrapperDepth)) \<noteq> []"
proof -
  let ?plan = "resolveExecWrapperTrustPlan (aaPlatform p) (sgArgv s) maxDispatchWrapperDepth"
  have o: "\<not> epPolicyBlocked ?plan" using assms(1,2) by (auto simp: Let_def)
  have c: "truthy (resolveExecutionTargetCandidatePath (aaHost p) (aaCwd p) (sgResolution (unwrappedSegment p s (epArgv ?plan))))"
  proof (rule ccontr)
    assume "\<not> truthy (resolveExecutionTargetCandidatePath (aaHost p) (aaCwd p) (sgResolution (unwrappedSegment p s (epArgv ?plan))))"
    then have "collectAllowAlwaysPatterns p (Suc levels) s out = out" by (simp add: Let_def)
    then show False using assms(1,2) by simp
  qed
  then have "sgResolution (unwrappedSegment p s (epArgv ?plan)) \<noteq> None"
    by (auto simp: resolveExecutionTargetCandidatePath_def candidatePathOf_def split: option.splits)
  then have r: "paramsResolver p (epArgv ?plan) \<noteq> None" using res by (auto simp: unwrappedSegment_def split: if_split_asm)
  have "bare (aaPlatform p) (epArgv ?plan)"
    by (rule exec_plan_open[OF o]) (simp add: finalizeExecWrapperTrustPlan_def Let_def)
  then show ?thesis
    using o resolved_head[OF r[unfolded paramsResolver_def]] bare_trust_plan by (simp add: finalizeExecWrapperTrustPlan_def Let_def)
qed

text \<open>
  C6. Allowing always takes effect: once a pattern that the decision derives from a command without a shell is in
  the allowlist, the command is covered by it, provided that the pattern is an absolute path without blanks around
  it. (A relative entry of the search path gives a pattern that covers nothing, see \<open>relative_pattern_covers_nothing\<close>.)
\<close>

theorem allow_always_takes_effect:
  assumes "sgResolution s = contextResolver ctx (sgArgv s)"
    and "aaHost p = axHost ctx" "aaPlatform p = axPlatform ctx" "aaCwd p = axCwd ctx" "aaEnv p = axEnv ctx"
    and "\<not> epShellWrapperExecutable (resolveExecWrapperTrustPlan (axPlatform ctx) (sgArgv s) maxDispatchWrapperDepth)"
    and "q \<in> set (resolveAllowAlwaysPatterns p [s])" and "isAbsolute q" and "trim q = q"
    and "e \<in> set (axAllowlist ctx)" and "alPattern e = q"
  shows "evSatisfied (evaluateSegments ctx [s])"
proof -
  let ?plan = "resolveExecWrapperTrustPlan (axPlatform ctx) (sgArgv s) maxDispatchWrapperDepth"
  have q: "q \<in> set (collectAllowAlwaysPatterns p (Suc 2) s [])"
    using assms(7) by (simp add: resolveAllowAlwaysPatterns_def numeral_3_eq_3 numeral_2_eq_2 del: collectAllowAlwaysPatterns.simps)
  have res: "sgResolution s = paramsResolver p (sgArgv s)" using assms(1-5) by (simp add: contextResolver_def paramsResolver_def)
  have open_: "\<not> epPolicyBlocked ?plan" and head: "headToken (epArgv ?plan) \<noteq> []"
    using collected_open[OF q _ res] assms(3) by simp_all
  obtain argv' chain where plan: "?plan = finalizeExecWrapperTrustPlan (axPlatform ctx) argv' argv' chain False None"
    and plain: "bare (axPlatform ctx) argv'" "\<not> isShellWrapperExecutable (headToken argv')" "headToken argv' \<noteq> []"
    by (rule plain_plan[OF open_ assms(6) head])
  let ?R = "buildExecutableResolution (axHost ctx) (axCwd ctx) (axEnv ctx) (headToken argv')"
  have cand: "candidatePathOf (axHost ctx) (axCwd ctx) (Some ?R) = Some q"
    using collected_plain[of p s argv' chain q 2 "[]"] plan plain res q assms(2-5) by (simp del: collectAllowAlwaysPatterns.simps)
  note r = plain_resolution[OF plan plain(3), of "axHost ctx" "axCwd ctx" "axEnv ctx"]
  have truthy: "truthy (Some q)" using assms(8) by (auto simp: isAbsolute_def)
  have arg: "effectiveArgvOf s = argv'"
    using r plain(3) assms(1) by (auto simp: effectiveArgvOf_def contextResolver_def headToken_def)
  have "seMatch (resolveSegmentAllowlistMatch ctx s) \<noteq> None"
    using matchAllowlist_path[OF assms(10,11,9,8), of "?R\<lparr>erResolvedPath := Some q\<rparr>" "axHost ctx"] truthy
    by (auto simp: resolveSegmentAllowlistMatch_def Let_def arg bare_inline[OF plain(1,2)] orElse_None_iff
        resolvePolicyTargetCandidatePath_def resolvePolicyTargetResolution_def assms(1) contextResolver_def r cand)
  then have "srSatisfied (evaluateSegment ctx evalChain a t s)" for evalChain a t
    using assms(1) r by (simp add: evaluateSegment_def blockedSegment_def contextResolver_def Let_def
        resolveSegmentSatisfaction_def resolveInlineChainFallback_def)
  then show ?thesis
    by (simp add: evaluateSegments_unfold evaluateSegmentsWith_def Let_def appendEvaluation_def noEvaluation_def)
qed

lemma plain_ls: "resolveExecWrapperTrustPlan ''linux'' [''ls'', ''-l''] maxDispatchWrapperDepth =
    finalizeExecWrapperTrustPlan ''linux'' [''ls'', ''-l''] [''ls'', ''-l''] [] False None"
  by code_simp

definition binParams :: allow_always_params where
  "binParams = \<lparr>aaHost = binHost, aaPlatform = ''linux'', aaCwd = None, aaEnv = None, aaStrictInlineEval = False\<rparr>"

definition lsSegment :: exec_segment where
  "lsSegment = \<lparr>sgRaw = ''ls -l'', sgArgv = [''ls'', ''-l''], sgResolution = contextResolver (binContext [''/b/ls'']) [''ls'', ''-l'']\<rparr>"

lemma ls_remembered: "resolveAllowAlwaysPatterns binParams [lsSegment] = [''/b/ls'']"
  by code_simp

theorem allow_always_takes_effect_witness: "evSatisfied (evaluateSegments (binContext [''/b/ls'']) [lsSegment])"
proof (rule allow_always_takes_effect[where p = binParams and q = "''/b/ls''" and e = "allowEntry ''/b/ls''"])
  show "\<not> epShellWrapperExecutable (resolveExecWrapperTrustPlan (axPlatform (binContext [''/b/ls''])) (sgArgv lsSegment)
      maxDispatchWrapperDepth)" by code_simp
  show "trim ''/b/ls'' = ''/b/ls''" "isAbsolute ''/b/ls''" by code_simp+
qed (simp_all add: ls_remembered, simp_all add: lsSegment_def binParams_def binContext_def allowEntry_def)

definition dotContext :: "string list \<Rightarrow> allowlist_context" where
  \<comment> \<open>the search path is the current directory, where a program \<open>foo\<close> lies\<close>
  "dotContext patterns = (binContext patterns)\<lparr>axHost := binHost\<lparr>ehIsFile := (\<lambda>p. p = ''foo'')\<rparr>, axEnv := Some [(''PATH'', ''.'')]\<rparr>"

definition fooSegment :: exec_segment where
  "fooSegment = \<lparr>sgRaw = ''foo'', sgArgv = [''foo''], sgResolution = contextResolver (dotContext []) [''foo'']\<rparr>"

text \<open>
  A relative entry of the search path makes allowing always useless: the pattern it adds is the bare name of the
  program, which covers nothing, so the same command is refused again.
\<close>

theorem relative_pattern_covers_nothing:
  "resolveAllowAlwaysPatterns (binParams\<lparr>aaHost := axHost (dotContext []), aaEnv := axEnv (dotContext [])\<rparr>) [fooSegment] = [''foo''] \<and>
   \<not> evSatisfied (evaluateSegments (dotContext [''foo'']) [fooSegment])"
proof (intro conjI)
  show "resolveAllowAlwaysPatterns (binParams\<lparr>aaHost := axHost (dotContext []), aaEnv := axEnv (dotContext [])\<rparr>) [fooSegment] = [''foo'']"
    by code_simp
  show "\<not> evSatisfied (evaluateSegments (dotContext [''foo'']) [fooSegment])" by code_simp
qed

definition carriedCall :: "string \<Rightarrow> string" where
  "carriedCall rest = inShell ''$0 $@'' @ '' '' @ rest"

text \<open>
  The rule that interpreters are not remembered is lost when a shell passes its arguments on: allowing
  \<open>sh -c '$0 $@' awk x\<close> always adds the path of \<open>awk\<close>, after which every program for \<open>awk\<close> is accepted that way; \<open>awk x\<close>
  itself adds nothing.
\<close>

theorem carried_interpreter_is_remembered:
  "map_sum id (\<lambda>a. resolveAllowAlwaysPatterns binParams (anSegments a))
     (analyzeShellCommand (contextResolver (binContext [])) (carriedCall ''awk x'')) = Inr [''/b/awk''] \<and>
   evSatisfied (xaEvaluation (evaluateShellAllowlist (binContext [''/b/awk'']) (carriedCall ''awk y''))) \<and>
   map_sum id (\<lambda>a. resolveAllowAlwaysPatterns binParams (anSegments a))
     (analyzeShellCommand (contextResolver (binContext [])) ''awk x'') = Inr []"
proof (intro conjI)
  show "map_sum id (\<lambda>a. resolveAllowAlwaysPatterns binParams (anSegments a))
     (analyzeShellCommand (contextResolver (binContext [])) (carriedCall ''awk x'')) = Inr [''/b/awk'']" by code_simp
  show "evSatisfied (xaEvaluation (evaluateShellAllowlist (binContext [''/b/awk'']) (carriedCall ''awk y'')))" by code_simp
  show "map_sum id (\<lambda>a. resolveAllowAlwaysPatterns binParams (anSegments a))
     (analyzeShellCommand (contextResolver (binContext [])) ''awk x'') = Inr []" by code_simp
qed

end
