(* ===== verification/HostEnv.thy ===== *)
theory HostEnv
  imports SystemRunApproval
begin

text \<open>
  The environment a command gets on a host (\<open>src/src/infra/host-env-security.ts\<close> with the lists of
  \<open>host-env-security-policy.json\<close>, and \<open>openclaw-exec-env.ts\<close>): the variables of the process without the dangerous
  ones, then those of the request that were accepted. Objects are maps in the order of their keys; upper case is written
  out for the characters up to 255 whose upper case is one of them.
\<close>

section \<open>The policy\<close>

definition hostDangerousEnvKeys :: "string list" where
  "hostDangerousEnvKeys =
    [   ''NODE_OPTIONS'', ''NODE_PATH'', ''PYTHONHOME'', ''PYTHONPATH'', ''PERL5LIB'', ''PERL5OPT'', ''RUBYLIB'',
    ''RUBYOPT'', ''BASH_ENV'', ''ENV'', ''BROWSER'', ''GIT_EDITOR'', ''GIT_EXTERNAL_DIFF'', ''GIT_EXEC_PATH'',
    ''GIT_SEQUENCE_EDITOR'', ''GIT_TEMPLATE_DIR'', ''GIT_SSL_NO_VERIFY'', ''GIT_SSL_CAINFO'',
    ''GIT_SSL_CAPATH'', ''CC'', ''CXX'', ''CARGO_BUILD_RUSTC'', ''CARGO_BUILD_RUSTC_WRAPPER'',
    ''RUSTC_WRAPPER'', ''CMAKE_C_COMPILER'', ''CMAKE_CXX_COMPILER'', ''SHELL'', ''SHELLOPTS'', ''PS4'',
    ''GCONV_PATH'', ''IFS'', ''SSLKEYLOGFILE'', ''JAVA_TOOL_OPTIONS'', ''_JAVA_OPTIONS'', ''JDK_JAVA_OPTIONS'',
    ''PYTHONBREAKPOINT'', ''DOTNET_STARTUP_HOOKS'', ''DOTNET_ADDITIONAL_DEPS'', ''GLIBC_TUNABLES'',
    ''MAVEN_OPTS'', ''MAKEFLAGS'', ''MFLAGS'', ''SBT_OPTS'', ''GRADLE_OPTS'', ''ANT_OPTS'', ''HGRCPATH'']"

definition hostDangerousEnvPrefixes :: "string list" where
  "hostDangerousEnvPrefixes =
    [''DYLD_'', ''LD_'', ''BASH_FUNC_'']"

definition hostDangerousOverrideEnvKeys :: "string list" where
  "hostDangerousOverrideEnvKeys =
    [   ''HOME'', ''GRADLE_USER_HOME'', ''ZDOTDIR'', ''GIT_SSH_COMMAND'', ''GIT_SSH'', ''GIT_PROXY_COMMAND'',
    ''GIT_ASKPASS'', ''GIT_SSL_NO_VERIFY'', ''GIT_SSL_CAINFO'', ''GIT_SSL_CAPATH'', ''SSH_ASKPASS'',
    ''LESSOPEN'', ''LESSCLOSE'', ''PAGER'', ''MANPAGER'', ''GIT_PAGER'', ''EDITOR'', ''VISUAL'', ''FCEDIT'',
    ''SUDO_EDITOR'', ''PROMPT_COMMAND'', ''HISTFILE'', ''PERL5DB'', ''PERL5DBCMD'', ''OPENSSL_CONF'',
    ''OPENSSL_ENGINES'', ''PYTHONSTARTUP'', ''WGETRC'', ''CURL_HOME'', ''CLASSPATH'', ''CGO_CFLAGS'',
    ''CGO_LDFLAGS'', ''GOFLAGS'', ''MAKEFLAGS'', ''MFLAGS'', ''CORECLR_PROFILER_PATH'', ''PHPRC'',
    ''PHP_INI_SCAN_DIR'', ''DENO_DIR'', ''BUN_CONFIG_REGISTRY'', ''YARN_RC_FILENAME'', ''HTTP_PROXY'',
    ''HTTPS_PROXY'', ''ALL_PROXY'', ''NO_PROXY'', ''NODE_TLS_REJECT_UNAUTHORIZED'', ''NODE_EXTRA_CA_CERTS'',
    ''SSL_CERT_FILE'', ''SSL_CERT_DIR'', ''REQUESTS_CA_BUNDLE'', ''CURL_CA_BUNDLE'', ''DOCKER_HOST'',
    ''DOCKER_TLS_VERIFY'', ''DOCKER_CERT_PATH'', ''PIP_INDEX_URL'', ''PIP_PYPI_URL'', ''PIP_EXTRA_INDEX_URL'',
    ''PIP_CONFIG_FILE'', ''PIP_FIND_LINKS'', ''PIP_TRUSTED_HOST'', ''UV_INDEX'', ''UV_INDEX_URL'',
    ''UV_PYTHON'', ''UV_EXTRA_INDEX_URL'', ''UV_DEFAULT_INDEX'', ''DOCKER_HOST'', ''DOCKER_TLS_VERIFY'',
    ''DOCKER_CERT_PATH'', ''DOCKER_CONTEXT'', ''LIBRARY_PATH'', ''CPATH'', ''C_INCLUDE_PATH'',
    ''CPLUS_INCLUDE_PATH'', ''OBJC_INCLUDE_PATH'', ''NODE_EXTRA_CA_CERTS'', ''SSL_CERT_FILE'',
    ''SSL_CERT_DIR'', ''REQUESTS_CA_BUNDLE'', ''CURL_CA_BUNDLE'', ''GOPROXY'', ''GONOSUMCHECK'', ''GONOSUMDB'',
    ''GONOPROXY'', ''GOPRIVATE'', ''GOENV'', ''GOPATH'', ''HGRCPATH'', ''PYTHONUSERBASE'', ''RUSTC_WRAPPER'',
    ''VIRTUAL_ENV'', ''LUA_PATH'', ''LUA_CPATH'', ''GEM_HOME'', ''GEM_PATH'', ''BUNDLE_GEMFILE'',
    ''COMPOSER_HOME'', ''CARGO_BUILD_RUSTC_WRAPPER'', ''XDG_CONFIG_HOME'', ''AWS_CONFIG_FILE'']"

definition hostDangerousOverrideEnvPrefixes :: "string list" where
  "hostDangerousOverrideEnvPrefixes =
    [''GIT_CONFIG_'', ''NPM_CONFIG_'', ''CARGO_REGISTRIES_'']"

definition shellWrapperAllowedOverrideEnvKeys :: "string list" where
  "shellWrapperAllowedOverrideEnvKeys =
    [''TERM'', ''LANG'', ''LC_ALL'', ''LC_CTYPE'', ''LC_MESSAGES'', ''COLORTERM'', ''NO_COLOR'', ''FORCE_COLOR'']"

section \<open>Names of variables\<close>

definition upperText :: "char \<Rightarrow> string" where
  "upperText c =
     (let n = of_char c :: nat
      in if 97 \<le> n \<and> n \<le> 122 \<or> 224 \<le> n \<and> n \<le> 254 \<and> n \<noteq> 247 then [char_of (n - 32)]
         else if n = 223 then ''SS'' else [c])"

definition toUpperCase :: "string \<Rightarrow> string" where
  "toUpperCase s = concat (map upperText s)"

definition normalizeEnvVarKey :: "bool \<Rightarrow> string \<Rightarrow> string option" where
  "normalizeEnvVarKey portable rawKey =
     (let key = trim rawKey
      in if key = [] then None else if portable \<and> \<not> portableEnvKey isWordChar key then None else Some key)"

definition listedName :: "string list \<Rightarrow> string list \<Rightarrow> string \<Rightarrow> bool" where
  "listedName keys stems upper \<longleftrightarrow> upper \<in> set keys \<or> list_ex (startsWith upper) stems"

definition isDangerousHostEnvVarName :: "string \<Rightarrow> bool" where
  "isDangerousHostEnvVarName rawKey \<longleftrightarrow>
     (case normalizeEnvVarKey False rawKey of
        None \<Rightarrow> False
      | Some key \<Rightarrow> listedName hostDangerousEnvKeys hostDangerousEnvPrefixes (toUpperCase key))"

definition isDangerousHostEnvOverrideVarName :: "string \<Rightarrow> bool" where
  "isDangerousHostEnvOverrideVarName rawKey \<longleftrightarrow>
     (case normalizeEnvVarKey False rawKey of
        None \<Rightarrow> False
      | Some key \<Rightarrow> listedName hostDangerousOverrideEnvKeys hostDangerousOverrideEnvPrefixes (toUpperCase key))"

section \<open>Environments\<close>

type_synonym env_map = "(string, string) jsmap"

fun stringEntry :: "string \<times> json \<Rightarrow> (string \<times> string) option" where
  \<comment> \<open>\<open>typeof value === "string"\<close>\<close>
  "stringEntry (key, JString v) = Some (key, v)"
| "stringEntry _ = None"

definition listNormalizedEnvEntries :: "bool \<Rightarrow> (string, json) jsmap \<Rightarrow> (string \<times> string) list" where
  "listNormalizedEnvEntries portable source =
     List.map_filter (\<lambda>(rawKey, v). map_option (\<lambda>key. (key, v)) (normalizeEnvVarKey portable rawKey))
       (List.map_filter stringEntry source)"

definition sortUnique :: "lib \<Rightarrow> string list \<Rightarrow> string list" where
  "sortUnique lib vs = sort_key (lbCollate lib) (fold setAdd vs [])"

record env_overrides =
  eoAccepted :: env_map
  eoBlocked :: "string list"
  eoInvalid :: "string list"

definition classifyOverride :: "bool \<Rightarrow> string \<times> string \<Rightarrow> env_overrides \<Rightarrow> env_overrides" where
  \<comment> \<open>the body of the loop\<close>
  "classifyOverride blockPathOverrides p acc =
     (case normalizeHostOverrideEnvVarKey (fst p) of
        None \<Rightarrow> acc\<lparr>eoInvalid := eoInvalid acc @ [if trim (fst p) = [] then fst p else trim (fst p)]\<rparr>
      | Some normalized \<Rightarrow>
          (let upper = toUpperCase normalized
           in if blockPathOverrides \<and> upper = ''PATH'' then acc\<lparr>eoBlocked := eoBlocked acc @ [upper]\<rparr>
              else if isDangerousHostEnvVarName upper \<or> isDangerousHostEnvOverrideVarName upper then
                acc\<lparr>eoBlocked := eoBlocked acc @ [upper]\<rparr>
              else acc\<lparr>eoAccepted := mapSet normalized (snd p) (eoAccepted acc)\<rparr>))"

definition sanitizeHostEnvOverridesWithDiagnostics ::
  "lib \<Rightarrow> (string, json) jsmap option \<Rightarrow> bool \<Rightarrow> env_overrides" where
  \<comment> \<open>without overrides \<open>acceptedOverrides\<close> is absent, which its readers treat like an empty object\<close>
  "sanitizeHostEnvOverridesWithDiagnostics lib overrides blockPathOverrides =
     (let r = fold (classifyOverride blockPathOverrides) (List.map_filter stringEntry (coalesce overrides []))
                \<lparr>eoAccepted = [], eoBlocked = [], eoInvalid = []\<rparr>
      in r\<lparr>eoBlocked := sortUnique lib (eoBlocked r), eoInvalid := sortUnique lib (eoInvalid r)\<rparr>)"

definition markOpenClawExecEnv :: "env_map \<Rightarrow> env_map" where
  "markOpenClawExecEnv env = mapSet ''DENNOU_CLI'' ''1'' env"

definition safeBaseEnv :: "(string, json) jsmap \<Rightarrow> env_map" where
  \<comment> \<open>\<open>merged\<close> before the overrides\<close>
  "safeBaseEnv baseEnv =
     fold (\<lambda>(key, v) merged. if isDangerousHostEnvVarName key then merged else mapSet key v merged)
       (listNormalizedEnvEntries False baseEnv) []"

definition sanitizeHostExecEnvWithDiagnostics ::
  "lib \<Rightarrow> (string, json) jsmap \<Rightarrow> (string, json) jsmap option \<Rightarrow> bool \<Rightarrow> env_map \<times> string list \<times> string list" where
  "sanitizeHostExecEnvWithDiagnostics lib baseEnv overrides blockPathOverrides =
     (let r = sanitizeHostEnvOverridesWithDiagnostics lib overrides blockPathOverrides
      in (markOpenClawExecEnv (fold (\<lambda>(key, v) merged. mapSet key v merged) (eoAccepted r) (safeBaseEnv baseEnv)),
          eoBlocked r, eoInvalid r))"

definition inspectHostExecEnvOverrides :: "lib \<Rightarrow> (string, json) jsmap option \<Rightarrow> bool \<Rightarrow> string list \<times> string list" where
  "inspectHostExecEnvOverrides lib overrides blockPathOverrides =
     (let r = sanitizeHostEnvOverridesWithDiagnostics lib overrides blockPathOverrides in (eoBlocked r, eoInvalid r))"

definition sanitizeHostExecEnv :: "lib \<Rightarrow> (string, json) jsmap \<Rightarrow> (string, json) jsmap option \<Rightarrow> bool \<Rightarrow> env_map" where
  "sanitizeHostExecEnv lib baseEnv overrides blockPathOverrides =
     fst (sanitizeHostExecEnvWithDiagnostics lib baseEnv overrides blockPathOverrides)"

definition sanitizeSystemRunEnvOverrides :: "(string, json) jsmap option \<Rightarrow> bool \<Rightarrow> (string, json) jsmap option" where
  "sanitizeSystemRunEnvOverrides overrides shellWrapper =
     (case overrides of
        None \<Rightarrow> None
      | Some given \<Rightarrow>
          if \<not> shellWrapper then Some given
          else (let filtered = fold (\<lambda>(key, v) acc.
                      if toUpperCase key \<notin> set shellWrapperAllowedOverrideEnvKeys then acc else mapSet key (JString v) acc)
                    (listNormalizedEnvEntries True given) []
                in if filtered = [] then None else Some filtered))"

section \<open>What a command gets\<close>

lemma toUpperCase_ascii: "list_all (\<lambda>c. of_char c < (97::nat)) s \<Longrightarrow> toUpperCase s = s"
  by (induction s) (simp_all add: toUpperCase_def upperText_def Let_def)

definition acceptable :: "string \<Rightarrow> bool" where
  \<comment> \<open>a name that a request may set\<close>
  "acceptable key \<longleftrightarrow> normalizeHostOverrideEnvVarKey key = Some key \<and> toUpperCase key \<noteq> ''PATH'' \<and>
     \<not> isDangerousHostEnvVarName (toUpperCase key) \<and> \<not> isDangerousHostEnvOverrideVarName (toUpperCase key)"

lemma normalized_key: "normalizeHostOverrideEnvVarKey raw = Some key \<Longrightarrow> normalizeHostOverrideEnvVarKey key = Some key"
  by (auto simp: normalizeHostOverrideEnvVarKey_def Let_def split: if_split_asm)

definition overridesOk :: "(string \<times> string) list \<Rightarrow> env_map \<Rightarrow> bool" where
  "overridesOk given m \<longleftrightarrow> wfMap m \<and> (\<forall>(key, v) \<in> set m. acceptable key \<and> (\<exists>raw. (raw, v) \<in> set given \<and> trim raw = key))"

lemma override_trim: "normalizeHostOverrideEnvVarKey raw = Some key \<Longrightarrow> trim raw = key"
  by (simp add: normalizeHostOverrideEnvVarKey_def Let_def split: if_split_asm)

lemma classify_ok:
  assumes "overridesOk given (eoAccepted acc)" "p \<in> set given"
  shows "overridesOk given (eoAccepted (classifyOverride True p acc))"
proof (cases "normalizeHostOverrideEnvVarKey (fst p)")
  case (Some key)
  have "acceptable key \<and> (\<exists>raw. (raw, snd p) \<in> set given \<and> trim raw = key)"
    if "toUpperCase key \<noteq> ''PATH''" "\<not> isDangerousHostEnvVarName (toUpperCase key)"
      "\<not> isDangerousHostEnvOverrideVarName (toUpperCase key)"
    using that assms(2) Some normalized_key[OF Some] override_trim[OF Some] unfolding acceptable_def
    by (metis prod.collapse)
  then show ?thesis using assms(1) Some
    by (auto simp: classifyOverride_def Let_def overridesOk_def wfMap_set set_mapSet)
qed (use assms(1) in \<open>simp add: classifyOverride_def\<close>)

lemma classify_all_ok:
  "overridesOk given (eoAccepted acc) \<Longrightarrow> set ps \<subseteq> set given \<Longrightarrow>
     overridesOk given (eoAccepted (fold (classifyOverride True) ps acc))"
  by (induction ps arbitrary: acc) (simp_all add: classify_ok)

lemma accepted_ok:
  "overridesOk (List.map_filter stringEntry (coalesce overrides []))
     (eoAccepted (sanitizeHostEnvOverridesWithDiagnostics lib overrides True))"
  unfolding sanitizeHostEnvOverridesWithDiagnostics_def Let_def
  using classify_all_ok[of "List.map_filter stringEntry (coalesce overrides [])"
      "\<lparr>eoAccepted = [], eoBlocked = [], eoInvalid = []\<rparr>" "List.map_filter stringEntry (coalesce overrides [])"]
  by (simp add: overridesOk_def)

lemma fold_mapSet:
  "mapGet (fold (\<lambda>(key, v) merged. mapSet key v merged) xs m) key = Some v \<Longrightarrow> (key, v) \<in> set xs \<or> mapGet m key = Some v"
proof (induction xs arbitrary: m)
  case (Cons x xs)
  from Cons.IH[of "mapSet (fst x) (snd x) m"] Cons.prems show ?case by (auto simp: mapGet_set split: prod.splits if_split_asm)
qed simp

lemma fold_mapSet_other:
  "key \<notin> fst ` set xs \<Longrightarrow> mapGet (fold (\<lambda>(key, v) merged. mapSet key v merged) xs m) key = mapGet m key"
  by (induction xs arbitrary: m) (auto simp: mapGet_set)

lemma safe_base_none:
  "isDangerousHostEnvVarName key \<Longrightarrow> mapGet m key = None \<Longrightarrow>
     mapGet (fold (\<lambda>(key, v) merged. if isDangerousHostEnvVarName key then merged else mapSet key v merged) xs m) key = None"
proof (induction xs arbitrary: m)
  case (Cons x xs)
  obtain k v where x: "x = (k, v)" by (cases x)
  show ?case
  proof (cases "isDangerousHostEnvVarName k")
    case True
    then show ?thesis using Cons by (simp add: x del: map_of_eq_None_iff)
  next
    case False
    then have "mapGet (mapSet k v m) key = None" using Cons.prems by (auto simp: mapGet_set simp del: map_of_eq_None_iff)
    then show ?thesis using Cons.IH[OF Cons.prems(1)] False by (simp add: x del: map_of_eq_None_iff)
  qed
qed simp

lemma safe_base: "mapGet (safeBaseEnv baseEnv) key = Some v \<Longrightarrow> \<not> isDangerousHostEnvVarName key"
  using safe_base_none[of key "[]" "listNormalizedEnvEntries False baseEnv"] by (auto simp: safeBaseEnv_def)

lemma env_sources:
  assumes "mapGet (sanitizeHostExecEnv lib baseEnv overrides True) key = Some v" "key \<noteq> ''DENNOU_CLI''"
  shows "mapGet (safeBaseEnv baseEnv) key = Some v \<or>
    acceptable key \<and> (\<exists>raw. (raw, JString v) \<in> set (coalesce overrides []) \<and> trim raw = key)"
proof -
  let ?acc = "eoAccepted (sanitizeHostEnvOverridesWithDiagnostics lib overrides True)"
  have given: "(raw, JString w) \<in> set os" if "(raw, w) \<in> set (List.map_filter stringEntry os)" for raw w os
    using that by (auto simp: List.map_filter_def elim: stringEntry.elims)
  have "(key, v) \<in> set ?acc \<or> mapGet (safeBaseEnv baseEnv) key = Some v"
    using assms fold_mapSet[of ?acc "safeBaseEnv baseEnv" key v]
    by (simp add: sanitizeHostExecEnv_def sanitizeHostExecEnvWithDiagnostics_def Let_def markOpenClawExecEnv_def mapGet_set)
  then show ?thesis using accepted_ok[of overrides lib] given unfolding overridesOk_def by blast
qed

lemma acceptable_chars:
  "acceptable key \<Longrightarrow> key \<noteq> [] \<and> list_all (\<lambda>c. isWordChar c \<or> c = CHR ''('' \<or> c = CHR '')'') key"
  by (auto simp: acceptable_def normalizeHostOverrideEnvVarKey_def Let_def portableEnvKey_def isWordChar_def list_all_iff
      split: if_split_asm list.split_asm)

lemma whitespace_code: "jsWhitespace d \<Longrightarrow> of_char d < (40::nat) \<or> of_char d = (160::nat)"
  by (auto simp: jsWhitespace_def)

lemma upper_chars:
  assumes "isWordChar c \<or> c = CHR ''('' \<or> c = CHR '')''"
  obtains d where "upperText c = [d]" "upperText d = [d]" "\<not> jsWhitespace d"
proof -
  define n where "n = (of_char c :: nat)"
  have n: "40 \<le> n" "n \<le> 122"
    using assms by (auto simp: isWordChar_def isLetter_def isDigit_def Let_def n_def)
  let ?d = "if 97 \<le> n then char_of (n - 32) else c"
  have d: "of_char ?d = (if 97 \<le> n then n - 32 else n)" using n by (auto simp: n_def)
  have "upperText c = [?d]" using n unfolding upperText_def Let_def n_def by auto
  moreover have "upperText ?d = [?d]" using n d unfolding upperText_def Let_def by auto
  moreover have "\<not> jsWhitespace ?d" using whitespace_code[of ?d] n d by (auto split: if_split_asm)
  ultimately show thesis by (rule that)
qed

lemma upper_fixed:
  assumes "list_all (\<lambda>c. isWordChar c \<or> c = CHR ''('' \<or> c = CHR '')'') s"
  shows "toUpperCase (toUpperCase s) = toUpperCase s \<and> list_all (\<lambda>d. \<not> jsWhitespace d) (toUpperCase s) \<and>
    length (toUpperCase s) = length s"
  using assms
proof (induction s)
  case (Cons c s)
  obtain d where "upperText c = [d]" "upperText d = [d]" "\<not> jsWhitespace d" using upper_chars Cons.prems by auto
  then show ?case using Cons by (simp add: toUpperCase_def)
qed (simp add: toUpperCase_def)

lemma trim_plain: "list_all (\<lambda>d. \<not> jsWhitespace d) s \<Longrightarrow> trim s = s"
proof -
  have "dropWhile jsWhitespace t = t" if "list_all (\<lambda>d. \<not> jsWhitespace d) t" for t
    using that by (cases t) simp_all
  then show "list_all (\<lambda>d. \<not> jsWhitespace d) s \<Longrightarrow> trim s = s" by (simp add: trim_def list_all_rev)
qed

lemma acceptable_harmless:
  assumes "acceptable key"
  shows "\<not> isDangerousHostEnvVarName key"
proof -
  have a: "key \<noteq> []" "list_all (\<lambda>c. isWordChar c \<or> c = CHR ''('' \<or> c = CHR '')'') key" "trim key = key"
    using acceptable_chars[OF assms] override_trim assms unfolding acceptable_def by blast+
  note u = upper_fixed[OF a(2)]
  have "trim (toUpperCase key) = toUpperCase key" "toUpperCase key \<noteq> []" using u trim_plain a(1) by (auto dest: arg_cong[of _ _ length])
  then have "isDangerousHostEnvVarName (toUpperCase key) = isDangerousHostEnvVarName key"
    using a u by (simp add: isDangerousHostEnvVarName_def normalizeEnvVarKey_def Let_def)
  then show ?thesis using assms by (simp add: acceptable_def)
qed

definition displaySettings :: "(string, json) jsmap \<Rightarrow> (string, json) jsmap \<Rightarrow> bool" where
  "displaySettings given m \<longleftrightarrow> wfMap m \<and>
     (\<forall>(key, w) \<in> set m. toUpperCase key \<in> set shellWrapperAllowedOverrideEnvKeys \<and> trim key = key \<and>
        (\<exists>raw. (raw, w) \<in> set given \<and> trim raw = key))"

lemma displaySettings_set:
  "displaySettings given m \<Longrightarrow> trim key = key \<Longrightarrow> toUpperCase key \<in> set shellWrapperAllowedOverrideEnvKeys \<Longrightarrow>
     (raw, w) \<in> set given \<Longrightarrow> trim raw = key \<Longrightarrow> displaySettings given (mapSet key w m)"
  by (auto simp: displaySettings_def wfMap_set set_mapSet)

lemma normalized_entry:
  "(key, v) \<in> set (listNormalizedEnvEntries portable given) \<Longrightarrow>
     trim key = key \<and> (\<exists>raw. (raw, JString v) \<in> set given \<and> trim raw = key)"
  by (auto simp: listNormalizedEnvEntries_def List.map_filter_def normalizeEnvVarKey_def Let_def
      elim!: stringEntry.elims split: if_split_asm)

lemma shell_overrides_listed:
  assumes "sanitizeSystemRunEnvOverrides (Some given) True = Some kept" "(raw, w) \<in> set kept"
  shows "toUpperCase raw \<in> set shellWrapperAllowedOverrideEnvKeys \<and> trim raw = raw \<and>
    (\<exists>raw'. (raw', w) \<in> set given \<and> trim raw' = raw)"
proof -
  have "displaySettings given (fold (\<lambda>(key, v) acc. if toUpperCase key \<notin> set shellWrapperAllowedOverrideEnvKeys then acc
         else mapSet key (JString v) acc) xs m)"
    if "set xs \<subseteq> set (listNormalizedEnvEntries True given)" "displaySettings given m" for xs m
    using that
  proof (induction xs arbitrary: m)
    case (Cons x xs)
    obtain k v where x: "x = (k, v)" by (cases x)
    have "displaySettings given (mapSet k (JString v) m)" if "toUpperCase k \<in> set shellWrapperAllowedOverrideEnvKeys"
      using normalized_entry[of k v True given] Cons.prems displaySettings_set[OF Cons.prems(2) _ that] by (auto simp: x)
    then show ?case using Cons by (simp add: x)
  qed simp
  moreover have "displaySettings given []" by (simp add: displaySettings_def)
  ultimately have "displaySettings given kept" using assms(1)
    by (auto simp: sanitizeSystemRunEnvOverrides_def Let_def split: if_split_asm)
  then show ?thesis using assms(2) by (auto simp: displaySettings_def)
qed

lemma overrides_from_request:
  assumes "(raw, w) \<in> set (coalesce (sanitizeSystemRunEnvOverrides overrides shellWrapper) [])"
  shows "(\<exists>raw'. (raw', w) \<in> set (coalesce overrides []) \<and> trim raw' = trim raw) \<and>
    (shellWrapper \<longrightarrow> toUpperCase (trim raw) \<in> set shellWrapperAllowedOverrideEnvKeys)"
proof (cases "overrides = None \<or> \<not> shellWrapper")
  case True
  then show ?thesis using assms by (cases overrides) (auto simp: sanitizeSystemRunEnvOverrides_def)
next
  case False
  then obtain given where o: "overrides = Some given" "shellWrapper" by auto
  then obtain kept where k: "sanitizeSystemRunEnvOverrides (Some given) True = Some kept" "(raw, w) \<in> set kept"
    using assms by (cases "sanitizeSystemRunEnvOverrides (Some given) True") auto
  from shell_overrides_listed[OF k] show ?thesis by (auto simp: o)
qed

section \<open>Properties\<close>

text \<open>
  C37. The environment of a command, with overrides of the search path blocked: no variable in it has a name that the
  policy calls dangerous, and each one either has the value of the host's own environment (or is the mark of the
  program), or it was set to its value by the request under an accepted name: not \<open>PATH\<close>, not one that only
  overrides must not set, and for a shell wrapper one of the eight settings of the display.
\<close>

theorem command_environment_is_safe:
  assumes "mapGet (sanitizeHostExecEnv lib baseEnv (sanitizeSystemRunEnvOverrides overrides shellWrapper) True) key = Some v"
  shows "\<not> isDangerousHostEnvVarName key \<and>
    (mapGet (markOpenClawExecEnv (safeBaseEnv baseEnv)) key = Some v \<or>
     (\<exists>raw. (raw, JString v) \<in> set (coalesce overrides []) \<and> trim raw = key) \<and>
     toUpperCase key \<noteq> ''PATH'' \<and> \<not> isDangerousHostEnvOverrideVarName (toUpperCase key) \<and>
     (shellWrapper \<longrightarrow> toUpperCase key \<in> set shellWrapperAllowedOverrideEnvKeys))"
proof (cases "key = ''DENNOU_CLI''")
  case True
  have "mapGet (sanitizeHostExecEnv lib baseEnv (sanitizeSystemRunEnvOverrides overrides shellWrapper) True) key = Some ''1''"
    unfolding sanitizeHostExecEnv_def sanitizeHostExecEnvWithDiagnostics_def Let_def markOpenClawExecEnv_def True by simp
  moreover have "\<not> isDangerousHostEnvVarName ''DENNOU_CLI''" by code_simp
  ultimately show ?thesis using assms by (simp add: True markOpenClawExecEnv_def)
next
  case False
  from env_sources[OF assms False] show ?thesis
  proof (elim disjE conjE exE)
    assume "mapGet (safeBaseEnv baseEnv) key = Some v"
    then show ?thesis using safe_base False by (auto simp: markOpenClawExecEnv_def mapGet_set)
  next
    fix raw
    assume ok: "acceptable key" and
      raw: "(raw, JString v) \<in> set (coalesce (sanitizeSystemRunEnvOverrides overrides shellWrapper) [])" "trim raw = key"
    from overrides_from_request[OF raw(1)] show ?thesis
      using ok acceptable_harmless[OF ok] raw(2) unfolding acceptable_def by blast
  qed
qed

definition demoOverrides :: "(string, json) jsmap" where
  "demoOverrides = [(''PATH'', JString ''/tmp''), ('' LANG '', JString ''C''), (''LD_PRELOAD'', JString ''x.so''), (''EDITOR'', JString ''x'')]"

definition demoBase :: "(string, json) jsmap" where
  "demoBase = [(''PATH'', JString ''/usr/bin''), (''ENV'', JString ''/tmp/rc'')]"

definition envLib :: lib where
  "envLib = \<lparr>lbNumber = (\<lambda>_. []), lbSha256 = id, lbCollate = (\<lambda>_. 0), lbPlatform = ''linux''\<rparr>"

theorem command_environment_is_safe_witness:
  "mapGet (sanitizeHostExecEnv envLib demoBase (sanitizeSystemRunEnvOverrides (Some demoOverrides) False) True) ''PATH'' = Some ''/usr/bin'' \<and>
   mapGet (sanitizeHostExecEnv envLib demoBase (sanitizeSystemRunEnvOverrides (Some demoOverrides) False) True) ''LANG'' = Some ''C'' \<and>
   \<not> isDangerousHostEnvVarName ''LANG''"
proof -
  have e: "mapGet (sanitizeHostExecEnv envLib demoBase (sanitizeSystemRunEnvOverrides (Some demoOverrides) False) True) ''LANG'' = Some ''C''"
    "mapGet (sanitizeHostExecEnv envLib demoBase (sanitizeSystemRunEnvOverrides (Some demoOverrides) False) True) ''PATH'' = Some ''/usr/bin''"
    by code_simp+
  from command_environment_is_safe[OF e(1)] show ?thesis using e by blast
qed

end
