(* ===== verification/ExecPolicy.thy ===== *)
theory ExecPolicy
  imports AllowAlways HostEnv
begin

text \<open>
  The approvals file and what it grants (\<open>src/src/infra/exec-approvals.ts\<close>) and the policy of a node
  (\<open>src/src/node-host/exec-policy.ts\<close>).

  The file is read as JSON, so the policy fields of an agent are JSON values and its allowlist may hold anything; the
  code defends against both. That agents and the socket are objects with text fields, as the types say, is taken
  for granted. \<open>crypto.randomUUID\<close> is the argument \<open>newId\<close>, a function of the agent's key and the place in its list, SHA-256 the
  argument \<open>sha256\<close>. A file that was saved is read back as it was.
\<close>

section \<open>Modes\<close>

datatype exec_security = SecDeny | SecAllowlist | SecFull

datatype exec_ask = AskOff | AskOnMiss | AskAlways

datatype exec_target = TargetAuto | TargetGateway | TargetNode

definition normalizeExecHost :: "string option \<Rightarrow> exec_target option" where
  "normalizeExecHost v =
     (let normalized = map_option (toLowerCase \<circ> trim) v
      in if normalized = Some ''gateway'' then Some TargetGateway
         else if normalized = Some ''node'' then Some TargetNode else None)"

definition normalizeExecTarget :: "string option \<Rightarrow> exec_target option" where
  "normalizeExecTarget v =
     (let normalized = map_option (toLowerCase \<circ> trim) v
      in if normalized = Some ''auto'' then Some TargetAuto else normalizeExecHost normalized)"

definition securityOf :: "string \<Rightarrow> exec_security option" where
  "securityOf s = (if s = ''deny'' then Some SecDeny else if s = ''allowlist'' then Some SecAllowlist
                   else if s = ''full'' then Some SecFull else None)"

definition askOf :: "string \<Rightarrow> exec_ask option" where
  "askOf s = (if s = ''off'' then Some AskOff else if s = ''on-miss'' then Some AskOnMiss
              else if s = ''always'' then Some AskAlways else None)"

definition normalizeExecSecurity :: "string option \<Rightarrow> exec_security option" where
  "normalizeExecSecurity v = Option.bind v (\<lambda>s. securityOf (toLowerCase (trim s)))"

definition normalizeExecAsk :: "string option \<Rightarrow> exec_ask option" where
  "normalizeExecAsk v = Option.bind v (\<lambda>s. askOf (toLowerCase (trim s)))"

definition minSecurity :: "exec_security \<Rightarrow> exec_security \<Rightarrow> exec_security" where
  "minSecurity a b =
     (let order = (\<lambda>s. case s of SecDeny \<Rightarrow> 0 | SecAllowlist \<Rightarrow> 1 | SecFull \<Rightarrow> (2::nat))
      in if order a \<le> order b then a else b)"

definition maxAsk :: "exec_ask \<Rightarrow> exec_ask \<Rightarrow> exec_ask" where
  "maxAsk a b =
     (let order = (\<lambda>s. case s of AskOff \<Rightarrow> 0 | AskOnMiss \<Rightarrow> 1 | AskAlways \<Rightarrow> (2::nat))
      in if order a \<ge> order b then a else b)"

section \<open>The file\<close>

datatype allowlist_item =
    ItemEntry allowlist_entry \<comment> \<open>an object whose pattern is a string\<close>
  | ItemObject bool \<comment> \<open>any other object; whether it has a pattern that is neither \<open>null\<close> nor \<open>undefined\<close>\<close>
  | ItemText string
  | ItemNull
  | ItemOther

datatype allowlist_value =
    ListAbsent
  | ListItems "allowlist_item list"
  | ListText \<comment> \<open>a string in the place of the array\<close>
  | ListOther \<comment> \<open>anything else that is not iterable\<close>

record approvals_policy =
  apSecurity :: json
  apAsk :: json
  apAskFallback :: json
  apAutoAllowSkills :: json

record approvals_agent = approvals_policy +
  aaAllowlist :: allowlist_value

record approvals_file =
  afSocketPath :: "string option"
  afSocketToken :: "string option"
  afDefaults :: approvals_policy
  afAgents :: "(string, approvals_agent) jsmap"

definition noPolicy :: approvals_policy where
  "noPolicy = \<lparr>apSecurity = JUndefined, apAsk = JUndefined, apAskFallback = JUndefined, apAutoAllowSkills = JUndefined\<rparr>"

definition noAgent :: approvals_agent where
  "noAgent = approvals_policy.extend noPolicy \<lparr>aaAllowlist = ListAbsent\<rparr>"

definition emptyApprovals :: approvals_file where
  "emptyApprovals = \<lparr>afSocketPath = None, afSocketToken = None, afDefaults = noPolicy, afAgents = []\<rparr>"

definition defaultAgentId :: string where
  "defaultAgentId = ''main''"

section \<open>Normalisation\<close>

definition normalizeAllowlistPattern :: "string \<Rightarrow> string option" where
  "normalizeAllowlistPattern v = (if trim v = [] then None else Some (toLowerCase (trim v)))"

fun pushLegacyEntry ::
  "allowlist_item \<Rightarrow> (allowlist_item list \<times> (string \<times> string) list) \<Rightarrow> (allowlist_item list \<times> (string \<times> string) list) option" where
  \<comment> \<open>\<open>pushEntry\<close>; \<open>None\<close> is a thrown error\<close>
  "pushLegacyEntry (ItemEntry entry) (allowlist, seen) =
     (case normalizeAllowlistPattern (alPattern entry) of
        None \<Rightarrow> Some (allowlist, seen)
      | Some patternKey \<Rightarrow>
          (let key = (patternKey, trim (coalesce (alArgPattern entry) []))
           in if key \<in> set seen then Some (allowlist, seen)
              else Some (allowlist @ [ItemEntry entry], seen @ [key])))"
| "pushLegacyEntry (ItemObject hasPattern) acc = (if hasPattern then None else Some acc)"
| "pushLegacyEntry (ItemText s) acc = Some acc"
| "pushLegacyEntry ItemNull acc = None"
| "pushLegacyEntry ItemOther acc = Some acc"

fun pushLegacyEntries ::
  "allowlist_item list \<Rightarrow> (allowlist_item list \<times> (string \<times> string) list) \<Rightarrow> (allowlist_item list \<times> (string \<times> string) list) option" where
  "pushLegacyEntries [] acc = Some acc"
| "pushLegacyEntries (item # items) acc = Option.bind (pushLegacyEntry item acc) (pushLegacyEntries items)"

fun iterated :: "allowlist_value \<Rightarrow> allowlist_item list option" where
  \<comment> \<open>what \<open>for ... of (value ?? [])\<close> runs over\<close>
  "iterated ListAbsent = Some []"
| "iterated (ListItems items) = Some items"
| "iterated ListText = Some []"
| "iterated ListOther = None"

definition jsonOr :: "json \<Rightarrow> json \<Rightarrow> json" where
  "jsonOr a b = (if isNullish a then b else a)"

definition mergeLegacyAgent :: "approvals_agent \<Rightarrow> approvals_agent \<Rightarrow> approvals_agent option" where
  "mergeLegacyAgent current legacy =
     (case Option.bind (iterated (aaAllowlist current)) (\<lambda>own. Option.bind (pushLegacyEntries own ([], []))
             (\<lambda>acc. Option.bind (iterated (aaAllowlist legacy)) (\<lambda>old. pushLegacyEntries old acc))) of
        None \<Rightarrow> None
      | Some (allowlist, seen) \<Rightarrow>
          Some \<lparr>apSecurity = jsonOr (apSecurity current) (apSecurity legacy),
                apAsk = jsonOr (apAsk current) (apAsk legacy),
                apAskFallback = jsonOr (apAskFallback current) (apAskFallback legacy),
                apAutoAllowSkills = jsonOr (apAutoAllowSkills current) (apAutoAllowSkills legacy),
                aaAllowlist = (if allowlist = [] then ListAbsent else ListItems allowlist)\<rparr>)"

definition newEntry :: "string \<Rightarrow> allowlist_entry" where
  "newEntry pattern =
     \<lparr>alId = None, alPattern = pattern, alSource = None, alCommandText = None, alArgPattern = None,
      alLastUsedAt = None, alLastUsedCommand = None, alLastResolvedPath = None\<rparr>"

fun coerceItem :: "allowlist_item \<Rightarrow> allowlist_entry option" where
  "coerceItem (ItemText item) = (if trim item = [] then None else Some (newEntry (trim item)))"
| "coerceItem (ItemEntry entry) = (if trim (alPattern entry) = [] then None else Some entry)"
| "coerceItem (ItemObject _) = None"
| "coerceItem ItemNull = None"
| "coerceItem ItemOther = None"

definition coerceAllowlistEntries :: "allowlist_value \<Rightarrow> allowlist_entry list option" where
  \<comment> \<open>the result is empty only for an empty array, which stays one\<close>
  "coerceAllowlistEntries allowlist =
     (case allowlist of
        ListItems items \<Rightarrow>
          (let result = List.map_filter coerceItem items
           in if result = [] \<and> items \<noteq> [] then None else Some result)
      | _ \<Rightarrow> None)"

definition ensureAllowlistIds :: "(nat \<Rightarrow> string) \<Rightarrow> allowlist_entry list \<Rightarrow> allowlist_entry list" where
  "ensureAllowlistIds newId entries =
     map (\<lambda>(i, entry). if truthy (alId entry) then entry else entry\<lparr>alId := Some (newId i)\<rparr>) (enumerate 0 entries)"

definition stripAllowlistCommandText :: "allowlist_entry list \<Rightarrow> allowlist_entry list" where
  "stripAllowlistCommandText entries = map (\<lambda>entry. entry\<lparr>alCommandText := None\<rparr>) entries"

fun trimmedText :: "json \<Rightarrow> string option" where
  \<comment> \<open>\<open>toStringOrUndefined(value)?.trim()\<close>\<close>
  "trimmedText (JString s) = Some (trim s)"
| "trimmedText _ = None"

definition keepText :: "(string \<Rightarrow> bool) \<Rightarrow> json \<Rightarrow> json" where
  "keepText valid v =
     (case trimmedText v of None \<Rightarrow> JUndefined | Some s \<Rightarrow> if valid s then JString s else JUndefined)"

definition sanitizeExecApprovalPolicy :: "'a approvals_policy_scheme \<Rightarrow> approvals_policy" where
  "sanitizeExecApprovalPolicy policy =
     \<lparr>apSecurity = keepText (\<lambda>s. securityOf s \<noteq> None) (apSecurity policy),
      apAsk = keepText (\<lambda>s. askOf s \<noteq> None) (apAsk policy),
      apAskFallback = keepText (\<lambda>s. securityOf s \<noteq> None) (apAskFallback policy),
      apAutoAllowSkills = apAutoAllowSkills policy\<rparr>"

definition normalizeAgent :: "(nat \<Rightarrow> string) \<Rightarrow> approvals_agent \<Rightarrow> approvals_agent" where
  "normalizeAgent newId agent =
     (let sanitized = sanitizeExecApprovalPolicy agent
      in agent\<lparr>aaAllowlist := (case coerceAllowlistEntries (aaAllowlist agent) of
                  None \<Rightarrow> ListAbsent
                | Some coerced \<Rightarrow> ListItems (map ItemEntry (stripAllowlistCommandText (ensureAllowlistIds newId coerced)))),
               apSecurity := apSecurity sanitized, apAsk := apAsk sanitized, apAskFallback := apAskFallback sanitized\<rparr>)"

definition migrateDefaultAgent :: "(string, approvals_agent) jsmap \<Rightarrow> (string, approvals_agent) jsmap option" where
  "migrateDefaultAgent agents =
     (case mapGet agents ''default'' of
        None \<Rightarrow> Some agents
      | Some legacyDefault \<Rightarrow>
          map_option (\<lambda>agent. mapDelete ''default'' (mapSet defaultAgentId agent agents))
            (case mapGet agents defaultAgentId of
               Some main \<Rightarrow> mergeLegacyAgent main legacyDefault
             | None \<Rightarrow> Some legacyDefault))"

definition normalizeExecApprovals :: "(string \<Rightarrow> nat \<Rightarrow> string) \<Rightarrow> approvals_file \<Rightarrow> approvals_file option" where
  \<comment> \<open>\<open>None\<close> is a thrown error\<close>
  "normalizeExecApprovals newId file =
     map_option (\<lambda>agents.
         \<lparr>afSocketPath = trimmed (afSocketPath file), afSocketToken = trimmed (afSocketToken file),
          afDefaults = sanitizeExecApprovalPolicy (afDefaults file),
          afAgents = map (\<lambda>(key, agent). (key, normalizeAgent (newId key) agent)) agents\<rparr>)
       (migrateDefaultAgent (afAgents file))"

section \<open>Loading and saving\<close>

datatype stored_file = FileMissing | FileUnparsable | FileOtherVersion | FileParsed approvals_file

definition normalizedEmpty :: approvals_file where
  \<comment> \<open>\<open>normalizeExecApprovals({ version: 1, agents: {} })\<close>\<close>
  "normalizedEmpty = emptyApprovals"

definition loadExecApprovals :: "(string \<Rightarrow> nat \<Rightarrow> string) \<Rightarrow> stored_file \<Rightarrow> approvals_file" where
  "loadExecApprovals newId stored =
     (case stored of FileParsed parsed \<Rightarrow> coalesce (normalizeExecApprovals newId parsed) normalizedEmpty | _ \<Rightarrow> normalizedEmpty)"

definition saveExecApprovals :: "approvals_file \<Rightarrow> stored_file" where
  "saveExecApprovals file = FileParsed file"

definition defaultSocket :: string where
  "defaultSocket = ''~/.dennou-aibou/exec-approvals.sock''"

definition defaultFile :: string where
  "defaultFile = ''~/.dennou-aibou/exec-approvals.json''"

definition resolveExecApprovalsPath :: "exec_host \<Rightarrow> string" where
  "resolveExecApprovalsPath h = expandHomePrefix h None defaultFile"

definition resolveExecApprovalsSocketPath :: "exec_host \<Rightarrow> string" where
  "resolveExecApprovalsSocketPath h = expandHomePrefix h None defaultSocket"

definition mergeExecApprovalsSocketDefaults :: "exec_host \<Rightarrow> approvals_file \<Rightarrow> approvals_file option \<Rightarrow> approvals_file" where
  "mergeExecApprovalsSocketDefaults h normalized current =
     normalized\<lparr>
       afSocketPath := Some (coalesce (map_option trim (afSocketPath normalized))
         (coalesce (map_option trim (Option.bind current afSocketPath)) (resolveExecApprovalsSocketPath h))),
       afSocketToken := Some (coalesce (map_option trim (afSocketToken normalized))
         (coalesce (map_option trim (Option.bind current afSocketToken)) []))\<rparr>"

definition ensureExecApprovals ::
  "exec_host \<Rightarrow> (string \<Rightarrow> nat \<Rightarrow> string) \<Rightarrow> (string \<Rightarrow> nat \<Rightarrow> string) \<Rightarrow> string \<Rightarrow> stored_file \<Rightarrow> approvals_file \<times> stored_file" where
  \<comment> \<open>the identifiers of the two normalisations and a new token; the first cannot throw again\<close>
  "ensureExecApprovals h newId newId2 generatedToken stored =
     (let loaded = loadExecApprovals newId stored;
          nxt = coalesce (normalizeExecApprovals newId2 loaded) loaded;
          updated = nxt\<lparr>
            afSocketPath := Some (coalesce (trimmed (afSocketPath nxt)) (resolveExecApprovalsSocketPath h)),
            afSocketToken := Some (coalesce (trimmed (afSocketToken nxt)) generatedToken)\<rparr>
      in (updated, saveExecApprovals updated))"

section \<open>The policy of an agent\<close>

definition isExecSecurity :: "json \<Rightarrow> exec_security option" where
  \<comment> \<open>\<open>value === "deny"\<close> and so on, with the value\<close>
  "isExecSecurity v = (case v of JString s \<Rightarrow> securityOf s | _ \<Rightarrow> None)"

definition isExecAsk :: "json \<Rightarrow> exec_ask option" where
  "isExecAsk v = (case v of JString s \<Rightarrow> askOf s | _ \<Rightarrow> None)"

definition normalizeSecurity :: "json \<Rightarrow> exec_security \<Rightarrow> exec_security" where
  "normalizeSecurity v fallback = coalesce (isExecSecurity v) fallback"

definition normalizeAsk :: "json \<Rightarrow> exec_ask \<Rightarrow> exec_ask" where
  "normalizeAsk v fallback = coalesce (isExecAsk v) fallback"

datatype policy_field = FieldSecurity | FieldAskFallback

fun fieldOf :: "policy_field \<Rightarrow> 'a approvals_policy_scheme \<Rightarrow> json" where
  "fieldOf FieldSecurity policy = apSecurity policy"
| "fieldOf FieldAskFallback policy = apAskFallback policy"

fun fieldName :: "policy_field \<Rightarrow> string" where
  "fieldName FieldSecurity = ''security''"
| "fieldName FieldAskFallback = ''askFallback''"

definition resolveDefaultSecurityField ::
  "policy_field \<Rightarrow> approvals_policy \<Rightarrow> exec_security \<Rightarrow> exec_security \<times> string option" where
  "resolveDefaultSecurityField field defaults fallback =
     (case isExecSecurity (fieldOf field defaults) of
        Some v \<Rightarrow> (v, Some (''defaults.'' @ fieldName field))
      | None \<Rightarrow> (fallback, None))"

definition resolveDefaultAskField :: "approvals_policy \<Rightarrow> exec_ask \<Rightarrow> exec_ask \<times> string option" where
  "resolveDefaultAskField defaults fallback =
     (case isExecAsk (apAsk defaults) of Some v \<Rightarrow> (v, Some ''defaults.ask'') | None \<Rightarrow> (fallback, None))"

definition resolveAgentSecurityField ::
  "policy_field \<Rightarrow> approvals_policy \<Rightarrow> approvals_agent \<Rightarrow> approvals_agent \<Rightarrow> approvals_agent \<Rightarrow> approvals_agent \<Rightarrow> string \<Rightarrow>
   exec_security \<Rightarrow> exec_security \<times> string option" where
  "resolveAgentSecurityField field defaults agent rawAgent wildcard rawWildcard agentKey fallback =
     (let fallbackField = resolveDefaultSecurityField field defaults fallback
      in if \<not> isNullish (fieldOf field rawAgent) then
           (case isExecSecurity (fieldOf field agent) of
              Some v \<Rightarrow> (v, Some (''agents.'' @ agentKey @ ''.'' @ fieldName field))
            | None \<Rightarrow> fallbackField)
         else if \<not> isNullish (fieldOf field rawWildcard) then
           (case isExecSecurity (fieldOf field wildcard) of
              Some v \<Rightarrow> (v, Some (''agents.*.'' @ fieldName field))
            | None \<Rightarrow> fallbackField)
         else fallbackField)"

definition resolveAgentAskField ::
  "approvals_policy \<Rightarrow> approvals_agent \<Rightarrow> approvals_agent \<Rightarrow> approvals_agent \<Rightarrow> approvals_agent \<Rightarrow> string \<Rightarrow>
   exec_ask \<Rightarrow> exec_ask \<times> string option" where
  "resolveAgentAskField defaults agent rawAgent wildcard rawWildcard agentKey fallback =
     (let fallbackField = resolveDefaultAskField defaults fallback
      in if \<not> isNullish (apAsk rawAgent) then
           (case isExecAsk (apAsk agent) of
              Some v \<Rightarrow> (v, Some (''agents.'' @ agentKey @ ''.ask''))
            | None \<Rightarrow> fallbackField)
         else if \<not> isNullish (apAsk rawWildcard) then
           (case isExecAsk (apAsk wildcard) of
              Some v \<Rightarrow> (v, Some ''agents.*.ask'')
            | None \<Rightarrow> fallbackField)
         else fallbackField)"

record default_overrides =
  doSecurity :: "exec_security option"
  doAsk :: "exec_ask option"
  doAskFallback :: "exec_security option"
  doAutoAllowSkills :: "bool option"

record resolved_policy =
  rpSecurity :: exec_security
  rpAsk :: exec_ask
  rpAskFallback :: exec_security
  rpAutoAllowSkills :: bool

record resolved_approvals =
  raPath :: string
  raSocketPath :: string
  raToken :: string
  raDefaults :: resolved_policy
  raAgent :: resolved_policy
  raSecuritySource :: "string option"
  raAskSource :: "string option"
  raAskFallbackSource :: "string option"
  raAllowlist :: "allowlist_entry list"
  raFile :: approvals_file

fun jsonTruthy :: "json \<Rightarrow> bool" where
  \<comment> \<open>\<open>Boolean(value)\<close>\<close>
  "jsonTruthy JUndefined = False"
| "jsonTruthy JNull = False"
| "jsonTruthy (JBool b) = b"
| "jsonTruthy (JNumber n) = (n \<noteq> JNaN \<and> n \<noteq> JNum 0)"
| "jsonTruthy (JString s) = (s \<noteq> [])"
| "jsonTruthy (JArray _) = True"
| "jsonTruthy (JObject _) = True"

definition jsonEntries :: "allowlist_value \<Rightarrow> allowlist_entry list" where
  \<comment> \<open>the entries of a normalised list\<close>
  "jsonEntries allowlist =
     (case allowlist of ListItems items \<Rightarrow> List.map_filter (\<lambda>i. case i of ItemEntry e \<Rightarrow> Some e | _ \<Rightarrow> None) items | _ \<Rightarrow> [])"

definition agentOr :: "approvals_file \<Rightarrow> string \<Rightarrow> approvals_agent" where
  \<comment> \<open>\<open>file.agents?.[key] ?? {}\<close>\<close>
  "agentOr file key = coalesce (mapGet (afAgents file) key) noAgent"

definition resolveExecApprovalsFromFile ::
  "exec_host \<Rightarrow> (string \<Rightarrow> nat \<Rightarrow> string) \<Rightarrow> approvals_file \<Rightarrow> string option \<Rightarrow> default_overrides \<Rightarrow>
   string option \<Rightarrow> string option \<Rightarrow> string option \<Rightarrow> resolved_approvals option" where
  "resolveExecApprovalsFromFile h newId rawFile agentId overrides pathArg socketPathArg tokenArg =
     map_option (\<lambda>file.
       (let defaults = afDefaults file;
            agentKey = coalesce agentId defaultAgentId;
            agent = agentOr file agentKey; wildcard = agentOr file ''*'';
            rawAgent = agentOr rawFile agentKey; rawWildcard = agentOr rawFile ''*'';
            fallbackSecurity = coalesce (doSecurity overrides) SecFull;
            fallbackAsk = coalesce (doAsk overrides) AskOff;
            fallbackAskFallback = coalesce (doAskFallback overrides) SecFull;
            fallbackAutoAllowSkills = coalesce (doAutoAllowSkills overrides) False;
            resolvedDefaults =
              \<lparr>rpSecurity = normalizeSecurity (apSecurity defaults) fallbackSecurity,
               rpAsk = normalizeAsk (apAsk defaults) fallbackAsk,
               rpAskFallback = normalizeSecurity (apAskFallback defaults) fallbackAskFallback,
               rpAutoAllowSkills = (if isNullish (apAutoAllowSkills defaults) then fallbackAutoAllowSkills
                                    else jsonTruthy (apAutoAllowSkills defaults))\<rparr>;
            (security, securitySource) =
              resolveAgentSecurityField FieldSecurity defaults agent rawAgent wildcard rawWildcard agentKey (rpSecurity resolvedDefaults);
            (ask, askSource) =
              resolveAgentAskField defaults agent rawAgent wildcard rawWildcard agentKey (rpAsk resolvedDefaults);
            (askFallback, askFallbackSource) =
              resolveAgentSecurityField FieldAskFallback defaults agent rawAgent wildcard rawWildcard agentKey (rpAskFallback resolvedDefaults);
            skills = jsonOr (apAutoAllowSkills agent) (apAutoAllowSkills wildcard)
        in \<lparr>raPath = coalesce pathArg (resolveExecApprovalsPath h),
            raSocketPath = expandHomePrefix h None
              (coalesce socketPathArg (coalesce (afSocketPath file) (resolveExecApprovalsSocketPath h))),
            raToken = coalesce tokenArg (coalesce (afSocketToken file) []),
            raDefaults = resolvedDefaults,
            raAgent = \<lparr>rpSecurity = security, rpAsk = ask, rpAskFallback = askFallback,
              rpAutoAllowSkills = (if isNullish skills then rpAutoAllowSkills resolvedDefaults else jsonTruthy skills)\<rparr>,
            raSecuritySource = securitySource, raAskSource = askSource, raAskFallbackSource = askFallbackSource,
            raAllowlist = jsonEntries (aaAllowlist wildcard) @ jsonEntries (aaAllowlist agent),
            raFile = file\<rparr>))
       (normalizeExecApprovals newId rawFile)"

definition resolveExecApprovals ::
  "exec_host \<Rightarrow> (nat \<Rightarrow> string \<Rightarrow> nat \<Rightarrow> string) \<Rightarrow> string \<Rightarrow> stored_file \<Rightarrow> string option \<Rightarrow> default_overrides \<Rightarrow>
   resolved_approvals option \<times> stored_file" where
  \<comment> \<open>\<open>newIds\<close> holds the identifiers of the three normalisations\<close>
  "resolveExecApprovals h newIds generatedToken stored agentId overrides =
     (let (file, stored') = ensureExecApprovals h (newIds 0) (newIds 1) generatedToken stored
      in (resolveExecApprovalsFromFile h (newIds 2) file agentId overrides (Some (resolveExecApprovalsPath h))
            (Some (expandHomePrefix h None (coalesce (afSocketPath file) (resolveExecApprovalsSocketPath h))))
            (Some (coalesce (afSocketToken file) [])), stored'))"

section \<open>Durable approvals\<close>

definition allowAlwaysSource :: string where
  "allowAlwaysSource = ''allow-always''"

definition buildDurableCommandApprovalPattern :: "(string \<Rightarrow> string) \<Rightarrow> string \<Rightarrow> string" where
  "buildDurableCommandApprovalPattern sha256 commandText = ''=command:'' @ take 16 (sha256 commandText)"

definition hasExactCommandDurableExecApproval ::
  "(string \<Rightarrow> string) \<Rightarrow> allowlist_entry list \<Rightarrow> string option \<Rightarrow> bool" where
  "hasExactCommandDurableExecApproval sha256 allowlist commandText =
     (case trimmed commandText of
        None \<Rightarrow> False
      | Some normalizedCommand \<Rightarrow>
          (let commandPattern = buildDurableCommandApprovalPattern sha256 normalizedCommand
           in list_ex (\<lambda>entry. alSource entry = Some allowAlwaysSource \<and>
                (alPattern entry = commandPattern \<or>
                 map_option trim (alCommandText entry) = Some normalizedCommand)) allowlist))"

definition hasSegmentDurableExecApproval :: "bool \<Rightarrow> allowlist_entry option list \<Rightarrow> bool" where
  "hasSegmentDurableExecApproval analysisOk segmentAllowlistEntries \<longleftrightarrow>
     analysisOk \<and> segmentAllowlistEntries \<noteq> [] \<and>
     list_all (\<lambda>entry. Option.bind entry alSource = Some allowAlwaysSource) segmentAllowlistEntries"

definition hasDurableExecApproval ::
  "(string \<Rightarrow> string) \<Rightarrow> bool \<Rightarrow> allowlist_entry option list \<Rightarrow> allowlist_entry list \<Rightarrow> string option \<Rightarrow> bool" where
  "hasDurableExecApproval sha256 analysisOk segmentAllowlistEntries allowlist commandText \<longleftrightarrow>
     hasExactCommandDurableExecApproval sha256 allowlist commandText \<or>
     hasSegmentDurableExecApproval analysisOk segmentAllowlistEntries"

section \<open>Changing the allowlist\<close>

text \<open>The callers pass a normalised file, whose lists hold entries only; an item that is none is passed over here.\<close>

definition itemsOf :: "allowlist_value \<Rightarrow> allowlist_item list" where
  \<comment> \<open>\<open>Array.isArray(allowlist) ? allowlist : []\<close>\<close>
  "itemsOf allowlist = (case allowlist of ListItems items \<Rightarrow> items | _ \<Rightarrow> [])"

fun mapEntry :: "(allowlist_entry \<Rightarrow> bool) \<Rightarrow> (allowlist_entry \<Rightarrow> allowlist_entry) \<Rightarrow> allowlist_item \<Rightarrow> allowlist_item" where
  "mapEntry sel f (ItemEntry entry) = ItemEntry (if sel entry then f entry else entry)"
| "mapEntry sel f item = item"

definition withAllowlist :: "string option \<Rightarrow> (allowlist_item list \<Rightarrow> allowlist_item list) \<Rightarrow> approvals_file \<Rightarrow> approvals_file" where
  \<comment> \<open>\<open>agents[target] = { ...existing, allowlist: nextAllowlist }\<close>\<close>
  "withAllowlist agentId f approvals =
     (let target = coalesce agentId defaultAgentId; existing = agentOr approvals target
      in approvals\<lparr>afAgents :=
           mapSet target (existing\<lparr>aaAllowlist := ListItems (f (itemsOf (aaAllowlist existing)))\<rparr>) (afAgents approvals)\<rparr>)"

definition recordAllowlistUse ::
  "(nat \<Rightarrow> string) \<Rightarrow> int \<Rightarrow> string option \<Rightarrow> allowlist_entry \<Rightarrow> string \<Rightarrow> string option \<Rightarrow> approvals_file \<Rightarrow> approvals_file" where
  "recordAllowlistUse newId now agentId entry command resolvedPath approvals =
     withAllowlist agentId (\<lambda>items. map (\<lambda>(i, item).
         mapEntry (\<lambda>e. alPattern e = alPattern entry \<and> alArgPattern e = alArgPattern entry)
           (\<lambda>e. e\<lparr>alId := Some (coalesce (alId e) (newId i)), alLastUsedAt := Some now,
                  alLastUsedCommand := Some command, alLastResolvedPath := resolvedPath\<rparr>) item)
       (enumerate 0 items)) approvals"

definition buildAllowlistEntryMatchKey :: "allowlist_entry \<Rightarrow> string \<times> string" where
  "buildAllowlistEntryMatchKey entry = (alPattern entry, trim (coalesce (alArgPattern entry) []))"

fun recordUses ::
  "(allowlist_entry \<Rightarrow> approvals_file \<Rightarrow> approvals_file) \<Rightarrow> (string \<times> string) list \<Rightarrow> allowlist_entry list \<Rightarrow>
   approvals_file \<Rightarrow> approvals_file" where
  "recordUses use seen [] approvals = approvals"
| "recordUses use seen (match # matches) approvals =
     (if alPattern match = [] \<or> buildAllowlistEntryMatchKey match \<in> set seen then recordUses use seen matches approvals
      else recordUses use (seen @ [buildAllowlistEntryMatchKey match]) matches (use match approvals))"

definition recordAllowlistMatchesUse ::
  "(nat \<Rightarrow> string) \<Rightarrow> int \<Rightarrow> string option \<Rightarrow> allowlist_entry list \<Rightarrow> string \<Rightarrow> string option \<Rightarrow> approvals_file \<Rightarrow> approvals_file" where
  "recordAllowlistMatchesUse newId now agentId matches command resolvedPath approvals =
     recordUses (\<lambda>match. recordAllowlistUse newId now agentId match command resolvedPath) [] matches approvals"

definition entryWith :: "string \<Rightarrow> string option \<Rightarrow> allowlist_item \<Rightarrow> bool" where
  "entryWith pattern argPattern item \<longleftrightarrow>
     (case item of ItemEntry e \<Rightarrow> alPattern e = pattern \<and> alArgPattern e = argPattern | _ \<Rightarrow> False)"

definition addAllowlistEntry ::
  "string \<Rightarrow> int \<Rightarrow> string option \<Rightarrow> string \<Rightarrow> string option \<Rightarrow> string option \<Rightarrow> approvals_file \<Rightarrow> approvals_file" where
  \<comment> \<open>the identifier of a new entry, the time, and the options \<open>argPattern\<close> and \<open>source\<close>\<close>
  "addAllowlistEntry newId now agentId pattern argPattern source approvals =
     (let pat = trim pattern; arg = trimmed argPattern;
          items = itemsOf (aaAllowlist (agentOr approvals (coalesce agentId defaultAgentId)))
      in if pat = [] then approvals
         else case find (entryWith pat arg) items of
           Some (ItemEntry existingEntry) \<Rightarrow>
             if \<not> truthy source \<or> alSource existingEntry = source then approvals
             else withAllowlist agentId (map (mapEntry (\<lambda>e. alPattern e = pat)
               (\<lambda>e. e\<lparr>alArgPattern := arg, alSource := orElse source (alSource e), alLastUsedAt := Some now\<rparr>))) approvals
         | _ \<Rightarrow> withAllowlist agentId (\<lambda>old. old @ [ItemEntry
               ((newEntry pat)\<lparr>alId := Some newId, alArgPattern := arg, alSource := source, alLastUsedAt := Some now\<rparr>)]) approvals)"

definition addDurableCommandApproval ::
  "(string \<Rightarrow> string) \<Rightarrow> string \<Rightarrow> int \<Rightarrow> string option \<Rightarrow> string \<Rightarrow> approvals_file \<Rightarrow> approvals_file" where
  "addDurableCommandApproval sha256 newId now agentId commandText approvals =
     (if trim commandText = [] then approvals
      else addAllowlistEntry newId now agentId (buildDurableCommandApprovalPattern sha256 (trim commandText)) None
             (Some allowAlwaysSource) approvals)"

definition persistAllowAlwaysPatterns ::
  "(nat \<Rightarrow> string) \<Rightarrow> int \<Rightarrow> string option \<Rightarrow> allow_always_params \<Rightarrow> exec_segment list \<Rightarrow> approvals_file \<Rightarrow>
   string list \<times> approvals_file" where
  \<comment> \<open>without argument patterns, which only Windows targets have\<close>
  "persistAllowAlwaysPatterns newId now agentId params segments approvals =
     (let patterns = resolveAllowAlwaysPatterns params segments
      in (patterns, fold (\<lambda>(i, pattern) a. if pattern = [] then a
            else addAllowlistEntry (newId i) now agentId pattern None (Some allowAlwaysSource) a)
          (enumerate 0 patterns) approvals))"

section \<open>Decisions that may be asked for\<close>

definition defaultExecApprovalDecisions :: "string list" where
  "defaultExecApprovalDecisions = [''allow-once'', ''allow-always'', ''deny'']"

definition resolveExecApprovalAllowedDecisions :: "string option \<Rightarrow> string list" where
  "resolveExecApprovalAllowedDecisions ask =
     (if normalizeExecAsk ask = Some AskAlways then [''allow-once'', ''deny''] else defaultExecApprovalDecisions)"

definition resolveExecApprovalRequestAllowedDecisions :: "string option \<Rightarrow> string list option \<Rightarrow> string list" where
  "resolveExecApprovalRequestAllowedDecisions ask allowedDecisions =
     (let explicit = filter (\<lambda>d. d \<in> set defaultExecApprovalDecisions) (coalesce allowedDecisions [])
      in if explicit \<noteq> [] then explicit else resolveExecApprovalAllowedDecisions ask)"

definition isExecApprovalDecisionAllowed :: "string \<Rightarrow> string option \<Rightarrow> bool" where
  "isExecApprovalDecisionAllowed decision ask \<longleftrightarrow> decision \<in> set (resolveExecApprovalAllowedDecisions ask)"

definition requiresExecApproval :: "exec_ask \<Rightarrow> exec_security \<Rightarrow> bool \<Rightarrow> bool \<Rightarrow> bool \<Rightarrow> bool" where
  "requiresExecApproval ask security analysisOk allowlistSatisfied durableApprovalSatisfied = False"

section \<open>The policy of a node (\<open>exec-policy.ts\<close>)\<close>

datatype run_decision = RunAllowOnce | RunAllowAlways

datatype denied_reason =
    SecurityDeny | ApprovalRequired | AllowlistMiss

record system_run_policy =
  spAnalysisOk :: bool
  spAllowlistSatisfied :: bool
  spShellWrapperBlocked :: bool
  spWindowsShellWrapperBlocked :: bool
  spRequiresAsk :: bool
  spApprovalDecision :: "run_decision option"
  spApprovedByAsk :: bool
  spDenied :: "(denied_reason \<times> string) option" \<comment> \<open>\<open>None\<close>: allowed\<close>

fun resolveExecApprovalDecision :: "json \<Rightarrow> run_decision option" where
  "resolveExecApprovalDecision (JString s) =
     (if s = ''allow-once'' then Some RunAllowOnce else if s = ''allow-always'' then Some RunAllowAlways else None)"
| "resolveExecApprovalDecision _ = None"

definition formatSystemRunAllowlistMissMessage :: "bool \<Rightarrow> bool \<Rightarrow> string" where
  "formatSystemRunAllowlistMissMessage shellWrapperBlocked windowsShellWrapperBlocked =
     (if windowsShellWrapperBlocked then
        ''SYSTEM_RUN_DENIED: allowlist miss '' @
        ''(Windows shell wrappers like cmd.exe /c require approval; '' @
        ''approve once/always or run with --ask on-miss|always)''
      else if shellWrapperBlocked then
        ''SYSTEM_RUN_DENIED: allowlist miss '' @
        ''(shell wrappers like sh/bash/zsh -c require approval; '' @
        ''approve once/always or run with --ask on-miss|always)''
      else ''SYSTEM_RUN_DENIED: allowlist miss'')"

record policy_params =
  ppSecurity :: exec_security
  ppAsk :: exec_ask
  ppAnalysisOk :: bool
  ppAllowlistSatisfied :: bool
  ppDurableApprovalSatisfied :: bool
  ppApprovalDecision :: "run_decision option"
  ppApproved :: bool
  ppIsWindows :: bool
  ppCmdInvocation :: bool
  ppShellWrapperInvocation :: bool

definition evaluateSystemRunPolicy :: "policy_params \<Rightarrow> system_run_policy" where
  "evaluateSystemRunPolicy params =
     (let shellWrapperBlocked = (ppSecurity params = SecAllowlist \<and> ppShellWrapperInvocation params);
          windowsShellWrapperBlocked = (shellWrapperBlocked \<and> ppIsWindows params \<and> ppCmdInvocation params);
          analysisOk = (if shellWrapperBlocked then False else ppAnalysisOk params);
          allowlistSatisfied = (if shellWrapperBlocked then False else ppAllowlistSatisfied params);
          approvedByAsk = (ppApprovalDecision params \<noteq> None \<or> ppApproved params);
          requiresAsk = requiresExecApproval (ppAsk params) (ppSecurity params) analysisOk allowlistSatisfied
            (ppDurableApprovalSatisfied params);
          decide = (\<lambda>requires denied.
            \<lparr>spAnalysisOk = analysisOk, spAllowlistSatisfied = allowlistSatisfied, spShellWrapperBlocked = shellWrapperBlocked,
             spWindowsShellWrapperBlocked = windowsShellWrapperBlocked, spRequiresAsk = requires,
             spApprovalDecision = ppApprovalDecision params, spApprovedByAsk = approvedByAsk, spDenied = denied\<rparr>)
      in if ppSecurity params = SecDeny then
           decide False (Some (SecurityDeny, ''SYSTEM_RUN_DISABLED: security=deny''))
         else if requiresAsk \<and> \<not> approvedByAsk then
           decide requiresAsk (Some (ApprovalRequired, ''SYSTEM_RUN_DENIED: approval required''))
         else if ppSecurity params = SecAllowlist \<and> (\<not> analysisOk \<or> \<not> allowlistSatisfied) \<and> \<not> approvedByAsk then
           (if ppDurableApprovalSatisfied params then decide requiresAsk None
            else decide requiresAsk (Some (AllowlistMiss,
                   formatSystemRunAllowlistMissMessage shellWrapperBlocked windowsShellWrapperBlocked)))
         else decide requiresAsk None)"

section \<open>The modes are ordered\<close>

instantiation exec_security :: linorder
begin

fun less_eq_exec_security :: "exec_security \<Rightarrow> exec_security \<Rightarrow> bool" where
  "less_eq_exec_security SecDeny b \<longleftrightarrow> True"
| "less_eq_exec_security SecAllowlist b \<longleftrightarrow> b \<noteq> SecDeny"
| "less_eq_exec_security SecFull b \<longleftrightarrow> b = SecFull"

definition less_exec_security :: "exec_security \<Rightarrow> exec_security \<Rightarrow> bool" where
  "less_exec_security a b \<longleftrightarrow> a \<le> b \<and> a \<noteq> b"

instance
proof
  fix x y z :: exec_security
  show "x < y \<longleftrightarrow> x \<le> y \<and> \<not> y \<le> x" by (cases x; cases y) (simp_all add: less_exec_security_def)
  show "x \<le> x" by (cases x) simp_all
  show "x \<le> y \<Longrightarrow> y \<le> z \<Longrightarrow> x \<le> z" by (cases x; cases y; cases z) simp_all
  show "x \<le> y \<Longrightarrow> y \<le> x \<Longrightarrow> x = y" by (cases x; cases y) simp_all
  show "x \<le> y \<or> y \<le> x" by (cases x; cases y) simp_all
qed

end

instantiation exec_ask :: linorder
begin

fun less_eq_exec_ask :: "exec_ask \<Rightarrow> exec_ask \<Rightarrow> bool" where
  "less_eq_exec_ask AskOff b \<longleftrightarrow> True"
| "less_eq_exec_ask AskOnMiss b \<longleftrightarrow> b \<noteq> AskOff"
| "less_eq_exec_ask AskAlways b \<longleftrightarrow> b = AskAlways"

definition less_exec_ask :: "exec_ask \<Rightarrow> exec_ask \<Rightarrow> bool" where
  "less_exec_ask a b \<longleftrightarrow> a \<le> b \<and> a \<noteq> b"

instance
proof
  fix x y z :: exec_ask
  show "x < y \<longleftrightarrow> x \<le> y \<and> \<not> y \<le> x" by (cases x; cases y) (simp_all add: less_exec_ask_def)
  show "x \<le> x" by (cases x) simp_all
  show "x \<le> y \<Longrightarrow> y \<le> z \<Longrightarrow> x \<le> z" by (cases x; cases y; cases z) simp_all
  show "x \<le> y \<Longrightarrow> y \<le> x \<Longrightarrow> x = y" by (cases x; cases y) simp_all
  show "x \<le> y \<or> y \<le> x" by (cases x; cases y) simp_all
qed

end

lemma minSecurity_min: "minSecurity a b = min a b"
  by (cases a; cases b) (simp_all add: minSecurity_def min_def)

lemma maxAsk_max: "maxAsk a b = max a b"
  by (cases a; cases b) (simp_all add: maxAsk_def max_def)

section \<open>Normalising twice\<close>

lemma keepText_valid: "isNullish (keepText valid v) \<longleftrightarrow> keepText valid v = JUndefined"
  by (simp add: keepText_def split: option.split)

lemma keepText_again [simp]: "keepText valid (keepText valid v) = keepText valid v"
  by (cases v) (simp_all add: keepText_def)

lemma keepText_security: "isNullish (keepText (\<lambda>s. securityOf s \<noteq> None) v) \<longleftrightarrow> isExecSecurity (keepText (\<lambda>s. securityOf s \<noteq> None) v) = None"
  by (cases v) (simp_all add: keepText_def isExecSecurity_def)

lemma keepText_ask: "isNullish (keepText (\<lambda>s. askOf s \<noteq> None) v) \<longleftrightarrow> isExecAsk (keepText (\<lambda>s. askOf s \<noteq> None) v) = None"
  by (cases v) (simp_all add: keepText_def isExecAsk_def)

lemma sanitize_again [simp]: "sanitizeExecApprovalPolicy (sanitizeExecApprovalPolicy p) = sanitizeExecApprovalPolicy p"
  by (simp add: sanitizeExecApprovalPolicy_def)

definition settledEntry :: "allowlist_entry \<Rightarrow> bool" where
  \<comment> \<open>an entry that normalisation leaves alone\<close>
  "settledEntry e \<longleftrightarrow> trim (alPattern e) \<noteq> [] \<and> truthy (alId e) \<and> alCommandText e = None"

definition settledList :: "allowlist_value \<Rightarrow> bool" where
  "settledList allowlist \<longleftrightarrow> allowlist = ListAbsent \<or> (\<exists>es. allowlist = ListItems (map ItemEntry es) \<and> list_all settledEntry es)"

definition settledPolicy :: "'a approvals_policy_scheme \<Rightarrow> bool" where
  "settledPolicy p \<longleftrightarrow> sanitizeExecApprovalPolicy p = approvals_policy.truncate p"

definition settledFile :: "approvals_file \<Rightarrow> bool" where
  "settledFile f \<longleftrightarrow> mapGet (afAgents f) ''default'' = None \<and> settledPolicy (afDefaults f) \<and>
     (\<forall>(k, a) \<in> set (afAgents f). settledPolicy a \<and> settledList (aaAllowlist a))"

lemma trimmed_again [simp]: "trimmed (trimmed x) = trimmed x"
  by (simp add: trimmed_def split: option.split)

lemma coerced_patterns: "e \<in> set (List.map_filter coerceItem items) \<Longrightarrow> trim (alPattern e) \<noteq> []"
  by (auto simp: List.map_filter_def newEntry_def elim!: coerceItem.elims split: if_split_asm)

lemma ids_given:
  assumes "\<forall>i. newId i \<noteq> []" "\<forall>e \<in> set es. trim (alPattern e) \<noteq> []"
  shows "list_all settledEntry (stripAllowlistCommandText (ensureAllowlistIds newId es))"
proof -
  have "settledEntry ((if truthy (alId e) then e else e\<lparr>alId := Some (newId i)\<rparr>)\<lparr>alCommandText := None\<rparr>)"
    if "(i, e) \<in> set (enumerate 0 es)" for i e
  proof -
    have "e \<in> set es" using that by (auto simp: in_set_enumerate_eq)
    then show ?thesis using assms by (simp add: settledEntry_def)
  qed
  then show ?thesis unfolding stripAllowlistCommandText_def ensureAllowlistIds_def list_all_iff by auto
qed

lemma ids_kept: "list_all settledEntry es \<Longrightarrow> stripAllowlistCommandText (ensureAllowlistIds newId es) = es"
proof -
  have "map (\<lambda>(i, entry). if truthy (alId entry) then entry else entry\<lparr>alId := Some (newId i)\<rparr>) (enumerate n es) = es"
    if "list_all settledEntry es" for n es
    using that by (induction es arbitrary: n) (simp_all add: settledEntry_def)
  moreover have "map (\<lambda>entry. entry\<lparr>alCommandText := None\<rparr>) es = es" if "list_all settledEntry es" for es
    using that by (induction es) (simp_all add: settledEntry_def)
  ultimately show "list_all settledEntry es \<Longrightarrow> stripAllowlistCommandText (ensureAllowlistIds newId es) = es"
    by (simp add: stripAllowlistCommandText_def ensureAllowlistIds_def)
qed

lemma coerce_settled: "list_all settledEntry es \<Longrightarrow> List.map_filter coerceItem (map ItemEntry es) = es"
  by (induction es) (simp_all add: List.map_filter_simps settledEntry_def)

lemma normalizeAgent_settled:
  assumes "\<forall>i. newId i \<noteq> []"
  shows "settledPolicy (normalizeAgent newId a) \<and> settledList (aaAllowlist (normalizeAgent newId a))"
proof -
  have "settledPolicy (normalizeAgent newId a)"
    by (simp add: settledPolicy_def normalizeAgent_def Let_def sanitizeExecApprovalPolicy_def approvals_policy.truncate_def)
  moreover have "settledList (aaAllowlist (normalizeAgent newId a))"
  proof (cases "coerceAllowlistEntries (aaAllowlist a)")
    case (Some es)
    then have "\<forall>e \<in> set es. trim (alPattern e) \<noteq> []"
      using coerced_patterns by (auto simp: coerceAllowlistEntries_def Let_def split: allowlist_value.split_asm if_split_asm)
    then show ?thesis using ids_given[OF assms] Some by (auto simp: normalizeAgent_def Let_def settledList_def)
  qed (simp add: normalizeAgent_def Let_def settledList_def)
  ultimately show ?thesis by simp
qed

lemma settled_normalizeAgent:
  assumes "settledPolicy a" "settledList (aaAllowlist a)"
  shows "normalizeAgent newId a = a"
proof -
  have p: "apSecurity (sanitizeExecApprovalPolicy a) = apSecurity a" "apAsk (sanitizeExecApprovalPolicy a) = apAsk a"
    "apAskFallback (sanitizeExecApprovalPolicy a) = apAskFallback a"
    using assms(1) by (simp_all add: settledPolicy_def approvals_policy.truncate_def)
  have "(case coerceAllowlistEntries (aaAllowlist a) of None \<Rightarrow> ListAbsent
     | Some coerced \<Rightarrow> ListItems (map ItemEntry (stripAllowlistCommandText (ensureAllowlistIds newId coerced)))) = aaAllowlist a"
    using assms(2) coerce_settled ids_kept by (auto simp: settledList_def coerceAllowlistEntries_def Let_def)
  then show ?thesis by (simp add: normalizeAgent_def Let_def p)
qed

lemma mapGet_map: "mapGet (map (\<lambda>(key, agent). (key, f key agent)) m) key = map_option (f key) (mapGet m key)"
  by (induction m) auto

lemma migrated_no_default: "migrateDefaultAgent agents = Some ags \<Longrightarrow> mapGet ags ''default'' = None"
  by (auto simp: migrateDefaultAgent_def split: option.split_asm)

lemma normalized_settled:
  assumes "normalizeExecApprovals newId f = Some g" "\<forall>k i. newId k i \<noteq> []"
  shows "settledFile g \<and> trimmed (afSocketPath g) = afSocketPath g \<and> trimmed (afSocketToken g) = afSocketToken g"
proof -
  obtain ags where a: "migrateDefaultAgent (afAgents f) = Some ags"
    and g: "g = \<lparr>afSocketPath = trimmed (afSocketPath f), afSocketToken = trimmed (afSocketToken f),
          afDefaults = sanitizeExecApprovalPolicy (afDefaults f),
          afAgents = map (\<lambda>(key, agent). (key, normalizeAgent (newId key) agent)) ags\<rparr>"
    using assms(1) by (auto simp: normalizeExecApprovals_def)
  have "settledPolicy (sanitizeExecApprovalPolicy (afDefaults f))"
    by (simp add: settledPolicy_def approvals_policy.truncate_def)
  then show ?thesis using normalizeAgent_settled assms(2) migrated_no_default[OF a]
    by (auto simp: settledFile_def g mapGet_map simp del: map_of_eq_None_iff)
qed

lemma settled_normalize:
  "settledFile g \<Longrightarrow> normalizeExecApprovals newId g =
     Some (g\<lparr>afSocketPath := trimmed (afSocketPath g), afSocketToken := trimmed (afSocketToken g)\<rparr>)"
proof -
  assume g: "settledFile g"
  have "map (\<lambda>(key, agent). (key, normalizeAgent (newId key) agent)) (afAgents g) = afAgents g"
    using g by (intro map_idI) (auto simp: settledFile_def settled_normalizeAgent)
  moreover have "sanitizeExecApprovalPolicy (afDefaults g) = afDefaults g"
    using g by (simp add: settledFile_def settledPolicy_def approvals_policy.truncate_def)
  ultimately show ?thesis using g by (simp add: normalizeExecApprovals_def migrateDefaultAgent_def settledFile_def)
qed

text \<open>
  C40. Normalising the approvals file is settled by one pass: as long as generated identifiers are not empty, a
  normalised file is not changed by another pass, whatever identifiers that one would give.
\<close>

theorem normalised_file_is_settled:
  assumes "normalizeExecApprovals newId f = Some g" and "\<forall>k i. newId k i \<noteq> []"
  shows "normalizeExecApprovals newId' g = Some g"
  using settled_normalize normalized_settled[OF assms] by simp

section \<open>Which policy holds\<close>

lemma settled_security: "settledPolicy p \<Longrightarrow> isNullish (fieldOf field p) \<longleftrightarrow> isExecSecurity (fieldOf field p) = None"
proof -
  assume "settledPolicy p"
  then have "apSecurity p = keepText (\<lambda>s. securityOf s \<noteq> None) (apSecurity p)"
    "apAskFallback p = keepText (\<lambda>s. securityOf s \<noteq> None) (apAskFallback p)"
    by (simp_all add: settledPolicy_def approvals_policy.truncate_def sanitizeExecApprovalPolicy_def)
  then show ?thesis using keepText_security by (cases field) (simp_all, metis+)
qed

lemma settled_ask: "settledPolicy p \<Longrightarrow> isNullish (apAsk p) \<longleftrightarrow> isExecAsk (apAsk p) = None"
proof -
  assume "settledPolicy p"
  then have "apAsk p = keepText (\<lambda>s. askOf s \<noteq> None) (apAsk p)"
    by (simp add: settledPolicy_def approvals_policy.truncate_def sanitizeExecApprovalPolicy_def)
  then show ?thesis using keepText_ask by metis
qed

lemma settled_agentOr: "settledFile f \<Longrightarrow> settledPolicy (agentOr f key) \<and> settledList (aaAllowlist (agentOr f key))"
proof (cases "mapGet (afAgents f) key")
  case None
  then show ?thesis
    by (simp add: agentOr_def noAgent_def noPolicy_def settledPolicy_def sanitizeExecApprovalPolicy_def keepText_def
        approvals_policy.truncate_def approvals_policy.extend_def settledList_def)
next
  case (Some a)
  assume "settledFile f"
  then show ?thesis using mapGet_SomeD[OF Some] Some by (auto simp: settledFile_def agentOr_def)
qed

definition firstOf :: "'a option list \<Rightarrow> 'a \<Rightarrow> 'a" where
  \<comment> \<open>the first value that is given\<close>
  "firstOf candidates fallback = (case List.map_filter id candidates of [] \<Rightarrow> fallback | v # vs \<Rightarrow> v)"

lemma firstOf_simps [simp]:
  "firstOf [] d = d" "firstOf (None # vs) d = firstOf vs d" "firstOf (Some v # vs) d = v"
  by (simp_all add: firstOf_def List.map_filter_simps)

lemma agent_security:
  assumes "settledPolicy agent" "settledPolicy wildcard"
  shows "fst (resolveAgentSecurityField field defaults agent agent wildcard wildcard key fallback) =
    firstOf [isExecSecurity (fieldOf field agent), isExecSecurity (fieldOf field wildcard), isExecSecurity (fieldOf field defaults)] fallback"
  by (auto simp: resolveAgentSecurityField_def Let_def settled_security[OF assms(1)] settled_security[OF assms(2)]
      resolveDefaultSecurityField_def split: option.split)

lemma agent_ask:
  assumes "settledPolicy agent" "settledPolicy wildcard"
  shows "fst (resolveAgentAskField defaults agent agent wildcard wildcard key fallback) =
    firstOf [isExecAsk (apAsk agent), isExecAsk (apAsk wildcard), isExecAsk (apAsk defaults)] fallback"
  by (auto simp: resolveAgentAskField_def Let_def settled_ask[OF assms(1)] settled_ask[OF assms(2)]
      resolveDefaultAskField_def split: option.split)

lemma coalesce_cases: "(\<And>v. x = Some v \<Longrightarrow> P v) \<Longrightarrow> P d \<Longrightarrow> P (coalesce x d)"
  by (cases x) simp_all

lemma load_settled:
  assumes "\<forall>k i. newId k i \<noteq> []"
  shows "settledFile (loadExecApprovals newId stored)"
proof -
  have "settledFile normalizedEmpty"
    by (simp add: settledFile_def normalizedEmpty_def emptyApprovals_def settledPolicy_def noPolicy_def
        sanitizeExecApprovalPolicy_def keepText_def approvals_policy.truncate_def)
  then show ?thesis using normalized_settled[OF _ assms]
    by (cases stored) (auto simp: loadExecApprovals_def split: option.split
        intro: coalesce_cases[where P = settledFile])
qed

lemma resolve_settled:
  assumes "settledFile f"
  shows "\<exists>r. resolveExecApprovalsFromFile h newId f agentId overrides p sp tk = Some r \<and>
    rpSecurity (raAgent r) = firstOf [isExecSecurity (apSecurity (agentOr f (coalesce agentId defaultAgentId))),
      isExecSecurity (apSecurity (agentOr f ''*'')), isExecSecurity (apSecurity (afDefaults f)), doSecurity overrides] SecFull \<and>
    rpAsk (raAgent r) = firstOf [isExecAsk (apAsk (agentOr f (coalesce agentId defaultAgentId))),
      isExecAsk (apAsk (agentOr f ''*'')), isExecAsk (apAsk (afDefaults f)), doAsk overrides] AskOff \<and>
    raAllowlist r = jsonEntries (aaAllowlist (agentOr f ''*'')) @ jsonEntries (aaAllowlist (agentOr f (coalesce agentId defaultAgentId)))
    \<and> afAgents (raFile r) = afAgents f"
proof -
  have s: "settledPolicy (agentOr f (coalesce agentId defaultAgentId))" "settledPolicy (agentOr f ''*'')"
    using settled_agentOr[OF assms] by blast+
  have fb: "firstOf [a, b, isExecSecurity v] (normalizeSecurity v d) = firstOf [a, b, isExecSecurity v] d" for a b v d
    by (cases a; cases b; cases "isExecSecurity v") (simp_all add: normalizeSecurity_def)
  have fa: "firstOf [a, b, isExecAsk v] (normalizeAsk v d) = firstOf [a, b, isExecAsk v] d" for a b v d
    by (cases a; cases b; cases "isExecAsk v") (simp_all add: normalizeAsk_def)
  have c: "firstOf [a, b, x, y] d = firstOf [a, b, x] (coalesce y d)" for a b x y d
    by (cases a; cases b; cases x; cases y) simp_all
  have same: "agentOr (f\<lparr>afSocketPath := a, afSocketToken := b\<rparr>) k = agentOr f k" for a b k by (simp add: agentOr_def)
  show ?thesis unfolding resolveExecApprovalsFromFile_def settled_normalize[OF assms] c
    using agent_security[OF s, of FieldSecurity] agent_ask[OF s]
    by (simp add: Let_def case_prod_beta fb fa same)
qed

lemma ensure_settled:
  assumes "\<forall>n k i. newIds n k i \<noteq> []"
  shows "settledFile (fst (ensureExecApprovals h (newIds 0) (newIds 1) tok stored)) \<and>
    afAgents (fst (ensureExecApprovals h (newIds 0) (newIds 1) tok stored)) = afAgents (loadExecApprovals (newIds 0) stored) \<and>
    afDefaults (fst (ensureExecApprovals h (newIds 0) (newIds 1) tok stored)) = afDefaults (loadExecApprovals (newIds 0) stored)"
proof -
  have "settledFile (loadExecApprovals (newIds 0) stored)" using load_settled assms by blast
  then show ?thesis by (simp add: ensureExecApprovals_def Let_def settled_normalize settledFile_def)
qed

lemma resolve_facts:
  assumes "\<forall>n k i. newIds n k i \<noteq> []"
  shows "\<exists>r. fst (resolveExecApprovals h newIds tok stored agentId overrides) = Some r \<and>
    rpSecurity (raAgent r) = firstOf [isExecSecurity (apSecurity (agentOr (loadExecApprovals (newIds 0) stored) (coalesce agentId defaultAgentId))),
      isExecSecurity (apSecurity (agentOr (loadExecApprovals (newIds 0) stored) ''*'')),
      isExecSecurity (apSecurity (afDefaults (loadExecApprovals (newIds 0) stored))), doSecurity overrides] SecFull \<and>
    rpAsk (raAgent r) = firstOf [isExecAsk (apAsk (agentOr (loadExecApprovals (newIds 0) stored) (coalesce agentId defaultAgentId))),
      isExecAsk (apAsk (agentOr (loadExecApprovals (newIds 0) stored) ''*'')),
      isExecAsk (apAsk (afDefaults (loadExecApprovals (newIds 0) stored))), doAsk overrides] AskOff \<and>
    raAllowlist r = jsonEntries (aaAllowlist (agentOr (loadExecApprovals (newIds 0) stored) ''*'')) @
      jsonEntries (aaAllowlist (agentOr (loadExecApprovals (newIds 0) stored) (coalesce agentId defaultAgentId))) \<and>
    afAgents (raFile r) = afAgents (loadExecApprovals (newIds 0) stored) \<and> settledFile (raFile r)"
proof -
  define f where "f = fst (ensureExecApprovals h (newIds 0) (newIds 1) tok stored)"
  define g where "g = loadExecApprovals (newIds 0) stored"
  have e: "settledFile f" "afAgents f = afAgents g" "afDefaults f = afDefaults g"
    using ensure_settled[OF assms, of h tok stored] unfolding f_def g_def by blast+
  have a: "agentOr f k = agentOr g k" for k using e by (simp add: agentOr_def)
  let ?p = "Some (resolveExecApprovalsPath h)"
  let ?sp = "Some (expandHomePrefix h None (coalesce (afSocketPath f) (resolveExecApprovalsSocketPath h)))"
  let ?tk = "Some (coalesce (afSocketToken f) [])"
  have "fst (resolveExecApprovals h newIds tok stored agentId overrides) =
      resolveExecApprovalsFromFile h (newIds 2) f agentId overrides ?p ?sp ?tk"
    unfolding resolveExecApprovals_def f_def by (simp add: case_prod_beta Let_def)
  moreover obtain r where r: "resolveExecApprovalsFromFile h (newIds 2) f agentId overrides ?p ?sp ?tk = Some r"
    "rpSecurity (raAgent r) = firstOf [isExecSecurity (apSecurity (agentOr f (coalesce agentId defaultAgentId))),
      isExecSecurity (apSecurity (agentOr f ''*'')), isExecSecurity (apSecurity (afDefaults f)), doSecurity overrides] SecFull"
    "rpAsk (raAgent r) = firstOf [isExecAsk (apAsk (agentOr f (coalesce agentId defaultAgentId))),
      isExecAsk (apAsk (agentOr f ''*'')), isExecAsk (apAsk (afDefaults f)), doAsk overrides] AskOff"
    "raAllowlist r = jsonEntries (aaAllowlist (agentOr f ''*'')) @ jsonEntries (aaAllowlist (agentOr f (coalesce agentId defaultAgentId)))"
    "afAgents (raFile r) = afAgents f"
    using resolve_settled[OF e(1), of h "newIds 2" agentId overrides ?p ?sp ?tk] by blast
  moreover have "settledFile (raFile r)"
    using r(1) e settled_normalize[of f "newIds 2"]
    by (auto simp: resolveExecApprovalsFromFile_def Let_def case_prod_beta settledFile_def)
  ultimately show ?thesis unfolding g_def[symmetric] by (simp add: a e)
qed

text \<open>
  C39. Resolving the approvals always succeeds (generated identifiers are not empty), and security and ask of an agent are
  the first valid setting of: its own in the file as loaded, that of the agent \<open>*\<close>, the defaults of the file, the
  configuration, and without any of them \<open>full\<close> and \<open>off\<close>; its allowlist is that of \<open>*\<close> followed by its own.
\<close>

theorem agent_policy_precedence:
  assumes "\<forall>n k i. newIds n k i \<noteq> []"
  shows "\<exists>r. fst (resolveExecApprovals h newIds tok stored agentId overrides) = Some r \<and>
    (let file = loadExecApprovals (newIds 0) stored; agent = agentOr file (coalesce agentId defaultAgentId); wildcard = agentOr file ''*''
     in rpSecurity (raAgent r) = firstOf [isExecSecurity (apSecurity agent), isExecSecurity (apSecurity wildcard),
          isExecSecurity (apSecurity (afDefaults file)), doSecurity overrides] SecFull \<and>
        rpAsk (raAgent r) = firstOf [isExecAsk (apAsk agent), isExecAsk (apAsk wildcard),
          isExecAsk (apAsk (afDefaults file)), doAsk overrides] AskOff \<and>
        raAllowlist r = jsonEntries (aaAllowlist wildcard) @ jsonEntries (aaAllowlist agent))"
  unfolding Let_def using resolve_facts[OF assms] by blast

section \<open>Durable approvals take effect\<close>

lemma set_mapSet_le: "p \<in> set (mapSet k v m) \<Longrightarrow> p = (k, v) \<or> p \<in> set m"
  by (induction m) (auto split: if_split_asm)

lemma agentOr_with:
  "agentOr (withAllowlist agentId f file) (coalesce agentId defaultAgentId) =
     (agentOr file (coalesce agentId defaultAgentId))\<lparr>aaAllowlist :=
        ListItems (f (itemsOf (aaAllowlist (agentOr file (coalesce agentId defaultAgentId)))))\<rparr>"
  by (simp add: agentOr_def withAllowlist_def Let_def)

lemma itemsOf_settled: "settledList l \<Longrightarrow> \<exists>es. itemsOf l = map ItemEntry es \<and> jsonEntries l = es \<and> list_all settledEntry es"
proof -
  have "List.map_filter (\<lambda>i. case i of ItemEntry e \<Rightarrow> Some e | _ \<Rightarrow> None) (map ItemEntry es) = es" for es
    by (induction es) (simp_all add: List.map_filter_simps)
  then show "settledList l \<Longrightarrow> ?thesis"
    by (auto simp: settledList_def itemsOf_def jsonEntries_def List.map_filter_simps)
qed

lemma with_settled:
  assumes "settledFile file" "coalesce agentId defaultAgentId \<noteq> ''default''"
    and "\<And>es. list_all settledEntry es \<Longrightarrow> \<exists>es'. f (map ItemEntry es) = map ItemEntry es' \<and> list_all settledEntry es'"
  shows "settledFile (withAllowlist agentId f file)"
proof -
  let ?k = "coalesce agentId defaultAgentId"
  let ?a = "agentOr file ?k"
  note s = settled_agentOr[OF assms(1), of ?k]
  obtain es where "itemsOf (aaAllowlist ?a) = map ItemEntry es" "list_all settledEntry es" using itemsOf_settled s by blast
  then have "settledList (ListItems (f (itemsOf (aaAllowlist ?a))))" using assms(3)[of es] by (auto simp: settledList_def)
  moreover have "settledPolicy (?a\<lparr>aaAllowlist := v\<rparr>)" for v
    using s by (simp add: settledPolicy_def sanitizeExecApprovalPolicy_def approvals_policy.truncate_def)
  ultimately show ?thesis using assms(1,2)
    by (auto simp: settledFile_def withAllowlist_def Let_def mapGet_set simp del: map_of_eq_None_iff dest!: set_mapSet_le)
qed

lemma add_settled:
  assumes "settledFile file" "coalesce agentId defaultAgentId \<noteq> ''default''" "newId \<noteq> []"
  shows "settledFile (addAllowlistEntry newId now agentId pattern argPattern source file)"
proof -
  have "\<exists>es'. map (mapEntry sel g) (map ItemEntry es) = map ItemEntry es' \<and> list_all settledEntry es'"
    if "list_all settledEntry es" "\<And>e. settledEntry e \<Longrightarrow> settledEntry (g e)" for sel g es
    using that(1) by (intro exI[of _ "map (\<lambda>e. if sel e then g e else e) es"]) (auto simp: list_all_iff that(2))
  then have 1: "settledFile (withAllowlist agentId (map (mapEntry sel g)) file)"
    if "\<And>e. settledEntry e \<Longrightarrow> settledEntry (g e)" for sel g
    using that by (intro with_settled[OF assms(1,2)]) blast
  have "\<exists>es'. map ItemEntry es @ [ItemEntry e] = map ItemEntry es' \<and> list_all settledEntry es'"
    if "list_all settledEntry es" "settledEntry e" for es e
    using that by (intro exI[of _ "es @ [e]"]) simp
  then have 2: "settledFile (withAllowlist agentId (\<lambda>old. old @ [ItemEntry e]) file)" if "settledEntry e" for e
    using that by (intro with_settled[OF assms(1,2)]) blast
  have "trim pattern \<noteq> [] \<Longrightarrow> settledEntry ((newEntry (trim pattern))\<lparr>alId := Some newId, alArgPattern := a, alSource := source,
     alLastUsedAt := t\<rparr>)" for a t
    using assms(3) by (simp add: settledEntry_def newEntry_def)
  then show ?thesis using assms(1)
    by (auto simp: addAllowlistEntry_def Let_def settledEntry_def intro!: 1 2 split: option.split allowlist_item.split)
qed

lemma add_finds:
  assumes "trim pattern = pattern" "pattern \<noteq> []" "s \<noteq> []"
  shows "\<exists>e. ItemEntry e \<in> set (itemsOf (aaAllowlist (agentOr (addAllowlistEntry newId now agentId pattern None (Some s) file)
    (coalesce agentId defaultAgentId)))) \<and> alPattern e = pattern \<and> alSource e = Some s"
proof -
  let ?k = "coalesce agentId defaultAgentId"
  let ?items = "itemsOf (aaAllowlist (agentOr file ?k))"
  show ?thesis
  proof (cases "find (entryWith pattern None) ?items")
    case None
    let ?e = "(newEntry pattern)\<lparr>alId := Some newId, alArgPattern := None, alSource := Some s, alLastUsedAt := Some now\<rparr>"
    have "addAllowlistEntry newId now agentId pattern None (Some s) file = withAllowlist agentId (\<lambda>old. old @ [ItemEntry ?e]) file"
      using assms None by (simp add: addAllowlistEntry_def Let_def trimmed_def)
    then have "ItemEntry ?e \<in> set (itemsOf (aaAllowlist (agentOr (addAllowlistEntry newId now agentId pattern None (Some s) file) ?k)))"
      by (simp add: agentOr_with itemsOf_def)
    moreover have "alPattern ?e = pattern" "alSource ?e = Some s" by (simp_all add: newEntry_def)
    ultimately show ?thesis by blast
  next
    case (Some item)
    then have i: "item \<in> set ?items" "entryWith pattern None item" unfolding find_Some_iff by (metis nth_mem)+
    then obtain e where e: "item = ItemEntry e" "alPattern e = pattern" using i(2) unfolding entryWith_def by (auto split: allowlist_item.split_asm)
    show ?thesis
    proof (cases "alSource e = Some s")
      case True
      then have "addAllowlistEntry newId now agentId pattern None (Some s) file = file"
        using assms Some e(1) by (simp add: addAllowlistEntry_def Let_def trimmed_def)
      then show ?thesis using True i(1) e by auto
    next
      case False
      let ?g = "\<lambda>e. e\<lparr>alArgPattern := None, alSource := orElse (Some s) (alSource e), alLastUsedAt := Some now\<rparr>"
      have "addAllowlistEntry newId now agentId pattern None (Some s) file =
          withAllowlist agentId (map (mapEntry (\<lambda>e. alPattern e = pattern) ?g)) file"
        using False assms Some e by (simp add: addAllowlistEntry_def Let_def trimmed_def)
      moreover have "ItemEntry (?g e) \<in> set (map (mapEntry (\<lambda>e. alPattern e = pattern) ?g) ?items)"
      proof -
        have "mapEntry (\<lambda>e. alPattern e = pattern) ?g item = ItemEntry (?g e)" using e by simp
        then show ?thesis using imageI[OF i(1), of "mapEntry (\<lambda>e. alPattern e = pattern) ?g"] unfolding set_map by metis
      qed
      moreover have "itemsOf (aaAllowlist (agentOr (withAllowlist agentId f file) ?k)) = f ?items" for f
        by (simp add: agentOr_with itemsOf_def)
      ultimately have "ItemEntry (?g e) \<in> set (itemsOf (aaAllowlist (agentOr
          (addAllowlistEntry newId now agentId pattern None (Some s) file) ?k)))"
        by (simp only:)
      moreover have "alPattern (?g e) = pattern" "alSource (?g e) = Some s" using e by simp_all
      ultimately show ?thesis by blast
    qed
  qed
qed

lemma saved_agent:
  "settledFile g \<Longrightarrow> agentOr (loadExecApprovals newId (saveExecApprovals g)) k = agentOr g k"
  by (simp add: loadExecApprovals_def saveExecApprovals_def settled_normalize agentOr_def)

lemma durable_entry:
  assumes "settledFile file" "coalesce agentId defaultAgentId \<noteq> ''default''" "newId \<noteq> []" "\<forall>k i. newId' k i \<noteq> []"
    and "trim pattern = pattern" "pattern \<noteq> []" "s \<noteq> []"
  shows "\<exists>e \<in> set (jsonEntries (aaAllowlist (agentOr (loadExecApprovals newId'
      (saveExecApprovals (addAllowlistEntry newId now agentId pattern None (Some s) file))) (coalesce agentId defaultAgentId)))).
    alPattern e = pattern \<and> alSource e = Some s"
proof -
  let ?g = "addAllowlistEntry newId now agentId pattern None (Some s) file"
  let ?k = "coalesce agentId defaultAgentId"
  have g: "settledFile ?g" using add_settled[OF assms(1-3)] .
  then have same: "agentOr (loadExecApprovals newId' (saveExecApprovals ?g)) ?k = agentOr ?g ?k"
    by (rule saved_agent)
  from add_finds[OF assms(5-7), of newId now agentId "file"]
  obtain e where e: "ItemEntry e \<in> set (itemsOf (aaAllowlist (agentOr ?g ?k)))" "alPattern e = pattern" "alSource e = Some s"
    by (elim exE conjE) (rule that)
  from itemsOf_settled[OF conjunct2[OF settled_agentOr[OF g, of ?k]]]
  obtain es where es: "itemsOf (aaAllowlist (agentOr ?g ?k)) = map ItemEntry es" "jsonEntries (aaAllowlist (agentOr ?g ?k)) = es"
    by (elim exE conjE) (rule that)
  from e(1) have "ItemEntry e \<in> ItemEntry ` set es" unfolding es(1) set_map .
  then have "e \<in> set es" by (rule imageE) simp
  then show ?thesis unfolding same es(2) by (rule bexI[rotated]) (intro conjI e(2,3))
qed

lemma durable_pattern_plain:
  assumes "list_all isWordChar (sha256 t)"
  shows "trim (buildDurableCommandApprovalPattern sha256 t) = buildDurableCommandApprovalPattern sha256 t
    \<and> buildDurableCommandApprovalPattern sha256 t \<noteq> []"
proof
  have word: "\<not> jsWhitespace c" if "isWordChar c" for c
    using that by (auto simp: jsWhitespace_def isWordChar_def isLetter_def isDigit_def)
  have "list_all (\<lambda>d. \<not> jsWhitespace d) ''=command:''" by code_simp
  moreover have "list_all (\<lambda>d. \<not> jsWhitespace d) (take n (sha256 t))" for n
    using assms word by (auto simp: list_all_iff dest: in_set_takeD)
  ultimately have "list_all (\<lambda>d. \<not> jsWhitespace d) (buildDurableCommandApprovalPattern sha256 t)"
    unfolding buildDurableCommandApprovalPattern_def list_all_append by blast
  then show "trim (buildDurableCommandApprovalPattern sha256 t) = buildDurableCommandApprovalPattern sha256 t" by (rule trim_plain)
qed (simp add: buildDurableCommandApprovalPattern_def)

text \<open>
  C38. What was allowed for good stays allowed: once a command that is not blank was added to the approvals of an agent
  (any but the legacy name \<open>default\<close>) and the file was saved, the next resolution for that agent finds a durable approval
  of the same text, whatever the analysis says. Generated identifiers are not empty and the hash consists of letters
  and digits, as in hexadecimal.
\<close>

theorem durable_approval_takes_effect:
  assumes "\<forall>n k i. newIds n k i \<noteq> []" and "\<forall>n k i. newIds' n k i \<noteq> []" and "newId \<noteq> []"
    and "fst (resolveExecApprovals h newIds tok stored agentId overrides) = Some r"
    and "trim commandText \<noteq> []" and "list_all isWordChar (sha256 (trim commandText))"
    and "coalesce agentId defaultAgentId \<noteq> ''default''"
  shows "\<exists>r'. fst (resolveExecApprovals h newIds' tok' (saveExecApprovals
      (addDurableCommandApproval sha256 newId now agentId commandText (raFile r))) agentId overrides') = Some r' \<and>
    hasDurableExecApproval sha256 analysisOk entries (raAllowlist r') (Some commandText)"
proof -
  let ?p = "buildDurableCommandApprovalPattern sha256 (trim commandText)"
  let ?k = "coalesce agentId defaultAgentId"
  define g where "g = addDurableCommandApproval sha256 newId now agentId commandText (raFile r)"
  have settled: "settledFile (raFile r)" using resolve_facts[OF assms(1), of h tok stored agentId overrides] assms(4) by auto
  have p: "trim ?p = ?p" "?p \<noteq> []" using durable_pattern_plain[of sha256 "trim commandText", OF assms(6)] by simp_all
  have s: "allowAlwaysSource \<noteq> []" by (simp add: allowAlwaysSource_def)
  have ids: "\<forall>k i. newIds' 0 k i \<noteq> []" using assms(2) by blast
  have g: "g = addAllowlistEntry newId now agentId ?p None (Some allowAlwaysSource) (raFile r)"
    using assms(5) unfolding g_def by (simp add: addDurableCommandApproval_def)
  from durable_entry[OF settled assms(7,3) ids p s, of now]
  obtain e where e: "e \<in> set (jsonEntries (aaAllowlist (agentOr (loadExecApprovals (newIds' 0) (saveExecApprovals g)) ?k)))"
    "alPattern e = ?p" "alSource e = Some allowAlwaysSource"
    unfolding g[symmetric] by (elim bexE conjE) (rule that)
  obtain r' where r': "fst (resolveExecApprovals h newIds' tok' (saveExecApprovals g) agentId overrides') = Some r'"
    "e \<in> set (raAllowlist r')"
    using resolve_facts[OF assms(2), of h tok' "saveExecApprovals g" agentId overrides'] e(1) by auto
  have "hasExactCommandDurableExecApproval sha256 (raAllowlist r') (Some commandText)"
    unfolding hasExactCommandDurableExecApproval_def
    using r'(2) e(2,3) assms(5) by (auto simp: trimmed_def Let_def list_ex_iff)
  then have "hasDurableExecApproval sha256 analysisOk entries (raAllowlist r') (Some commandText)"
    by (simp add: hasDurableExecApproval_def)
  with r'(1) show ?thesis unfolding g_def by blast
qed

text \<open>
  What a node runs: under \<open>deny\<close> nothing, under \<open>full\<close> everything; under \<open>allowlist\<close> what was approved for this run or
  for good, and otherwise what the allowlist covers outside of shells. The setting \<open>ask\<close> has no say.
\<close>

theorem node_policy_decides:
  "(spDenied (evaluateSystemRunPolicy p) = None) =
     (case ppSecurity p of
        SecDeny \<Rightarrow> False
      | SecFull \<Rightarrow> True
      | SecAllowlist \<Rightarrow> ppApprovalDecision p \<noteq> None \<or> ppApproved p \<or> ppDurableApprovalSatisfied p \<or>
          \<not> ppShellWrapperInvocation p \<and> ppAnalysisOk p \<and> ppAllowlistSatisfied p) \<and>
   evaluateSystemRunPolicy (p\<lparr>ppAsk := a\<rparr>) = evaluateSystemRunPolicy p"
  by (cases "ppSecurity p") (simp_all add: evaluateSystemRunPolicy_def Let_def requiresExecApproval_def)

section \<open>Where the file is not what it seems\<close>

definition demoHost :: exec_host where
  "demoHost = \<lparr>ehCwd = ''/'', ehEnv = [(''HOME'', ''/home/u'')], ehHomedir = None, ehIsFile = (\<lambda>_. False), ehRealpath = Some\<rparr>"

definition demoIds :: "nat \<Rightarrow> string \<Rightarrow> nat \<Rightarrow> string" where
  "demoIds n k i = ''id''"

definition noOverrides :: default_overrides where
  "noOverrides = \<lparr>doSecurity = None, doAsk = None, doAskFallback = None, doAutoAllowSkills = None\<rparr>"

definition denyAgent :: approvals_agent where
  "denyAgent = noAgent\<lparr>apSecurity := JString ''deny'', aaAllowlist := ListItems [ItemText ''ls'']\<rparr>"

definition denyFile :: approvals_file where
  "denyFile = emptyApprovals\<lparr>afAgents := [(''main'', denyAgent)]\<rparr>"

theorem normalised_file_is_settled_witness:
  "normalizeExecApprovals (demoIds 1) (the (normalizeExecApprovals (demoIds 0) denyFile)) = normalizeExecApprovals (demoIds 0) denyFile"
proof -
  obtain g where g: "normalizeExecApprovals (demoIds 0) denyFile = Some g"
    by (cases "normalizeExecApprovals (demoIds 0) denyFile")
       (simp_all add: normalizeExecApprovals_def denyFile_def emptyApprovals_def migrateDefaultAgent_def)
  have "\<forall>k i. demoIds 0 k i \<noteq> []" by (simp add: demoIds_def)
  from normalised_file_is_settled[OF g this] show ?thesis by (simp add: g)
qed

theorem agent_policy_precedence_witness:
  "map_option (\<lambda>r. rpSecurity (raAgent r)) (fst (resolveExecApprovals demoHost demoIds ''t'' (FileParsed denyFile) None noOverrides)) =
    Some SecDeny"
proof -
  have "\<forall>n k i. demoIds n k i \<noteq> []" by (simp add: demoIds_def)
  from agent_policy_precedence[OF this, of demoHost "''t''" "FileParsed denyFile" None noOverrides]
  obtain r where r: "fst (resolveExecApprovals demoHost demoIds ''t'' (FileParsed denyFile) None noOverrides) = Some r"
    "rpSecurity (raAgent r) = firstOf [isExecSecurity (apSecurity (agentOr (loadExecApprovals (demoIds 0) (FileParsed denyFile)) (coalesce None defaultAgentId))),
      isExecSecurity (apSecurity (agentOr (loadExecApprovals (demoIds 0) (FileParsed denyFile)) ''*'')),
      isExecSecurity (apSecurity (afDefaults (loadExecApprovals (demoIds 0) (FileParsed denyFile)))), doSecurity noOverrides] SecFull"
    unfolding Let_def by blast
  moreover have "isExecSecurity (apSecurity (agentOr (loadExecApprovals (demoIds 0) (FileParsed denyFile)) (coalesce None defaultAgentId))) = Some SecDeny"
    by code_simp
  ultimately show ?thesis by simp
qed

theorem durable_approval_takes_effect_witness:
  "\<exists>r r'. fst (resolveExecApprovals demoHost demoIds ''t'' FileMissing None noOverrides) = Some r \<and>
     fst (resolveExecApprovals demoHost demoIds ''t'' (saveExecApprovals
       (addDurableCommandApproval (\<lambda>_. ''abc'') ''id'' 0 None '' ls '' (raFile r))) None noOverrides) = Some r' \<and>
     hasDurableExecApproval (\<lambda>_. ''abc'') False [] (raAllowlist r') (Some '' ls '')"
proof -
  have ids: "\<forall>n k i. demoIds n k i \<noteq> []" by (simp add: demoIds_def)
  obtain r where r: "fst (resolveExecApprovals demoHost demoIds ''t'' FileMissing None noOverrides) = Some r"
    using resolve_facts[OF ids] by blast
  have "trim '' ls '' \<noteq> []" "list_all isWordChar ((\<lambda>_. ''abc'') (trim '' ls ''))" "coalesce None defaultAgentId \<noteq> ''default''"
    by code_simp+
  from durable_approval_takes_effect[OF ids ids _ r this] show ?thesis using r by blast
qed

text \<open>
  A file with an agent \<open>main\<close> that denies and a legacy agent \<open>default\<close> is lost for one broken entry: merging the two
  throws, so an empty file is used and saved in its place, and everything is allowed.
\<close>

theorem broken_entry_drops_policy:
  "rpSecurity (raAgent (the (fst (resolveExecApprovals demoHost demoIds ''t''
      (FileParsed (denyFile\<lparr>afAgents := [(''main'', denyAgent), (''default'', noAgent\<lparr>aaAllowlist := ListItems [ItemNull]\<rparr>)]\<rparr>))
      None noOverrides)))) = SecFull \<and>
   (case snd (resolveExecApprovals demoHost demoIds ''t''
      (FileParsed (denyFile\<lparr>afAgents := [(''main'', denyAgent), (''default'', noAgent\<lparr>aaAllowlist := ListItems [ItemNull]\<rparr>)]\<rparr>))
      None noOverrides) of FileParsed f \<Rightarrow> afAgents f = [] | _ \<Rightarrow> False)"
  by code_simp

text \<open>
  Adding a pattern without arguments rewrites every entry with that pattern: an entry that was limited to certain
  arguments loses its limit.
\<close>

theorem added_pattern_lifts_limits:
  "jsonEntries (aaAllowlist (agentOr (addAllowlistEntry ''new'' 5 None ''/bin/rm'' None (Some allowAlwaysSource)
     (emptyApprovals\<lparr>afAgents := [(''main'', noAgent\<lparr>aaAllowlist := ListItems
        [ItemEntry ((newEntry ''/bin/rm'')\<lparr>alId := Some ''a'', alArgPattern := Some ''^-i ''\<rparr>),
         ItemEntry ((newEntry ''/bin/rm'')\<lparr>alId := Some ''b''\<rparr>)]\<rparr>)]\<rparr>)) ''main'')) =
   map (\<lambda>i. (newEntry ''/bin/rm'')\<lparr>alId := Some i, alSource := Some allowAlwaysSource, alLastUsedAt := Some 5\<rparr>) [''a'', ''b'']"
  by code_simp

text \<open>
  A setting that is no valid value counts differently in the two ways to resolve a file: given as it is, the default
  of the file holds; read from disk it is dropped first and the setting of the agent \<open>*\<close> holds.
\<close>

theorem invalid_setting_resolves_differently:
  "let file = emptyApprovals\<lparr>afAgents := [(''main'', noAgent\<lparr>apSecurity := JString ''none''\<rparr>), (''*'', noAgent\<lparr>apSecurity := JString ''deny''\<rparr>)]\<rparr>
   in rpSecurity (raAgent (the (resolveExecApprovalsFromFile demoHost (demoIds 0) file None noOverrides None None None))) = SecFull \<and>
      rpSecurity (raAgent (the (fst (resolveExecApprovals demoHost demoIds ''t'' (FileParsed file) None noOverrides)))) = SecDeny"
  by code_simp

end
