(* ===== verification/ReplyRuns.thy ===== *)
theory ReplyRuns
  imports Prelude
begin

text \<open>
  The runs that answer messages (\<open>src/src/auto-reply/reply/reply-run-registry.ts\<close>): at most one for each session
  key, found by key or by session id, aborted from outside and waited for. An operation is an object that outlives
  its registration, so operations are numbered in the order of their creation and the state keeps them all; a backend
  handle is a number, and what it answers (\<open>isStreaming\<close>, \<open>isCompacting\<close>) is an argument. Calls to \<open>cancel\<close> are logged in the
  state; whatever the backend does in response is a later event. Promises of waits are numbered as well.
\<close>

section \<open>State\<close>

datatype reply_operation_phase =
  PhQueued | PhPreflightCompacting | PhMemoryFlushing | PhRunning | PhCompleted | PhFailed | PhAborted

datatype reply_operation_failure_code =
  GatewayDraining | CommandLaneCleared | FailedByUserAbort | SessionCorruptionReset | RunFailed

datatype reply_operation_abort_code = AbortedByUser | AbortedForRestart

datatype reply_operation_result =
  RsCompleted | RsFailed reply_operation_failure_code | RsAborted reply_operation_abort_code

datatype reply_backend_cancel_reason = CancelUserAbort | CancelRestart | CancelSuperseded

record reply_operation =
  roKey :: string
  roSessionId :: string
  roResetTriggered :: bool
  roPhase :: reply_operation_phase
  roResult :: "reply_operation_result option"
  roStateCleared :: bool
  roSignalAborted :: bool
  roBackend :: "nat option"

record reply_run_state =
  rrOperations :: "reply_operation list"
  rrActiveRunsByKey :: "(string, nat) jsmap"
  rrActiveSessionIdsByKey :: "(string, string) jsmap"
  rrActiveKeysBySessionId :: "(string, string) jsmap"
  rrWaitKeysBySessionId :: "(string, string) jsmap"
  rrWaitersByKey :: "(string, nat list) jsmap"
  rrNextWaiter :: nat
  rrSettled :: "(nat \<times> bool) list" \<comment> \<open>answers of the waits, in order\<close>
  rrCancelled :: "(nat \<times> reply_backend_cancel_reason) list"

datatype reply_run_error = NoSessionKey | NoSessionId | ReplyRunAlreadyActive string | CannotRebind string string

definition initialReplyRunState :: reply_run_state where
  "initialReplyRunState =
     \<lparr>rrOperations = [], rrActiveRunsByKey = [], rrActiveSessionIdsByKey = [], rrActiveKeysBySessionId = [],
      rrWaitKeysBySessionId = [], rrWaitersByKey = [], rrNextWaiter = 0, rrSettled = [], rrCancelled = []\<rparr>"

definition operationAt :: "nat \<Rightarrow> reply_run_state \<Rightarrow> reply_operation" where
  "operationAt i st = rrOperations st ! i"

definition changeOperation :: "nat \<Rightarrow> (reply_operation \<Rightarrow> reply_operation) \<Rightarrow> reply_run_state \<Rightarrow> reply_run_state" where
  "changeOperation i f st = st\<lparr>rrOperations := (rrOperations st)[i := f (operationAt i st)]\<rparr>"

definition cancelBackend :: "nat \<Rightarrow> reply_backend_cancel_reason \<Rightarrow> reply_run_state \<Rightarrow> reply_run_state" where
  "cancelBackend handle reason st = st\<lparr>rrCancelled := rrCancelled st @ [(handle, reason)]\<rparr>"

definition normalizeSessionKey :: "string option \<Rightarrow> string option" where
  "normalizeSessionKey sessionKey = trimmed sessionKey"

definition normalizeSessionId :: "string option \<Rightarrow> string option" where
  "normalizeSessionId sessionId = trimmed sessionId"

section \<open>The registry\<close>

definition registerWaitSessionId :: "string \<Rightarrow> string \<Rightarrow> reply_run_state \<Rightarrow> reply_run_state" where
  "registerWaitSessionId sessionKey sessionId st =
     st\<lparr>rrWaitKeysBySessionId := mapSet sessionId sessionKey (rrWaitKeysBySessionId st)\<rparr>"

definition clearWaitSessionIds :: "string \<Rightarrow> reply_run_state \<Rightarrow> reply_run_state" where
  "clearWaitSessionIds sessionKey st =
     st\<lparr>rrWaitKeysBySessionId := filter (\<lambda>(sessionId, mappedKey). mappedKey \<noteq> sessionKey) (rrWaitKeysBySessionId st)\<rparr>"

definition notifyReplyRunEnded :: "string \<Rightarrow> reply_run_state \<Rightarrow> reply_run_state" where
  "notifyReplyRunEnded sessionKey st =
     (case mapGet (rrWaitersByKey st) sessionKey of
        None \<Rightarrow> st
      | Some waiters \<Rightarrow>
          if waiters = [] then st
          else st\<lparr>rrWaitersByKey := mapDelete sessionKey (rrWaitersByKey st),
                  rrSettled := rrSettled st @ map (\<lambda>w. (w, True)) waiters\<rparr>)"

definition clearReplyRunState :: "string \<Rightarrow> string \<Rightarrow> reply_run_state \<Rightarrow> reply_run_state" where
  "clearReplyRunState sessionKey sessionId st =
     notifyReplyRunEnded sessionKey (clearWaitSessionIds sessionKey
       (st\<lparr>rrActiveRunsByKey := mapDelete sessionKey (rrActiveRunsByKey st),
           rrActiveSessionIdsByKey := mapDelete sessionKey (rrActiveSessionIdsByKey st),
           rrActiveKeysBySessionId :=
             (if mapGet (rrActiveKeysBySessionId st) sessionId = Some sessionKey
              then mapDelete sessionId (rrActiveKeysBySessionId st) else rrActiveKeysBySessionId st)\<rparr>))"

definition clearState :: "nat \<Rightarrow> reply_run_state \<Rightarrow> reply_run_state" where
  "clearState i st =
     (let op = operationAt i st
      in if roStateCleared op then st
         else clearReplyRunState (roKey op) (roSessionId op) (changeOperation i (\<lambda>o'. o'\<lparr>roStateCleared := True\<rparr>) st))"

definition createReplyOperation ::
  "string \<Rightarrow> string \<Rightarrow> bool \<Rightarrow> bool \<Rightarrow> reply_run_state \<Rightarrow> (reply_run_error + nat) \<times> reply_run_state" where
  \<comment> \<open>\<open>upstreamAborted\<close>: a signal was given that is aborted already\<close>
  "createReplyOperation sessionKey0 sessionId0 resetTriggered upstreamAborted st =
     (case normalizeSessionKey (Some sessionKey0) of
        None \<Rightarrow> (Inl NoSessionKey, st)
      | Some sessionKey \<Rightarrow>
          (case normalizeSessionId (Some sessionId0) of
             None \<Rightarrow> (Inl NoSessionId, st)
           | Some sessionId \<Rightarrow>
               if mapHas (rrActiveRunsByKey st) sessionKey then (Inl (ReplyRunAlreadyActive sessionKey), st)
               else (let i = length (rrOperations st);
                         operation = \<lparr>roKey = sessionKey, roSessionId = sessionId, roResetTriggered = resetTriggered,
                           roPhase = PhQueued, roResult = None, roStateCleared = False,
                           roSignalAborted = upstreamAborted, roBackend = None\<rparr>
                     in (Inr i, registerWaitSessionId sessionKey sessionId
                          (st\<lparr>rrOperations := rrOperations st @ [operation],
                              rrActiveRunsByKey := mapSet sessionKey i (rrActiveRunsByKey st),
                              rrActiveSessionIdsByKey := mapSet sessionKey sessionId (rrActiveSessionIdsByKey st),
                              rrActiveKeysBySessionId := mapSet sessionId sessionKey (rrActiveKeysBySessionId st)\<rparr>)))))"

section \<open>Methods of an operation\<close>

definition upstreamAborts :: "nat \<Rightarrow> reply_run_state \<Rightarrow> reply_run_state" where
  \<comment> \<open>the listener on the signal of the caller\<close>
  "upstreamAborts i st = changeOperation i (\<lambda>op. op\<lparr>roSignalAborted := True\<rparr>) st"

definition setPhase :: "nat \<Rightarrow> reply_operation_phase \<Rightarrow> reply_run_state \<Rightarrow> reply_run_state" where
  "setPhase i next st =
     (if roResult (operationAt i st) \<noteq> None then st else changeOperation i (\<lambda>op. op\<lparr>roPhase := next\<rparr>) st)"

definition updateSessionId :: "nat \<Rightarrow> string \<Rightarrow> reply_run_state \<Rightarrow> reply_run_error option \<times> reply_run_state" where
  "updateSessionId i nextSessionId st =
     (let op = operationAt i st; sessionKey = roKey op; currentSessionId = roSessionId op
      in if roResult op \<noteq> None then (None, st)
         else (case normalizeSessionId (Some nextSessionId) of
                 None \<Rightarrow> (None, st)
               | Some next \<Rightarrow>
                   if next = currentSessionId then (None, st)
                   else if mapHas (rrActiveKeysBySessionId st) next \<and>
                           mapGet (rrActiveKeysBySessionId st) next \<noteq> Some sessionKey
                     then (Some (CannotRebind sessionKey next), st)
                   else
                     (let st1 = registerWaitSessionId sessionKey currentSessionId
                            (st\<lparr>rrActiveKeysBySessionId := mapDelete currentSessionId (rrActiveKeysBySessionId st)\<rparr>);
                          st2 = changeOperation i (\<lambda>o'. o'\<lparr>roSessionId := next\<rparr>) st1
                      in (None, registerWaitSessionId sessionKey next
                           (st2\<lparr>rrActiveSessionIdsByKey := mapSet sessionKey next (rrActiveSessionIdsByKey st2),
                                rrActiveKeysBySessionId := mapSet next sessionKey (rrActiveKeysBySessionId st2)\<rparr>)))))"

definition attachBackend :: "nat \<Rightarrow> nat \<Rightarrow> reply_run_state \<Rightarrow> reply_run_state" where
  "attachBackend i handle st =
     (case roResult (operationAt i st) of
        Some result \<Rightarrow>
          cancelBackend handle
            (case result of RsAborted AbortedForRestart \<Rightarrow> CancelRestart | RsAborted AbortedByUser \<Rightarrow> CancelUserAbort
             | _ \<Rightarrow> CancelSuperseded) st
      | None \<Rightarrow>
          (let st1 = changeOperation i (\<lambda>op. op\<lparr>roBackend := Some handle\<rparr>) st
           in if roSignalAborted (operationAt i st) then cancelBackend handle CancelSuperseded st1 else st1))"

definition detachBackend :: "nat \<Rightarrow> nat \<Rightarrow> reply_run_state \<Rightarrow> reply_run_state" where
  "detachBackend i handle st =
     (if roBackend (operationAt i st) = Some handle then changeOperation i (\<lambda>op. op\<lparr>roBackend := None\<rparr>) st else st)"

definition settleResult :: "reply_operation_result \<Rightarrow> reply_operation_phase \<Rightarrow> reply_operation \<Rightarrow> reply_operation" where
  "settleResult result phase op = (if roResult op = None then op\<lparr>roResult := Some result, roPhase := phase\<rparr> else op)"

definition complete :: "nat \<Rightarrow> reply_run_state \<Rightarrow> reply_run_state" where
  "complete i st = clearState i (changeOperation i (settleResult RsCompleted PhCompleted) st)"

definition failOperation :: "nat \<Rightarrow> reply_operation_failure_code \<Rightarrow> reply_run_state \<Rightarrow> reply_run_state" where
  "failOperation i code st = clearState i (changeOperation i (settleResult (RsFailed code) PhFailed) st)"

definition abortWithReason ::
  "nat \<Rightarrow> reply_backend_cancel_reason \<Rightarrow> reply_operation_abort_code \<Rightarrow> reply_run_state \<Rightarrow> reply_run_state" where
  "abortWithReason i reason code st =
     (let st1 = changeOperation i (\<lambda>op. op\<lparr>roResult := (if roResult op = None then Some (RsAborted code) else roResult op),
            roPhase := PhAborted, roSignalAborted := True\<rparr>) st
      in case roBackend (operationAt i st1) of None \<Rightarrow> st1 | Some handle \<Rightarrow> cancelBackend handle reason st1)"

definition abortOperation ::
  "nat \<Rightarrow> reply_backend_cancel_reason \<Rightarrow> reply_operation_abort_code \<Rightarrow> reply_run_state \<Rightarrow> reply_run_state" where
  "abortOperation i reason code st =
     (let phaseBeforeAbort = roPhase (operationAt i st); st1 = abortWithReason i reason code st
      in if phaseBeforeAbort = PhQueued then clearState i st1 else st1)"

definition abortByUser :: "nat \<Rightarrow> reply_run_state \<Rightarrow> reply_run_state" where
  "abortByUser i st = abortOperation i CancelUserAbort AbortedByUser st"

definition abortForRestart :: "nat \<Rightarrow> reply_run_state \<Rightarrow> reply_run_state" where
  "abortForRestart i st = abortOperation i CancelRestart AbortedForRestart st"

section \<open>Use by key and by session id\<close>

definition getRun :: "string \<Rightarrow> reply_run_state \<Rightarrow> nat option" where
  "getRun sessionKey st = Option.bind (normalizeSessionKey (Some sessionKey)) (mapGet (rrActiveRunsByKey st))"

definition isActive :: "string \<Rightarrow> reply_run_state \<Rightarrow> bool" where
  "isActive sessionKey st \<longleftrightarrow> getRun sessionKey st \<noteq> None"

definition streamingRun :: "(nat \<Rightarrow> bool) \<Rightarrow> nat option \<Rightarrow> reply_run_state \<Rightarrow> bool" where
  "streamingRun streams operation st =
     (case operation of
        None \<Rightarrow> False
      | Some i \<Rightarrow> roPhase (operationAt i st) = PhRunning \<and>
                  (case roBackend (operationAt i st) of None \<Rightarrow> False | Some handle \<Rightarrow> streams handle))"

definition isStreaming :: "(nat \<Rightarrow> bool) \<Rightarrow> string \<Rightarrow> reply_run_state \<Rightarrow> bool" where
  "isStreaming streams sessionKey st = streamingRun streams (getRun sessionKey st) st"

definition abortRun :: "string \<Rightarrow> reply_run_state \<Rightarrow> bool \<times> reply_run_state" where
  "abortRun sessionKey st =
     (case getRun sessionKey st of None \<Rightarrow> (False, st) | Some i \<Rightarrow> (True, abortByUser i st))"

definition waitForIdle :: "string \<Rightarrow> reply_run_state \<Rightarrow> nat option \<times> reply_run_state" where
  \<comment> \<open>\<open>None\<close>: the promise is \<open>true\<close> at once; otherwise its number\<close>
  "waitForIdle sessionKey st =
     (case normalizeSessionKey (Some sessionKey) of
        None \<Rightarrow> (None, st)
      | Some key \<Rightarrow>
          if \<not> mapHas (rrActiveRunsByKey st) key then (None, st)
          else (let w = rrNextWaiter st
                in (Some w, st\<lparr>rrWaitersByKey := mapSet key (coalesce (mapGet (rrWaitersByKey st) key) [] @ [w]) (rrWaitersByKey st),
                               rrNextWaiter := Suc w\<rparr>)))"

definition waiterTimesOut :: "string \<Rightarrow> nat \<Rightarrow> reply_run_state \<Rightarrow> reply_run_state" where
  \<comment> \<open>the timer of a waiter under a key; one that was cleared does not fire\<close>
  "waiterTimesOut key w st =
     (case mapGet (rrWaitersByKey st) key of
        None \<Rightarrow> st
      | Some waiters \<Rightarrow>
          if w \<notin> set waiters then st
          else (let left = removeAll w waiters
                in st\<lparr>rrWaitersByKey := (if left = [] then mapDelete key (rrWaitersByKey st)
                                          else mapSet key left (rrWaitersByKey st)),
                      rrSettled := rrSettled st @ [(w, False)]\<rparr>))"

definition resolveSessionId :: "string \<Rightarrow> reply_run_state \<Rightarrow> string option" where
  "resolveSessionId sessionKey st =
     Option.bind (normalizeSessionKey (Some sessionKey)) (mapGet (rrActiveSessionIdsByKey st))"

definition resolveReplyRunForCurrentSessionId :: "string \<Rightarrow> reply_run_state \<Rightarrow> nat option" where
  "resolveReplyRunForCurrentSessionId sessionId st =
     (case Option.bind (normalizeSessionId (Some sessionId)) (mapGet (rrActiveKeysBySessionId st)) of
        None \<Rightarrow> None
      | Some sessionKey \<Rightarrow> if sessionKey = [] then None else mapGet (rrActiveRunsByKey st) sessionKey)"

definition resolveReplyRunWaitKey :: "string \<Rightarrow> reply_run_state \<Rightarrow> string option" where
  "resolveReplyRunWaitKey sessionId st =
     (case normalizeSessionId (Some sessionId) of
        None \<Rightarrow> None
      | Some s \<Rightarrow> orElse (mapGet (rrActiveKeysBySessionId st) s) (mapGet (rrWaitKeysBySessionId st) s))"

definition isReplyRunActiveForSessionId :: "string \<Rightarrow> reply_run_state \<Rightarrow> bool" where
  "isReplyRunActiveForSessionId sessionId st \<longleftrightarrow> resolveReplyRunForCurrentSessionId sessionId st \<noteq> None"

definition isReplyRunStreamingForSessionId :: "(nat \<Rightarrow> bool) \<Rightarrow> string \<Rightarrow> reply_run_state \<Rightarrow> bool" where
  "isReplyRunStreamingForSessionId streams sessionId st =
     streamingRun streams (resolveReplyRunForCurrentSessionId sessionId st) st"

definition queueReplyRunMessage :: "(nat \<Rightarrow> bool) \<Rightarrow> (nat \<Rightarrow> bool) \<Rightarrow> string \<Rightarrow> reply_run_state \<Rightarrow> nat option" where
  \<comment> \<open>the handle that is given the message, where the code answers \<open>true\<close>; \<open>queues\<close> tells which handles have
      \<open>queueMessage\<close>\<close>
  "queueReplyRunMessage streams queues sessionId st =
     (case resolveReplyRunForCurrentSessionId sessionId st of
        None \<Rightarrow> None
      | Some i \<Rightarrow>
          (case roBackend (operationAt i st) of
             None \<Rightarrow> None
           | Some handle \<Rightarrow>
               if roPhase (operationAt i st) \<noteq> PhRunning \<or> \<not> queues handle \<or> \<not> streams handle then None else Some handle))"

definition abortReplyRunBySessionId :: "string \<Rightarrow> reply_run_state \<Rightarrow> bool \<times> reply_run_state" where
  "abortReplyRunBySessionId sessionId st =
     (case resolveReplyRunForCurrentSessionId sessionId st of
        None \<Rightarrow> (False, st) | Some i \<Rightarrow> (True, abortByUser i st))"

definition waitForReplyRunEndBySessionId :: "string \<Rightarrow> reply_run_state \<Rightarrow> nat option \<times> reply_run_state" where
  "waitForReplyRunEndBySessionId sessionId st =
     (case resolveReplyRunWaitKey sessionId st of
        None \<Rightarrow> (None, st) | Some waitKey \<Rightarrow> if waitKey = [] then (None, st) else waitForIdle waitKey st)"

definition isReplyRunCompacting :: "(nat \<Rightarrow> bool) \<Rightarrow> reply_operation \<Rightarrow> bool" where
  "isReplyRunCompacting compacts op =
     (if roPhase op = PhPreflightCompacting \<or> roPhase op = PhMemoryFlushing then True
      else if roPhase op \<noteq> PhRunning then False
      else (case roBackend op of None \<Rightarrow> False | Some handle \<Rightarrow> compacts handle))"

definition abortActiveReplyRuns :: "(nat \<Rightarrow> bool) option \<Rightarrow> reply_run_state \<Rightarrow> bool \<times> reply_run_state" where
  \<comment> \<open>\<open>None\<close> is the mode \<open>all\<close>; otherwise \<open>compacting\<close>, with what the handles answer\<close>
  "abortActiveReplyRuns mode st =
     fold (\<lambda>i (aborted, s).
         if (case mode of None \<Rightarrow> False | Some compacts \<Rightarrow> \<not> isReplyRunCompacting compacts (operationAt i s))
         then (aborted, s) else (True, abortForRestart i s))
       (mapValues (rrActiveRunsByKey st)) (False, st)"

definition getActiveReplyRunCount :: "reply_run_state \<Rightarrow> nat" where
  "getActiveReplyRunCount st = length (rrActiveRunsByKey st)"

definition listActiveReplyRunSessionIds :: "reply_run_state \<Rightarrow> string list" where
  "listActiveReplyRunSessionIds st = mapValues (rrActiveSessionIdsByKey st)"

section \<open>Events\<close>

datatype run_event =
    EvBegin string string bool bool
  | EvUpstream nat
  | EvSetPhase nat reply_operation_phase
  | EvUpdateSession nat string
  | EvAttach nat nat
  | EvDetach nat nat
  | EvComplete nat
  | EvFail nat reply_operation_failure_code
  | EvAbortByUser nat
  | EvAbortForRestart nat
  | EvAbortRun string
  | EvAbortBySession string
  | EvAbortActive "(nat \<Rightarrow> bool) option"
  | EvWait string
  | EvWaitBySession string
  | EvWaiterTimesOut string nat

fun operationOf :: "run_event \<Rightarrow> nat option" where
  "operationOf (EvUpstream i) = Some i"
| "operationOf (EvSetPhase i _) = Some i"
| "operationOf (EvUpdateSession i _) = Some i"
| "operationOf (EvAttach i _) = Some i"
| "operationOf (EvDetach i _) = Some i"
| "operationOf (EvComplete i) = Some i"
| "operationOf (EvFail i _) = Some i"
| "operationOf (EvAbortByUser i) = Some i"
| "operationOf (EvAbortForRestart i) = Some i"
| "operationOf _ = None"

fun performRunEvent :: "run_event \<Rightarrow> reply_run_state \<Rightarrow> reply_run_state" where
  "performRunEvent (EvBegin k s r u) st = snd (createReplyOperation k s r u st)"
| "performRunEvent (EvUpstream i) st = upstreamAborts i st"
| "performRunEvent (EvSetPhase i p) st = setPhase i p st"
| "performRunEvent (EvUpdateSession i s) st = snd (updateSessionId i s st)"
| "performRunEvent (EvAttach i h) st = attachBackend i h st"
| "performRunEvent (EvDetach i h) st = detachBackend i h st"
| "performRunEvent (EvComplete i) st = complete i st"
| "performRunEvent (EvFail i c) st = failOperation i c st"
| "performRunEvent (EvAbortByUser i) st = abortByUser i st"
| "performRunEvent (EvAbortForRestart i) st = abortForRestart i st"
| "performRunEvent (EvAbortRun k) st = snd (abortRun k st)"
| "performRunEvent (EvAbortBySession s) st = snd (abortReplyRunBySessionId s st)"
| "performRunEvent (EvAbortActive m) st = snd (abortActiveReplyRuns m st)"
| "performRunEvent (EvWait k) st = snd (waitForIdle k st)"
| "performRunEvent (EvWaitBySession s) st = snd (waitForReplyRunEndBySessionId s st)"
| "performRunEvent (EvWaiterTimesOut k w) st = waiterTimesOut k w st"

definition applyRunEvent :: "run_event \<Rightarrow> reply_run_state \<Rightarrow> reply_run_state" where
  \<comment> \<open>methods are called on operations that exist\<close>
  "applyRunEvent e st =
     (case operationOf e of
        None \<Rightarrow> performRunEvent e st
      | Some i \<Rightarrow> if i < length (rrOperations st) then performRunEvent e st else st)"

section \<open>The invariant\<close>

named_theorems run_ops "operations of the registry, unfolded"

definition registered :: "reply_run_state \<Rightarrow> bool" where
  \<comment> \<open>the runs under the keys are exactly the operations that are not cleared\<close>
  "registered st \<longleftrightarrow> wfMap (rrActiveRunsByKey st) \<and> (\<forall>k i. mapGet (rrActiveRunsByKey st) k = Some i \<longleftrightarrow>
     i < length (rrOperations st) \<and> roKey (operationAt i st) = k \<and> \<not> roStateCleared (operationAt i st))"

definition sessionsKnown :: "reply_run_state \<Rightarrow> bool" where
  "sessionsKnown st \<longleftrightarrow> (\<forall>k. mapGet (rrActiveSessionIdsByKey st) k =
     map_option (\<lambda>i. roSessionId (operationAt i st)) (mapGet (rrActiveRunsByKey st) k))"

definition clearedDone :: "reply_run_state \<Rightarrow> bool" where
  "clearedDone st \<longleftrightarrow> (\<forall>i < length (rrOperations st). roStateCleared (operationAt i st) \<longrightarrow> roResult (operationAt i st) \<noteq> None)"

definition waitersInv :: "reply_run_state \<Rightarrow> bool" where
  \<comment> \<open>who waits, waits for an active run; every wait was answered once or is still waiting\<close>
  "waitersInv st \<longleftrightarrow> wfMap (rrWaitersByKey st) \<and>
     (\<forall>k ws. mapGet (rrWaitersByKey st) k = Some ws \<longrightarrow> ws \<noteq> [] \<and> mapHas (rrActiveRunsByKey st) k) \<and>
     mset (map fst (rrSettled st)) + mset (concat (mapValues (rrWaitersByKey st))) = mset [0..<rrNextWaiter st]"

definition runsInv :: "reply_run_state \<Rightarrow> bool" where
  "runsInv st \<longleftrightarrow> registered st \<and> sessionsKnown st \<and> clearedDone st \<and> waitersInv st"

lemmas runsInv_defs = runsInv_def registered_def sessionsKnown_def clearedDone_def waitersInv_def

definition harmlessChange :: "(reply_operation \<Rightarrow> reply_operation) \<Rightarrow> bool" where
  \<comment> \<open>of an operation, without a move to another key or session and without losing its result\<close>
  "harmlessChange f \<longleftrightarrow> (\<forall>op. roKey (f op) = roKey op \<and> roSessionId (f op) = roSessionId op \<and>
     roStateCleared (f op) = roStateCleared op \<and> (roResult op \<noteq> None \<longrightarrow> roResult (f op) = roResult op))"

lemma operationAt_change:
  "operationAt j (changeOperation i f st) = (if i = j \<and> i < length (rrOperations st) then f (operationAt i st) else operationAt j st)"
  by (cases "i < length (rrOperations st)") (simp_all add: operationAt_def changeOperation_def list_update_beyond)

lemma change_fields [simp]:
  "length (rrOperations (changeOperation i f st)) = length (rrOperations st)"
  "rrActiveRunsByKey (changeOperation i f st) = rrActiveRunsByKey st"
  "rrActiveSessionIdsByKey (changeOperation i f st) = rrActiveSessionIdsByKey st"
  "rrActiveKeysBySessionId (changeOperation i f st) = rrActiveKeysBySessionId st"
  "rrWaitersByKey (changeOperation i f st) = rrWaitersByKey st"
  "rrSettled (changeOperation i f st) = rrSettled st"
  "rrNextWaiter (changeOperation i f st) = rrNextWaiter st"
  by (simp_all add: changeOperation_def)

lemma change_inv:
  assumes "runsInv st" "harmlessChange f"
  shows "runsInv (changeOperation i f st)"
proof -
  have "roKey (operationAt j (changeOperation i f st)) = roKey (operationAt j st)"
    "roSessionId (operationAt j (changeOperation i f st)) = roSessionId (operationAt j st)"
    "roStateCleared (operationAt j (changeOperation i f st)) = roStateCleared (operationAt j st)"
    "roResult (operationAt j st) \<noteq> None \<Longrightarrow> roResult (operationAt j (changeOperation i f st)) \<noteq> None" for j
    using assms(2) by (auto simp: operationAt_change harmlessChange_def)
  then show ?thesis using assms(1) by (auto simp: runsInv_defs)
qed

lemma cancel_fields [simp]:
  "rrOperations (cancelBackend h r st) = rrOperations st"
  "operationAt j (cancelBackend h r st) = operationAt j st"
  "runsInv (cancelBackend h r st) = runsInv st"
  by (simp_all add: cancelBackend_def operationAt_def runsInv_defs)

lemma mset_mapDelete:
  "wfMap m \<Longrightarrow> mset (coalesce (mapGet m k) []) + mset (concat (mapValues (mapDelete k m))) = mset (concat (mapValues m))"
proof (induction m)
  case (Cons p m)
  then show ?case by (cases p) (auto simp: wfMap_Cons mapDelete_absent ac_simps)
qed simp

lemma clear_fields:
  assumes "waitersInv st" "\<not> roStateCleared (operationAt i st)"
  shows "rrOperations (clearState i st) = (rrOperations st)[i := (operationAt i st)\<lparr>roStateCleared := True\<rparr>]"
    "rrActiveRunsByKey (clearState i st) = mapDelete (roKey (operationAt i st)) (rrActiveRunsByKey st)"
    "rrActiveSessionIdsByKey (clearState i st) = mapDelete (roKey (operationAt i st)) (rrActiveSessionIdsByKey st)"
    "rrNextWaiter (clearState i st) = rrNextWaiter st"
    "rrWaitersByKey (clearState i st) = mapDelete (roKey (operationAt i st)) (rrWaitersByKey st)"
    "rrSettled (clearState i st) =
       rrSettled st @ map (\<lambda>w. (w, True)) (coalesce (mapGet (rrWaitersByKey st) (roKey (operationAt i st))) [])"
  using assms by (auto simp: clearState_def Let_def clearReplyRunState_def notifyReplyRunEnded_def
      clearWaitSessionIds_def changeOperation_def mapDelete_absent waitersInv_def split: option.split)

lemma run_clear_inv:
  assumes inv: "runsInv st" and i: "i < length (rrOperations st)" and ended: "roResult (operationAt i st) \<noteq> None"
  shows "runsInv (clearState i st)"
proof (cases "roStateCleared (operationAt i st)")
  case False
  define k where "k = roKey (operationAt i st)"
  define s where "s = roSessionId (operationAt i st)"
  define st' where "st' = clearState i st"
  have act: "mapGet (rrActiveRunsByKey st) k = Some i" using inv i False by (auto simp: runsInv_defs k_def)
  note f = clear_fields[OF _ False, folded st'_def k_def]
  have waiting: "waitersInv st" using inv by (simp add: runsInv_def)
  note f = f[OF waiting]
  have op: "operationAt j st' = (if j = i then (operationAt i st)\<lparr>roStateCleared := True\<rparr> else operationAt j st)" for j
    using i by (auto simp: operationAt_def f nth_list_update)
  have reg: "mapGet (rrActiveRunsByKey st) k' = Some j \<longleftrightarrow>
      j < length (rrOperations st) \<and> roKey (operationAt j st) = k' \<and> \<not> roStateCleared (operationAt j st)" for k' j
    using inv by (simp add: runsInv_def registered_def)
  have "registered st'" unfolding registered_def
  proof (intro conjI allI)
    show "wfMap (rrActiveRunsByKey st')" using inv by (simp add: f runsInv_def registered_def)
    fix k' j
    show "mapGet (rrActiveRunsByKey st') k' = Some j \<longleftrightarrow>
        j < length (rrOperations st') \<and> roKey (operationAt j st') = k' \<and> \<not> roStateCleared (operationAt j st')"
      using reg[of k' j] reg[of k j] act i by (cases "j = i"; cases "k' = k") (auto simp: f op mapGet_delete k_def)
  qed
  moreover have "sessionsKnown st'"
  proof -
    have "roSessionId (operationAt j st') = roSessionId (operationAt j st)" for j by (simp add: op)
    moreover have "sessionsKnown st" using inv by (simp add: runsInv_def)
    ultimately show ?thesis by (simp add: sessionsKnown_def f mapGet_delete)
  qed
  moreover have "clearedDone st'" using inv ended by (auto simp: clearedDone_def f op runsInv_defs)
  moreover have "waitersInv st'"
    using inv mset_mapDelete[of "rrWaitersByKey st" k]
    by (auto simp: waitersInv_def runsInv_def f mapGet_delete comp_def ac_simps split: if_split_asm)
  ultimately show ?thesis unfolding runsInv_def st'_def by simp
qed (use inv in \<open>simp add: clearState_def\<close>)

lemma wait_ids_fields [simp]:
  "runsInv (registerWaitSessionId k s st) = runsInv st"
  "rrOperations (registerWaitSessionId k s st) = rrOperations st"
  "operationAt j (registerWaitSessionId k s st) = operationAt j st"
  "rrActiveRunsByKey (registerWaitSessionId k s st) = rrActiveRunsByKey st"
  "rrActiveSessionIdsByKey (registerWaitSessionId k s st) = rrActiveSessionIdsByKey st"
  "rrActiveKeysBySessionId (registerWaitSessionId k s st) = rrActiveKeysBySessionId st"
  by (simp_all add: registerWaitSessionId_def operationAt_def runsInv_defs)

lemma session_keys_irrelevant [simp]: "runsInv (st\<lparr>rrActiveKeysBySessionId := m\<rparr>) = runsInv st"
  by (simp add: runsInv_defs operationAt_def)

lemma begin_inv:
  assumes "runsInv st" "\<not> mapHas (rrActiveRunsByKey st) key" "\<not> roStateCleared op" "roKey op = key" "roSessionId op = s"
  shows "runsInv (st\<lparr>rrOperations := rrOperations st @ [op],
     rrActiveRunsByKey := mapSet key (length (rrOperations st)) (rrActiveRunsByKey st),
     rrActiveSessionIdsByKey := mapSet key s (rrActiveSessionIdsByKey st)\<rparr>)" (is "runsInv ?st")
proof -
  have reg: "mapGet (rrActiveRunsByKey st) k' = Some j \<longleftrightarrow>
      j < length (rrOperations st) \<and> roKey (operationAt j st) = k' \<and> \<not> roStateCleared (operationAt j st)" for k' j
    using assms(1) by (simp add: runsInv_def registered_def)
  have op: "j < length (rrOperations st) \<Longrightarrow> operationAt j ?st = operationAt j st" "operationAt (length (rrOperations st)) ?st = op" for j
    by (simp_all add: operationAt_def nth_append)
  have "registered ?st" unfolding registered_def
  proof (intro conjI allI)
    show "wfMap (rrActiveRunsByKey ?st)" using assms(1) by (simp add: runsInv_def registered_def)
    fix k' j
    show "mapGet (rrActiveRunsByKey ?st) k' = Some j \<longleftrightarrow>
      j < length (rrOperations ?st) \<and> roKey (operationAt j ?st) = k' \<and> \<not> roStateCleared (operationAt j ?st)"
      using reg[of k' j] reg[of key] assms(2-4)
      by (cases "k' = key"; cases "j < length (rrOperations st)"; cases "j = length (rrOperations st)")
         (auto simp: mapGet_set op)
  qed
  moreover have "sessionsKnown ?st" unfolding sessionsKnown_def
  proof
    fix k'
    show "mapGet (rrActiveSessionIdsByKey ?st) k' =
        map_option (\<lambda>j. roSessionId (operationAt j ?st)) (mapGet (rrActiveRunsByKey ?st) k')"
    proof (cases "k' = key")
      case True
      then show ?thesis using assms(5) by (simp add: operationAt_def)
    next
      case False
      have "mapGet (rrActiveSessionIdsByKey st) k' = map_option (\<lambda>j. roSessionId (operationAt j st)) (mapGet (rrActiveRunsByKey st) k')"
        using assms(1) by (simp add: runsInv_def sessionsKnown_def)
      moreover have "mapGet (rrActiveRunsByKey st) k' = Some j \<Longrightarrow> j < length (rrOperations st)" for j using reg by blast
      ultimately show ?thesis using False op(1) by (cases "mapGet (rrActiveRunsByKey st) k'") (simp_all add: mapGet_set)
    qed
  qed
  moreover have "clearedDone ?st"
    using assms(1,3) by (auto simp: clearedDone_def runsInv_def operationAt_def nth_append less_Suc_eq)
  moreover have "waitersInv ?st" using assms(1) by (auto simp: waitersInv_def runsInv_def mapGet_set)
  ultimately show ?thesis by (simp add: runsInv_def)
qed

lemma create_inv: "runsInv st \<Longrightarrow> runsInv (snd (createReplyOperation k s r u st))"
  by (auto simp: createReplyOperation_def Let_def intro!: begin_inv split: option.split)

lemma rebind_inv:
  assumes "runsInv st" "i < length (rrOperations st)" "roResult (operationAt i st) = None"
  shows "runsInv ((changeOperation i (\<lambda>o'. o'\<lparr>roSessionId := s\<rparr>) st)
    \<lparr>rrActiveSessionIdsByKey := mapSet (roKey (operationAt i st)) s (rrActiveSessionIdsByKey st)\<rparr>)" (is "runsInv ?st")
proof -
  let ?k = "roKey (operationAt i st)"
  have open_: "\<not> roStateCleared (operationAt i st)" using assms by (auto simp: runsInv_def clearedDone_def)
  have reg: "mapGet (rrActiveRunsByKey st) k' = Some j \<longleftrightarrow>
      j < length (rrOperations st) \<and> roKey (operationAt j st) = k' \<and> \<not> roStateCleared (operationAt j st)" for k' j
    using assms(1) by (simp add: runsInv_def registered_def)
  have op: "operationAt j ?st = (if j = i then (operationAt i st)\<lparr>roSessionId := s\<rparr> else operationAt j st)" for j
    using assms(2) operationAt_change[of j i _ st] by (simp add: operationAt_def)
  have "registered ?st" using reg assms(1) by (auto simp: registered_def runsInv_def op)
  moreover have "sessionsKnown ?st" unfolding sessionsKnown_def
  proof
    fix k'
    have old: "mapGet (rrActiveSessionIdsByKey st) k' = map_option (\<lambda>j. roSessionId (operationAt j st)) (mapGet (rrActiveRunsByKey st) k')"
      using assms(1) by (simp add: runsInv_def sessionsKnown_def)
    have sid: "roSessionId (operationAt j ?st) = (if j = i then s else roSessionId (operationAt j st))" for j by (simp add: op)
    show "mapGet (rrActiveSessionIdsByKey ?st) k' =
        map_option (\<lambda>j. roSessionId (operationAt j ?st)) (mapGet (rrActiveRunsByKey ?st) k')"
    proof (cases "k' = ?k")
      case True
      have "mapGet (rrActiveRunsByKey st) ?k = Some i" using reg assms(2) open_ by simp
      then show ?thesis unfolding sid using True by simp
    next
      case False
      then have "mapGet (rrActiveRunsByKey st) k' = Some j \<Longrightarrow> j \<noteq> i" for j using reg by auto
      then show ?thesis unfolding sid using False old by (cases "mapGet (rrActiveRunsByKey st) k'") (simp_all add: mapGet_set)
    qed
  qed
  moreover have "clearedDone ?st" using assms(1) by (simp add: clearedDone_def runsInv_def op)
  moreover have "waitersInv ?st" using assms(1) by (simp add: waitersInv_def runsInv_def)
  ultimately show ?thesis by (simp add: runsInv_def)
qed

lemma updateSessionId_inv:
  assumes "runsInv st" "i < length (rrOperations st)"
  shows "runsInv (snd (updateSessionId i s st))"
proof -
  define moved where "moved = registerWaitSessionId (roKey (operationAt i st)) (roSessionId (operationAt i st))
      (st\<lparr>rrActiveKeysBySessionId := mapDelete (roSessionId (operationAt i st)) (rrActiveKeysBySessionId st)\<rparr>)"
  have "runsInv ((changeOperation i (\<lambda>o'. o'\<lparr>roSessionId := n\<rparr>) moved)
      \<lparr>rrActiveSessionIdsByKey := mapSet (roKey (operationAt i st)) n (rrActiveSessionIdsByKey st)\<rparr>)"
    if "roResult (operationAt i st) = None" for n
    using rebind_inv[of moved i n] assms that by (simp add: moved_def operationAt_def)
  then show ?thesis using assms(1)
    by (auto simp: updateSessionId_def Let_def moved_def split: option.split)
qed

lemma run_wait_inv: "runsInv st \<Longrightarrow> runsInv (snd (waitForIdle k st))"
proof -
  assume inv: "runsInv st"
  have "waitersInv (snd (waitForIdle k st))"
  proof (cases "normalizeSessionKey (Some k)")
    case (Some key)
    show ?thesis
    proof (cases "mapGet (rrWaitersByKey st) key")
      case None
      then have "mset (concat (mapValues (mapSet key [rrNextWaiter st] (rrWaitersByKey st)))) =
          add_mset (rrNextWaiter st) (mset (concat (mapValues (rrWaitersByKey st))))" by (simp add: mapSet_append)
      then show ?thesis using inv Some None
        by (auto simp: waitForIdle_def Let_def runsInv_def waitersInv_def mapGet_set atLeast0_lessThan_Suc)
    next
      case ws: (Some ws)
      then show ?thesis using inv Some mset_concat_mapSet[of "rrWaitersByKey st" key ws "\<lambda>x. x" "ws @ [rrNextWaiter st]"]
        by (auto simp: waitForIdle_def Let_def runsInv_def waitersInv_def mapGet_set atLeast0_lessThan_Suc)
    qed
  qed (use inv in \<open>simp add: waitForIdle_def runsInv_def\<close>)
  then show ?thesis using inv
    by (auto simp: waitForIdle_def Let_def runsInv_def registered_def sessionsKnown_def clearedDone_def operationAt_def split: option.split)
qed

lemma waiters_distinct:
  assumes "waitersInv st" "mapGet (rrWaitersByKey st) k = Some ws"
  shows "distinct ws"
proof -
  have "mset (map fst (rrSettled st) @ concat (mapValues (rrWaitersByKey st))) = mset [0..<rrNextWaiter st]"
    using assms(1) by (simp add: waitersInv_def)
  then have "distinct (map fst (rrSettled st) @ concat (mapValues (rrWaitersByKey st)))"
    using mset_eq_imp_distinct_iff distinct_upt by blast
  moreover have "ws \<in> set (mapValues (rrWaitersByKey st))" using mapGet_SomeD[OF assms(2)] by force
  ultimately show ?thesis by (simp add: distinct_concat_iff)
qed

lemma run_timeout_inv:
  assumes "runsInv st"
  shows "runsInv (waiterTimesOut k w st)"
proof (cases "mapGet (rrWaitersByKey st) k")
  case (Some ws)
  show ?thesis
  proof (cases "w \<in> set ws")
    case True
    let ?m = "rrWaitersByKey st" and ?left = "removeAll w ws"
    have wf: "wfMap ?m" using assms by (simp add: runsInv_def waitersInv_def)
    have ws: "mset ws = add_mset w (mset ?left)"
      using waiters_distinct[OF _ Some] assms True by (simp add: runsInv_def distinct_remove1_removeAll[symmetric])
    have "waitersInv (waiterTimesOut k w st)"
    proof (cases "?left = []")
      case True
      then have ms: "mset (concat (mapValues ?m)) = add_mset w (mset (concat (mapValues (mapDelete k ?m))))"
        using mset_mapDelete[OF wf, of k] Some ws by simp
      then show ?thesis using assms Some \<open>w \<in> set ws\<close> True wf
        by (auto simp: waiterTimesOut_def runsInv_def waitersInv_def mapGet_delete)
    next
      case False
      then have "mset (concat (mapValues ?m)) = add_mset w (mset (concat (mapValues (mapSet k ?left ?m))))"
        using mset_concat_mapSet[OF wf Some, of "\<lambda>x. x" ?left] ws by simp
      then show ?thesis using assms Some \<open>w \<in> set ws\<close> False wf
        by (auto simp: waiterTimesOut_def Let_def runsInv_def waitersInv_def mapGet_set)
    qed
    then show ?thesis using assms Some True
      by (auto simp: waiterTimesOut_def Let_def runsInv_def registered_def sessionsKnown_def clearedDone_def operationAt_def)
  qed (use assms Some in \<open>simp add: waiterTimesOut_def\<close>)
qed (use assms in \<open>simp add: waiterTimesOut_def\<close>)

section \<open>Every event keeps the invariant\<close>

definition abortChange :: "reply_operation_abort_code \<Rightarrow> reply_operation \<Rightarrow> reply_operation" where
  "abortChange code op = op\<lparr>roResult := (if roResult op = None then Some (RsAborted code) else roResult op),
     roPhase := PhAborted, roSignalAborted := True\<rparr>"

lemma harmless_changes [simp]:
  "harmlessChange (\<lambda>op. op\<lparr>roSignalAborted := b\<rparr>)" "harmlessChange (\<lambda>op. op\<lparr>roPhase := p\<rparr>)"
  "harmlessChange (\<lambda>op. op\<lparr>roBackend := h\<rparr>)" "harmlessChange (settleResult r p)" "harmlessChange (abortChange c)"
  by (simp_all add: harmlessChange_def settleResult_def abortChange_def)

lemma ended_changes [simp]: "\<exists>y. roResult (settleResult r p op) = Some y" "\<exists>y. roResult (abortChange c op) = Some y"
  by (auto simp: settleResult_def abortChange_def)

lemma abortWithReason_change:
  "abortWithReason i reason code st =
     (case roBackend (operationAt i st) of None \<Rightarrow> changeOperation i (abortChange code) st
      | Some handle \<Rightarrow> cancelBackend handle reason (changeOperation i (abortChange code) st))"
proof -
  have e: "(\<lambda>op. op\<lparr>roResult := (if roResult op = None then Some (RsAborted code) else roResult op), roPhase := PhAborted,
      roSignalAborted := True\<rparr>) = abortChange code" by (simp add: fun_eq_iff abortChange_def)
  have "roBackend (operationAt i (changeOperation i (abortChange code) st)) = roBackend (operationAt i st)"
    by (simp add: operationAt_change abortChange_def)
  then show ?thesis by (simp add: abortWithReason_def e Let_def)
qed

lemma abortWithReason_inv:
  assumes "runsInv st" "i < length (rrOperations st)"
  shows "runsInv (abortWithReason i reason code st)" "length (rrOperations (abortWithReason i reason code st)) = length (rrOperations st)"
    "roResult (operationAt i (abortWithReason i reason code st)) \<noteq> None"
  using assms change_inv[of st "abortChange code" i]
  by (auto simp: abortWithReason_change operationAt_change split: option.split)

lemma clear_length [simp]: "length (rrOperations (clearState i st)) = length (rrOperations st)"
  by (simp add: clearState_def Let_def clearReplyRunState_def notifyReplyRunEnded_def clearWaitSessionIds_def changeOperation_def split: option.split)

lemma abortOperation_inv:
  assumes "runsInv st" "i < length (rrOperations st)"
  shows "runsInv (abortOperation i reason code st)" "length (rrOperations (abortOperation i reason code st)) = length (rrOperations st)"
  using abortWithReason_inv[OF assms] assms(2) by (auto simp: abortOperation_def Let_def intro!: run_clear_inv)

lemma finish_inv:
  assumes "runsInv st" "i < length (rrOperations st)"
  shows "runsInv (clearState i (changeOperation i (settleResult r p) st))"
  using assms by (intro run_clear_inv change_inv) (simp_all add: operationAt_change)

lemma attach_inv: "runsInv st \<Longrightarrow> runsInv (attachBackend i h st)"
  by (simp add: attachBackend_def Let_def change_inv split: option.split)

lemma active_in_range: "runsInv st \<Longrightarrow> mapGet (rrActiveRunsByKey st) k = Some i \<Longrightarrow> i < length (rrOperations st)"
  by (simp add: runsInv_def registered_def)

lemma abortActive_inv:
  assumes "runsInv st"
  shows "runsInv (snd (abortActiveReplyRuns mode st))"
proof -
  have range: "i < length (rrOperations st)" if r: "i \<in> set (mapValues (rrActiveRunsByKey st))" for i
  proof -
    obtain k where "(k, i) \<in> set (rrActiveRunsByKey st)" using r by auto
    moreover have "wfMap (rrActiveRunsByKey st)" using assms by (simp add: runsInv_def registered_def)
    ultimately have "mapGet (rrActiveRunsByKey st) k = Some i" using mapGet_in_set by metis
    then show ?thesis by (rule active_in_range[OF assms])
  qed
  have "runsInv (snd (fold (\<lambda>i (aborted, s).
         if (case mode of None \<Rightarrow> False | Some compacts \<Rightarrow> \<not> isReplyRunCompacting compacts (operationAt i s))
         then (aborted, s) else (True, abortForRestart i s)) is (b, s)))"
    if "\<forall>i \<in> set is. i < length (rrOperations s)" "runsInv s" for "is" b s
    using that by (induction "is" arbitrary: b s) (simp_all add: abortForRestart_def abortOperation_inv)
  then show ?thesis using range assms unfolding abortActiveReplyRuns_def by blast
qed

lemma applyRunEvent_inv: "runsInv st \<Longrightarrow> runsInv (applyRunEvent e st)"
proof (cases e)
  case (EvAbortRun k)
  assume "runsInv st"
  then show ?thesis using EvAbortRun active_in_range[of st]
    by (auto simp: applyRunEvent_def abortRun_def abortByUser_def getRun_def abortOperation_inv split: option.split bind_splits)
next
  case (EvAbortBySession s)
  assume "runsInv st"
  then show ?thesis using EvAbortBySession active_in_range[of st]
    by (auto simp: applyRunEvent_def abortReplyRunBySessionId_def abortByUser_def resolveReplyRunForCurrentSessionId_def abortOperation_inv
        split: option.splits if_splits)
qed (auto simp: applyRunEvent_def upstreamAborts_def setPhase_def detachBackend_def complete_def failOperation_def abortByUser_def
    abortForRestart_def waitForReplyRunEndBySessionId_def change_inv create_inv updateSessionId_inv attach_inv finish_inv
    abortOperation_inv abortActive_inv run_wait_inv run_timeout_inv split: option.split)

lemma initial_runsInv: "runsInv initialReplyRunState"
  by (simp add: initialReplyRunState_def runsInv_defs)

interpretation reply_runs: event_invariant applyRunEvent "\<lambda>_. True" runsInv
  by unfold_locales (rule applyRunEvent_inv)

lemma reachable_runs: "runsInv (fold applyRunEvent es initialReplyRunState)"
  using reply_runs.run_inv[OF initial_runsInv] by (simp add: list_all_iff)

section \<open>Properties\<close>

abbreviation afterRuns :: "run_event list \<Rightarrow> reply_run_state" where
  "afterRuns es \<equiv> fold applyRunEvent es initialReplyRunState"

text \<open>
  C26. Whatever happens, a run whose state has not been cleared is the one the registry gives for its session key,
  the session id the registry gives for that key is the run's, and no other run that has not been cleared has the
  key. (Nothing is said of the lookup by session id, which two runs can share.)
\<close>

theorem one_run_for_each_key:
  assumes "i < length (rrOperations (afterRuns es))" and "\<not> roStateCleared (operationAt i (afterRuns es))"
  shows "mapGet (rrActiveRunsByKey (afterRuns es)) (roKey (operationAt i (afterRuns es))) = Some i \<and>
    mapGet (rrActiveSessionIdsByKey (afterRuns es)) (roKey (operationAt i (afterRuns es))) =
      Some (roSessionId (operationAt i (afterRuns es))) \<and>
    (\<forall>j < length (rrOperations (afterRuns es)). j \<noteq> i \<and> \<not> roStateCleared (operationAt j (afterRuns es)) \<longrightarrow>
       roKey (operationAt j (afterRuns es)) \<noteq> roKey (operationAt i (afterRuns es)))"
proof -
  let ?st = "afterRuns es"
  have reg: "mapGet (rrActiveRunsByKey ?st) k = Some j \<longleftrightarrow>
      j < length (rrOperations ?st) \<and> roKey (operationAt j ?st) = k \<and> \<not> roStateCleared (operationAt j ?st)" for k j
    using reachable_runs[of es] by (simp add: runsInv_def registered_def)
  have act: "mapGet (rrActiveRunsByKey ?st) (roKey (operationAt i ?st)) = Some i" using reg assms by blast
  moreover have "mapGet (rrActiveSessionIdsByKey ?st) (roKey (operationAt i ?st)) = Some (roSessionId (operationAt i ?st))"
    using reachable_runs[of es] act by (simp add: runsInv_def sessionsKnown_def)
  moreover have "roKey (operationAt j ?st) \<noteq> roKey (operationAt i ?st)"
    if "j < length (rrOperations ?st)" "j \<noteq> i" "\<not> roStateCleared (operationAt j ?st)" for j
    using reg[of "roKey (operationAt i ?st)" j] act that by auto
  ultimately show ?thesis by blast
qed

definition twoRuns :: "run_event list" where
  "twoRuns = [EvBegin ''a'' ''s'' False False, EvBegin ''b'' ''s'' False False, EvWait ''a'', EvComplete 1]"

theorem one_run_for_each_key_witness: "mapGet (rrActiveRunsByKey (afterRuns twoRuns)) ''a'' = Some 0"
proof -
  have k: "roKey (operationAt 0 (afterRuns twoRuns)) = ''a''" by code_simp
  have "0 < length (rrOperations (afterRuns twoRuns))" "\<not> roStateCleared (operationAt 0 (afterRuns twoRuns))" by code_simp+
  from one_run_for_each_key[OF this] show ?thesis by (simp add: k)
qed

text \<open>
  C27. Every wait that was begun is answered at most once, and while it is not answered it waits under a key whose run
  has not ended.
\<close>

theorem waits_are_answered_once:
  "distinct (map fst (rrSettled (afterRuns es))) \<and>
   {..<rrNextWaiter (afterRuns es)} - fst ` set (rrSettled (afterRuns es)) =
     {w. \<exists>k ws i. mapGet (rrWaitersByKey (afterRuns es)) k = Some ws \<and> w \<in> set ws \<and>
       mapGet (rrActiveRunsByKey (afterRuns es)) k = Some i}"
proof -
  let ?st = "afterRuns es"
  have inv: "waitersInv ?st" using reachable_runs[of es] by (simp add: runsInv_def)
  have m: "mset (map fst (rrSettled ?st) @ concat (mapValues (rrWaitersByKey ?st))) = mset [0..<rrNextWaiter ?st]"
    using inv by (simp add: waitersInv_def)
  then have d: "distinct (map fst (rrSettled ?st) @ concat (mapValues (rrWaitersByKey ?st)))"
    using mset_eq_imp_distinct_iff distinct_upt by blast
  have s: "fst ` set (rrSettled ?st) \<union> set (concat (mapValues (rrWaitersByKey ?st))) = {..<rrNextWaiter ?st}"
    using mset_eq_setD[OF m] by (simp add: atLeast0LessThan)
  let ?B = "set (concat (mapValues (rrWaitersByKey ?st)))"
  have "?B = {w. \<exists>k ws i. mapGet (rrWaitersByKey ?st) k = Some ws \<and> w \<in> set ws \<and> mapGet (rrActiveRunsByKey ?st) k = Some i}"
    (is "_ = ?W")
  proof (intro set_eqI iffI)
    fix w assume "w \<in> ?B"
    then obtain k ws where kw: "(k, ws) \<in> set (rrWaitersByKey ?st)" "w \<in> set ws" by auto
    then have "mapGet (rrWaitersByKey ?st) k = Some ws" using inv mapGet_in_set unfolding waitersInv_def by metis
    then show "w \<in> ?W" using kw inv unfolding waitersInv_def by blast
  next
    fix w assume "w \<in> ?W"
    then show "w \<in> ?B" by (force dest: mapGet_SomeD)
  qed
  moreover have "{..<rrNextWaiter ?st} - fst ` set (rrSettled ?st) = ?B" using d s by auto
  ultimately show ?thesis using d by simp
qed

text \<open>
  C30. The end of a run answers everyone who waits for it: after \<open>complete\<close> on an operation that had not ended, its key is
  free and every wait under it has the answer \<open>true\<close>.
\<close>

theorem completion_answers_waits:
  assumes "i < length (rrOperations (afterRuns es))" and "\<not> roStateCleared (operationAt i (afterRuns es))"
  shows "let st = afterRuns es; k = roKey (operationAt i st); st' = applyRunEvent (EvComplete i) st
    in mapGet (rrActiveRunsByKey st') k = None \<and> mapGet (rrWaitersByKey st') k = None \<and>
       (\<forall>w \<in> set (coalesce (mapGet (rrWaitersByKey st) k) []). (w, True) \<in> set (rrSettled st'))"
proof -
  let ?st = "afterRuns es"
  let ?done = "changeOperation i (settleResult RsCompleted PhCompleted) ?st"
  have op: "operationAt i ?done = settleResult RsCompleted PhCompleted (operationAt i ?st)"
    using assms(1) by (simp add: operationAt_change)
  then have same: "\<not> roStateCleared (operationAt i ?done)" "roKey (operationAt i ?done) = roKey (operationAt i ?st)"
    using assms(2) by (simp_all add: settleResult_def)
  have "waitersInv ?done" using change_inv[OF reachable_runs harmless_changes(4)] by (simp add: runsInv_def)
  note f = clear_fields[OF this same(1), unfolded same(2)]
  have "applyRunEvent (EvComplete i) ?st = clearState i ?done" using assms(1) by (simp add: applyRunEvent_def complete_def)
  then show ?thesis by (simp add: Let_def f)
qed

theorem completion_answers_waits_witness:
  "(0, True) \<in> set (rrSettled (applyRunEvent (EvComplete 0) (afterRuns twoRuns)))"
proof -
  have k: "coalesce (mapGet (rrWaitersByKey (afterRuns twoRuns)) (roKey (operationAt 0 (afterRuns twoRuns)))) [] = [0]" by code_simp
  have "0 < length (rrOperations (afterRuns twoRuns))" "\<not> roStateCleared (operationAt 0 (afterRuns twoRuns))" by code_simp+
  from completion_answers_waits[OF this] show ?thesis by (simp add: Let_def k)
qed

definition settledAs :: "nat \<Rightarrow> reply_operation_result \<Rightarrow> reply_run_state \<Rightarrow> bool" where
  "settledAs i r st \<longleftrightarrow> i < length (rrOperations st) \<and> roResult (operationAt i st) = Some r"

lemma settled_change:
  "settledAs i r st \<Longrightarrow> (\<And>op. roResult op \<noteq> None \<Longrightarrow> roResult (f op) = roResult op) \<Longrightarrow> settledAs i r (changeOperation j f st)"
  by (auto simp: settledAs_def operationAt_change)

lemma settled_fields [simp]:
  "settledAs i r (st\<lparr>rrActiveRunsByKey := a\<rparr>) = settledAs i r st"
  "settledAs i r (st\<lparr>rrActiveSessionIdsByKey := b\<rparr>) = settledAs i r st"
  "settledAs i r (st\<lparr>rrActiveKeysBySessionId := c\<rparr>) = settledAs i r st"
  "settledAs i r (st\<lparr>rrWaitKeysBySessionId := d\<rparr>) = settledAs i r st"
  "settledAs i r (st\<lparr>rrWaitersByKey := e\<rparr>) = settledAs i r st"
  "settledAs i r (st\<lparr>rrNextWaiter := f\<rparr>) = settledAs i r st"
  "settledAs i r (st\<lparr>rrSettled := g\<rparr>) = settledAs i r st"
  "settledAs i r (registerWaitSessionId k s st) = settledAs i r st"
  "settledAs i r (cancelBackend handle reason st) = settledAs i r st"
  by (simp_all add: settledAs_def operationAt_def registerWaitSessionId_def cancelBackend_def)

lemma settled_new: "settledAs i r st \<Longrightarrow> settledAs i r (st\<lparr>rrOperations := rrOperations st @ [op]\<rparr>)"
  by (simp add: settledAs_def operationAt_def nth_append)

lemma settled_clear: "settledAs i r st \<Longrightarrow> settledAs i r (clearState j st)"
  by (simp add: clearState_def Let_def clearReplyRunState_def notifyReplyRunEnded_def clearWaitSessionIds_def settled_change
      split: option.split)

lemma settled_abort: "settledAs i r st \<Longrightarrow> settledAs i r (abortOperation j reason code st)"
  by (simp add: abortOperation_def Let_def abortWithReason_change settled_clear settled_change abortChange_def split: option.split)

lemma settled_abortActive:
  assumes "settledAs i r st"
  shows "settledAs i r (snd (abortActiveReplyRuns mode st))"
proof -
  have "settledAs i r (snd (fold (\<lambda>i (aborted, s).
         if (case mode of None \<Rightarrow> False | Some compacts \<Rightarrow> \<not> isReplyRunCompacting compacts (operationAt i s))
         then (aborted, s) else (True, abortForRestart i s)) is (b, s)))"
    if "settledAs i r s" for "is" b s
    using that by (induction "is" arbitrary: b s) (simp_all add: abortForRestart_def settled_abort)
  then show ?thesis using assms unfolding abortActiveReplyRuns_def by blast
qed

lemma settled_event: "settledAs i r st \<Longrightarrow> settledAs i r (applyRunEvent e st)"
proof (cases e)
  case (EvUpdateSession j s)
  assume "settledAs i r st"
  then show ?thesis using EvUpdateSession
    by (auto simp: applyRunEvent_def updateSessionId_def Let_def intro!: settled_change split: option.split)
next
  case (EvBegin k s reset u)
  assume "settledAs i r st"
  then show ?thesis using EvBegin
    by (auto simp: applyRunEvent_def createReplyOperation_def Let_def intro!: settled_new split: option.split)
qed (auto simp: applyRunEvent_def upstreamAborts_def setPhase_def attachBackend_def detachBackend_def complete_def failOperation_def
    abortByUser_def abortForRestart_def abortRun_def abortReplyRunBySessionId_def waitForReplyRunEndBySessionId_def waitForIdle_def
    waiterTimesOut_def Let_def settleResult_def settled_abort settled_abortActive intro!: settled_clear settled_change
    split: option.split)

interpretation settled_runs: event_invariant applyRunEvent "\<lambda>_. True" "settledAs i r" for i r
  by unfold_locales (rule settled_event)

text \<open>
  The result of an operation is final: once it has one, no later event changes it.
\<close>

theorem result_is_final:
  assumes "i < length (rrOperations (afterRuns es))" and "roResult (operationAt i (afterRuns es)) = Some r"
  shows "roResult (operationAt i (afterRuns (es @ later))) = Some r"
  using settled_runs.run_inv[of i r "afterRuns es" later] assms by (simp add: settledAs_def list_all_iff)

theorem result_is_final_witness:
  "roResult (operationAt 1 (afterRuns (twoRuns @ [EvAbortByUser 1, EvFail 1 RunFailed]))) = Some RsCompleted"
  by (rule result_is_final) code_simp+

text \<open>
  A run can begin for a session id that another run has; when it ends, the other one is still active under its key
  but no longer found by the session id, so it cannot be aborted by it.
\<close>

theorem shared_session_hides_a_run:
  "isActive ''a'' (afterRuns twoRuns) \<and> resolveSessionId ''a'' (afterRuns twoRuns) = Some ''s'' \<and>
   \<not> isReplyRunActiveForSessionId ''s'' (afterRuns twoRuns) \<and>
   abortReplyRunBySessionId ''s'' (afterRuns twoRuns) = (False, afterRuns twoRuns)"
  by code_simp

end
