(* ===== verification/ReplyDispatch.thy ===== *)
theory ReplyDispatch
  imports Prelude
begin

text \<open>
  How replies leave (\<open>src/src/auto-reply/reply/reply-dispatcher.ts\<close>) and how a restart of the gateway waits for them
  (\<open>dispatcher-registry.ts\<close>). A dispatcher chains its deliveries; the model keeps the ones that have not settled and
  whether the chain is rejected. A delivery settles with an event that says how \<open>deliver\<close> ended and whether the
  handlers \<open>onError\<close> and \<open>onIdle\<close> throw. The microtask of \<open>markComplete\<close> is an event of its own. The normalisation of
  payloads (\<open>normalize-reply.ts\<close>) is an argument; \<open>rdAccepted\<close> and \<open>rdSettled\<close> are logs for the theorems.
\<close>

datatype reply_dispatch_kind = ToolReply | BlockReply | FinalReply

record 'p reply_dispatcher =
  rdChain :: "(reply_dispatch_kind \<times> 'p \<times> bool) list" \<comment> \<open>kind, payload, whether a delay comes first\<close>
  rdRejected :: bool
  rdPending :: int
  rdCompleteCalled :: bool
  rdMicrotask :: bool
  rdSentFirstBlock :: bool
  rdQueuedCounts :: "reply_dispatch_kind \<Rightarrow> nat"
  rdFailedCounts :: "reply_dispatch_kind \<Rightarrow> nat"
  rdRegistered :: bool
  rdIdleCalls :: nat
  rdAccepted :: "(reply_dispatch_kind \<times> 'p) list"
  rdSettled :: "(reply_dispatch_kind \<times> 'p \<times> bool) list" \<comment> \<open>with whether \<open>deliver\<close> was called\<close>

section \<open>Delays\<close>

datatype human_delay_mode = DelayOff | DelayNatural | DelayCustom

record human_delay_config =
  hdMode :: "human_delay_mode option"
  hdMinMs :: "int option"
  hdMaxMs :: "int option"

definition defaultHumanDelayMinMs :: int where "defaultHumanDelayMinMs = 800"
definition defaultHumanDelayMaxMs :: int where "defaultHumanDelayMaxMs = 2500"

definition getHumanDelay :: "(int \<Rightarrow> int) \<Rightarrow> human_delay_config option \<Rightarrow> int" where
  \<comment> \<open>the argument is \<open>generateSecureInt\<close>\<close>
  "getHumanDelay generateSecureInt config =
     (let mode = coalesce (Option.bind config hdMode) DelayOff;
          lo = (if mode = DelayCustom then coalesce (Option.bind config hdMinMs) defaultHumanDelayMinMs
                else defaultHumanDelayMinMs);
          hi = (if mode = DelayCustom then coalesce (Option.bind config hdMaxMs) defaultHumanDelayMaxMs
                else defaultHumanDelayMaxMs)
      in if mode = DelayOff then 0 else if hi \<le> lo then lo else lo + generateSecureInt (hi - lo + 1))"

section \<open>The dispatcher\<close>

definition createReplyDispatcher :: "'p reply_dispatcher" where
  "createReplyDispatcher =
     \<lparr>rdChain = [], rdRejected = False, rdPending = 1, rdCompleteCalled = False, rdMicrotask = False,
      rdSentFirstBlock = False, rdQueuedCounts = (\<lambda>_. 0), rdFailedCounts = (\<lambda>_. 0), rdRegistered = True,
      rdIdleCalls = 0, rdAccepted = [], rdSettled = []\<rparr>"

definition enqueueReply ::
  "('p \<Rightarrow> 'p option) \<Rightarrow> reply_dispatch_kind \<Rightarrow> 'p \<Rightarrow> 'p reply_dispatcher \<Rightarrow> bool \<times> 'p reply_dispatcher" where
  "enqueueReply normalizer kind payload d =
     (case normalizer payload of
        None \<Rightarrow> (False, d)
      | Some normalized \<Rightarrow>
          (let shouldDelay = (kind = BlockReply \<and> rdSentFirstBlock d)
           in (True, d\<lparr>rdQueuedCounts := (rdQueuedCounts d)(kind := rdQueuedCounts d kind + 1),
                       rdPending := rdPending d + 1,
                       rdSentFirstBlock := (if kind = BlockReply then True else rdSentFirstBlock d),
                       rdChain := rdChain d @ [(kind, normalized, shouldDelay)],
                       rdAccepted := rdAccepted d @ [(kind, normalized)]\<rparr>)))"

definition goIdle :: "'p reply_dispatcher \<Rightarrow> 'p reply_dispatcher" where
  "goIdle d = d\<lparr>rdRegistered := False, rdIdleCalls := rdIdleCalls d + 1\<rparr>"

definition releaseReservation :: "'p reply_dispatcher \<Rightarrow> 'p reply_dispatcher" where
  "releaseReservation d = (if rdPending d = 1 \<and> rdCompleteCalled d then d\<lparr>rdPending := 0\<rparr> else d)"

record delivery_outcome =
  doFails :: bool
  doOnErrorThrows :: bool
  doOnIdleThrows :: bool

definition settleDelivery :: "delivery_outcome \<Rightarrow> 'p reply_dispatcher \<Rightarrow> 'p reply_dispatcher" where
  \<comment> \<open>the first delivery of the chain: \<open>then\<close>, \<open>catch\<close> and \<open>finally\<close>\<close>
  "settleDelivery out d =
     (case rdChain d of
        [] \<Rightarrow> d
      | (kind, payload, shouldDelay) # rest \<Rightarrow>
          (let attempted = (\<not> rdRejected d);
               failed = (rdRejected d \<or> doFails out);
               d1 = d\<lparr>rdChain := rest, rdSettled := rdSettled d @ [(kind, payload, attempted)],
                      rdFailedCounts := (if failed then (rdFailedCounts d)(kind := rdFailedCounts d kind + 1)
                                         else rdFailedCounts d),
                      rdRejected := (failed \<and> doOnErrorThrows out)\<rparr>;
               d2 = releaseReservation (d1\<lparr>rdPending := rdPending d1 - 1\<rparr>)
           in if rdPending d2 = 0 then (goIdle d2)\<lparr>rdRejected := rdRejected d2 \<or> doOnIdleThrows out\<rparr> else d2))"

definition markComplete :: "'p reply_dispatcher \<Rightarrow> 'p reply_dispatcher" where
  "markComplete d = (if rdCompleteCalled d then d else d\<lparr>rdCompleteCalled := True, rdMicrotask := True\<rparr>)"

definition completeMicrotask :: "'p reply_dispatcher \<Rightarrow> 'p reply_dispatcher" where
  "completeMicrotask d =
     (if \<not> rdMicrotask d then d
      else (let d1 = d\<lparr>rdMicrotask := False\<rparr>
            in if rdPending d1 = 1 \<and> rdCompleteCalled d1 then goIdle (d1\<lparr>rdPending := 0\<rparr>) else d1))"

definition idleNow :: "'p reply_dispatcher \<Rightarrow> bool" where
  \<comment> \<open>the promise of \<open>waitForIdle\<close> is settled\<close>
  "idleNow d \<longleftrightarrow> rdChain d = []"

section \<open>The registry\<close>

type_synonym 'p dispatchers = "'p reply_dispatcher list" \<comment> \<open>all that were created; \<open>rdRegistered\<close> tells who is tracked\<close>

definition getTotalPendingReplies :: "'p dispatchers \<Rightarrow> int" where
  "getTotalPendingReplies ds = sum_list (map rdPending (filter rdRegistered ds))"

definition registerDispatcher :: "'p dispatchers \<Rightarrow> 'p dispatchers" where
  "registerDispatcher ds = ds @ [createReplyDispatcher]"

section \<open>Steps\<close>

datatype 'p dispatch_event =
    Send reply_dispatch_kind 'p
  | Settle delivery_outcome
  | Complete
  | Microtask

fun applyDispatch :: "('p \<Rightarrow> 'p option) \<Rightarrow> 'p dispatch_event \<Rightarrow> 'p reply_dispatcher \<Rightarrow> 'p reply_dispatcher" where
  "applyDispatch normalizer (Send kind payload) d = snd (enqueueReply normalizer kind payload d)"
| "applyDispatch normalizer (Settle out) d = settleDelivery out d"
| "applyDispatch normalizer Complete d = markComplete d"
| "applyDispatch normalizer Microtask d = completeMicrotask d"

definition sendsInTime :: "'p dispatch_event \<Rightarrow> 'p reply_dispatcher \<Rightarrow> bool" where
  \<comment> \<open>no reply is sent after the dispatcher went idle and left the registry; sends that come after
    \<open>markComplete\<close> while it is still tracked are in time\<close>
  "sendsInTime e d \<longleftrightarrow> (case e of Send _ _ \<Rightarrow> rdRegistered d | _ \<Rightarrow> True)"

inductive dispatch_step :: "('p \<Rightarrow> 'p option) \<Rightarrow> 'p dispatchers \<Rightarrow> 'p dispatchers \<Rightarrow> bool" for normalizer where
  create: "dispatch_step normalizer ds (registerDispatcher ds)"
| event: "\<lbrakk>i < length ds; sendsInTime e (ds ! i)\<rbrakk> \<Longrightarrow>
    dispatch_step normalizer ds (ds[i := applyDispatch normalizer e (ds ! i)])"

definition dispatcherInv :: "'p reply_dispatcher \<Rightarrow> bool" where
  "dispatcherInv d \<longleftrightarrow>
     (if rdRegistered d
      then rdPending d = int (length (rdChain d)) + 1 \<and> rdIdleCalls d = 0 \<and>
           (rdCompleteCalled d \<longrightarrow> rdMicrotask d \<or> rdChain d \<noteq> [])
      else rdPending d = 0 \<and> rdChain d = [] \<and> rdIdleCalls d = 1 \<and> rdCompleteCalled d) \<and>
     map (\<lambda>(k, p, a). (k, p)) (rdSettled d @ rdChain d) = rdAccepted d"

lemma created_inv: "dispatcherInv createReplyDispatcher"
  by (simp add: dispatcherInv_def createReplyDispatcher_def)

lemma dispatch_inv:
  assumes "dispatcherInv d" "sendsInTime e d"
  shows "dispatcherInv (applyDispatch normalizer e d)"
proof (cases e)
  case (Send kind payload)
  then show ?thesis using assms
    by (auto simp: dispatcherInv_def enqueueReply_def sendsInTime_def Let_def split: option.split if_split_asm)
next
  case (Settle out)
  then show ?thesis using assms(1)
    by (cases "rdChain d") (auto simp: dispatcherInv_def settleDelivery_def releaseReservation_def goIdle_def Let_def split: if_split_asm)
next
  case Complete
  then show ?thesis using assms(1) by (auto simp: dispatcherInv_def markComplete_def split: if_split_asm)
next
  case Microtask
  then show ?thesis using assms(1)
    by (auto simp: dispatcherInv_def completeMicrotask_def goIdle_def Let_def split: if_split_asm)
qed

interpretation dispatching: step_invariant "\<lambda>ds. ds = []" "dispatch_step normalizer" "list_all dispatcherInv" for normalizer
proof unfold_locales
  fix ds ds' :: "'a dispatchers"
  assume inv: "list_all dispatcherInv ds" and step: "dispatch_step normalizer ds ds'"
  from step show "list_all dispatcherInv ds'" using inv
    by (cases rule: dispatch_step.cases)
       (auto simp: list_all_length nth_list_update registerDispatcher_def nth_append created_inv dispatch_inv)
qed simp

section \<open>Properties\<close>

abbreviation dispatchReachable :: "('p \<Rightarrow> 'p option) \<Rightarrow> 'p dispatchers \<Rightarrow> bool" where
  "dispatchReachable normalizer \<equiv> reach (\<lambda>ds. ds = []) (dispatch_step normalizer)"

lemma reachable_dispatcher: "dispatchReachable normalizer ds \<Longrightarrow> d \<in> set ds \<Longrightarrow> dispatcherInv d"
  using dispatching.reach_inv by (auto simp: list_all_iff)

lemma sum_list_bound:
  fixes xs :: "int list"
  shows "\<forall>x \<in> set xs. 0 \<le> x \<Longrightarrow> y \<in> set xs \<Longrightarrow> y \<le> sum_list xs"
proof (induction xs)
  case (Cons x xs)
  have "0 \<le> sum_list xs" using Cons.prems(1) by (simp add: sum_list_nonneg)
  then show ?case using Cons by fastforce
qed simp

lemma settle_fields:
  "rdCompleteCalled (settleDelivery out d) = rdCompleteCalled d" "rdMicrotask (settleDelivery out d) = rdMicrotask d"
  "rdChain (settleDelivery out d) = tl (rdChain d)"
  by (simp_all add: settleDelivery_def Let_def releaseReservation_def goIdle_def split: list.split prod.split)

lemma settle_all:
  "dispatcherInv d \<Longrightarrow> rdCompleteCalled d \<Longrightarrow> \<not> rdMicrotask d \<Longrightarrow> length outs = length (rdChain d) \<Longrightarrow>
     dispatcherInv (fold settleDelivery outs d) \<and> rdChain (fold settleDelivery outs d) = [] \<and>
     \<not> rdRegistered (fold settleDelivery outs d)"
proof (induction outs arbitrary: d)
  case Nil
  then show ?case by (auto simp: dispatcherInv_def split: if_split_asm)
next
  case (Cons out outs)
  have "dispatcherInv (settleDelivery out d)"
    using dispatch_inv[OF Cons.prems(1), of "Settle out"] by (simp add: sendsInTime_def)
  then show ?case using Cons.IH[of "settleDelivery out d"] Cons.prems(2-4) by (simp add: settle_fields)
qed

text \<open>
  C31. A restart that waits until no replies are pending loses none, as long as no reply is sent through a dispatcher
  that has already gone idle (\<open>sendsInTime\<close>; sends after \<open>markComplete\<close> while replies or the reservation are still
  pending are in time): when the total is zero, every dispatcher was completed, went idle exactly once, and settled
  the replies it accepted, all of them and in order.
\<close>

theorem no_pending_reply_is_lost:
  assumes "dispatchReachable normalizer ds" and "getTotalPendingReplies ds = 0" and "d \<in> set ds"
  shows "rdCompleteCalled d \<and> rdIdleCalls d = 1 \<and> rdChain d = [] \<and> map (\<lambda>(k, p, a). (k, p)) (rdSettled d) = rdAccepted d"
proof -
  have inv: "dispatcherInv d'" if "d' \<in> set ds" for d' using reachable_dispatcher[OF assms(1) that] .
  have "\<not> rdRegistered d"
  proof
    assume "rdRegistered d"
    then have "rdPending d \<in> rdPending ` set (filter rdRegistered ds)" using assms(3) by (intro imageI) simp
    moreover have "1 \<le> rdPending d" using \<open>rdRegistered d\<close> inv[OF assms(3)] by (simp add: dispatcherInv_def)
    moreover have "\<forall>x \<in> set (map rdPending (filter rdRegistered ds)). 0 \<le> x"
      using inv by (auto simp: dispatcherInv_def)
    ultimately have "1 \<le> getTotalPendingReplies ds"
      unfolding getTotalPendingReplies_def using sum_list_bound[of "map rdPending (filter rdRegistered ds)" "rdPending d"] by simp
    then show False using assms(2) by simp
  qed
  then show ?thesis using inv[OF assms(3)] by (auto simp: dispatcherInv_def)
qed

lemma reach_next:
  assumes "dispatchReachable normalizer [d]" "sendsInTime e d"
  shows "dispatchReachable normalizer [applyDispatch normalizer e d]"
  using reach_step[OF assms(1) dispatch_step.event[of 0 "[d]" e]] assms(2) by simp

definition demoDispatcher :: "string reply_dispatcher" where
  \<comment> \<open>the second reply is sent after \<open>markComplete\<close>\<close>
  "demoDispatcher = applyDispatch Some (Send FinalReply ''late'') (applyDispatch Some Complete
     (applyDispatch Some (Send FinalReply ''hi'') createReplyDispatcher))"

lemma demo_reachable: "dispatchReachable Some [demoDispatcher]"
proof -
  have "dispatchReachable Some [createReplyDispatcher]"
    using reach_step[OF reach_init[of "\<lambda>ds. ds = []" "[]" "dispatch_step Some"] dispatch_step.create[of Some "[]"]]
    by (simp add: registerDispatcher_def)
  then show ?thesis unfolding demoDispatcher_def
    by (intro reach_next) (simp_all add: sendsInTime_def createReplyDispatcher_def enqueueReply_def markComplete_def Let_def)
qed

definition goesWell :: delivery_outcome where
  "goesWell = \<lparr>doFails = False, doOnErrorThrows = False, doOnIdleThrows = False\<rparr>"

theorem no_pending_reply_is_lost_witness:
  "rdIdleCalls (settleDelivery goesWell (settleDelivery goesWell demoDispatcher)) = 1 \<and>
   map (\<lambda>(k, p, a). (k, p)) (rdSettled (settleDelivery goesWell (settleDelivery goesWell demoDispatcher)))
     = [(FinalReply, ''hi''), (FinalReply, ''late'')]"
proof -
  let ?d = "settleDelivery goesWell (settleDelivery goesWell demoDispatcher)"
  have "dispatchReachable Some [settleDelivery goesWell demoDispatcher]"
    using reach_next[OF demo_reachable, of "Settle goesWell"] by (simp add: sendsInTime_def)
  then have "dispatchReachable Some [?d]" using reach_next[of Some _ "Settle goesWell"] by (simp add: sendsInTime_def)
  moreover have "getTotalPendingReplies [?d] = 0" "rdAccepted ?d = [(FinalReply, ''hi''), (FinalReply, ''late'')]" by code_simp+
  ultimately show ?thesis using no_pending_reply_is_lost[of Some "[?d]" ?d] by simp
qed

text \<open>
  C32. A completed dispatcher becomes idle: under the same condition (no reply is sent through a dispatcher that has gone
  idle), after the microtask and as many settled deliveries as its chain has, however they end, it is no longer
  tracked and \<open>onIdle\<close> was called exactly once.
\<close>

theorem completed_dispatcher_becomes_idle:
  assumes "dispatchReachable normalizer ds" and "d \<in> set ds" and "rdCompleteCalled d" and "length outs = length (rdChain d)"
  shows "let d' = fold settleDelivery outs (completeMicrotask d) in rdChain d' = [] \<and> \<not> rdRegistered d' \<and> rdIdleCalls d' = 1"
proof -
  let ?d = "completeMicrotask d"
  have "dispatcherInv ?d"
    using dispatch_inv[OF reachable_dispatcher[OF assms(1,2)], of Microtask] by (simp add: sendsInTime_def)
  moreover have "rdCompleteCalled ?d" "\<not> rdMicrotask ?d" "rdChain ?d = rdChain d"
    using assms(3) by (simp_all add: completeMicrotask_def goIdle_def Let_def)
  ultimately have "dispatcherInv (fold settleDelivery outs ?d) \<and> rdChain (fold settleDelivery outs ?d) = [] \<and>
      \<not> rdRegistered (fold settleDelivery outs ?d)" using settle_all[of ?d outs] assms(4) by simp
  then show ?thesis by (simp add: Let_def dispatcherInv_def)
qed

theorem completed_dispatcher_becomes_idle_witness:
  "rdIdleCalls (fold settleDelivery [goesWell, goesWell] (completeMicrotask demoDispatcher)) = 1"
proof -
  have "rdCompleteCalled demoDispatcher" "length [goesWell, goesWell] = length (rdChain demoDispatcher)" by code_simp+
  then show ?thesis using completed_dispatcher_becomes_idle[OF demo_reachable, of demoDispatcher "[goesWell, goesWell]"]
    by (simp only: Let_def list.set insert_iff empty_iff) blast
qed

definition handlerThrows :: delivery_outcome where
  "handlerThrows = \<lparr>doFails = True, doOnErrorThrows = True, doOnIdleThrows = False\<rparr>"

text \<open>
  An error handler that throws costs the next reply: the chain is rejected, so the delivery after the failed one is
  never tried and counted as failed.
\<close>

theorem throwing_handler_skips_next_reply:
  "rdSettled (fold (applyDispatch Some)
     [Send FinalReply ''a'', Send FinalReply ''b'', Settle handlerThrows, Settle goesWell] createReplyDispatcher) =
     [(FinalReply, ''a'', True), (FinalReply, ''b'', False)] \<and>
   rdFailedCounts (fold (applyDispatch Some)
     [Send FinalReply ''a'', Send FinalReply ''b'', Settle handlerThrows, Settle goesWell] createReplyDispatcher) FinalReply = 2"
  by code_simp

text \<open>
  Replies sent after the dispatcher went idle are not tracked, and with two of them it reports to be idle a second
  time while one is still on its way.
\<close>

theorem late_replies_are_not_tracked:
  "let d = fold (applyDispatch Some)
     [Complete, Microtask, Send FinalReply ''a'', Send FinalReply ''b'', Settle goesWell] createReplyDispatcher
   in rdChain d = [(FinalReply, ''b'', False)] \<and> rdIdleCalls d = 2 \<and> getTotalPendingReplies [d] = 0"
  by code_simp

end
