(* ===== verification/Spec2Isabelle.thy ===== *)
theory Spec2Isabelle
  imports CommandQueue AuthRateLimit WindowLimits Dedupe QueueHelpers FollowupQueue
    WrapperResolution ExecApproval Json SystemRunApproval Eviction SessionPrune IdleWatch ContextPruner ShellReading SafeBins AllowAlways
    HostEnv ExecPolicy ReplyRuns ReplyDispatch
begin

text \<open>
  DennouAibou, a personal assistant gateway in TypeScript: the parts of it whose behaviour is decided
  by its own code.

  \<^bold>\<open>Scheduling.\<close> \<open>CommandQueue\<close> models the command lanes of \<open>src/src/process/command-queue.ts\<close>: lanes with a
  concurrency limit, the pump, generations that make completions of before a reset harmless, waits for
  active tasks. An asynchronous task is an entry of its lane until the event \<open>taskSettled\<close>; the state
  machine has one step per exported function and per completion. The invariants say that no wake-up is
  lost, that every promise is settled exactly once and that waiters are notified.

  \<^bold>\<open>Follow-up queue.\<close> \<open>QueueHelpers\<close> (\<open>src/src/utils/queue-helpers.ts\<close>) and \<open>FollowupQueue\<close>
  (\<open>src/src/auto-reply/reply/queue/\<close>, files \<open>state.ts\<close>, \<open>enqueue.ts\<close>, \<open>drain.ts\<close>) model the messages that wait
  while an agent runs. A drain is a thread with a program point per \<open>await\<close>, so every interleaving of drains,
  new messages and clears is a sequence of events. The recent message ids use \<open>Dedupe\<close>
  (\<open>src/src/infra/dedupe.ts\<close>), the interface between the two being the locale of that theory.

  \<^bold>\<open>Limits.\<close> \<open>AuthRateLimit\<close> (\<open>src/src/gateway/auth-rate-limit.ts\<close>) and \<open>WindowLimits\<close> (fixed window limiter,
  control-plane budget, connection budget before authentication, flood guard). Times are integers of
  milliseconds passed to every operation; the theorems bound what any history of calls can get.

  \<^bold>\<open>Exec approvals.\<close> \<open>WrapperResolution\<close> (\<open>src/src/infra/\<close>: \<open>exec-wrapper-tokens\<close>,
  \<open>dispatch-wrapper-resolution\<close>, \<open>shell-inline-command\<close>, \<open>shell-wrapper-resolution\<close>, \<open>exec-wrapper-trust-plan\<close>)
  looks through \<open>env\<close>, \<open>nice\<close>, \<open>sh -c\<close> and their like to the command that will run; \<open>ExecApproval\<close> is the
  manager of pending approvals (\<open>src/src/gateway/exec-approval-manager.ts\<close>) as an event system over its timers;
  \<open>SystemRunApproval\<close> is the gate in front of \<open>system.run\<close> (\<open>node-invoke-system-run-approval.ts\<close>, the plans,
  bindings and commands of \<open>src/src/infra/system-run-*.ts\<close>), whose theorems rest on both. \<open>Json\<close> is what these
  read of decoded requests.

  \<^bold>\<open>Shell commands.\<close> \<open>CommandResolution\<close> finds the file behind a command name and the allowlist entries that
  cover it (\<open>home-dir\<close>, \<open>executable-path\<close>, \<open>exec-command-resolution\<close> and \<open>exec-allowlist-pattern\<close> of
  \<open>src/src/infra/\<close>) on a POSIX host. \<open>ShellAnalysis\<close> cuts a command line into chain parts, pipeline segments and words
  and rebuilds the command that is run in its place (\<open>exec-approvals-analysis\<close> and \<open>src/src/utils/shell-argv.ts\<close>);
  \<open>ShellReading\<close> reads a command the way a POSIX shell does and compares. \<open>SafeBins\<close> judges calls of commands that only
  read their standard input (\<open>exec-safe-bin-*.ts\<close>), \<open>InlineEval\<close> finds programs given to interpreters as arguments
  (\<open>exec-inline-eval\<close>). \<open>SegmentMatch\<close>, \<open>ExecAllowlist\<close> and \<open>AllowAlways\<close> are \<open>exec-approvals-allowlist\<close> for POSIX targets: the entry
  of a segment, the evaluation of pipelines, chains and the chains inside \<open>sh -c\<close> (three levels, counted down), and the
  patterns that the decision to allow always adds. The relation \<open>covered\<close> is the specification that every accepted
  segment meets.

  \<^bold>\<open>Policy and environment.\<close> \<open>ExecPolicy\<close> is the approvals file (\<open>src/src/infra/exec-approvals.ts\<close>): its normalisation,
  which can throw, loading with the fallback to an empty file, the policy that holds for an agent, the entries that
  uses and decisions add; and the decision of a node (\<open>src/src/node-host/exec-policy.ts\<close>). The file is JSON, so its fields
  are JSON values and the defences of the code against wrong types are branches of the model. \<open>HostEnv\<close> is the environment
  a command gets (\<open>host-env-security.ts\<close> with the lists of \<open>host-env-security-policy.json\<close>, \<open>openclaw-exec-env.ts\<close>).

  \<^bold>\<open>Replies.\<close> Under \<open>src/src/auto-reply/reply\<close>: \<open>ReplyRuns\<close> is the registry of running replies
  (\<open>reply-run-registry.ts\<close>) as an event system: one run for each session key, waits that are answered once, results
  that are final. \<open>ReplyDispatch\<close> is the chain of deliveries of one run (\<open>reply-dispatcher.ts\<close>) and the registry a
  restart waits for (\<open>dispatcher-registry.ts\<close>).

  \<^bold>\<open>Context pruning.\<close> \<open>Text16\<close> is JavaScript text as lists of 16-bit code units, which the following theories
  need because they cut and search text. Under \<open>src/extensions/context-pruner/src\<close>: \<open>Compartment\<close> cuts a history
  into blocks (\<open>compartment.ts\<close>: pauses between messages, token estimates, measured usage, the partition within a token
  budget), \<open>Historian\<close> is the table of contents of summarised blocks and the step that keeps, requests and adds
  summaries (\<open>historian.ts\<close>; the summariser is an argument), \<open>Eviction\<close> the choice of messages to drop under a
  token budget and the repair of tool call pairs, \<open>ContextPruner\<close> the pruning of tool results and the hooks
  that tie the parts to the runtime. Under \<open>src/src/dennou-soul\<close>: \<open>PruneEngine\<close> (strategies applied to one
  session file), \<open>SessionPrune\<close> (the read, transform and write back of active and closed session files, with what
  other writers do in between as the argument \<open>others\<close>) and \<open>IdleWatch\<close> (the idle prune watcher and the
  liveness watchdog as event systems); \<open>SessionGatekeeper\<close> is \<open>src/src/agents/session-gatekeeper.ts\<close>. What these call of the
  JavaScript runtime (JSON text, lower case, dates, number text) is the record \<open>runtime\<close>, an argument of
  the definitions; the hypothesis \<open>jsonKept\<close> says that what it writes it can read back, and a witness gives a
  runtime with that law. Factors such as 0.8 and token scalings are exact rationals, not doubles.

  \<^bold>\<open>Common ground.\<close> \<open>Prelude\<close> holds the JavaScript operations the sources use (maps in insertion order,
  trimming, numbers with \<open>NaN\<close> and infinities, JSON text) and the locales \<open>step_invariant\<close> and
  \<open>event_invariant\<close>, which give reachability and runs for an invariant; each state machine interprets one of them.

  \<^bold>\<open>Bounds.\<close> Loops are structural or have a termination proof. The fuel of the wrapper loops is the depth bound
  of the source (\<open>maxDispatchWrapperDepth\<close>, four) or the length of the vector; running out of it is a branch of
  the source (\<open>wrapper-depth\<close> blocks the plan). Outside the context pruning theories text is a list of 8-bit characters:
  what those sources do with characters beyond Latin-1 is not modelled.

  \<^bold>\<open>Not modelled.\<close> Log output; network, files, processes and databases; generated schemas; third-party packages,
  whose functions are arguments of the definitions where the code relies on them (SHA-256, IP normalisation, collation).
  Components that are left out altogether are listed in the manifest with the reason.
\<close>

end
